(* ===== verification/Prelude.thy ===== *)
theory Prelude
  imports Main "HOL-Library.Word"
begin

text \<open>
  Shared vocabulary of the development: the machine-integer types of the flight software
  (uint8_t, uint16_t and uint32_t as words, size_t as nat), the big-endian codecs
  every component uses on the wire and on flash, the search loop the C code writes as
  "for (i...) if (...) return i; return -1", and the ring-buffer view of an array.
  The theorem collections declared here are filled by the component theories:
  \<open>fsw_const\<close> holds the compile-time constants, \<open>fsw_wire\<close> the round-trip and length
  equations of the byte codecs, \<open>fsw_inv\<close> the introduction rules for component
  invariants.
\<close>

unbundle bit_operations_syntax

named_theorems fsw_const "compile-time constants of the flight software"
named_theorems fsw_wire "length and round-trip equations of the byte codecs"
named_theorems fsw_inv "preservation of the component invariants"

type_synonym u8 = "8 word"
type_synonym u16 = "16 word"
type_synonym u32 = "32 word"
type_synonym bytes = "u8 list"

section \<open>Big-endian codecs\<close>

definition be16 :: "u16 \<Rightarrow> bytes" where
  "be16 v = [ucast (drop_bit 8 v), ucast (v AND 0xFF)]"

definition be32 :: "u32 \<Rightarrow> bytes" where
  "be32 v = [ucast (drop_bit 24 v AND 0xFF), ucast (drop_bit 16 v AND 0xFF),
             ucast (drop_bit 8 v AND 0xFF), ucast (v AND 0xFF)]"

definition rd16 :: "u8 \<Rightarrow> u8 \<Rightarrow> u16" where
  "rd16 a b = push_bit 8 (ucast a) OR ucast b"

definition rd32 :: "u8 \<Rightarrow> u8 \<Rightarrow> u8 \<Rightarrow> u8 \<Rightarrow> u32" where
  "rd32 a b c d = push_bit 24 (ucast a) OR push_bit 16 (ucast b) OR push_bit 8 (ucast c) OR ucast d"

definition rd16_at :: "bytes \<Rightarrow> nat \<Rightarrow> u16" where
  "rd16_at xs i = rd16 (xs ! i) (xs ! (i + 1))"

definition rd32_at :: "bytes \<Rightarrow> nat \<Rightarrow> u32" where
  "rd32_at xs i = rd32 (xs ! i) (xs ! (i + 1)) (xs ! (i + 2)) (xs ! (i + 3))"

lemma mask8_16: "(0xFF :: u16) = mask 8"
  by (simp add: mask_eq_exp_minus_1)

lemma mask8_32: "(0xFF :: u32) = mask 8"
  by (simp add: mask_eq_exp_minus_1)

lemmas byte_masks = mask8_16 mask8_32

lemma bit_u8_less: "bit (x :: u8) n \<Longrightarrow> n < 8"
  using bit_imp_le_length [of x n] by simp

lemma rd16_be16 [simp]: "rd16 (ucast (drop_bit 8 v)) (ucast (v AND 0xFF)) = v"
  unfolding rd16_def byte_masks by (rule bit_word_eqI) (auto simp: bit_simps)

lemma hi_rd16 [simp]: "ucast (drop_bit 8 (rd16 a b)) = a"
  unfolding rd16_def by (rule bit_word_eqI) (auto simp: bit_simps dest: bit_u8_less)

lemma lo_rd16 [simp]: "ucast (rd16 a b AND 0xFF) = b"
  unfolding rd16_def byte_masks by (rule bit_word_eqI) (auto simp: bit_simps dest: bit_u8_less)

lemma rd32_be32 [simp]:
  "rd32 (ucast (drop_bit 24 v AND 0xFF)) (ucast (drop_bit 16 v AND 0xFF))
        (ucast (drop_bit 8 v AND 0xFF)) (ucast (v AND 0xFF)) = v"
proof (rule bit_word_eqI)
  fix n assume "n < LENGTH(32)"
  then consider "n < 8" | "8 \<le> n" "n < 16" | "16 \<le> n" "n < 24" | "24 \<le> n" "n < 32"
    by fastforce
  then show "bit (rd32 (ucast (drop_bit 24 v AND 0xFF)) (ucast (drop_bit 16 v AND 0xFF))
        (ucast (drop_bit 8 v AND 0xFF)) (ucast (v AND 0xFF))) n = bit v n"
    by cases (auto simp: rd32_def byte_masks bit_simps)
qed

lemma be16_rd16 [simp]: "be16 (rd16 a b) = [a, b]"
  by (simp add: be16_def)

lemma be32_rd32 [simp]: "be32 (rd32 a b c d) = [a, b, c, d]"
proof -
  have "ucast (drop_bit 24 (rd32 a b c d) AND 0xFF) = a"
    unfolding rd32_def byte_masks
    by (rule bit_word_eqI) (auto simp: bit_simps dest: bit_u8_less)
  moreover have "ucast (drop_bit 16 (rd32 a b c d) AND 0xFF) = b"
    unfolding rd32_def byte_masks
    by (rule bit_word_eqI) (auto simp: bit_simps dest: bit_u8_less)
  moreover have "ucast (drop_bit 8 (rd32 a b c d) AND 0xFF) = c"
    unfolding rd32_def byte_masks
    by (rule bit_word_eqI) (auto simp: bit_simps dest: bit_u8_less)
  moreover have "ucast (rd32 a b c d AND 0xFF) = d"
    unfolding rd32_def byte_masks
    by (rule bit_word_eqI) (auto simp: bit_simps dest: bit_u8_less)
  ultimately show ?thesis by (simp add: be32_def)
qed

lemma length_be16 [simp, fsw_wire]: "length (be16 v) = 2"
  by (simp add: be16_def)

lemma length_be32 [simp, fsw_wire]: "length (be32 v) = 4"
  by (simp add: be32_def)

lemma rd16_at_be16 [simp, fsw_wire]: "rd16_at (be16 v @ xs) 0 = v"
  by (simp add: rd16_at_def be16_def)

lemma rd32_at_be32 [simp, fsw_wire]: "rd32_at (be32 v @ xs) 0 = v"
  by (simp add: rd32_at_def be32_def)

lemma rd16_at_append [fsw_wire]: "length xs \<le> i \<Longrightarrow> rd16_at (xs @ ys) i = rd16_at ys (i - length xs)"
  by (simp add: rd16_at_def nth_append Suc_diff_le)

lemma rd32_at_append [fsw_wire]: "length xs \<le> i \<Longrightarrow> rd32_at (xs @ ys) i = rd32_at ys (i - length xs)"
proof -
  assume "length xs \<le> i"
  then have "i + 1 - length xs = i - length xs + 1" "i + 2 - length xs = i - length xs + 2"
    "i + 3 - length xs = i - length xs + 3"
    by simp_all
  with \<open>length xs \<le> i\<close> show ?thesis by (simp add: rd32_at_def nth_append)
qed

lemma be16_inject [simp]: "be16 a = be16 b \<longleftrightarrow> a = b"
  by (metis append_Nil2 rd16_at_be16)

lemma be32_inject [simp]: "be32 a = be32 b \<longleftrightarrow> a = b"
  by (metis append_Nil2 rd32_at_be32)

lemma drop_eq_2: "i + 2 \<le> length xs \<Longrightarrow> drop i xs = xs ! i # xs ! (i + 1) # drop (i + 2) xs"
  by (metis Cons_nth_drop_Suc Suc_1 Suc_eq_plus1 add_2_eq_Suc' add_lessD1 less_eq_Suc_le)

lemma be16_rd16_at: "i + 2 \<le> length xs \<Longrightarrow> be16 (rd16_at xs i) = take 2 (drop i xs)"
  by (simp add: rd16_at_def drop_eq_2)

lemma be32_rd32_at: "i + 4 \<le> length xs \<Longrightarrow> be32 (rd32_at xs i) = take 4 (drop i xs)"
proof -
  assume a: "i + 4 \<le> length xs"
  have "drop i xs = xs ! i # xs ! (i + 1) # drop (i + 2) xs"
    using a by (intro drop_eq_2) simp
  moreover have "drop (i + 2) xs = xs ! (i + 2) # xs ! (i + 3) # drop (i + 4) xs"
    using a drop_eq_2 [of "i + 2" xs] by (simp add: eval_nat_numeral)
  ultimately show ?thesis by (simp add: rd32_at_def eval_nat_numeral)
qed

lemma unat_of_nat_u16: "n < 65536 \<Longrightarrow> unat (of_nat n :: u16) = n"
  by (simp add: unat_of_nat)

lemma unat_of_nat_u8: "n < 256 \<Longrightarrow> unat (of_nat n :: u8) = n"
  by (simp add: unat_of_nat)

lemma unat_of_nat_u32: "n < 4294967296 \<Longrightarrow> unat (of_nat n :: u32) = n"
  by (simp add: unat_of_nat)

section \<open>Search loops\<close>

text \<open>
  The C code's linear searches return the first index whose element satisfies the test,
  or -1; the model returns an option.
\<close>

fun first_index :: "('a \<Rightarrow> bool) \<Rightarrow> 'a list \<Rightarrow> nat option" where
  "first_index P [] = None"
| "first_index P (x # xs) = (if P x then Some 0 else map_option Suc (first_index P xs))"

lemma first_index_None: "first_index P xs = None \<longleftrightarrow> (\<forall>x \<in> set xs. \<not> P x)"
  by (induction xs) auto

lemma first_index_Some:
  "first_index P xs = Some i \<Longrightarrow> i < length xs \<and> P (xs ! i) \<and> (\<forall>j < i. \<not> P (xs ! j))"
proof (induction xs arbitrary: i)
  case Nil
  then show ?case by simp
next
  case (Cons x xs)
  show ?case
  proof (cases "P x")
    case True
    with Cons.prems show ?thesis by auto
  next
    case False
    with Cons.prems obtain j where j: "first_index P xs = Some j" "i = Suc j" by auto
    from Cons.IH [OF j(1)] j(2) False show ?thesis
      by (auto simp: less_Suc_eq_0_disj)
  qed
qed

lemma first_index_exists: "x \<in> set xs \<Longrightarrow> P x \<Longrightarrow> \<exists>i. first_index P xs = Some i"
  using first_index_None [of P xs] by (cases "first_index P xs") auto

lemma first_index_less: "first_index P xs = Some i \<Longrightarrow> i < length xs"
  by (simp add: first_index_Some)

lemma first_index_nth: "first_index P xs = Some i \<Longrightarrow> P (xs ! i)"
  by (simp add: first_index_Some)

lemma first_index_unique:
  "i < length xs \<Longrightarrow> P (xs ! i) \<Longrightarrow> (\<And>j. j < length xs \<Longrightarrow> P (xs ! j) \<Longrightarrow> j = i)
     \<Longrightarrow> first_index P xs = Some i"
  by (metis first_index_exists first_index_less first_index_nth nth_mem)

section \<open>Ring buffers\<close>

text \<open>
  The event FIFO and the packet store keep their live entries in a fixed array between
  a head index and a count, modulo the capacity. \<open>ring_list\<close> is the list of live entries,
  oldest first.
\<close>

definition ring_list :: "'a list \<Rightarrow> nat \<Rightarrow> nat \<Rightarrow> 'a list" where
  "ring_list slots head cnt = map (\<lambda>i. slots ! ((head + i) mod length slots)) [0..<cnt]"

lemma length_ring_list [simp]: "length (ring_list slots head cnt) = cnt"
  by (simp add: ring_list_def)

lemma ring_list_0 [simp]: "ring_list slots head 0 = []"
  by (simp add: ring_list_def)

lemma nth_ring_list: "i < cnt \<Longrightarrow> ring_list slots head cnt ! i = slots ! ((head + i) mod length slots)"
  by (simp add: ring_list_def)

lemma ring_slot_distinct:
  "i < n \<Longrightarrow> j < n \<Longrightarrow> (head + i) mod n = (head + j) mod (n::nat) \<Longrightarrow> i = j"
proof -
  assume i: "i < n" and j: "j < n" and eq: "(head + i) mod n = (head + j) mod n"
  from eq obtain q1 q2 where "head + i + n * q1 = head + j + n * q2"
    by (auto simp: nat_mod_eq_iff)
  then have "i mod n = j mod n"
    by (auto simp: nat_mod_eq_iff)
  with i j show "i = j" by simp
qed

lemma ring_push:
  assumes "0 < length slots" "cnt < length slots"
  shows "ring_list (slots[(head + cnt) mod length slots := x]) head (Suc cnt) = ring_list slots head cnt @ [x]"
proof (rule nth_equalityI)
  let ?n = "length slots"
  fix i assume "i < length (ring_list (slots[(head + cnt) mod ?n := x]) head (Suc cnt))"
  then have i: "i < Suc cnt" by simp
  have "(head + i) mod ?n = (head + cnt) mod ?n \<longleftrightarrow> i = cnt"
    using ring_slot_distinct [of i ?n cnt head] i assms by auto
  then show "ring_list (slots[(head + cnt) mod ?n := x]) head (Suc cnt) ! i = (ring_list slots head cnt @ [x]) ! i"
    using i assms by (auto simp: nth_ring_list nth_append nth_list_update less_Suc_eq)
qed simp

lemma ring_pop:
  assumes "0 < cnt"
  shows "ring_list slots ((head + 1) mod length slots) (cnt - 1) = tl (ring_list slots head cnt)"
    and "ring_list slots head cnt = slots ! (head mod length slots) # tl (ring_list slots head cnt)"
proof -
  have "((head + 1) mod length slots + i) mod length slots = (head + Suc i) mod length slots" for i
    by (simp add: mod_add_left_eq)
  then show "ring_list slots ((head + 1) mod length slots) (cnt - 1) = tl (ring_list slots head cnt)"
    by (intro nth_equalityI) (auto simp: nth_ring_list nth_tl)
  show "ring_list slots head cnt = slots ! (head mod length slots) # tl (ring_list slots head cnt)"
    using assms nth_ring_list [of 0 cnt slots head]
    by (cases "ring_list slots head cnt") (auto simp flip: length_0_conv)
qed

lemma ring_list_clear: "ring_list (slots[i := x]) head 0 = []"
  by simp

section \<open>Lists of big-endian words\<close>

definition rd16s :: "bytes \<Rightarrow> nat \<Rightarrow> nat \<Rightarrow> u16 list" where
  "rd16s xs off n = map (\<lambda>i. rd16_at xs (off + 2 * i)) [0..<n]"

lemma length_be16s [simp]: "length (concat (map be16 ws)) = 2 * length ws"
  by (induction ws) simp_all

lemma rd16_at_be16s: "i < length ws \<Longrightarrow> rd16_at (concat (map be16 ws) @ rest) (2 * i) = ws ! i"
proof (induction ws arbitrary: i)
  case (Cons w ws)
  then show ?case
    by (cases i) (simp_all add: rd16_at_append [of "be16 w", simplified])
qed simp

lemma rd16s_be16s: "rd16s (pre @ concat (map be16 ws) @ rest) (length pre) (length ws) = ws"
  by (rule nth_equalityI) (simp_all add: rd16s_def rd16_at_append rd16_at_be16s)

section \<open>Lists cut into chunks\<close>

lemma concat_chunks: "concat (map (\<lambda>k. take m (drop (m * k) xs)) [0..<n]) = take (m * n) xs"
proof (induction n)
  case (Suc n)
  have "take (m * Suc n) xs = take (m * n) xs @ take m (drop (m * n) xs)"
    by (simp add: take_add [symmetric] add.commute)
  with Suc show ?case by simp
qed simp

lemma chunk_of_concat:
  "\<forall>x \<in> set xs. length x = m \<Longrightarrow> k < length xs \<Longrightarrow> take m (drop (m * k) (concat xs)) = xs ! k"
proof (induction xs arbitrary: k)
  case (Cons x xs)
  then show ?case by (cases k) (simp_all add: drop_drop [symmetric] del: drop_drop)
qed simp

lemma be16s_rd16s:
  assumes "off + 2 * n \<le> length xs"
  shows "concat (map be16 (rd16s xs off n)) = take (2 * n) (drop off xs)"
proof -
  have "map be16 (rd16s xs off n) = map (\<lambda>k. take 2 (drop (2 * k) (drop off xs))) [0..<n]"
    unfolding rd16s_def map_map by (rule map_cong) (use assms in \<open>simp_all add: be16_rd16_at add.commute\<close>)
  then show ?thesis by (simp only: concat_chunks)
qed

end
