(* ===== verification/Ccsds.thy ===== *)
theory Ccsds
  imports Prelude
begin

text \<open>
  lib/pus/src/ccsds.c: the CCSDS Space Packet primary header codec and the packet error
  control CRC-16-CCITT-FALSE. The struct is a record, the two negative status codes are a
  datatype, and "0 with the bytes written to out" is the right summand. The second half
  proves the codec a bijection on the in-range headers and the CRC a linear map that
  detects every corruption confined to two consecutive bytes.
\<close>

section \<open>The primary header\<close>

record migris_ccsds_primary_header_t =
  ph_version :: u8
  ph_type :: u8
  ph_sec_hdr_flag :: u8
  ph_apid :: u16
  ph_seq_flags :: u8
  ph_seq_count :: u16
  ph_data_length :: u16

datatype migris_ccsds_status_t = CCSDS_ERR_BUF_TOO_SMALL | CCSDS_ERR_FIELD_OUT_OF_RANGE

definition MIGRIS_CCSDS_PRIMARY_HEADER_SIZE :: nat where
  [fsw_const, simp]: "MIGRIS_CCSDS_PRIMARY_HEADER_SIZE = 6"

definition MIGRIS_CCSDS_PACKET_TYPE_TM :: u8 where
  [fsw_const]: "MIGRIS_CCSDS_PACKET_TYPE_TM = 0"

definition MIGRIS_CCSDS_PACKET_TYPE_TC :: u8 where
  [fsw_const]: "MIGRIS_CCSDS_PACKET_TYPE_TC = 1"

definition MIGRIS_CCSDS_SEQ_FLAGS_UNSEGMENTED :: u8 where
  [fsw_const]: "MIGRIS_CCSDS_SEQ_FLAGS_UNSEGMENTED = 3"

definition migris_ccsds_primary_pack ::
  "migris_ccsds_primary_header_t \<Rightarrow> nat \<Rightarrow> migris_ccsds_status_t + bytes" where
  "migris_ccsds_primary_pack hdr out_len =
    (if out_len < MIGRIS_CCSDS_PRIMARY_HEADER_SIZE then Inl CCSDS_ERR_BUF_TOO_SMALL
     else if ph_version hdr > 0x7 \<or> ph_type hdr > 0x1 \<or> ph_sec_hdr_flag hdr > 0x1
             \<or> ph_apid hdr > 0x7FF \<or> ph_seq_flags hdr > 0x3 \<or> ph_seq_count hdr > 0x3FFF
          then Inl CCSDS_ERR_FIELD_OUT_OF_RANGE
     else let word0 = push_bit 13 (ucast (ph_version hdr AND 0x7))
                    OR push_bit 12 (ucast (ph_type hdr AND 0x1))
                    OR push_bit 11 (ucast (ph_sec_hdr_flag hdr AND 0x1))
                    OR (ph_apid hdr AND 0x7FF);
              word1 = push_bit 14 (ucast (ph_seq_flags hdr AND 0x3))
                    OR (ph_seq_count hdr AND 0x3FFF)
          in Inr (be16 word0 @ be16 word1 @ be16 (ph_data_length hdr)))"

definition migris_ccsds_primary_unpack ::
  "bytes \<Rightarrow> migris_ccsds_status_t + migris_ccsds_primary_header_t" where
  "migris_ccsds_primary_unpack inp =
    (if length inp < MIGRIS_CCSDS_PRIMARY_HEADER_SIZE then Inl CCSDS_ERR_BUF_TOO_SMALL
     else let word0 = rd16_at inp 0; word1 = rd16_at inp 2
          in Inr \<lparr>ph_version = ucast (drop_bit 13 word0 AND 0x7),
                  ph_type = ucast (drop_bit 12 word0 AND 0x1),
                  ph_sec_hdr_flag = ucast (drop_bit 11 word0 AND 0x1),
                  ph_apid = word0 AND 0x7FF,
                  ph_seq_flags = ucast (drop_bit 14 word1 AND 0x3),
                  ph_seq_count = word1 AND 0x3FFF,
                  ph_data_length = rd16_at inp 4\<rparr>)"

definition migris_ccsds_packet_total_size :: "u16 \<Rightarrow> nat" where
  "migris_ccsds_packet_total_size data_length =
     MIGRIS_CCSDS_PRIMARY_HEADER_SIZE + unat data_length + 1"

text \<open>The field ranges that the packer checks.\<close>

definition primary_in_range :: "migris_ccsds_primary_header_t \<Rightarrow> bool" where
  "primary_in_range hdr \<longleftrightarrow> ph_version hdr \<le> 0x7 \<and> ph_type hdr \<le> 0x1 \<and> ph_sec_hdr_flag hdr \<le> 0x1
     \<and> ph_apid hdr \<le> 0x7FF \<and> ph_seq_flags hdr \<le> 0x3 \<and> ph_seq_count hdr \<le> 0x3FFF"

lemma mask_numerals:
  "(0x7 :: 'a::len word) = mask 3" "(0x3 :: 'a::len word) = mask 2" "(0x1 :: 'a::len word) = mask 1"
  "(0xF :: 'a::len word) = mask 4"
  "(0x7FF :: 'a::len word) = mask 11" "(0x3FFF :: 'a::len word) = mask 14"
  by (simp_all add: mask_eq_exp_minus_1)

lemma word_le_mask_iff: "x \<le> mask n \<longleftrightarrow> take_bit n x = (x :: 'a::len word)"
proof -
  have "uint (mask n :: 'a word) = mask (min LENGTH('a) n)"
    by transfer simp
  then have "uint (mask n :: 'a word) = 2 ^ min LENGTH('a) n - 1"
    by (simp add: mask_eq_exp_minus_1)
  then have "x \<le> mask n \<longleftrightarrow> uint x < 2 ^ min LENGTH('a) n"
    by (simp add: word_le_def)
  also have "\<dots> \<longleftrightarrow> uint x < 2 ^ n"
  proof (cases "LENGTH('a) \<le> n")
    case True
    have "uint x < 2 ^ LENGTH('a)" by (rule uint_lt2p)
    also have "(2::int) ^ LENGTH('a) \<le> 2 ^ n" using True by (intro power_increasing) auto
    finally show ?thesis using True uint_lt2p [of x] by simp
  qed simp
  finally show ?thesis
    by (simp add: mask_eq_iff take_bit_eq_mask)
qed

lemma bit_le_mask: "x \<le> mask n \<Longrightarrow> bit (x :: 'a::len word) m \<Longrightarrow> m < n"
  by (metis word_le_mask_iff bit_take_bit_iff)

lemma and_mask_idem: "x \<le> mask n \<Longrightarrow> x AND mask n = (x :: 'a::len word)"
  by (metis word_le_mask_iff take_bit_eq_mask)

lemma word0_fields:
  fixes v t s :: u8 and a :: u16
  assumes "v \<le> mask 3" "t \<le> mask 1" "s \<le> mask 1" "a \<le> mask 11"
  defines "w \<equiv> push_bit 13 (ucast (v AND mask 3)) OR push_bit 12 (ucast (t AND mask 1))
                 OR push_bit 11 (ucast (s AND mask 1)) OR (a AND mask 11) :: u16"
  shows "ucast (drop_bit 13 w AND mask 3) = v \<and> ucast (drop_bit 12 w AND mask 1) = t
       \<and> ucast (drop_bit 11 w AND mask 1) = s \<and> w AND mask 11 = a"
proof -
  have bits: "bit v n \<Longrightarrow> n < 3" "bit t n \<Longrightarrow> n = 0" "bit s n \<Longrightarrow> n = 0" "bit a n \<Longrightarrow> n < 11" for n
    using bit_le_mask [OF assms(1), of n] bit_le_mask [OF assms(2), of n]
      bit_le_mask [OF assms(3), of n] bit_le_mask [OF assms(4), of n] by auto
  have "ucast (drop_bit 13 w AND mask 3) = v"
    unfolding w_def by (rule bit_word_eqI) (auto simp: bit_simps dest: bits)
  moreover have "ucast (drop_bit 12 w AND mask 1) = t"
    unfolding w_def by (rule bit_word_eqI) (auto simp: bit_simps dest: bits)
  moreover have "ucast (drop_bit 11 w AND mask 1) = s"
    unfolding w_def by (rule bit_word_eqI) (auto simp: bit_simps dest: bits)
  moreover have "w AND mask 11 = a"
    unfolding w_def by (rule bit_word_eqI) (auto simp: bit_simps dest: bits)
  ultimately show ?thesis by blast
qed

lemma word1_fields:
  fixes f :: u8 and c :: u16
  assumes "f \<le> mask 2" "c \<le> mask 14"
  defines "w \<equiv> push_bit 14 (ucast (f AND mask 2)) OR (c AND mask 14) :: u16"
  shows "ucast (drop_bit 14 w AND mask 2) = f \<and> w AND mask 14 = c"
proof -
  have bits: "bit f n \<Longrightarrow> n < 2" "bit c n \<Longrightarrow> n < 14" for n
    using bit_le_mask [OF assms(1), of n] bit_le_mask [OF assms(2), of n] by auto
  have "ucast (drop_bit 14 w AND mask 2) = f"
    unfolding w_def by (rule bit_word_eqI) (auto simp: bit_simps dest: bits)
  moreover have "w AND mask 14 = c"
    unfolding w_def by (rule bit_word_eqI) (auto simp: bit_simps dest: bits)
  ultimately show ?thesis by blast
qed

lemma word0_recompose:
  fixes w :: u16
  shows "push_bit 13 (ucast (ucast (drop_bit 13 w AND mask 3) AND mask 3 :: u8))
         OR push_bit 12 (ucast (ucast (drop_bit 12 w AND mask 1) AND mask 1 :: u8))
         OR push_bit 11 (ucast (ucast (drop_bit 11 w AND mask 1) AND mask 1 :: u8))
         OR ((w AND mask 11) AND mask 11) = w"
proof (rule bit_word_eqI)
  fix n assume "n < LENGTH(16)"
  then consider "n < 11" | "n = 11" | "n = 12" | "13 \<le> n" "n < 16"
    by fastforce
  then show "bit (push_bit 13 (ucast (ucast (drop_bit 13 w AND mask 3) AND mask 3 :: u8))
         OR push_bit 12 (ucast (ucast (drop_bit 12 w AND mask 1) AND mask 1 :: u8))
         OR push_bit 11 (ucast (ucast (drop_bit 11 w AND mask 1) AND mask 1 :: u8))
         OR ((w AND mask 11) AND mask 11)) n = bit w n"
    by cases (auto simp: bit_simps)
qed

lemma word1_recompose:
  fixes w :: u16
  shows "push_bit 14 (ucast (ucast (drop_bit 14 w AND mask 2) AND mask 2 :: u8)) OR ((w AND mask 14) AND mask 14) = w"
proof (rule bit_word_eqI)
  fix n assume "n < LENGTH(16)"
  then consider "n < 14" | "14 \<le> n" "n < 16"
    by fastforce
  then show "bit (push_bit 14 (ucast (ucast (drop_bit 14 w AND mask 2) AND mask 2 :: u8))
      OR ((w AND mask 14) AND mask 14)) n = bit w n"
    by cases (auto simp: bit_simps)
qed

section \<open>The packet error control\<close>

definition crc_bit :: "u16 \<Rightarrow> u16" where
  "crc_bit crc = (if crc AND 0x8000 \<noteq> 0 then push_bit 1 crc XOR 0x1021 else push_bit 1 crc)"

definition crc_byte :: "u8 \<Rightarrow> u16 \<Rightarrow> u16" where
  "crc_byte b crc = (crc_bit ^^ 8) (crc XOR push_bit 8 (ucast b))"

definition migris_crc16_ccitt_false :: "bytes \<Rightarrow> u16" where
  "migris_crc16_ccitt_false buf = fold crc_byte buf 0xFFFF"

text \<open>Evaluation of the bit loop on numerals.\<close>

lemma crc_byte_eval: "crc_byte b c = crc_bit (crc_bit (crc_bit (crc_bit (crc_bit (crc_bit (crc_bit (crc_bit
   (c XOR push_bit 8 (ucast b)))))))))"
  by (simp add: crc_byte_def eval_nat_numeral)

lemmas crc_eval = migris_crc16_ccitt_false_def crc_byte_eval crc_bit_def

lemma crc_known_vector:
  "migris_crc16_ccitt_false [0x31, 0x32, 0x33, 0x34, 0x35, 0x36, 0x37, 0x38, 0x39] = 0x29B1"
  by (simp add: crc_eval)

lemma msb16: "crc AND 0x8000 \<noteq> 0 \<longleftrightarrow> bit (crc :: u16) 15"
proof -
  have "(0x8000 :: u16) = 2 ^ 15" by simp
  then show ?thesis by (metis and_exp_eq_0_iff_not_bit)
qed

lemma crc_bit_xor: "crc_bit (x XOR y) = crc_bit x XOR crc_bit y"
  unfolding crc_bit_def msb16 by (auto simp: bit_simps xor.assoc xor.left_commute xor.commute)

lemma xor_self_cancel: "z XOR (z XOR x) = (x :: u16)"
  by (simp flip: xor.assoc)

lemma xor_0_iff: "x XOR y = 0 \<longleftrightarrow> x = (y :: u16)"
  by (metis xor_self_cancel xor.right_neutral xor_self_eq)

lemma xor_cancel_left: "z XOR x = z XOR y \<longleftrightarrow> x = (y :: u16)"
  by (metis xor_self_cancel)

lemma xor_cancel_right: "x XOR z = y XOR z \<longleftrightarrow> x = (y :: u16)"
  by (metis xor_self_cancel xor.commute)

lemmas xor_cancel = xor_cancel_left xor_cancel_right

lemma bit_shl1: "bit (push_bit 1 (x :: u16)) n \<longleftrightarrow> 0 < n \<and> n < 16 \<and> bit x (n - 1)"
  by (simp only: bit_push_bit_iff) auto

lemma bit_1021_0: "bit (0x1021 :: u16) 0"
  by simp

lemma crc_bit_low: "bit (crc_bit x) 0 \<longleftrightarrow> bit x 15"
  by (simp only: crc_bit_def msb16 bit_xor_iff bit_shl1 bit_1021_0 split: if_split) simp

lemma crc_bit_eq_0: "crc_bit x = 0 \<longleftrightarrow> x = 0"
proof
  assume z: "crc_bit x = 0"
  then have top: "\<not> bit x 15"
    by (metis crc_bit_low bit_0_eq bot_apply bot_bool_def)
  with z have "push_bit 1 x = 0" by (simp only: crc_bit_def msb16 if_False)
  then have low: "\<not> bit x n" if "n < 15" for n
    using that bit_shl1 [of x "Suc n"] by simp
  show "x = 0"
  proof (rule bit_word_eqI)
    fix n assume "n < LENGTH(16)"
    then have "n < 15 \<or> n = 15" by auto
    with top low show "bit x n = bit (0 :: u16) n" by auto
  qed
qed (simp add: crc_bit_def)

lemma crc_iter_xor: "(crc_bit ^^ n) (x XOR y) = (crc_bit ^^ n) x XOR (crc_bit ^^ n) y"
  by (induction n arbitrary: x y) (simp_all add: crc_bit_xor funpow_swap1)

lemma crc_iter_eq_0: "(crc_bit ^^ n) x = 0 \<longleftrightarrow> x = 0"
  by (induction n arbitrary: x) (simp_all add: crc_bit_eq_0)

lemma crc_iter_inject: "(crc_bit ^^ n) x = (crc_bit ^^ n) y \<longleftrightarrow> x = y"
proof -
  have "(crc_bit ^^ n) x = (crc_bit ^^ n) y \<longleftrightarrow> (crc_bit ^^ n) (x XOR y) = 0"
    by (simp add: crc_iter_xor xor_0_iff)
  then show ?thesis by (simp add: crc_iter_eq_0 xor_0_iff)
qed

text \<open>A byte in the low half only moves up: no feedback happens in its first eight shifts.\<close>

lemma crc_iter_low_byte: "n \<le> 8 \<Longrightarrow> (crc_bit ^^ n) (ucast (b :: u8)) = push_bit n (ucast b)"
proof (induction n)
  case 0
  then show ?case by simp
next
  case (Suc n)
  then have "\<not> bit (push_bit n (ucast b) :: u16) 15"
    using bit_u8_less [of b "15 - n"] by (auto simp: bit_simps)
  with Suc show ?case by (simp add: crc_bit_def msb16 push_bit_Suc push_bit_push_bit)
qed

lemma crc_two_bytes:
  "crc_byte lo (crc_byte hi c) = (crc_bit ^^ 16) (c XOR rd16 hi lo)"
proof -
  have split: "rd16 hi lo = push_bit 8 (ucast hi) XOR ucast lo"
    unfolding rd16_def by (rule bit_word_eqI) (auto simp: bit_simps dest: bit_u8_less)
  have "crc_byte lo (crc_byte hi c)
      = (crc_bit ^^ 8) ((crc_bit ^^ 8) (c XOR push_bit 8 (ucast hi)) XOR (crc_bit ^^ 8) (ucast lo))"
    by (simp add: crc_byte_def crc_iter_low_byte)
  also have "\<dots> = (crc_bit ^^ 8) ((crc_bit ^^ 8) (c XOR push_bit 8 (ucast hi) XOR ucast lo))"
    by (simp only: crc_iter_xor xor.assoc)
  also have "\<dots> = (crc_bit ^^ (8 + 8)) (c XOR rd16 hi lo)"
    by (simp only: split funpow_add o_apply xor.assoc)
  finally show ?thesis by simp
qed

lemma crc_byte_inject: "crc_byte b x = crc_byte b y \<longleftrightarrow> x = y"
  by (simp add: crc_byte_def crc_iter_inject xor_cancel)

lemma crc_fold_inject: "fold crc_byte bs x = fold crc_byte bs y \<longleftrightarrow> x = y"
  by (induction bs arbitrary: x y) (simp_all add: crc_byte_inject)

lemma crc_append: "migris_crc16_ccitt_false (xs @ ys) = fold crc_byte ys (migris_crc16_ccitt_false xs)"
  by (simp add: migris_crc16_ccitt_false_def)

text \<open>The receiver's comparison of the trailing two bytes is a zero residue over the packet.\<close>

lemma crc_residue: "migris_crc16_ccitt_false (m @ [hi, lo]) = 0 \<longleftrightarrow> migris_crc16_ccitt_false m = rd16 hi lo"
  by (simp add: crc_append crc_two_bytes crc_iter_eq_0 xor_0_iff)

lemma crc_window_inject:
  "migris_crc16_ccitt_false (p @ [a, b] @ s) = migris_crc16_ccitt_false (p @ [a', b'] @ s)
     \<longleftrightarrow> a = a' \<and> b = b'"
proof -
  have "migris_crc16_ccitt_false (p @ [a, b] @ s) = migris_crc16_ccitt_false (p @ [a', b'] @ s)
      \<longleftrightarrow> crc_byte b (crc_byte a (migris_crc16_ccitt_false p))
        = crc_byte b' (crc_byte a' (migris_crc16_ccitt_false p))"
    by (simp add: crc_append crc_fold_inject)
  also have "\<dots> \<longleftrightarrow> rd16 a b = rd16 a' b'"
    by (simp add: crc_two_bytes crc_iter_inject xor_cancel)
  also have "\<dots> \<longleftrightarrow> a = a' \<and> b = b'"
    by (metis hi_rd16 lo_rd16)
  finally show ?thesis .
qed

section \<open>The header codec is a bijection on the in-range headers\<close>

lemma primary_in_range_mask:
  "primary_in_range hdr \<longleftrightarrow> ph_version hdr \<le> mask 3 \<and> ph_type hdr \<le> mask 1
     \<and> ph_sec_hdr_flag hdr \<le> mask 1 \<and> ph_apid hdr \<le> mask 11 \<and> ph_seq_flags hdr \<le> mask 2
     \<and> ph_seq_count hdr \<le> mask 14"
  by (simp add: primary_in_range_def mask_numerals del: mask_Suc_0 mask_1)

lemma primary_pack_eq:
  "migris_ccsds_primary_pack hdr out_len =
    (if out_len < 6 then Inl CCSDS_ERR_BUF_TOO_SMALL
     else if \<not> primary_in_range hdr then Inl CCSDS_ERR_FIELD_OUT_OF_RANGE
     else Inr (be16 (push_bit 13 (ucast (ph_version hdr AND mask 3))
                    OR push_bit 12 (ucast (ph_type hdr AND mask 1))
                    OR push_bit 11 (ucast (ph_sec_hdr_flag hdr AND mask 1))
                    OR (ph_apid hdr AND mask 11))
               @ be16 (push_bit 14 (ucast (ph_seq_flags hdr AND mask 2)) OR (ph_seq_count hdr AND mask 14))
               @ be16 (ph_data_length hdr)))"
  unfolding migris_ccsds_primary_pack_def Let_def primary_in_range_def mask_numerals
    MIGRIS_CCSDS_PRIMARY_HEADER_SIZE_def
  by (simp only: not_le de_Morgan_conj)

lemma primary_unpack_eq:
  "6 \<le> length inp \<Longrightarrow> migris_ccsds_primary_unpack inp =
     Inr \<lparr>ph_version = ucast (drop_bit 13 (rd16_at inp 0) AND mask 3),
          ph_type = ucast (drop_bit 12 (rd16_at inp 0) AND mask 1),
          ph_sec_hdr_flag = ucast (drop_bit 11 (rd16_at inp 0) AND mask 1),
          ph_apid = rd16_at inp 0 AND mask 11,
          ph_seq_flags = ucast (drop_bit 14 (rd16_at inp 2) AND mask 2),
          ph_seq_count = rd16_at inp 2 AND mask 14,
          ph_data_length = rd16_at inp 4\<rparr>"
  unfolding migris_ccsds_primary_unpack_def Let_def mask_numerals MIGRIS_CCSDS_PRIMARY_HEADER_SIZE_def
  by (simp only: not_le [symmetric] if_False not_not if_not_P)

lemma primary_pack_Inr:
  "(\<exists>bs. migris_ccsds_primary_pack hdr n = Inr bs) \<longleftrightarrow> 6 \<le> n \<and> primary_in_range hdr"
  by (auto simp: primary_pack_eq)

lemma primary_pack_ok:
  "primary_in_range hdr \<Longrightarrow> 6 \<le> n \<Longrightarrow> migris_ccsds_primary_pack hdr n =
     Inr (be16 (push_bit 13 (ucast (ph_version hdr AND mask 3))
                    OR push_bit 12 (ucast (ph_type hdr AND mask 1))
                    OR push_bit 11 (ucast (ph_sec_hdr_flag hdr AND mask 1))
                    OR (ph_apid hdr AND mask 11))
               @ be16 (push_bit 14 (ucast (ph_seq_flags hdr AND mask 2)) OR (ph_seq_count hdr AND mask 14))
               @ be16 (ph_data_length hdr))"
  unfolding primary_pack_eq by (simp only: not_less [symmetric] if_False not_True_eq_False)

lemma length_primary_pack [fsw_wire]: "migris_ccsds_primary_pack hdr n = Inr bs \<Longrightarrow> length bs = 6"
  by (auto simp: primary_pack_eq split: if_splits)

lemma primary_unpack_pack:
  assumes "migris_ccsds_primary_pack hdr n = Inr bs"
  shows "migris_ccsds_primary_unpack (bs @ rest) = Inr hdr"
proof -
  let ?w0 = "push_bit 13 (ucast (ph_version hdr AND mask 3)) OR push_bit 12 (ucast (ph_type hdr AND mask 1))
               OR push_bit 11 (ucast (ph_sec_hdr_flag hdr AND mask 1)) OR (ph_apid hdr AND mask 11) :: u16"
  let ?w1 = "push_bit 14 (ucast (ph_seq_flags hdr AND mask 2)) OR (ph_seq_count hdr AND mask 14) :: u16"
  from assms have r: "primary_in_range hdr"
    and bs: "bs = be16 ?w0 @ be16 ?w1 @ be16 (ph_data_length hdr)"
    by (auto simp: primary_pack_eq split: if_splits)
  have rd: "rd16_at (bs @ rest) 0 = ?w0" "rd16_at (bs @ rest) 2 = ?w1"
    "rd16_at (bs @ rest) 4 = ph_data_length hdr"
    by (simp_all add: bs rd16_at_append)
  have len: "6 \<le> length (bs @ rest)" by (simp add: bs)
  note f = r [unfolded primary_in_range_mask]
  show ?thesis
    using word0_fields [of "ph_version hdr" "ph_type hdr" "ph_sec_hdr_flag hdr" "ph_apid hdr"]
      word1_fields [of "ph_seq_flags hdr" "ph_seq_count hdr"] f
    unfolding primary_unpack_eq [OF len] rd
    by (metis migris_ccsds_primary_header_t.surjective old.unit.exhaust)
qed

lemma primary_in_range_unpack: "migris_ccsds_primary_unpack inp = Inr hdr \<Longrightarrow> primary_in_range hdr"
proof -
  assume u: "migris_ccsds_primary_unpack inp = Inr hdr"
  then have len: "6 \<le> length inp"
    by (auto simp: migris_ccsds_primary_unpack_def split: if_splits)
  have m: "ucast (w AND mask k) \<le> (mask k :: u8)" if "k \<le> 8" for w :: u16 and k
    by (simp add: word_le_mask_iff flip: take_bit_eq_mask, rule bit_word_eqI) (auto simp: bit_simps)
  have m16: "w AND mask k \<le> (mask k :: u16)" for w :: u16 and k
    by (simp add: word_le_mask_iff flip: take_bit_eq_mask)
  from u show ?thesis
    unfolding primary_unpack_eq [OF len] primary_in_range_mask
    by (auto simp: m m16 simp del: mask_Suc_0 mask_1)
qed

lemma primary_pack_unpack:
  assumes "migris_ccsds_primary_unpack inp = Inr hdr" and "6 \<le> n"
  shows "migris_ccsds_primary_pack hdr n = Inr (take 6 inp)"
proof -
  from assms(1) have len: "6 \<le> length inp"
    by (auto simp: migris_ccsds_primary_unpack_def split: if_splits)
  have six: "take 6 inp = be16 (rd16_at inp 0) @ be16 (rd16_at inp 2) @ be16 (rd16_at inp 4)"
    using len by (simp add: be16_rd16_at take_add [of 2 2 inp, symmetric] take_add [of 2 4 inp, simplified]
        take_add [of 2 2 "drop 2 inp", simplified])
  have r: "primary_in_range hdr" by (rule primary_in_range_unpack [OF assms(1)])
  have h: "hdr = \<lparr>ph_version = ucast (drop_bit 13 (rd16_at inp 0) AND mask 3),
          ph_type = ucast (drop_bit 12 (rd16_at inp 0) AND mask 1),
          ph_sec_hdr_flag = ucast (drop_bit 11 (rd16_at inp 0) AND mask 1),
          ph_apid = rd16_at inp 0 AND mask 11,
          ph_seq_flags = ucast (drop_bit 14 (rd16_at inp 2) AND mask 2),
          ph_seq_count = rd16_at inp 2 AND mask 14,
          ph_data_length = rd16_at inp 4\<rparr>"
    using assms(1) unfolding primary_unpack_eq [OF len] by simp
  show ?thesis
    using primary_pack_ok [OF r assms(2)]
    unfolding six h migris_ccsds_primary_header_t.simps word0_recompose word1_recompose .
qed

section \<open>Properties\<close>

text \<open>
  C12: the primary-header codec is a bijection between the in-range headers and the six-byte
  strings: what migris_ccsds_primary_pack writes, migris_ccsds_primary_unpack reads back
  whatever follows it; every six bytes unpack to an in-range header that packs to the same
  bytes; and packing fails exactly on a short buffer (first) or an out-of-range field.
\<close>
theorem primary_header_bijection:
  "(migris_ccsds_primary_pack hdr n = Inr bs \<longrightarrow>
      length bs = 6 \<and> migris_ccsds_primary_unpack (bs @ rest) = Inr hdr)
   \<and> (migris_ccsds_primary_unpack inp = Inr h \<longrightarrow>
      primary_in_range h \<and> migris_ccsds_primary_pack h 6 = Inr (take 6 inp))
   \<and> (migris_ccsds_primary_unpack inp = Inl CCSDS_ERR_BUF_TOO_SMALL \<longleftrightarrow> length inp < 6)
   \<and> (migris_ccsds_primary_pack hdr n = Inl e \<longleftrightarrow>
        e = CCSDS_ERR_BUF_TOO_SMALL \<and> n < 6
        \<or> e = CCSDS_ERR_FIELD_OUT_OF_RANGE \<and> 6 \<le> n \<and> \<not> primary_in_range hdr)"
proof (intro conjI impI)
  assume "migris_ccsds_primary_unpack inp = Inr h"
  then show "primary_in_range h" "migris_ccsds_primary_pack h 6 = Inr (take 6 inp)"
    by (auto intro: primary_in_range_unpack primary_pack_unpack)
next
  show "migris_ccsds_primary_unpack inp = Inl CCSDS_ERR_BUF_TOO_SMALL \<longleftrightarrow> length inp < 6"
    by (cases "6 \<le> length inp") (simp_all add: primary_unpack_eq, simp add: migris_ccsds_primary_unpack_def)
next
  show "migris_ccsds_primary_pack hdr n = Inl e \<longleftrightarrow>
        e = CCSDS_ERR_BUF_TOO_SMALL \<and> n < 6
        \<or> e = CCSDS_ERR_FIELD_OUT_OF_RANGE \<and> 6 \<le> n \<and> \<not> primary_in_range hdr"
    unfolding primary_pack_eq by (auto simp del: length_append)
qed (auto dest: length_primary_pack intro: primary_unpack_pack)

lemma primary_header_bijection_witness:
  "migris_ccsds_primary_unpack ([0x18, 0x2A, 0xC0, 0x05, 0x00, 0x06] @ [0xFF]) =
     Inr \<lparr>ph_version = 0, ph_type = 1, ph_sec_hdr_flag = 1, ph_apid = 0x2A, ph_seq_flags = 3,
          ph_seq_count = 5, ph_data_length = 6\<rparr>"
  by (rule primary_header_bijection [where n = 6, THEN conjunct1, rule_format, THEN conjunct2])
    (simp add: migris_ccsds_primary_pack_def be16_def)

text \<open>
  Any change confined to two adjacent bytes of a packet whose CRC residue is zero is
  detected: the changed packet's residue is not zero, wherever the window lies.
\<close>
theorem crc_detects_two_byte_burst:
  assumes "migris_crc16_ccitt_false (before @ [a, b] @ behind) = 0"
    and "(a', b') \<noteq> (a, b)"
  shows "migris_crc16_ccitt_false (before @ [a', b'] @ behind) \<noteq> 0"
  using assms crc_window_inject [of before a b behind a' b'] by auto

lemma crc_detects_two_byte_burst_witness:
  "migris_crc16_ccitt_false ([0x31, 0x32, 0x33] @ [0x35, 0x34] @ [0x36, 0x37, 0x38, 0x39, 0x29, 0xB1]) \<noteq> 0"
  by (rule crc_detects_two_byte_burst [where a = "0x34" and b = "0x35"]) (simp_all add: crc_eval)

end
