(* ===== verification/Pus_Headers.thy ===== *)
theory Pus_Headers
  imports Ccsds
begin

text \<open>
  lib/pus/src/pus_tc.c and pus_tm.c: the PUS-C telecommand and telemetry secondary
  headers. The theory also holds the block every report builder of lib/pus repeats
  (primary header, secondary header, source data, trailing CRC) as \<open>tm_packet\<close>, the
  ground-side reading of a packet as \<open>tm_parse\<close>, and the walk over a burst of packets
  by their declared lengths.
\<close>

section \<open>Telecommand secondary header\<close>

record migris_pus_tc_secondary_header_t =
  tc_pus_version :: u8
  tc_ack_flags :: u8
  tc_service_type :: u8
  tc_service_subtype :: u8
  tc_source_id :: u16

datatype pus_codec_err = PUS_ERR_LENGTH | PUS_ERR_RANGE

definition MIGRIS_PUS_TC_SECONDARY_HEADER_SIZE :: nat where
  [fsw_const, simp]: "MIGRIS_PUS_TC_SECONDARY_HEADER_SIZE = 5"

definition MIGRIS_PUS_VERSION_C :: u8 where
  [fsw_const]: "MIGRIS_PUS_VERSION_C = 2"

definition MIGRIS_PUS_TC_ACK_ACCEPTANCE :: u8 where
  [fsw_const]: "MIGRIS_PUS_TC_ACK_ACCEPTANCE = 0x01"

definition MIGRIS_PUS_TC_ACK_COMPLETION :: u8 where
  [fsw_const]: "MIGRIS_PUS_TC_ACK_COMPLETION = 0x08"

definition migris_pus_tc_secondary_pack ::
  "migris_pus_tc_secondary_header_t \<Rightarrow> nat \<Rightarrow> pus_codec_err + bytes" where
  "migris_pus_tc_secondary_pack hdr out_len =
    (if out_len < MIGRIS_PUS_TC_SECONDARY_HEADER_SIZE then Inl PUS_ERR_LENGTH
     else if tc_pus_version hdr > 0xF \<or> tc_ack_flags hdr > 0xF then Inl PUS_ERR_RANGE
     else Inr [push_bit 4 (tc_pus_version hdr AND 0xF) OR (tc_ack_flags hdr AND 0xF),
               tc_service_type hdr,
               tc_service_subtype hdr,
               ucast (drop_bit 8 (tc_source_id hdr)),
               ucast (tc_source_id hdr AND 0xFF)])"

definition migris_pus_tc_secondary_unpack ::
  "bytes \<Rightarrow> pus_codec_err + migris_pus_tc_secondary_header_t" where
  "migris_pus_tc_secondary_unpack inp =
    (if length inp < MIGRIS_PUS_TC_SECONDARY_HEADER_SIZE then Inl PUS_ERR_LENGTH
     else Inr \<lparr>tc_pus_version = drop_bit 4 (inp ! 0) AND 0xF,
               tc_ack_flags = inp ! 0 AND 0xF,
               tc_service_type = inp ! 1,
               tc_service_subtype = inp ! 2,
               tc_source_id = rd16 (inp ! 3) (inp ! 4)\<rparr>)"

section \<open>Telemetry secondary header\<close>

record migris_pus_tm_secondary_header_t =
  tm_pus_version :: u8
  tm_sc_time_ref_status :: u8
  tm_service_type :: u8
  tm_service_subtype :: u8
  tm_msg_counter :: u8
  tm_destination_id :: u16
  tm_time_seconds :: u32

definition MIGRIS_PUS_TM_SECONDARY_HEADER_SIZE :: nat where
  [fsw_const, simp]: "MIGRIS_PUS_TM_SECONDARY_HEADER_SIZE = 10"

definition migris_pus_tm_secondary_pack ::
  "migris_pus_tm_secondary_header_t \<Rightarrow> nat \<Rightarrow> pus_codec_err + bytes" where
  "migris_pus_tm_secondary_pack hdr out_len =
    (if out_len < MIGRIS_PUS_TM_SECONDARY_HEADER_SIZE then Inl PUS_ERR_LENGTH
     else if tm_pus_version hdr > 0xF \<or> tm_sc_time_ref_status hdr > 0xF then Inl PUS_ERR_RANGE
     else Inr ([push_bit 4 (tm_pus_version hdr AND 0xF) OR (tm_sc_time_ref_status hdr AND 0xF),
                tm_service_type hdr,
                tm_service_subtype hdr,
                tm_msg_counter hdr,
                ucast (drop_bit 8 (tm_destination_id hdr)),
                ucast (tm_destination_id hdr AND 0xFF),
                ucast (drop_bit 24 (tm_time_seconds hdr)),
                ucast (drop_bit 16 (tm_time_seconds hdr) AND 0xFF),
                ucast (drop_bit 8 (tm_time_seconds hdr) AND 0xFF),
                ucast (tm_time_seconds hdr AND 0xFF)]))"

definition migris_pus_tm_secondary_unpack ::
  "bytes \<Rightarrow> pus_codec_err + migris_pus_tm_secondary_header_t" where
  "migris_pus_tm_secondary_unpack inp =
    (if length inp < MIGRIS_PUS_TM_SECONDARY_HEADER_SIZE then Inl PUS_ERR_LENGTH
     else Inr \<lparr>tm_pus_version = drop_bit 4 (inp ! 0) AND 0xF,
               tm_sc_time_ref_status = inp ! 0 AND 0xF,
               tm_service_type = inp ! 1,
               tm_service_subtype = inp ! 2,
               tm_msg_counter = inp ! 3,
               tm_destination_id = rd16 (inp ! 4) (inp ! 5),
               tm_time_seconds = rd32 (inp ! 6) (inp ! 7) (inp ! 8) (inp ! 9)\<rparr>)"

lemma nibble_fields:
  fixes a b :: u8
  assumes "a \<le> mask 4" "b \<le> mask 4"
  shows "drop_bit 4 (push_bit 4 (a AND mask 4) OR (b AND mask 4)) AND mask 4 = a
    \<and> (push_bit 4 (a AND mask 4) OR (b AND mask 4)) AND mask 4 = b"
proof -
  have bits: "bit a n \<Longrightarrow> n < 4" "bit b n \<Longrightarrow> n < 4" for n
    using bit_le_mask [OF assms(1), of n] bit_le_mask [OF assms(2), of n] by auto
  have "drop_bit 4 (push_bit 4 (a AND mask 4) OR (b AND mask 4)) AND mask 4 = a"
    by (rule bit_word_eqI) (auto simp: bit_simps dest: bits)
  moreover have "(push_bit 4 (a AND mask 4) OR (b AND mask 4)) AND mask 4 = b"
    by (rule bit_word_eqI) (auto simp: bit_simps dest: bits)
  ultimately show ?thesis by blast
qed

lemma nibbles_recompose:
  "push_bit 4 ((drop_bit 4 x AND mask 4) AND mask 4) OR ((x AND mask 4) AND mask 4) = (x :: u8)"
proof (rule bit_word_eqI)
  fix n assume "n < LENGTH(8)"
  then consider "n < 4" | "4 \<le> n" "n < 8"
    by fastforce
  then show "bit (push_bit 4 ((drop_bit 4 x AND mask 4) AND mask 4) OR ((x AND mask 4) AND mask 4)) n = bit x n"
    by cases (auto simp: bit_simps)
qed

lemma rd32_hi24:
  "rd32 (ucast (drop_bit 24 v)) (ucast (drop_bit 16 v AND 0xFF)) (ucast (drop_bit 8 v AND 0xFF))
     (ucast (v AND 0xFF)) = v"
proof -
  have "ucast (drop_bit 24 v) = (ucast (drop_bit 24 v AND 0xFF) :: u8)"
    unfolding byte_masks by (rule bit_word_eqI) (auto simp: bit_simps)
  then show ?thesis by simp
qed

lemma nib_mask: "(0xF :: u8) = mask 4"
  by (simp add: mask_eq_exp_minus_1)

lemma tc_secondary_unpack_pack:
  assumes "migris_pus_tc_secondary_pack hdr n = Inr bs"
  shows "migris_pus_tc_secondary_unpack (bs @ rest) = Inr hdr"
  using assms nibble_fields [of "tc_pus_version hdr" "tc_ack_flags hdr"]
  by (auto simp: migris_pus_tc_secondary_pack_def migris_pus_tc_secondary_unpack_def nib_mask not_less
      split: if_splits)

lemma tc_secondary_pack_unpack:
  assumes "migris_pus_tc_secondary_unpack inp = Inr hdr" and "5 \<le> n"
  shows "migris_pus_tc_secondary_pack hdr n = Inr (take 5 inp)"
proof -
  from assms(1) have len: "5 \<le> length inp"
    by (auto simp: migris_pus_tc_secondary_unpack_def split: if_splits)
  then obtain a b c d e r where inp: "inp = a # b # c # d # e # r"
    by (auto simp: numeral_eq_Suc Suc_le_length_iff)
  have "drop_bit 4 a AND mask 4 \<le> (mask 4 :: u8)" "a AND mask 4 \<le> (mask 4 :: u8)"
    by (simp_all add: word_le_mask_iff flip: take_bit_eq_mask)
  with assms nibbles_recompose [of a] show ?thesis
    by (auto simp: inp migris_pus_tc_secondary_pack_def migris_pus_tc_secondary_unpack_def nib_mask
        not_less)
qed

lemma tm_secondary_unpack_pack:
  assumes "migris_pus_tm_secondary_pack hdr n = Inr bs"
  shows "migris_pus_tm_secondary_unpack (bs @ rest) = Inr hdr"
  using assms nibble_fields [of "tm_pus_version hdr" "tm_sc_time_ref_status hdr"]
  by (auto simp: migris_pus_tm_secondary_pack_def migris_pus_tm_secondary_unpack_def nib_mask not_less
      rd32_hi24 split: if_splits)

lemma length_tm_secondary_pack [fsw_wire]: "migris_pus_tm_secondary_pack hdr n = Inr bs \<Longrightarrow> length bs = 10"
  by (auto simp: migris_pus_tm_secondary_pack_def split: if_splits)

section \<open>The telemetry packet block\<close>

text \<open>
  Every report builder of lib/pus (pus1.c, pus3.c, pus5.c, pus11.c, pus13.c, pus15.c, pus17.c
  and pus20.c) runs the same block: pack a primary header of type TM whose
  data_length is data_field - 1, pack the secondary header behind it, append the source
  data, and close with the CRC of everything before it. \<open>None\<close> is the branch where one of the
  two packers fails, which each builder maps to its own BUF_TOO_SMALL code.
\<close>

definition tm_packet ::
  "u16 \<Rightarrow> u16 \<Rightarrow> u16 \<Rightarrow> u8 \<Rightarrow> u8 \<Rightarrow> u8 \<Rightarrow> u16 \<Rightarrow> u32 \<Rightarrow> bytes \<Rightarrow> nat \<Rightarrow> bytes option" where
  "tm_packet apid seq_count data_field service subtype msg_counter destination_id now_seconds source out_cap =
    (case migris_ccsds_primary_pack
        \<lparr>ph_version = 0, ph_type = MIGRIS_CCSDS_PACKET_TYPE_TM, ph_sec_hdr_flag = 1, ph_apid = apid,
         ph_seq_flags = MIGRIS_CCSDS_SEQ_FLAGS_UNSEGMENTED, ph_seq_count = seq_count,
         ph_data_length = data_field - 1\<rparr> out_cap of
       Inl _ \<Rightarrow> None
     | Inr primary \<Rightarrow>
        (case migris_pus_tm_secondary_pack
            \<lparr>tm_pus_version = MIGRIS_PUS_VERSION_C, tm_sc_time_ref_status = 0,
             tm_service_type = service, tm_service_subtype = subtype, tm_msg_counter = msg_counter,
             tm_destination_id = destination_id, tm_time_seconds = now_seconds\<rparr>
            (out_cap - MIGRIS_CCSDS_PRIMARY_HEADER_SIZE) of
           Inl _ \<Rightarrow> None
         | Inr sec \<Rightarrow>
            (let body = primary @ sec @ source
             in Some (body @ be16 (migris_crc16_ccitt_false body)))))"

text \<open>The advance of the shared sequence count (mod 2^14) and of a message counter (mod 2^8).\<close>

definition next_seq :: "u16 \<Rightarrow> u16" where
  "next_seq c = (c + 1) AND 0x3FFF"

definition bump :: "bytes \<Rightarrow> nat \<Rightarrow> bytes" where
  "bump ctr i = ctr[i := ctr ! i + 1]"

text \<open>
  The reading of a telemetry packet that docs/wire/pus-1.md and pus-17.md prescribe to the
  ground: primary header, declared length, zero CRC residue, secondary header, source data.
\<close>

record tm_view =
  tv_primary :: migris_ccsds_primary_header_t
  tv_secondary :: migris_pus_tm_secondary_header_t
  tv_source :: bytes

definition tm_parse :: "bytes \<Rightarrow> tm_view option" where
  "tm_parse pkt =
    (case migris_ccsds_primary_unpack pkt of
       Inl _ \<Rightarrow> None
     | Inr p \<Rightarrow>
        if length pkt \<noteq> migris_ccsds_packet_total_size (ph_data_length p)
           \<or> migris_crc16_ccitt_false pkt \<noteq> 0 \<or> length pkt < 18 then None
        else (case migris_pus_tm_secondary_unpack (drop 6 pkt) of
                Inl _ \<Rightarrow> None
              | Inr s \<Rightarrow> Some \<lparr>tv_primary = p, tv_secondary = s,
                              tv_source = take (length pkt - 18) (drop 16 pkt)\<rparr>))"

definition tm_view_of :: "u16 \<Rightarrow> u16 \<Rightarrow> u8 \<Rightarrow> u8 \<Rightarrow> u8 \<Rightarrow> u16 \<Rightarrow> u32 \<Rightarrow> bytes \<Rightarrow> tm_view" where
  "tm_view_of apid seq_count service subtype msg_counter destination_id now_seconds source =
    \<lparr>tv_primary = \<lparr>ph_version = 0, ph_type = 0, ph_sec_hdr_flag = 1, ph_apid = apid, ph_seq_flags = 3,
                    ph_seq_count = seq_count, ph_data_length = of_nat (length source + 11)\<rparr>,
     tv_secondary = \<lparr>tm_pus_version = 2, tm_sc_time_ref_status = 0, tm_service_type = service,
                     tm_service_subtype = subtype, tm_msg_counter = msg_counter,
                     tm_destination_id = destination_id, tm_time_seconds = now_seconds\<rparr>,
     tv_source = source\<rparr>"

lemma length_tm_packet [fsw_wire]:
  "tm_packet apid c df sv st mc d now src cap = Some pkt \<Longrightarrow> length pkt = 18 + length src"
  by (auto simp: tm_packet_def Let_def split: sum.splits dest!: length_primary_pack length_tm_secondary_pack)

lemma tm_packet_Some:
  "apid \<le> 0x7FF \<Longrightarrow> c \<le> 0x3FFF \<Longrightarrow> 16 \<le> cap \<Longrightarrow> \<exists>pkt. tm_packet apid c df sv st mc d now src cap = Some pkt"
  by (auto simp: tm_packet_def Let_def migris_ccsds_primary_pack_def migris_pus_tm_secondary_pack_def
      fsw_const)

lemma tm_packet_in_range:
  "tm_packet apid c df sv st mc d now src cap = Some pkt \<Longrightarrow> apid \<le> 0x7FF \<and> c \<le> 0x3FFF \<and> 16 \<le> cap"
  by (auto simp: tm_packet_def Let_def migris_ccsds_primary_pack_def migris_pus_tm_secondary_pack_def
      split: sum.splits if_splits)

lemma data_field_pred: "of_nat (n + 12) - 1 = (of_nat (n + 11) :: u16)"
  by simp

lemma tm_parse_packet:
  assumes pkt: "tm_packet apid c df sv st mc d now src cap = Some pkt"
    and df: "df = of_nat (length src + 12)" and len: "length src < 60000"
  shows "tm_parse pkt = Some (tm_view_of apid c sv st mc d now src)"
proof -
  let ?p = "\<lparr>ph_version = 0, ph_type = 0, ph_sec_hdr_flag = 1, ph_apid = apid, ph_seq_flags = 3,
             ph_seq_count = c, ph_data_length = df - 1\<rparr>"
  let ?s = "\<lparr>tm_pus_version = 2, tm_sc_time_ref_status = 0, tm_service_type = sv, tm_service_subtype = st,
             tm_msg_counter = mc, tm_destination_id = d, tm_time_seconds = now\<rparr>"
  from pkt obtain p s where p: "migris_ccsds_primary_pack ?p cap = Inr p"
    and s: "migris_pus_tm_secondary_pack ?s (cap - 6) = Inr s"
    and body: "pkt = (p @ s @ src) @ be16 (migris_crc16_ccitt_false (p @ s @ src))"
    by (auto simp: tm_packet_def Let_def fsw_const split: sum.splits)
  have lp: "length p = 6" and ls: "length s = 10"
    using p s by (auto dest: length_primary_pack length_tm_secondary_pack)
  have dl: "df - 1 = of_nat (length src + 11)"
    by (simp only: df data_field_pred)
  have tot: "length pkt = migris_ccsds_packet_total_size (df - 1)"
    using len by (simp add: dl body lp ls migris_ccsds_packet_total_size_def unat_of_nat_u16
        del: of_nat_add)
  have crc: "migris_crc16_ccitt_false pkt = 0"
    by (simp only: body be16_def crc_residue rd16_be16)
  have up: "migris_ccsds_primary_unpack pkt = Inr ?p"
    unfolding body append_assoc by (rule primary_unpack_pack [OF p])
  have us: "migris_pus_tm_secondary_unpack (drop 6 pkt) = Inr ?s"
    using tm_secondary_unpack_pack [OF s] by (simp add: body lp)
  have src: "take (length pkt - 18) (drop 16 pkt) = src"
    by (simp add: body lp ls)
  show ?thesis
    using tot crc src length_tm_packet [OF pkt]
    by (simp add: tm_parse_def up us tm_view_of_def dl del: of_nat_add)
qed

lemma tm_packet_length_bytes:
  assumes "tm_packet apid c df sv st mc d now src cap = Some pkt"
  shows "rd16_at (pkt @ rest) 4 = df - 1"
proof -
  from assms obtain p s where p: "migris_ccsds_primary_pack \<lparr>ph_version = 0, ph_type = 0, ph_sec_hdr_flag = 1,
      ph_apid = apid, ph_seq_flags = 3, ph_seq_count = c, ph_data_length = df - 1\<rparr> cap = Inr p"
    and body: "pkt = p @ s"
    by (auto simp: tm_packet_def Let_def fsw_const split: sum.splits)
  from primary_unpack_pack [OF p, of "s @ rest"] length_primary_pack [OF p] show ?thesis
    by (simp add: body primary_unpack_eq)
qed

section \<open>Walking a burst of packets\<close>

text \<open>
  A burst holds several packets back to back; samples/tc_uart/src/main.c (transmit_tm) splits
  it by each packet's declared length. \<open>burst_packets\<close> is that walk: the packets it
  visits, in order; it stops at a truncated tail.
\<close>

function burst_packets :: "bytes \<Rightarrow> bytes list" where
  "burst_packets burst =
    (if MIGRIS_CCSDS_PRIMARY_HEADER_SIZE \<le> length burst then
       let pkt_size = migris_ccsds_packet_total_size (rd16_at burst 4)
       in if pkt_size > length burst then []
          else take pkt_size burst # burst_packets (drop pkt_size burst)
     else [])"
  by pat_completeness auto
termination
  by (relation "measure length") (auto simp: migris_ccsds_packet_total_size_def)

declare burst_packets.simps [simp del]

lemma burst_packets_Nil [simp]: "burst_packets [] = []"
  by (simp add: burst_packets.simps)

lemma burst_packets_packet:
  assumes pkt: "tm_packet apid c df sv st mc d now src cap = Some pkt"
    and df: "df = of_nat (length src + 12)" and len: "length src < 60000"
  shows "burst_packets (pkt @ rest) = pkt # burst_packets rest"
proof -
  have l: "length pkt = 18 + length src"
    by (rule length_tm_packet [OF pkt])
  have "migris_ccsds_packet_total_size (rd16_at (pkt @ rest) 4) = length pkt"
    using len data_field_pred [of "length src"]
    by (simp add: tm_packet_length_bytes [OF pkt] df l migris_ccsds_packet_total_size_def
        unat_of_nat_u16 del: of_nat_add)
  then show ?thesis
    using l by (subst burst_packets.simps) (simp add: Let_def)
qed

section \<open>Bursts\<close>

text \<open>
  A burst as the router assembles it: packets of one APID, back to back, whose sequence counts
  follow each other mod 2^14. \<open>tm_burst apid seq burst views seq'\<close> relates the bytes to the
  ground's views of the packets and to the sequence count left for the next one.
\<close>

inductive tm_burst :: "u16 \<Rightarrow> u16 \<Rightarrow> bytes \<Rightarrow> tm_view list \<Rightarrow> u16 \<Rightarrow> bool" where
  tm_burst_Nil: "tm_burst apid seq [] [] seq"
| tm_burst_Cons: "tm_packet apid seq (of_nat (length src + 12)) sv st mc d now src cap = Some pkt \<Longrightarrow>
    length src < 60000 \<Longrightarrow> tm_burst apid (next_seq seq) burst views seq' \<Longrightarrow>
    tm_burst apid seq (pkt @ burst) (tm_view_of apid seq sv st mc d now src # views) seq'"

inductive_cases tm_burst_NilE: "tm_burst apid seq [] views seq'"
inductive_cases tm_burst_ConsE: "tm_burst apid seq burst (v # views) seq'"

lemma tm_burst_single:
  "tm_packet apid seq (of_nat (length src + 12)) sv st mc d now src cap = Some pkt \<Longrightarrow> length src < 60000 \<Longrightarrow>
     tm_burst apid seq pkt [tm_view_of apid seq sv st mc d now src] (next_seq seq)"
  using tm_burst_Cons [OF _ _ tm_burst_Nil] by fastforce

lemma tm_burst_append:
  "tm_burst apid seq b1 v1 seq1 \<Longrightarrow> tm_burst apid seq1 b2 v2 seq2 \<Longrightarrow> tm_burst apid seq (b1 @ b2) (v1 @ v2) seq2"
  by (induction rule: tm_burst.induct) (auto intro: tm_burst_Cons)

lemma tm_burst_seq: "tm_burst apid seq burst views seq' \<Longrightarrow> seq' = (next_seq ^^ length views) seq"
  by (induction rule: tm_burst.induct) (simp_all add: funpow_swap1)

lemma tm_burst_parse:
  "tm_burst apid seq burst views seq' \<Longrightarrow>
     map tm_parse (burst_packets burst) = map Some views \<and> concat (burst_packets burst) = burst"
  by (induction rule: tm_burst.induct) (auto simp: burst_packets_packet tm_parse_packet)

lemma tm_burst_walk: "tm_burst apid seq burst views seq' \<Longrightarrow> burst_packets (burst @ rest) = burst_packets burst @ burst_packets rest"
  by (induction rule: tm_burst.induct) (simp_all add: burst_packets_packet)

lemma tm_burst_stamps:
  "tm_burst apid seq burst views seq' \<Longrightarrow> i < length views \<Longrightarrow>
     ph_apid (tv_primary (views ! i)) = apid \<and> ph_seq_count (tv_primary (views ! i)) = (next_seq ^^ i) seq"
proof (induction arbitrary: i rule: tm_burst.induct)
  case (tm_burst_Cons apid seq src sv st mc d now cap pkt burst views seq')
  then show ?case by (cases i) (auto simp: tm_view_of_def funpow_swap1)
qed simp

lemma tm_burst_length: "tm_burst apid seq burst views seq' \<Longrightarrow>
   length burst = sum_list (map (\<lambda>v. 18 + length (tv_source v)) views)"
  by (induction rule: tm_burst.induct) (auto simp: tm_view_of_def dest: length_tm_packet)

lemma next_seq_le: "next_seq c \<le> 0x3FFF"
  by (simp add: next_seq_def word_and_le1)

lemma tm_burst_empty [simp]: "tm_burst apid seq [] [] seq' \<longleftrightarrow> seq' = seq"
  by (auto intro: tm_burst_Nil dest: tm_burst_seq)

lemma tm_packet_burst:
  assumes "apid \<le> 0x7FF" "seq \<le> 0x3FFF" "16 \<le> cap" "length src < 60000"
  shows "\<exists>pkt. tm_packet apid seq (of_nat (length src + 12)) sv st mc d now src cap = Some pkt
    \<and> tm_burst apid seq pkt [tm_view_of apid seq sv st mc d now src] (next_seq seq)
    \<and> length pkt = 18 + length src"
proof -
  obtain pkt where pkt: "tm_packet apid seq (of_nat (length src + 12)) sv st mc d now src cap = Some pkt"
    using tm_packet_Some [OF assms(1-3)] by blast
  from tm_burst_single [OF pkt assms(4)] length_tm_packet [OF pkt] pkt show ?thesis by blast
qed

end
