(* ===== verification/Datapool.thy ===== *)
theory Datapool
  imports Prelude
begin

text \<open>
  lib/datapool: the on-board parameter datapool. A C enum can hold any int, so the type tag
  has a constructor for the values outside the enumeration; the tagged union is its tag and
  the 32 bits of the union (little-endian overlay: a narrower member is the low part, and the
  constructors and the decoder zero the rest). The parameter array is a list of
  MIGRIS_DATAPOOL_CAPACITY elements, of which the first \<open>dp_count\<close> are live. Status codes
  keep the source's names; "a positive byte count" is the right summand, holding the bytes.
  Signed members are two's complement words, read with \<open>sint\<close>.
\<close>

section \<open>Typed values\<close>

datatype migris_dp_type_t =
    DP_TYPE_U8 | DP_TYPE_U16 | DP_TYPE_U32 | DP_TYPE_I8 | DP_TYPE_I16 | DP_TYPE_I32 | DP_TYPE_F32
  | DP_TYPE_OUTSIDE int

datatype migris_dp_access_t = DP_ACCESS_READ_ONLY | DP_ACCESS_READ_WRITE

record migris_dp_value_t =
  dpv_type :: migris_dp_type_t
  dpv_as :: u32

record migris_dp_param_t =
  dpp_id :: u16
  dpp_access :: migris_dp_access_t
  dpp_value :: migris_dp_value_t

datatype migris_datapool_status_t =
    DATAPOOL_OK | DATAPOOL_ERR_BAD_ARG | DATAPOOL_ERR_CAPACITY | DATAPOOL_ERR_DUPLICATE
  | DATAPOOL_ERR_TYPE | DATAPOOL_ERR_NOT_FOUND | DATAPOOL_ERR_READ_ONLY | DATAPOOL_ERR_BUF_TOO_SMALL

definition MIGRIS_DATAPOOL_CAPACITY :: nat where
  [fsw_const]: "MIGRIS_DATAPOOL_CAPACITY = 16"

fun migris_dp_type_width :: "migris_dp_type_t \<Rightarrow> nat" where
  "migris_dp_type_width DP_TYPE_U8 = 1"
| "migris_dp_type_width DP_TYPE_I8 = 1"
| "migris_dp_type_width DP_TYPE_U16 = 2"
| "migris_dp_type_width DP_TYPE_I16 = 2"
| "migris_dp_type_width DP_TYPE_U32 = 4"
| "migris_dp_type_width DP_TYPE_I32 = 4"
| "migris_dp_type_width DP_TYPE_F32 = 4"
| "migris_dp_type_width (DP_TYPE_OUTSIDE _) = 0"

fun dp_type_code :: "migris_dp_type_t \<Rightarrow> u8" where
  "dp_type_code DP_TYPE_U8 = 0"
| "dp_type_code DP_TYPE_U16 = 1"
| "dp_type_code DP_TYPE_U32 = 2"
| "dp_type_code DP_TYPE_I8 = 3"
| "dp_type_code DP_TYPE_I16 = 4"
| "dp_type_code DP_TYPE_I32 = 5"
| "dp_type_code DP_TYPE_F32 = 6"
| "dp_type_code (DP_TYPE_OUTSIDE k) = of_int k"

definition dp_type_of_code :: "u8 \<Rightarrow> migris_dp_type_t" where
  "dp_type_of_code c =
    (if c = 0 then DP_TYPE_U8 else if c = 1 then DP_TYPE_U16 else if c = 2 then DP_TYPE_U32
     else if c = 3 then DP_TYPE_I8 else if c = 4 then DP_TYPE_I16 else if c = 5 then DP_TYPE_I32
     else if c = 6 then DP_TYPE_F32 else DP_TYPE_OUTSIDE (uint c))"

definition migris_dp_u8 :: "u8 \<Rightarrow> migris_dp_value_t" where
  "migris_dp_u8 v = \<lparr>dpv_type = DP_TYPE_U8, dpv_as = ucast v\<rparr>"

definition migris_dp_u16 :: "u16 \<Rightarrow> migris_dp_value_t" where
  "migris_dp_u16 v = \<lparr>dpv_type = DP_TYPE_U16, dpv_as = ucast v\<rparr>"

definition migris_dp_u32 :: "u32 \<Rightarrow> migris_dp_value_t" where
  "migris_dp_u32 v = \<lparr>dpv_type = DP_TYPE_U32, dpv_as = v\<rparr>"

definition migris_dp_i8 :: "u8 \<Rightarrow> migris_dp_value_t" where
  "migris_dp_i8 v = \<lparr>dpv_type = DP_TYPE_I8, dpv_as = ucast v\<rparr>"

definition migris_dp_i16 :: "u16 \<Rightarrow> migris_dp_value_t" where
  "migris_dp_i16 v = \<lparr>dpv_type = DP_TYPE_I16, dpv_as = ucast v\<rparr>"

definition migris_dp_i32 :: "u32 \<Rightarrow> migris_dp_value_t" where
  "migris_dp_i32 v = \<lparr>dpv_type = DP_TYPE_I32, dpv_as = v\<rparr>"

definition migris_dp_f32 :: "u32 \<Rightarrow> migris_dp_value_t" where
  "migris_dp_f32 bits = \<lparr>dpv_type = DP_TYPE_F32, dpv_as = bits\<rparr>"

definition migris_dp_as_u8 :: "migris_dp_value_t \<Rightarrow> u8" where
  "migris_dp_as_u8 v = ucast (dpv_as v)"

definition migris_dp_as_u16 :: "migris_dp_value_t \<Rightarrow> u16" where
  "migris_dp_as_u16 v = ucast (dpv_as v)"

definition migris_dp_as_u32 :: "migris_dp_value_t \<Rightarrow> u32" where
  "migris_dp_as_u32 v = dpv_as v"

definition migris_dp_as_i8 :: "migris_dp_value_t \<Rightarrow> int" where
  "migris_dp_as_i8 v = sint (ucast (dpv_as v) :: u8)"

definition migris_dp_as_i16 :: "migris_dp_value_t \<Rightarrow> int" where
  "migris_dp_as_i16 v = sint (ucast (dpv_as v) :: u16)"

definition migris_dp_as_i32 :: "migris_dp_value_t \<Rightarrow> int" where
  "migris_dp_as_i32 v = sint (dpv_as v)"

definition migris_dp_as_f32 :: "migris_dp_value_t \<Rightarrow> u32" where
  "migris_dp_as_f32 v = dpv_as v"

section \<open>Value codec\<close>

definition dp_value_bits :: "migris_dp_value_t \<Rightarrow> u32" where
  "dp_value_bits v =
    (case dpv_type v of
       DP_TYPE_U8 \<Rightarrow> ucast (ucast (dpv_as v) :: u8)
     | DP_TYPE_U16 \<Rightarrow> ucast (ucast (dpv_as v) :: u16)
     | DP_TYPE_U32 \<Rightarrow> dpv_as v
     | DP_TYPE_I8 \<Rightarrow> ucast (ucast (dpv_as v) :: u8)
     | DP_TYPE_I16 \<Rightarrow> ucast (ucast (dpv_as v) :: u16)
     | DP_TYPE_I32 \<Rightarrow> dpv_as v
     | DP_TYPE_F32 \<Rightarrow> dpv_as v
     | DP_TYPE_OUTSIDE _ \<Rightarrow> 0)"

definition dp_value_from_bits :: "migris_dp_type_t \<Rightarrow> u32 \<Rightarrow> migris_dp_value_t" where
  "dp_value_from_bits ty bits =
    \<lparr>dpv_type = ty,
     dpv_as = (case ty of
       DP_TYPE_U8 \<Rightarrow> ucast (ucast bits :: u8)
     | DP_TYPE_U16 \<Rightarrow> ucast (ucast bits :: u16)
     | DP_TYPE_U32 \<Rightarrow> bits
     | DP_TYPE_I8 \<Rightarrow> ucast (ucast bits :: u8)
     | DP_TYPE_I16 \<Rightarrow> ucast (ucast bits :: u16)
     | DP_TYPE_I32 \<Rightarrow> bits
     | DP_TYPE_F32 \<Rightarrow> bits
     | DP_TYPE_OUTSIDE _ \<Rightarrow> 0)\<rparr>"

definition migris_dp_value_encode :: "migris_dp_value_t \<Rightarrow> nat \<Rightarrow> migris_datapool_status_t + bytes" where
  "migris_dp_value_encode v out_cap =
    (let width = migris_dp_type_width (dpv_type v)
     in if width = 0 then Inl DATAPOOL_ERR_TYPE
        else if out_cap < width then Inl DATAPOOL_ERR_BUF_TOO_SMALL
        else let bits = dp_value_bits v
             in Inr (map (\<lambda>i. ucast (drop_bit (8 * (width - 1 - i)) bits AND 0xFF)) [0..<width]))"

definition migris_dp_value_decode ::
  "migris_dp_type_t \<Rightarrow> bytes \<Rightarrow> migris_datapool_status_t + (nat \<times> migris_dp_value_t)" where
  "migris_dp_value_decode ty inp =
    (let width = migris_dp_type_width ty
     in if width = 0 then Inl DATAPOOL_ERR_TYPE
        else if length inp < width then Inl DATAPOOL_ERR_BUF_TOO_SMALL
        else let bits = fold (\<lambda>b acc. push_bit 8 acc OR ucast b) (take width inp) 0
             in Inr (width, dp_value_from_bits ty bits))"

text \<open>A value whose unused union bytes are zero, as every constructor and the decoder leave it.\<close>

definition dp_value_ok :: "migris_dp_value_t \<Rightarrow> bool" where
  "dp_value_ok v \<longleftrightarrow> migris_dp_type_width (dpv_type v) \<noteq> 0
     \<and> dp_value_from_bits (dpv_type v) (dpv_as v) = v"

lemma ucast_u8_u32_u8 [simp]: "ucast (ucast (b :: u8) :: u32) = b"
  by (rule bit_word_eqI) (auto simp: bit_simps)

lemma ucast_u16_u32_u16 [simp]: "ucast (ucast (b :: u16) :: u32) = b"
  by (rule bit_word_eqI) (auto simp: bit_simps)

lemma type_width_cases:
  "migris_dp_type_width ty \<noteq> 0 \<longleftrightarrow> (\<forall>k. ty \<noteq> DP_TYPE_OUTSIDE k)"
  by (cases ty) auto

lemma type_width_le: "migris_dp_type_width ty \<le> 4"
  by (cases ty) auto

lemma dp_value_ok_bits: "dp_value_ok v \<Longrightarrow> dp_value_bits v = dpv_as v"
  by (cases v, cases "dpv_type v") (auto simp: dp_value_ok_def dp_value_bits_def dp_value_from_bits_def)

lemma dp_value_ok_from_bits:
  "migris_dp_type_width ty \<noteq> 0 \<Longrightarrow> dp_value_ok (dp_value_from_bits ty bits)"
  by (cases ty) (auto simp: dp_value_ok_def dp_value_from_bits_def)

lemma dp_constructors_ok:
  "dp_value_ok (migris_dp_u8 a)" "dp_value_ok (migris_dp_u16 b)" "dp_value_ok (migris_dp_u32 c)"
  "dp_value_ok (migris_dp_i8 a)" "dp_value_ok (migris_dp_i16 b)" "dp_value_ok (migris_dp_i32 c)"
  "dp_value_ok (migris_dp_f32 c)"
  by (simp_all add: dp_value_ok_def dp_value_from_bits_def migris_dp_u8_def migris_dp_u16_def
      migris_dp_u32_def migris_dp_i8_def migris_dp_i16_def migris_dp_i32_def migris_dp_f32_def)

lemma dpv_type_from_bits [simp]: "dpv_type (dp_value_from_bits ty bits) = ty"
  by (simp add: dp_value_from_bits_def)

lemma value_decode_ok:
  "migris_dp_value_decode ty inp = Inr (n, v) \<Longrightarrow>
     dp_value_ok v \<and> dpv_type v = ty \<and> n = migris_dp_type_width ty \<and> n \<le> length inp"
  by (auto simp: migris_dp_value_decode_def Let_def intro: dp_value_ok_from_bits split: if_splits)

lemma value_encode_Inr:
  "dp_value_ok v \<Longrightarrow> migris_dp_type_width (dpv_type v) \<le> cap \<Longrightarrow>
     \<exists>bs. migris_dp_value_encode v cap = Inr bs \<and> length bs = migris_dp_type_width (dpv_type v)"
  by (auto simp: migris_dp_value_encode_def Let_def dp_value_ok_def)

lemma length_value_encode [fsw_wire]:
  "migris_dp_value_encode v cap = Inr bs \<Longrightarrow>
     length bs = migris_dp_type_width (dpv_type v) \<and> length bs \<le> cap \<and> 0 < length bs"
  by (auto simp: migris_dp_value_encode_def Let_def split: if_splits)

lemma upt_2_4: "[0..<2] = [0, 1]" "[0..<4] = [0, 1, 2, 3]"
  by (simp_all add: upt_rec)

lemma byte_of_u32: "ucast (w AND 0xFF) = (ucast (w :: u32) :: u8)"
  unfolding byte_masks by (rule bit_word_eqI) (auto simp: bit_simps)

lemma refold_2: "push_bit 8 (ucast (ucast (drop_bit 8 (b :: u32)) :: u8)) OR ucast (ucast b :: u8)
    = (ucast (ucast b :: u16) :: u32)"
proof (rule bit_word_eqI)
  fix n assume "n < LENGTH(32)"
  then consider "n < 8" | "8 \<le> n" "n < 16" | "16 \<le> n" "n < 32" by fastforce
  then show "bit (push_bit 8 (ucast (ucast (drop_bit 8 b) :: u8)) OR ucast (ucast b :: u8) :: u32) n
    = bit (ucast (ucast b :: u16) :: u32) n"
    by cases (auto simp: bit_simps)
qed

lemma refold_4:
  "((push_bit 24 (ucast (ucast (drop_bit 24 (b :: u32)) :: u8) :: u32)
      OR push_bit 16 (ucast (ucast (drop_bit 16 b) :: u8)))
      OR push_bit 8 (ucast (ucast (drop_bit 8 b) :: u8)))
    OR ucast (ucast b :: u8) = b"
proof (rule bit_word_eqI)
  fix n assume "n < LENGTH(32)"
  then consider "n < 8" | "8 \<le> n" "n < 16" | "16 \<le> n" "n < 24" | "24 \<le> n" "n < 32" by fastforce
  then show "bit (((push_bit 24 (ucast (ucast (drop_bit 24 b) :: u8) :: u32)
      OR push_bit 16 (ucast (ucast (drop_bit 16 b) :: u8)))
      OR push_bit 8 (ucast (ucast (drop_bit 8 b) :: u8)))
    OR ucast (ucast b :: u8)) n = bit b n"
    by cases (auto simp: bit_simps)
qed

lemma value_decode_encode:
  assumes ok: "dp_value_ok v" and enc: "migris_dp_value_encode v cap = Inr bs"
  shows "migris_dp_value_decode (dpv_type v) (bs @ rest) = Inr (length bs, v)"
proof -
  let ?w = "migris_dp_type_width (dpv_type v)"
  let ?b = "dpv_as v"
  from enc ok have bs: "bs = map (\<lambda>i. ucast (drop_bit (8 * (?w - 1 - i)) ?b)) [0..<?w]"
    by (auto simp: migris_dp_value_encode_def Let_def dp_value_ok_bits byte_of_u32 split: if_splits)
  have v: "dp_value_from_bits (dpv_type v) ?b = v" and w0: "?w \<noteq> 0"
    using ok by (auto simp: dp_value_ok_def)
  have "dp_value_from_bits (dpv_type v) (fold (\<lambda>b acc. push_bit 8 acc OR ucast b) bs 0)
      = dp_value_from_bits (dpv_type v) ?b"
    using w0 unfolding bs
    by (cases "dpv_type v") (simp_all add: upt_2_4 dp_value_from_bits_def refold_2 refold_4)
  with v w0 show ?thesis
    by (simp add: migris_dp_value_decode_def Let_def bs)
qed

text \<open>The wire image of a value, and that decoding it is the only way to read it.\<close>

definition value_bytes :: "migris_dp_value_t \<Rightarrow> bytes" where
  "value_bytes v = (case migris_dp_value_encode v 4 of Inl _ \<Rightarrow> [] | Inr bs \<Rightarrow> bs)"

lemma encode_value_bytes:
  assumes "migris_dp_type_width (dpv_type v) \<noteq> 0" "migris_dp_type_width (dpv_type v) \<le> cap"
  shows "migris_dp_value_encode v cap = Inr (value_bytes v)"
  using assms type_width_le [of "dpv_type v"] by (auto simp: migris_dp_value_encode_def value_bytes_def Let_def)

lemma length_value_bytes: "length (value_bytes v) = migris_dp_type_width (dpv_type v)"
  using type_width_le [of "dpv_type v"] by (simp add: migris_dp_value_encode_def value_bytes_def Let_def)

lemma decode_value_bytes:
  "dp_value_ok v \<Longrightarrow> migris_dp_value_decode (dpv_type v) (value_bytes v @ rest) = Inr (migris_dp_type_width (dpv_type v), v)"
  using value_decode_encode [of v 4] encode_value_bytes [of v 4] type_width_le [of "dpv_type v"]
  by (simp add: dp_value_ok_def length_value_bytes)

lemma fold_bytes_2: "fold (\<lambda>b acc. push_bit 8 acc OR ucast b) [a, b] (0 :: u32) = push_bit 8 (ucast (a :: u8)) OR ucast b"
  by simp

lemma fold_bytes_4: "fold (\<lambda>b acc. push_bit 8 acc OR ucast b) [a, b, c, d] (0 :: u32) = rd32 (a :: u8) b c d"
  unfolding rd32_def by (rule bit_word_eqI) (auto simp: bit_simps)

lemma value_bytes_decode:
  assumes "migris_dp_value_decode ty inp = Inr (n, v)"
  shows "value_bytes v = take n inp"
proof -
  from value_decode_ok [OF assms] have ok: "dpv_type v = ty" "n = migris_dp_type_width ty" "n \<le> length inp" "n \<noteq> 0"
    by (auto simp: dp_value_ok_def)
  then have v: "v = dp_value_from_bits ty (fold (\<lambda>b acc. push_bit 8 acc OR ucast b) (take n inp) 0)"
    using assms by (auto simp: migris_dp_value_decode_def Let_def split: if_splits)
  consider (one) "n = 1" | (two) "n = 2" | (four) "n = 4" using ok(2,4) by (cases ty) auto
  then show ?thesis
  proof cases
    case one
    with ok(3) obtain a where a: "take n inp = [a]" by (cases inp) auto
    show ?thesis using ok(1,2) one unfolding v a
      by (cases ty) (simp_all add: value_bytes_def migris_dp_value_encode_def Let_def dp_value_bits_def
          dp_value_from_bits_def byte_of_u32)
  next
    case two
    with ok(3) obtain a b where a: "take n inp = [a, b]" by (auto simp: numeral_eq_Suc Suc_le_length_iff)
    have "ucast (drop_bit 8 (push_bit 8 (ucast a) OR ucast b :: u32)) = a" "ucast (push_bit 8 (ucast a) OR ucast b :: u32) = b"
      by (rule bit_word_eqI; auto simp: bit_simps dest: bit_u8_less)+
    moreover have "ucast (drop_bit 8 (ucast (ucast w :: u16) :: u32)) = (ucast (drop_bit 8 w) :: u8)"
      "ucast (ucast (ucast w :: u16) :: u32) = (ucast w :: u8)" for w :: u32
      by (rule bit_word_eqI; auto simp: bit_simps)+
    ultimately show ?thesis using ok(1,2) two unfolding v a fold_bytes_2
      by (cases ty) (simp_all add: value_bytes_def migris_dp_value_encode_def Let_def dp_value_bits_def
          dp_value_from_bits_def byte_of_u32 upt_2_4)
  next
    case four
    with ok(3) obtain a b c d where a: "take n inp = [a, b, c, d]" by (auto simp: numeral_eq_Suc Suc_le_length_iff)
    have "[ucast (drop_bit 24 (rd32 a b c d)), ucast (drop_bit 16 (rd32 a b c d)), ucast (drop_bit 8 (rd32 a b c d)),
        ucast (rd32 a b c d)] = [a, b, c, d]"
      using be32_rd32 [of a b c d] unfolding be32_def byte_of_u32 by simp
    then show ?thesis using ok(1,2) four unfolding v a fold_bytes_4
      by (cases ty) (simp_all add: value_bytes_def migris_dp_value_encode_def Let_def dp_value_bits_def
          dp_value_from_bits_def byte_of_u32 upt_2_4)
  qed
qed

section \<open>The store\<close>

record migris_datapool_t =
  dp_params :: "migris_dp_param_t list"
  dp_count :: nat
  dp_generation :: u32

definition dp_live :: "migris_datapool_t \<Rightarrow> migris_dp_param_t list" where
  "dp_live dp = take (dp_count dp) (dp_params dp)"

definition dp_id_seen :: "migris_dp_param_t list \<Rightarrow> nat \<Rightarrow> u16 \<Rightarrow> bool" where
  "dp_id_seen params before pid = (first_index (\<lambda>p. dpp_id p = pid) (take before params) \<noteq> None)"

fun dp_validate_from :: "nat \<Rightarrow> migris_dp_param_t list \<Rightarrow> nat \<Rightarrow> migris_datapool_status_t" where
  "dp_validate_from i params 0 = DATAPOOL_OK"
| "dp_validate_from i params (Suc left) =
    (if migris_dp_type_width (dpv_type (dpp_value (params ! i))) = 0 then DATAPOOL_ERR_TYPE
     else if dp_id_seen params i (dpp_id (params ! i)) then DATAPOOL_ERR_DUPLICATE
     else dp_validate_from (Suc i) params left)"

definition dp_validate :: "migris_dp_param_t list \<Rightarrow> migris_datapool_status_t" where
  "dp_validate params = dp_validate_from 0 params (length params)"

definition migris_datapool_init ::
  "migris_datapool_t \<Rightarrow> migris_dp_param_t list \<Rightarrow> migris_datapool_status_t \<times> migris_datapool_t" where
  "migris_datapool_init dp params =
    (let dp = dp\<lparr>dp_count := 0, dp_generation := 0\<rparr>; n = length params
     in if MIGRIS_DATAPOOL_CAPACITY < n then (DATAPOOL_ERR_CAPACITY, dp)
        else let rc = dp_validate params
             in if rc \<noteq> DATAPOOL_OK then (rc, dp)
                else (DATAPOOL_OK, dp\<lparr>dp_params := params @ drop n (dp_params dp), dp_count := n\<rparr>))"

definition migris_datapool_find :: "migris_datapool_t \<Rightarrow> u16 \<Rightarrow> migris_dp_param_t option" where
  "migris_datapool_find dp pid =
    (case first_index (\<lambda>p. dpp_id p = pid) (dp_live dp) of
       None \<Rightarrow> None
     | Some i \<Rightarrow> Some (dp_params dp ! i))"

definition migris_datapool_get ::
  "migris_datapool_t \<Rightarrow> u16 \<Rightarrow> migris_datapool_status_t + migris_dp_value_t" where
  "migris_datapool_get dp pid =
    (case migris_datapool_find dp pid of
       None \<Rightarrow> Inl DATAPOOL_ERR_NOT_FOUND
     | Some p \<Rightarrow> Inr (dpp_value p))"

definition migris_datapool_set ::
  "migris_datapool_t \<Rightarrow> u16 \<Rightarrow> migris_dp_value_t \<Rightarrow> migris_datapool_status_t \<times> migris_datapool_t" where
  "migris_datapool_set dp pid v =
    (case first_index (\<lambda>p. dpp_id p = pid) (dp_live dp) of
       None \<Rightarrow> (DATAPOOL_ERR_NOT_FOUND, dp)
     | Some i \<Rightarrow>
         (let p = dp_params dp ! i
          in if dpv_type v \<noteq> dpv_type (dpp_value p) then (DATAPOOL_ERR_TYPE, dp)
             else if dpp_access p \<noteq> DP_ACCESS_READ_WRITE then (DATAPOOL_ERR_READ_ONLY, dp)
             else (DATAPOOL_OK,
                   dp\<lparr>dp_params := (dp_params dp)[i := p\<lparr>dpp_value := v\<rparr>],
                      dp_generation := dp_generation dp + 1\<rparr>)))"

definition migris_datapool_generation :: "migris_datapool_t \<Rightarrow> u32" where
  "migris_datapool_generation dp = dp_generation dp"

section \<open>Serialisation\<close>

text \<open>The image: a count, then id, type code and big-endian value of every live parameter.\<close>

fun dp_serialize_params ::
  "migris_dp_param_t list \<Rightarrow> nat \<Rightarrow> migris_datapool_status_t + bytes" where
  "dp_serialize_params [] room = Inr []"
| "dp_serialize_params (p # ps) room =
    (if room < 3 then Inl DATAPOOL_ERR_BUF_TOO_SMALL
     else case migris_dp_value_encode (dpp_value p) (room - 3) of
       Inl e \<Rightarrow> Inl e
     | Inr bs \<Rightarrow>
         (case dp_serialize_params ps (room - 3 - length bs) of
            Inl e \<Rightarrow> Inl e
          | Inr out \<Rightarrow> Inr (be16 (dpp_id p) @ [dp_type_code (dpv_type (dpp_value p))] @ bs @ out)))"

definition migris_datapool_serialize ::
  "migris_datapool_t \<Rightarrow> nat \<Rightarrow> migris_datapool_status_t + bytes" where
  "migris_datapool_serialize dp out_cap =
    (if out_cap < 2 then Inl DATAPOOL_ERR_BUF_TOO_SMALL
     else case dp_serialize_params (dp_live dp) (out_cap - 2) of
       Inl e \<Rightarrow> Inl e
     | Inr out \<Rightarrow> Inr (be16 (of_nat (dp_count dp)) @ out))"

definition dp_restore_one ::
  "migris_datapool_t \<Rightarrow> u16 \<Rightarrow> migris_dp_type_t \<Rightarrow> migris_dp_value_t \<Rightarrow> migris_datapool_t" where
  "dp_restore_one dp pid ty v =
    (case first_index (\<lambda>p. dpp_id p = pid \<and> dpv_type (dpp_value p) = ty) (dp_live dp) of
       None \<Rightarrow> dp
     | Some j \<Rightarrow> dp\<lparr>dp_params := (dp_params dp)[j := (dp_params dp ! j)\<lparr>dpp_value := v\<rparr>]\<rparr>)"

fun dp_deserialize_records ::
  "nat \<Rightarrow> bytes \<Rightarrow> migris_datapool_t \<Rightarrow> migris_datapool_status_t \<times> migris_datapool_t" where
  "dp_deserialize_records 0 inp dp = (DATAPOOL_OK, dp)"
| "dp_deserialize_records (Suc left) inp dp =
    (if length inp < 3 then (DATAPOOL_ERR_BUF_TOO_SMALL, dp)
     else let pid = rd16_at inp 0; type_code = inp ! 2; inp = drop 3 inp
          in if 6 < type_code then (DATAPOOL_ERR_TYPE, dp)
             else let ty = dp_type_of_code type_code; width = migris_dp_type_width ty
                  in if width = 0 then (DATAPOOL_ERR_TYPE, dp)
                     else if length inp < width then (DATAPOOL_ERR_BUF_TOO_SMALL, dp)
                     else case migris_dp_value_decode ty inp of
                       Inl e \<Rightarrow> (e, dp)
                     | Inr (consumed, v) \<Rightarrow>
                         dp_deserialize_records left (drop consumed inp) (dp_restore_one dp pid ty v))"

definition migris_datapool_deserialize ::
  "migris_datapool_t \<Rightarrow> bytes \<Rightarrow> migris_datapool_status_t \<times> migris_datapool_t" where
  "migris_datapool_deserialize dp inp =
    (if length inp < 2 then (DATAPOOL_ERR_BUF_TOO_SMALL, dp)
     else dp_deserialize_records (unat (rd16_at inp 0)) (drop 2 inp) dp)"

section \<open>Invariant and the map the store implements\<close>

definition dp_inv :: "migris_datapool_t \<Rightarrow> bool" where
  "dp_inv dp \<longleftrightarrow> length (dp_params dp) = MIGRIS_DATAPOOL_CAPACITY
     \<and> dp_count dp \<le> MIGRIS_DATAPOOL_CAPACITY
     \<and> distinct (map dpp_id (dp_live dp))
     \<and> (\<forall>p \<in> set (dp_live dp). migris_dp_type_width (dpv_type (dpp_value p)) \<noteq> 0)"

definition dp_values_ok :: "migris_datapool_t \<Rightarrow> bool" where
  "dp_values_ok dp \<longleftrightarrow> (\<forall>p \<in> set (dp_live dp). dp_value_ok (dpp_value p))"

lemma length_dp_live [simp]: "dp_inv dp \<Longrightarrow> length (dp_live dp) = dp_count dp"
  by (simp add: dp_inv_def dp_live_def)

lemma dp_live_nth: "i < length (dp_live dp) \<Longrightarrow> dp_live dp ! i = dp_params dp ! i"
  by (simp add: dp_live_def)

lemma dp_live_update:
  "dp_live (dp\<lparr>dp_params := (dp_params dp)[i := p], dp_generation := g\<rparr>) = (dp_live dp)[i := p]"
  "dp_live (dp\<lparr>dp_params := (dp_params dp)[i := p]\<rparr>) = (dp_live dp)[i := p]"
  by (simp_all add: dp_live_def take_update_swap)

lemma find_live_nth:
  "migris_datapool_find dp pid =
     map_option (\<lambda>i. dp_live dp ! i) (first_index (\<lambda>p. dpp_id p = pid) (dp_live dp))"
  by (auto simp: migris_datapool_find_def dp_live_nth dest: first_index_less split: option.split)

lemma find_Some_live:
  "migris_datapool_find dp pid = Some p \<Longrightarrow> p \<in> set (dp_live dp) \<and> dpp_id p = pid"
  by (auto simp: find_live_nth dest!: first_index_Some)

lemma find_None_live:
  "migris_datapool_find dp pid = None \<longleftrightarrow> pid \<notin> dpp_id ` set (dp_live dp)"
  by (auto simp: find_live_nth first_index_None)

lemma distinct_ids_unique:
  "distinct (map f xs) \<Longrightarrow> i < length xs \<Longrightarrow> j < length xs \<Longrightarrow> f (xs ! i) = f (xs ! j) \<Longrightarrow> i = j"
  using nth_eq_iff_index_eq [of "map f xs" i j] by simp

lemma find_live_iff:
  assumes "dp_inv dp"
  shows "migris_datapool_find dp pid = Some p \<longleftrightarrow> p \<in> set (dp_live dp) \<and> dpp_id p = pid"
proof
  assume "p \<in> set (dp_live dp) \<and> dpp_id p = pid"
  then obtain i where i: "i < length (dp_live dp)" "dp_live dp ! i = p" "dpp_id p = pid"
    by (auto simp: in_set_conv_nth)
  from assms have d: "distinct (map dpp_id (dp_live dp))" by (simp add: dp_inv_def)
  have "first_index (\<lambda>p. dpp_id p = pid) (dp_live dp) = Some i"
    by (rule first_index_unique) (use i distinct_ids_unique [OF d] in auto)
  with i show "migris_datapool_find dp pid = Some p" by (simp add: find_live_nth)
qed (rule find_Some_live)

lemma nth_update_ids: "i < length xs \<Longrightarrow> f p = f (xs ! i) \<Longrightarrow> map f (xs[i := p]) = map f xs"
  by (metis list_update_id map_update)

lemma first_index_key: "map f xs = map f ys \<Longrightarrow> first_index (\<lambda>p. f p = k) xs = first_index (\<lambda>p. f p = k) ys"
proof (induction xs arbitrary: ys)
  case (Cons x xs)
  then show ?case by (cases ys) auto
qed simp

lemma first_index_two:
  assumes "first_index (\<lambda>p. f p = a) xs = Some i" "first_index (\<lambda>p. f p = b) xs = Some j"
  shows "j = i \<longleftrightarrow> b = a"
proof
  assume "j = i"
  with first_index_nth [OF assms(1)] first_index_nth [OF assms(2)] show "b = a" by simp
next
  assume "b = a"
  with assms show "j = i" by simp
qed

lemma find_after_update:
  assumes i: "i < length (dp_live dp)" "first_index (\<lambda>p. dpp_id p = pid) (dp_live dp) = Some i"
    and live: "dp_live dp' = (dp_live dp)[i := p]" and p: "dpp_id p = pid"
  shows "migris_datapool_find dp' k = ((migris_datapool_find dp)(pid \<mapsto> p)) k"
proof -
  have "dpp_id (dp_live dp ! i) = pid" using i(2) by (rule first_index_nth)
  with i(1) p have "map dpp_id (dp_live dp') = map dpp_id (dp_live dp)"
    unfolding live by (intro nth_update_ids) simp_all
  note same = first_index_key [OF this, of k]
  show ?thesis
  proof (cases "first_index (\<lambda>p. dpp_id p = k) (dp_live dp)")
    case None
    with i(2) have "k \<noteq> pid" by (metis option.distinct(1))
    then show ?thesis using None by (simp add: find_live_nth same)
  next
    case (Some j)
    note ji = first_index_two [OF i(2) Some]
    have "migris_datapool_find dp' k = Some ((dp_live dp)[i := p] ! j)"
      by (simp add: find_live_nth same Some) (simp add: live)
    also have "\<dots> = (if j = i then Some p else Some (dp_live dp ! j))" using i(1) by simp
    finally show ?thesis using Some ji by (simp add: find_live_nth)
  qed
qed

text \<open>The pool's operations in terms of its map from ids to parameters.\<close>

lemma set_eq_find:
  "migris_datapool_set dp pid v =
    (case migris_datapool_find dp pid of
       None \<Rightarrow> (DATAPOOL_ERR_NOT_FOUND, dp)
     | Some p \<Rightarrow>
         if dpv_type v \<noteq> dpv_type (dpp_value p) then (DATAPOOL_ERR_TYPE, dp)
         else if dpp_access p \<noteq> DP_ACCESS_READ_WRITE then (DATAPOOL_ERR_READ_ONLY, dp)
         else (DATAPOOL_OK,
               dp\<lparr>dp_params := (dp_params dp)[the (first_index (\<lambda>p. dpp_id p = pid) (dp_live dp))
                    := p\<lparr>dpp_value := v\<rparr>],
                  dp_generation := dp_generation dp + 1\<rparr>))"
  by (auto simp: migris_datapool_set_def migris_datapool_find_def Let_def split: option.split)

lemma dp_inv_update:
  assumes "dp_inv dp" "i < length (dp_live dp)" "dp_live dp' = (dp_live dp)[i := p]"
    "length (dp_params dp') = length (dp_params dp)" "dp_count dp' = dp_count dp"
    "dpp_id p = dpp_id (dp_live dp ! i)" "migris_dp_type_width (dpv_type (dpp_value p)) \<noteq> 0"
  shows "dp_inv dp'"
  using assms set_update_subset_insert [of "dp_live dp" i p]
  by (auto simp: dp_inv_def nth_update_ids)

lemma set_OK_find:
  assumes inv: "dp_inv dp" and p: "migris_datapool_find dp pid = Some p"
    and ty: "dpv_type v = dpv_type (dpp_value p)" and rw: "dpp_access p = DP_ACCESS_READ_WRITE"
  shows "\<exists>dp'. migris_datapool_set dp pid v = (DATAPOOL_OK, dp') \<and> dp_inv dp'
     \<and> migris_datapool_find dp' = (migris_datapool_find dp)(pid \<mapsto> p\<lparr>dpp_value := v\<rparr>)
     \<and> dp_generation dp' = dp_generation dp + 1"
proof -
  from p obtain i where i: "first_index (\<lambda>p. dpp_id p = pid) (dp_live dp) = Some i"
    "i < length (dp_live dp)" "dp_live dp ! i = p" "dpp_id p = pid"
    by (auto simp: find_live_nth dest: first_index_Some)
  let ?dp = "dp\<lparr>dp_params := (dp_params dp)[i := p\<lparr>dpp_value := v\<rparr>], dp_generation := dp_generation dp + 1\<rparr>"
  have w: "migris_dp_type_width (dpv_type (dpp_value p)) \<noteq> 0"
    using inv i(2,3) by (auto simp: dp_inv_def)
  have "migris_datapool_set dp pid v = (DATAPOOL_OK, ?dp)"
    using p ty rw i(1) by (simp add: set_eq_find)
  moreover have "dp_inv ?dp"
    by (rule dp_inv_update [OF inv i(2) dp_live_update(1)]) (use i ty w in auto)
  moreover have "migris_datapool_find ?dp = (migris_datapool_find dp)(pid \<mapsto> p\<lparr>dpp_value := v\<rparr>)"
    by (rule ext, rule find_after_update [OF i(2,1) dp_live_update(1)]) (simp add: i)
  ultimately show ?thesis by simp
qed

lemma set_fail_unchanged:
  "migris_datapool_set dp pid v = (st, dp') \<Longrightarrow> st \<noteq> DATAPOOL_OK \<Longrightarrow> dp' = dp"
  by (auto simp: set_eq_find split: option.splits if_splits)

lemma set_cases:
  assumes "dp_inv dp" "migris_datapool_set dp pid v = (st, dp')"
  obtains (fail) "st \<noteq> DATAPOOL_OK" "dp' = dp"
    | (ok) p where "st = DATAPOOL_OK" "migris_datapool_find dp pid = Some p"
        "dpv_type v = dpv_type (dpp_value p)" "dpp_access p = DP_ACCESS_READ_WRITE" "dp_inv dp'"
        "migris_datapool_find dp' = (migris_datapool_find dp)(pid \<mapsto> p\<lparr>dpp_value := v\<rparr>)"
        "dp_generation dp' = dp_generation dp + 1"
proof (cases "st = DATAPOOL_OK")
  case True
  with assms(2) obtain p where "migris_datapool_find dp pid = Some p"
    "dpv_type v = dpv_type (dpp_value p)" "dpp_access p = DP_ACCESS_READ_WRITE"
    by (auto simp: set_eq_find split: option.splits if_splits)
  with set_OK_find [OF assms(1) this] assms(2) True show thesis by (auto intro!: ok)
next
  case False
  with assms(2) show thesis by (auto intro: fail dest: set_fail_unchanged)
qed

lemma set_dp_inv: "dp_inv dp \<Longrightarrow> migris_datapool_set dp pid v = (st, dp') \<Longrightarrow> dp_inv dp'"
  by (rule set_cases [of dp pid v st dp']) auto

lemma get_eq_find:
  "migris_datapool_get dp pid = Inr v \<longleftrightarrow> (\<exists>p. migris_datapool_find dp pid = Some p \<and> v = dpp_value p)"
  by (auto simp: migris_datapool_get_def split: option.splits)

text \<open>Initialisation: the declared set passes validation exactly when it is well formed.\<close>

lemma dp_id_seen_iff:
  "dp_id_seen params k pid \<longleftrightarrow> pid \<in> dpp_id ` set (take k params)"
  using first_index_None [of "\<lambda>p. dpp_id p = pid" "take k params"] by (auto simp: dp_id_seen_def)

lemma validate_from_OK:
  "i + k = length params \<Longrightarrow> dp_validate_from i params k = DATAPOOL_OK \<longleftrightarrow>
    (\<forall>j. i \<le> j \<longrightarrow> j < length params \<longrightarrow> migris_dp_type_width (dpv_type (dpp_value (params ! j))) \<noteq> 0
        \<and> dpp_id (params ! j) \<notin> dpp_id ` set (take j params))"
proof (induction k arbitrary: i)
  case (Suc k)
  from Suc.prems have "(\<forall>j. i \<le> j \<longrightarrow> P j) \<longleftrightarrow> P i \<and> (\<forall>j. Suc i \<le> j \<longrightarrow> P j)" for P
    by (metis Suc_leD Suc_leI le_neq_implies_less order_refl)
  with Suc show ?case by (simp add: dp_id_seen_iff)
qed simp

lemma distinct_map_take:
  "distinct (map f xs) \<longleftrightarrow> (\<forall>j < length xs. f (xs ! j) \<notin> f ` set (take j xs))"
proof (induction xs rule: rev_induct)
  case (snoc x xs)
  then show ?case by (auto simp: nth_append less_Suc_eq)
qed simp

lemma dp_validate_OK:
  "dp_validate params = DATAPOOL_OK \<longleftrightarrow> distinct (map dpp_id params)
     \<and> (\<forall>p \<in> set params. migris_dp_type_width (dpv_type (dpp_value p)) \<noteq> 0)"
  by (auto simp: dp_validate_def validate_from_OK distinct_map_take all_set_conv_all_nth)

lemma init_result:
  assumes "length (dp_params dp) = MIGRIS_DATAPOOL_CAPACITY" "migris_datapool_init dp params = (st, dp')"
  shows "dp_inv dp'" and "st = DATAPOOL_OK \<Longrightarrow> dp_live dp' = params"
    and "st \<noteq> DATAPOOL_OK \<Longrightarrow> dp_live dp' = []"
    and "dp_generation dp' = 0"
    and "st = DATAPOOL_OK \<longleftrightarrow> length params \<le> MIGRIS_DATAPOOL_CAPACITY \<and> distinct (map dpp_id params)
      \<and> (\<forall>p \<in> set params. migris_dp_type_width (dpv_type (dpp_value p)) \<noteq> 0)"
  using assms
  by (auto simp: migris_datapool_init_def Let_def dp_inv_def dp_live_def dp_validate_OK
      split: if_splits)

section \<open>The parameter-store interface\<close>

text \<open>
  What the parameter services rely on: a set that passes the type and access tests succeeds and
  is a map update; a refused one changes nothing. The client lemma: a batch of acceptable sets,
  applied in order, never fails and is the fold of the map updates.
\<close>

definition dp_acceptable :: "migris_dp_param_t option \<Rightarrow> migris_dp_value_t \<Rightarrow> bool" where
  "dp_acceptable slot v \<longleftrightarrow> (case slot of None \<Rightarrow> False
     | Some p \<Rightarrow> dpv_type v = dpv_type (dpp_value p) \<and> dpp_access p = DP_ACCESS_READ_WRITE)"

definition dp_updated ::
  "(u16 \<rightharpoonup> migris_dp_param_t) \<Rightarrow> u16 \<Rightarrow> migris_dp_value_t \<Rightarrow> (u16 \<rightharpoonup> migris_dp_param_t)" where
  "dp_updated m pid v = m(pid := map_option (\<lambda>p. p\<lparr>dpp_value := v\<rparr>) (m pid))"

fun dp_apply_all ::
  "('s \<Rightarrow> u16 \<Rightarrow> migris_dp_value_t \<Rightarrow> migris_datapool_status_t \<times> 's) \<Rightarrow> 's \<Rightarrow>
   (u16 \<times> migris_dp_value_t) list \<Rightarrow> 's" where
  "dp_apply_all st_set s [] = s"
| "dp_apply_all st_set s ((pid, v) # ws) = dp_apply_all st_set (snd (st_set s pid v)) ws"

locale param_store =
  fixes st_find :: "'s \<Rightarrow> u16 \<Rightarrow> migris_dp_param_t option"
    and st_set :: "'s \<Rightarrow> u16 \<Rightarrow> migris_dp_value_t \<Rightarrow> migris_datapool_status_t \<times> 's"
    and st_inv :: "'s \<Rightarrow> bool"
  assumes set_accepted: "st_inv s \<Longrightarrow> dp_acceptable (st_find s pid) v \<Longrightarrow>
      fst (st_set s pid v) = DATAPOOL_OK
      \<and> st_find (snd (st_set s pid v)) = dp_updated (st_find s) pid v"
    and set_refused: "\<not> dp_acceptable (st_find s pid) v \<Longrightarrow>
      fst (st_set s pid v) \<noteq> DATAPOOL_OK \<and> snd (st_set s pid v) = s"
    and set_inv: "st_inv s \<Longrightarrow> st_inv (snd (st_set s pid v))"
begin

lemma set_status: "st_inv s \<Longrightarrow> fst (st_set s pid v) = DATAPOOL_OK \<longleftrightarrow> dp_acceptable (st_find s pid) v"
  using set_accepted set_refused by blast

lemma acceptable_after_set:
  "st_inv s \<Longrightarrow> dp_acceptable (st_find s pid) v \<Longrightarrow>
     dp_acceptable (st_find (snd (st_set s pid v)) k) w = dp_acceptable (st_find s k) w"
  using set_accepted [of s pid v]
  by (auto simp: dp_acceptable_def dp_updated_def split: option.splits)

lemma apply_all_inv: "st_inv s \<Longrightarrow> st_inv (dp_apply_all st_set s ws)"
  by (induction ws arbitrary: s) (auto simp: set_inv)

lemma apply_all_find:
  assumes "st_inv s" "\<forall>(pid, v) \<in> set ws. dp_acceptable (st_find s pid) v"
  shows "st_find (dp_apply_all st_set s ws) = fold (\<lambda>(pid, v) m. dp_updated m pid v) ws (st_find s)"
  using assms
proof (induction ws arbitrary: s)
  case (Cons w ws)
  obtain pid v where w: "w = (pid, v)" by force
  from Cons.prems w have acc: "dp_acceptable (st_find s pid) v" by simp
  have "\<forall>(pid', v') \<in> set ws. dp_acceptable (st_find (snd (st_set s pid v)) pid') v'"
    using Cons.prems acceptable_after_set [OF Cons.prems(1) acc] by auto
  with Cons.IH set_inv [OF Cons.prems(1)] set_accepted [OF Cons.prems(1) acc] show ?case
    by (simp add: w)
qed simp

lemma apply_all_each_OK:
  assumes "st_inv s" "\<forall>(pid, v) \<in> set (us @ (pid, v) # ws). dp_acceptable (st_find s pid) v"
  shows "fst (st_set (dp_apply_all st_set s us) pid v) = DATAPOOL_OK"
  using assms
proof (induction us arbitrary: s)
  case (Cons u us)
  obtain k x where u: "u = (k, x)" by force
  from Cons.prems u have acc: "dp_acceptable (st_find s k) x" by simp
  have "\<forall>(pid', v') \<in> set (us @ (pid, v) # ws). dp_acceptable (st_find (snd (st_set s k x)) pid') v'"
    using Cons.prems acceptable_after_set [OF Cons.prems(1) acc] by auto
  with Cons.IH set_inv [OF Cons.prems(1)] show ?case by (simp add: u)
qed (simp add: set_status)

end

interpretation dpool: param_store migris_datapool_find migris_datapool_set dp_inv
proof unfold_locales
  fix s pid v
  assume inv: "dp_inv s" and acc: "dp_acceptable (migris_datapool_find s pid) v"
  then obtain p where p: "migris_datapool_find s pid = Some p"
    "dpv_type v = dpv_type (dpp_value p)" "dpp_access p = DP_ACCESS_READ_WRITE"
    by (auto simp: dp_acceptable_def split: option.splits)
  with set_OK_find [OF inv p] show "fst (migris_datapool_set s pid v) = DATAPOOL_OK
      \<and> migris_datapool_find (snd (migris_datapool_set s pid v)) = dp_updated (migris_datapool_find s) pid v"
    by (auto simp: dp_updated_def)
next
  fix s pid v
  show "dp_inv s \<Longrightarrow> dp_inv (snd (migris_datapool_set s pid v))"
    by (metis set_dp_inv surjective_pairing)
qed (auto simp: set_eq_find dp_acceptable_def split: option.splits if_splits)

section \<open>Image round trip\<close>

lemma dp_type_of_code_code:
  "migris_dp_type_width ty \<noteq> 0 \<Longrightarrow> dp_type_of_code (dp_type_code ty) = ty \<and> dp_type_code ty \<le> 6"
  by (cases ty) (auto simp: dp_type_of_code_def)

lemma dp_type_of_code_width: "c \<le> 6 \<Longrightarrow> migris_dp_type_width (dp_type_of_code c) \<noteq> 0"
proof -
  assume "c \<le> (6 :: u8)"
  then have "unat c \<le> 6" by (simp add: word_le_nat_alt)
  then have "unat c = 0 \<or> unat c = 1 \<or> unat c = 2 \<or> unat c = 3 \<or> unat c = 4 \<or> unat c = 5 \<or> unat c = 6"
    by arith
  moreover have "c = of_nat (unat c)" by simp
  ultimately have "c \<in> {0, 1, 2, 3, 4, 5, 6}" by (elim disjE) simp_all
  then show ?thesis by (auto simp: dp_type_of_code_def)
qed

text \<open>
  Restoring one record overlays one value of the pool's map, if the pool has that id with
  that type; the whole image overlays the values of the saved pool.
\<close>

definition dp_overlay :: "migris_dp_param_t option \<Rightarrow> migris_dp_param_t option \<Rightarrow> migris_dp_param_t option" where
  "dp_overlay mine saved = (case (mine, saved) of
     (Some p, Some q) \<Rightarrow>
       if dpv_type (dpp_value p) = dpv_type (dpp_value q) then Some (p\<lparr>dpp_value := dpp_value q\<rparr>) else Some p
   | (m, _) \<Rightarrow> m)"

lemma restore_one_find:
  assumes inv: "dp_inv dp" and ty: "dpv_type v = ty"
  shows "dp_inv (dp_restore_one dp pid ty v) \<and> migris_datapool_find (dp_restore_one dp pid ty v) =
    (\<lambda>k. if k = pid then dp_overlay (migris_datapool_find dp pid) (Some \<lparr>dpp_id = pid, dpp_access = a, dpp_value = v\<rparr>)
        else migris_datapool_find dp k)"
proof (cases "first_index (\<lambda>p. dpp_id p = pid \<and> dpv_type (dpp_value p) = ty) (dp_live dp)")
  case None
  then have "migris_datapool_find dp pid = Some p \<Longrightarrow> dpv_type (dpp_value p) \<noteq> ty" for p
    by (auto simp: first_index_None dest: find_Some_live)
  with None show ?thesis
    using inv ty by (auto simp: dp_restore_one_def dp_overlay_def split: option.splits)
next
  case (Some j)
  let ?p = "dp_live dp ! j"
  from Some have j: "j < length (dp_live dp)" "dpp_id ?p = pid" "dpv_type (dpp_value ?p) = ty"
    by (auto dest: first_index_Some)
  let ?dp = "dp\<lparr>dp_params := (dp_params dp)[j := (dp_params dp ! j)\<lparr>dpp_value := v\<rparr>]\<rparr>"
  have d: "distinct (map dpp_id (dp_live dp))" using inv by (simp add: dp_inv_def)
  have fi: "first_index (\<lambda>p. dpp_id p = pid) (dp_live dp) = Some j"
    by (rule first_index_unique) (use j distinct_ids_unique [OF d] in auto)
  have eq: "dp_restore_one dp pid ty v = ?dp" using Some by (simp add: dp_restore_one_def)
  have w: "migris_dp_type_width ty \<noteq> 0" using inv j by (auto simp: dp_inv_def)
  have "dp_inv ?dp"
    by (rule dp_inv_update [OF inv j(1) dp_live_update(2)]) (use j w ty in \<open>auto simp: dp_live_nth\<close>)
  moreover have "migris_datapool_find ?dp k = ((migris_datapool_find dp)(pid \<mapsto> ?p\<lparr>dpp_value := v\<rparr>)) k" for k
    by (rule find_after_update [OF j(1) fi])
      (use j in \<open>simp_all add: dp_live_update dp_live_nth\<close>)
  moreover have "migris_datapool_find dp pid = Some ?p" by (simp add: find_live_nth fi)
  ultimately show ?thesis using j ty unfolding eq by (auto simp: dp_overlay_def)
qed

definition dp_by_id :: "migris_dp_param_t list \<Rightarrow> u16 \<Rightarrow> migris_dp_param_t option" where
  "dp_by_id ps = map_of (map (\<lambda>p. (dpp_id p, p)) ps)"

lemma dp_by_id_simps [simp]:
  "dp_by_id [] = (\<lambda>_. None)"
  "dp_by_id (p # ps) = (dp_by_id ps)(dpp_id p \<mapsto> p)"
  by (simp_all add: dp_by_id_def)

lemma dp_by_id_None: "dp_by_id ps k = None \<longleftrightarrow> k \<notin> dpp_id ` set ps"
  by (induction ps) auto

lemma find_by_id: "migris_datapool_find dp = dp_by_id (dp_live dp)"
proof
  fix k
  have "map_option (\<lambda>i. xs ! i) (first_index (\<lambda>p. dpp_id p = k) xs) = dp_by_id xs k" for xs
    by (induction xs) (auto simp: option.map_comp o_def)
  then show "migris_datapool_find dp k = dp_by_id (dp_live dp) k" by (simp add: find_live_nth)
qed

lemma dp_overlay_None [simp]: "dp_overlay m None = m"
  by (cases m) (auto simp: dp_overlay_def)

lemma serialize_params_Cons:
  assumes "dp_serialize_params (p # ps) room = Inr img"
  obtains bs out where "migris_dp_value_encode (dpp_value p) (room - 3) = Inr bs"
    "dp_serialize_params ps (room - 3 - length bs) = Inr out" "3 \<le> room"
    "img = be16 (dpp_id p) @ [dp_type_code (dpv_type (dpp_value p))] @ bs @ out"
  using assms by (auto split: if_splits sum.splits)

lemma records_step:
  assumes "dp_value_ok v" "migris_dp_value_encode v cap = Inr bs"
  shows "dp_deserialize_records (Suc n) (be16 pid @ [dp_type_code (dpv_type v)] @ bs @ rest) dp
    = dp_deserialize_records n rest (dp_restore_one dp pid (dpv_type v) v)"
proof -
  have w: "migris_dp_type_width (dpv_type v) \<noteq> 0" using assms(1) by (simp add: dp_value_ok_def)
  have len: "length bs = migris_dp_type_width (dpv_type v)" using length_value_encode [OF assms(2)] by simp
  have d: "drop 3 (be16 pid @ [dp_type_code (dpv_type v)] @ bs @ rest) = bs @ rest"
    and n: "(be16 pid @ [dp_type_code (dpv_type v)] @ bs @ rest) ! 2 = dp_type_code (dpv_type v)"
    by (simp_all add: be16_def)
  show ?thesis
    using w len dp_type_of_code_code [OF w] value_decode_encode [OF assms, of rest]
    unfolding dp_deserialize_records.simps d n by (auto simp: Let_def)
qed

lemma records_round_trip:
  assumes "dp_serialize_params ps room = Inr img" "\<forall>p \<in> set ps. dp_value_ok (dpp_value p)"
    "distinct (map dpp_id ps)" "dp_inv dp"
  shows "\<exists>dp'. dp_deserialize_records (length ps) (img @ rest) dp = (DATAPOOL_OK, dp') \<and> dp_inv dp'
    \<and> migris_datapool_find dp' = (\<lambda>k. dp_overlay (migris_datapool_find dp k) (dp_by_id ps k))"
  using assms
proof (induction ps arbitrary: room img dp)
  case (Cons p ps)
  from Cons.prems(1) obtain bs out where enc: "migris_dp_value_encode (dpp_value p) (room - 3) = Inr bs"
    and out: "dp_serialize_params ps (room - 3 - length bs) = Inr out"
    and img: "img = be16 (dpp_id p) @ [dp_type_code (dpv_type (dpp_value p))] @ bs @ out"
    by (rule serialize_params_Cons)
  let ?dp = "dp_restore_one dp (dpp_id p) (dpv_type (dpp_value p)) (dpp_value p)"
  have step: "dp_deserialize_records (length (p # ps)) (img @ rest) dp
      = dp_deserialize_records (length ps) (out @ rest) ?dp"
    using records_step [OF _ enc, of "length ps" "dpp_id p" "out @ rest" dp] Cons.prems(2) by (simp add: img)
  note one = restore_one_find [OF Cons.prems(4) refl, of "dpp_id p" "dpp_value p" "dpp_access p"]
  from Cons.IH [OF out, of ?dp] Cons.prems one obtain dp' where
    dp': "dp_deserialize_records (length ps) (out @ rest) ?dp = (DATAPOOL_OK, dp')" "dp_inv dp'"
    "migris_datapool_find dp' = (\<lambda>k. dp_overlay (migris_datapool_find ?dp k) (dp_by_id ps k))"
    by auto
  have "\<lparr>dpp_id = dpp_id p, dpp_access = dpp_access p, dpp_value = dpp_value p\<rparr> = p" by (cases p) simp
  note one = one [unfolded this]
  have "dp_by_id ps (dpp_id p) = None" using Cons.prems(3) by (simp add: dp_by_id_None)
  then have "migris_datapool_find dp' = (\<lambda>k. dp_overlay (migris_datapool_find dp k) (dp_by_id (p # ps) k))"
    unfolding dp'(3) using one by (intro ext) simp
  with dp' step show ?case by auto
qed simp

lemma serialize_Inr_count:
  "dp_inv dp \<Longrightarrow> unat (of_nat (dp_count dp) :: u16) = dp_count dp"
  by (simp add: unat_of_nat_u16 dp_inv_def fsw_const)

lemma deserialize_serialize:
  assumes inv: "dp_inv dp" "dp_inv dp0" and ok: "dp_values_ok dp"
    and ser: "migris_datapool_serialize dp cap = Inr img"
  shows "\<exists>dp'. migris_datapool_deserialize dp0 (img @ rest) = (DATAPOOL_OK, dp') \<and> dp_inv dp'
    \<and> (\<forall>k. migris_datapool_find dp' k = dp_overlay (migris_datapool_find dp0 k) (migris_datapool_find dp k))"
proof -
  from ser obtain out where out: "dp_serialize_params (dp_live dp) (cap - 2) = Inr out"
    and img: "img = be16 (of_nat (dp_count dp)) @ out"
    by (auto simp: migris_datapool_serialize_def split: if_splits sum.splits)
  have "\<forall>p \<in> set (dp_live dp). dp_value_ok (dpp_value p)" "distinct (map dpp_id (dp_live dp))"
    using ok inv by (simp_all add: dp_values_ok_def dp_inv_def)
  from records_round_trip [OF out this inv(2), of rest] inv(1) show ?thesis
    by (auto simp: migris_datapool_deserialize_def img serialize_Inr_count find_by_id)
qed

text \<open>An image never exceeds the buffer, and a large enough buffer always takes it.\<close>

lemma serialize_params_length:
  "dp_serialize_params ps room = Inr out \<Longrightarrow> length out \<le> room \<and> length out \<le> 7 * length ps"
proof (induction ps arbitrary: room out)
  case (Cons p ps)
  from Cons.prems obtain bs out' where "migris_dp_value_encode (dpp_value p) (room - 3) = Inr bs"
    "dp_serialize_params ps (room - 3 - length bs) = Inr out'" "3 \<le> room"
    "out = be16 (dpp_id p) @ [dp_type_code (dpv_type (dpp_value p))] @ bs @ out'"
    by (rule serialize_params_Cons)
  with Cons.IH length_value_encode type_width_le [of "dpv_type (dpp_value p)"] show ?case
    by fastforce
qed simp

lemma serialize_params_Inr:
  "\<forall>p \<in> set ps. migris_dp_type_width (dpv_type (dpp_value p)) \<noteq> 0 \<Longrightarrow> 7 * length ps \<le> room \<Longrightarrow>
     \<exists>out. dp_serialize_params ps room = Inr out"
proof (induction ps arbitrary: room)
  case (Cons p ps)
  let ?w = "migris_dp_type_width (dpv_type (dpp_value p))"
  have w: "?w \<le> room - 3" "3 \<le> room" using Cons.prems(2) type_width_le [of "dpv_type (dpp_value p)"] by auto
  obtain bs where bs: "migris_dp_value_encode (dpp_value p) (room - 3) = Inr bs"
    using Cons.prems(1) w by (auto simp: migris_dp_value_encode_def Let_def)
  have "7 * length ps \<le> room - 3 - length bs"
    using Cons.prems(2) length_value_encode [OF bs] type_width_le [of "dpv_type (dpp_value p)"] by auto
  with Cons.IH Cons.prems(1) bs w show ?case by fastforce
qed simp

section \<open>What a mutation keeps\<close>

text \<open>
  The declaration of a parameter is everything but its value. Sets and restores keep every
  declaration, in order, and the canonical form of the values, whatever their input.
\<close>

definition dp_decl :: "migris_dp_param_t \<Rightarrow> u16 \<times> migris_dp_access_t \<times> migris_dp_type_t" where
  "dp_decl p = (dpp_id p, dpp_access p, dpv_type (dpp_value p))"

definition dp_keeps :: "migris_datapool_t \<Rightarrow> migris_datapool_t \<Rightarrow> bool" where
  "dp_keeps dp dp' \<longleftrightarrow> map dp_decl (dp_live dp') = map dp_decl (dp_live dp) \<and> (dp_values_ok dp \<longrightarrow> dp_values_ok dp')"

lemma dp_keeps_refl [simp]: "dp_keeps dp dp"
  by (simp add: dp_keeps_def)

lemma dp_keeps_trans: "dp_keeps a b \<Longrightarrow> dp_keeps b c \<Longrightarrow> dp_keeps a c"
  by (simp add: dp_keeps_def)

lemma value_update_keeps:
  assumes "i < length (dp_live dp)" "dp_value_ok v" "dpv_type v = dpv_type (dpp_value (dp_live dp ! i))"
    and "dp_live dp' = (dp_live dp)[i := (dp_live dp ! i)\<lparr>dpp_value := v\<rparr>]"
  shows "dp_keeps dp dp'"
proof -
  have "dp_decl ((dp_live dp ! i)\<lparr>dpp_value := v\<rparr>) = dp_decl (dp_live dp ! i)" using assms(3) by (simp add: dp_decl_def)
  then have "map dp_decl (dp_live dp') = map dp_decl (dp_live dp)"
    using assms(1) unfolding assms(4) map_update by (metis length_map list_update_id nth_map)
  moreover have "dp_values_ok dp \<Longrightarrow> dp_values_ok dp'"
    using assms(2,4) set_update_subset_insert [of "dp_live dp" i] by (fastforce simp: dp_values_ok_def)
  ultimately show ?thesis by (simp add: dp_keeps_def)
qed

lemma set_keeps: "dp_value_ok v \<Longrightarrow> dp_keeps dp (snd (migris_datapool_set dp pid v))"
proof (cases "first_index (\<lambda>p. dpp_id p = pid) (dp_live dp)")
  case None
  then show ?thesis by (simp add: migris_datapool_set_def dp_keeps_refl)
next
  case (Some i)
  assume ok: "dp_value_ok v"
  have i: "i < length (dp_live dp)" "dp_params dp ! i = dp_live dp ! i"
    using first_index_Some [OF Some] by (simp_all add: dp_live_nth)
  show ?thesis
    using value_update_keeps [OF i(1) ok] i
    by (auto simp: migris_datapool_set_def Some Let_def dp_keeps_refl dp_live_update)
qed

lemma apply_all_keeps:
  "\<forall>(pid, v) \<in> set ws. dp_value_ok v \<Longrightarrow> dp_keeps dp (dp_apply_all migris_datapool_set dp ws)"
proof (induction ws arbitrary: dp)
  case (Cons w ws)
  obtain pid v where w: "w = (pid, v)" by force
  have "dp_keeps dp (snd (migris_datapool_set dp pid v))" by (rule set_keeps) (use Cons.prems w in auto)
  with Cons w show ?case by (auto intro: dp_keeps_trans)
qed (simp add: dp_keeps_refl)

lemma restore_one_keeps:
  assumes "dp_value_ok v" "dpv_type v = ty"
  shows "dp_keeps dp (dp_restore_one dp pid ty v)" "dp_generation (dp_restore_one dp pid ty v) = dp_generation dp"
proof -
  show "dp_generation (dp_restore_one dp pid ty v) = dp_generation dp"
    by (simp add: dp_restore_one_def split: option.split)
  show "dp_keeps dp (dp_restore_one dp pid ty v)"
  proof (cases "first_index (\<lambda>p. dpp_id p = pid \<and> dpv_type (dpp_value p) = ty) (dp_live dp)")
    case None
    then show ?thesis by (simp add: dp_restore_one_def dp_keeps_refl)
  next
    case (Some i)
    from first_index_Some [OF Some] have i: "i < length (dp_live dp)" "dpv_type (dpp_value (dp_live dp ! i)) = ty" by simp_all
    show ?thesis
      by (rule value_update_keeps [OF i(1) assms(1)])
        (use i assms(2) in \<open>simp_all add: dp_restore_one_def Some dp_live_update dp_live_nth\<close>)
  qed
qed

text \<open>The restore from any bytes at all.\<close>

lemma deserialize_any:
  assumes "dp_inv dp" "migris_datapool_deserialize dp inp = (st, dp')"
  shows "dp_inv dp' \<and> dp_keeps dp dp' \<and> dp_generation dp' = dp_generation dp"
proof -
  have "dp_inv dp' \<and> dp_keeps dp dp' \<and> dp_generation dp' = dp_generation dp"
    if "dp_deserialize_records n inp dp = (st, dp')" "dp_inv dp" for n inp dp
    using that
  proof (induction n arbitrary: inp dp)
    case (Suc n)
    show ?case
    proof (cases "dp' = dp")
      case True
      with Suc.prems show ?thesis by (simp add: dp_keeps_refl)
    next
      case False
      with Suc.prems obtain ty c v pid inp' inp'' where v: "migris_dp_value_decode ty inp' = Inr (c, v)"
        and rest: "dp_deserialize_records n inp'' (dp_restore_one dp pid ty v) = (st, dp')"
        by (auto simp: Let_def split: if_splits sum.splits)
      from value_decode_ok [OF v] have ok: "dp_value_ok v" "dpv_type v = ty" by auto
      have "dp_inv (dp_restore_one dp pid ty v)" using restore_one_find [OF Suc.prems(2) ok(2)] by blast
      from Suc.IH [OF rest this] restore_one_keeps [OF ok, of dp pid] show ?thesis by (auto intro: dp_keeps_trans)
    qed
  qed (simp add: dp_keeps_refl)
  with assms show ?thesis by (auto simp: migris_datapool_deserialize_def dp_keeps_refl split: if_splits)
qed

section \<open>Properties\<close>

text \<open>
  C14: restoring a saved image into a pool with another declared parameter set (a firmware
  update) succeeds and overlays exactly the values whose id and type survive: every other
  parameter, and every access policy, is untouched. Trailing bytes behind the image are ignored.
\<close>
theorem datapool_image_round_trip:
  assumes "dp_inv dp" "dp_inv dp0" "dp_values_ok dp"
    and "migris_datapool_serialize dp cap = Inr img"
  shows "\<exists>dp'. migris_datapool_deserialize dp0 (img @ rest) = (DATAPOOL_OK, dp') \<and> dp_inv dp'
    \<and> (\<forall>k. migris_datapool_find dp' k =
          (case (migris_datapool_find dp0 k, migris_datapool_find dp k) of
             (Some p, Some q) \<Rightarrow>
               if dpv_type (dpp_value p) = dpv_type (dpp_value q)
               then Some (p\<lparr>dpp_value := dpp_value q\<rparr>) else Some p
           | (m, _) \<Rightarrow> m))"
  using deserialize_serialize [OF assms(1,2,3,4), of rest] by (simp add: dp_overlay_def)

definition dp_pad :: "migris_dp_param_t list \<Rightarrow> migris_datapool_t" where
  "dp_pad ps = \<lparr>dp_params = ps @ replicate (16 - length ps) \<lparr>dpp_id = 0, dpp_access = DP_ACCESS_READ_ONLY, dpp_value = migris_dp_u8 0\<rparr>,
     dp_count = length ps, dp_generation = 0\<rparr>"

definition dp_example :: "migris_datapool_t" where
  "dp_example = dp_pad [\<lparr>dpp_id = 0x0101, dpp_access = DP_ACCESS_READ_WRITE, dpp_value = migris_dp_u16 0xBEEF\<rparr>,
     \<lparr>dpp_id = 0x0102, dpp_access = DP_ACCESS_READ_ONLY, dpp_value = migris_dp_i8 0xFF\<rparr>]"

lemma dp_example_ok: "dp_inv dp_example" "dp_values_ok dp_example"
  by (simp_all add: dp_example_def dp_pad_def dp_inv_def dp_values_ok_def dp_live_def fsw_const dp_constructors_ok)
    (simp_all add: migris_dp_u16_def migris_dp_i8_def)

lemma datapool_image_round_trip_witness:
  "\<exists>dp'. migris_datapool_deserialize dp_example ([0, 2, 1, 1, 1, 0xBE, 0xEF, 1, 2, 3, 0xFF] @ [7]) = (DATAPOOL_OK, dp') \<and> dp_inv dp'
    \<and> (\<forall>k. migris_datapool_find dp' k =
          (case (migris_datapool_find dp_example k, migris_datapool_find dp_example k) of
             (Some p, Some q) \<Rightarrow>
               if dpv_type (dpp_value p) = dpv_type (dpp_value q)
               then Some (p\<lparr>dpp_value := dpp_value q\<rparr>) else Some p
           | (m, _) \<Rightarrow> m))"
  by (rule datapool_image_round_trip [OF dp_example_ok(1) dp_example_ok(1) dp_example_ok(2), of 64])
    (simp add: dp_example_def dp_pad_def dp_live_def migris_datapool_serialize_def migris_dp_value_encode_def
      migris_dp_u16_def migris_dp_i8_def dp_value_bits_def be16_def Let_def upt_2_4 upt_rec [of 0 1])

text \<open>
  C13: a set is accepted exactly when the id is declared, the type matches and the parameter is
  writable; it then updates that one value and advances the generation by one; every refusal
  names its reason and leaves the pool (the generation included) as it was. Either way the pool
  stays well formed.
\<close>
theorem datapool_set_contract:
  assumes "dp_inv dp" and "migris_datapool_set dp pid v = (st, dp')"
  shows "dp_inv dp' \<and> (case migris_datapool_find dp pid of
      None \<Rightarrow> st = DATAPOOL_ERR_NOT_FOUND \<and> dp' = dp
    | Some p \<Rightarrow>
        if dpv_type v \<noteq> dpv_type (dpp_value p) then st = DATAPOOL_ERR_TYPE \<and> dp' = dp
        else if dpp_access p = DP_ACCESS_READ_ONLY then st = DATAPOOL_ERR_READ_ONLY \<and> dp' = dp
        else st = DATAPOOL_OK
           \<and> migris_datapool_find dp' = (migris_datapool_find dp)(pid \<mapsto> p\<lparr>dpp_value := v\<rparr>)
           \<and> migris_datapool_generation dp' = migris_datapool_generation dp + 1)"
proof -
  have ro: "dpp_access p \<noteq> DP_ACCESS_READ_WRITE \<longleftrightarrow> dpp_access p = DP_ACCESS_READ_ONLY" for p
    by (cases "dpp_access p") auto
  show ?thesis
    using set_OK_find [OF assms(1)] assms set_dp_inv [OF assms]
    by (fastforce simp: set_eq_find ro migris_datapool_generation_def split: option.splits if_splits)
qed

lemma datapool_set_contract_witness:
  "migris_datapool_find (snd (migris_datapool_set dp_example 0x0101 (migris_dp_u16 7))) 0x0101
     = Some \<lparr>dpp_id = 0x0101, dpp_access = DP_ACCESS_READ_WRITE, dpp_value = migris_dp_u16 7\<rparr>"
proof -
  have "migris_datapool_find dp_example 0x0101
      = Some \<lparr>dpp_id = 0x0101, dpp_access = DP_ACCESS_READ_WRITE, dpp_value = migris_dp_u16 0xBEEF\<rparr>"
    by (simp add: find_by_id dp_example_def dp_pad_def dp_live_def)
  with datapool_set_contract [OF dp_example_ok(1) surjective_pairing, of "0x0101" "migris_dp_u16 7"]
  show ?thesis by (simp add: migris_dp_u16_def)
qed

end
