(* ===== verification/Schedule.thy ===== *)
theory Schedule
  imports Prelude "HOL-Library.Multiset"
begin

text \<open>
  lib/schedule: the bounded, time-tagged telecommand store of PUS-11. The C array
  \<open>activities\<close> is a list of MIGRIS_SCHEDULE_CAPACITY elements whose first \<open>sch_count\<close> are
  live; the pair tc / tc_len of an activity is the list of its tc_len bytes (the bytes of the
  C array behind tc_len are never read). The theory proves the invariant of the store (unique
  request identifiers), that its operations implement a map from request identifiers to
  activities, that due activities leave in time order, and the image round trip; the locale
  \<open>activity_store\<close> is what the PUS-11 handlers rely on.
\<close>

section \<open>Data\<close>

definition MIGRIS_SCHEDULE_CAPACITY :: nat where
  [fsw_const]: "MIGRIS_SCHEDULE_CAPACITY = 16"

definition MIGRIS_SCHEDULE_TC_MAX :: nat where
  [fsw_const]: "MIGRIS_SCHEDULE_TC_MAX = 64"

definition MIGRIS_SCHEDULE_REQUEST_ID_SIZE :: nat where
  [fsw_const]: "MIGRIS_SCHEDULE_REQUEST_ID_SIZE = 4"

record migris_schedule_activity_t =
  act_release_time :: u32
  act_tc :: bytes

record migris_schedule_t =
  sch_activities :: "migris_schedule_activity_t list"
  sch_count :: nat
  sch_enabled :: bool
  sch_generation :: u32

datatype migris_schedule_status_t =
    SCHEDULE_OK | SCHEDULE_ERR_BAD_ARG | SCHEDULE_ERR_FULL | SCHEDULE_ERR_TC_TOO_LARGE
  | SCHEDULE_ERR_DUPLICATE | SCHEDULE_ERR_NOT_FOUND | SCHEDULE_ERR_BUF_TOO_SMALL
  | SCHEDULE_ERR_TRUNCATED

definition sch_live :: "migris_schedule_t \<Rightarrow> migris_schedule_activity_t list" where
  "sch_live s = take (sch_count s) (sch_activities s)"

section \<open>Operations\<close>

definition migris_schedule_init :: "migris_schedule_t \<Rightarrow> migris_schedule_t" where
  "migris_schedule_init s = s\<lparr>sch_count := 0, sch_enabled := False, sch_generation := 0\<rparr>"

definition migris_schedule_reset :: "migris_schedule_t \<Rightarrow> migris_schedule_t" where
  "migris_schedule_reset s = s\<lparr>sch_count := 0, sch_generation := sch_generation s + 1\<rparr>"

definition migris_schedule_set_enabled :: "migris_schedule_t \<Rightarrow> bool \<Rightarrow> migris_schedule_t" where
  "migris_schedule_set_enabled s enabled =
    (if sch_enabled s = enabled then s
     else s\<lparr>sch_enabled := enabled, sch_generation := sch_generation s + 1\<rparr>)"

definition migris_schedule_is_enabled :: "migris_schedule_t \<Rightarrow> bool" where
  "migris_schedule_is_enabled s = sch_enabled s"

definition migris_schedule_count :: "migris_schedule_t \<Rightarrow> nat" where
  "migris_schedule_count s = sch_count s"

definition sched_request_id_eq :: "bytes \<Rightarrow> bytes \<Rightarrow> bool" where
  "sched_request_id_eq a b \<longleftrightarrow>
     take MIGRIS_SCHEDULE_REQUEST_ID_SIZE a = take MIGRIS_SCHEDULE_REQUEST_ID_SIZE b"

definition sched_index_of :: "migris_schedule_t \<Rightarrow> bytes \<Rightarrow> nat option" where
  "sched_index_of s request_id = first_index (\<lambda>a. sched_request_id_eq (act_tc a) request_id) (sch_live s)"

definition migris_schedule_insert ::
  "migris_schedule_t \<Rightarrow> u32 \<Rightarrow> bytes \<Rightarrow> migris_schedule_status_t \<times> migris_schedule_t" where
  "migris_schedule_insert s release_time tc =
    (if length tc < MIGRIS_SCHEDULE_REQUEST_ID_SIZE then (SCHEDULE_ERR_BAD_ARG, s)
     else if MIGRIS_SCHEDULE_TC_MAX < length tc then (SCHEDULE_ERR_TC_TOO_LARGE, s)
     else if sched_index_of s tc \<noteq> None then (SCHEDULE_ERR_DUPLICATE, s)
     else if MIGRIS_SCHEDULE_CAPACITY \<le> sch_count s then (SCHEDULE_ERR_FULL, s)
     else (SCHEDULE_OK,
           s\<lparr>sch_activities := (sch_activities s)[sch_count s := \<lparr>act_release_time = release_time, act_tc = tc\<rparr>],
             sch_count := sch_count s + 1,
             sch_generation := sch_generation s + 1\<rparr>))"

text \<open>The O(1) removal: the last entry fills the gap.\<close>

definition sched_remove_at :: "migris_schedule_t \<Rightarrow> nat \<Rightarrow> migris_schedule_t" where
  "sched_remove_at s idx =
    s\<lparr>sch_activities := (sch_activities s)[idx := sch_activities s ! (sch_count s - 1)],
      sch_count := sch_count s - 1,
      sch_generation := sch_generation s + 1\<rparr>"

definition migris_schedule_delete ::
  "migris_schedule_t \<Rightarrow> bytes \<Rightarrow> migris_schedule_status_t \<times> migris_schedule_t" where
  "migris_schedule_delete s request_id =
    (case sched_index_of s request_id of
       None \<Rightarrow> (SCHEDULE_ERR_NOT_FOUND, s)
     | Some idx \<Rightarrow> (SCHEDULE_OK, sched_remove_at s idx))"

definition migris_schedule_find :: "migris_schedule_t \<Rightarrow> bytes \<Rightarrow> migris_schedule_activity_t option" where
  "migris_schedule_find s request_id =
    (case sched_index_of s request_id of
       None \<Rightarrow> None
     | Some idx \<Rightarrow> Some (sch_activities s ! idx))"

definition sched_best_due :: "migris_schedule_activity_t list \<Rightarrow> nat \<Rightarrow> u32 \<Rightarrow> nat option" where
  "sched_best_due acts n now =
    fold (\<lambda>i best.
        if now < act_release_time (acts ! i) then best
        else case best of
               None \<Rightarrow> Some i
             | Some b \<Rightarrow> if act_release_time (acts ! i) < act_release_time (acts ! b) then Some i else Some b)
      [0..<n] None"

definition migris_schedule_pop_due ::
  "migris_schedule_t \<Rightarrow> u32 \<Rightarrow> nat \<Rightarrow> (migris_schedule_status_t + bytes option) \<times> migris_schedule_t" where
  "migris_schedule_pop_due s now_seconds out_cap =
    (if \<not> sch_enabled s then (Inr None, s)
     else case sched_best_due (sch_activities s) (sch_count s) now_seconds of
       None \<Rightarrow> (Inr None, s)
     | Some best \<Rightarrow>
        (let due = sch_activities s ! best
         in if out_cap < length (act_tc due) then (Inl SCHEDULE_ERR_BUF_TOO_SMALL, s)
            else (Inr (Some (act_tc due)), sched_remove_at s best)))"

definition migris_schedule_generation :: "migris_schedule_t \<Rightarrow> u32" where
  "migris_schedule_generation s = sch_generation s"

section \<open>Serialisation\<close>

fun sched_serialize_activities ::
  "migris_schedule_activity_t list \<Rightarrow> nat \<Rightarrow> migris_schedule_status_t + bytes" where
  "sched_serialize_activities [] room = Inr []"
| "sched_serialize_activities (a # as) room =
    (let need = 4 + 2 + length (act_tc a)
     in if room < need then Inl SCHEDULE_ERR_BUF_TOO_SMALL
        else case sched_serialize_activities as (room - need) of
          Inl e \<Rightarrow> Inl e
        | Inr out \<Rightarrow> Inr (be32 (act_release_time a) @ be16 (of_nat (length (act_tc a))) @ act_tc a @ out))"

definition migris_schedule_serialize :: "migris_schedule_t \<Rightarrow> nat \<Rightarrow> migris_schedule_status_t + bytes" where
  "migris_schedule_serialize s out_cap =
    (if out_cap < 3 then Inl SCHEDULE_ERR_BUF_TOO_SMALL
     else case sched_serialize_activities (sch_live s) (out_cap - 3) of
       Inl e \<Rightarrow> Inl e
     | Inr out \<Rightarrow> Inr (be16 (of_nat (sch_count s)) @ [if sch_enabled s then 1 else 0] @ out))"

fun sched_deserialize_activities ::
  "nat \<Rightarrow> bytes \<Rightarrow> migris_schedule_t \<Rightarrow> migris_schedule_status_t \<times> migris_schedule_t" where
  "sched_deserialize_activities 0 inp s = (SCHEDULE_OK, s)"
| "sched_deserialize_activities (Suc left) inp s =
    (if length inp < 6 then (SCHEDULE_ERR_TRUNCATED, s\<lparr>sch_count := 0\<rparr>)
     else let release_time = rd32_at inp 0; tc_len = unat (rd16_at inp 4); inp = drop 6 inp
          in if tc_len > MIGRIS_SCHEDULE_TC_MAX \<or> tc_len < MIGRIS_SCHEDULE_REQUEST_ID_SIZE
             then (SCHEDULE_ERR_TC_TOO_LARGE, s\<lparr>sch_count := 0\<rparr>)
             else if length inp < tc_len then (SCHEDULE_ERR_TRUNCATED, s\<lparr>sch_count := 0\<rparr>)
             else sched_deserialize_activities left (drop tc_len inp)
                    (s\<lparr>sch_activities := (sch_activities s)[sch_count s :=
                         \<lparr>act_release_time = release_time, act_tc = take tc_len inp\<rparr>],
                       sch_count := sch_count s + 1\<rparr>))"

definition migris_schedule_deserialize ::
  "migris_schedule_t \<Rightarrow> bytes \<Rightarrow> migris_schedule_status_t \<times> migris_schedule_t" where
  "migris_schedule_deserialize s inp =
    (let s = s\<lparr>sch_count := 0, sch_enabled := False\<rparr>
     in if length inp < 3 then (SCHEDULE_ERR_TRUNCATED, s)
        else let count = unat (rd16_at inp 0); enabled = (inp ! 2 \<noteq> 0)
             in if MIGRIS_SCHEDULE_CAPACITY < count then (SCHEDULE_ERR_FULL, s)
                else case sched_deserialize_activities count (drop 3 inp) s of
                  (rc, s) \<Rightarrow> if rc \<noteq> SCHEDULE_OK then (rc, s) else (SCHEDULE_OK, s\<lparr>sch_enabled := enabled\<rparr>))"

section \<open>Invariant\<close>

abbreviation act_id :: "migris_schedule_activity_t \<Rightarrow> bytes" where
  "act_id a \<equiv> take 4 (act_tc a)"

definition sch_inv :: "migris_schedule_t \<Rightarrow> bool" where
  "sch_inv s \<longleftrightarrow> length (sch_activities s) = MIGRIS_SCHEDULE_CAPACITY
     \<and> sch_count s \<le> MIGRIS_SCHEDULE_CAPACITY
     \<and> (\<forall>a \<in> set (sch_live s). 4 \<le> length (act_tc a) \<and> length (act_tc a) \<le> MIGRIS_SCHEDULE_TC_MAX)
     \<and> distinct (map act_id (sch_live s))"

lemma length_sch_live [simp]: "sch_inv s \<Longrightarrow> length (sch_live s) = sch_count s"
  by (simp add: sch_inv_def sch_live_def)

lemma sch_live_nth: "i < sch_count s \<Longrightarrow> i < length (sch_activities s) \<Longrightarrow> sch_live s ! i = sch_activities s ! i"
  by (simp add: sch_live_def)

lemma sch_live_flags [simp]:
  "sch_live (s\<lparr>sch_enabled := b\<rparr>) = sch_live s" "sch_live (s\<lparr>sch_generation := g\<rparr>) = sch_live s"
  "sch_live (s\<lparr>sch_count := 0\<rparr>) = []"
  by (simp_all add: sch_live_def)

lemma index_of_eq: "sched_index_of s rid = first_index (\<lambda>a. act_id a = take 4 rid) (sch_live s)"
  by (simp add: sched_index_of_def sched_request_id_eq_def fsw_const)

lemma sch_live_append:
  assumes "sch_count s < length (sch_activities s)"
  shows "sch_live (s\<lparr>sch_activities := (sch_activities s)[sch_count s := a], sch_count := Suc (sch_count s)\<rparr>)
       = sch_live s @ [a]"
  using assms by (simp add: sch_live_def take_Suc_conv_app_nth)

lemma sch_live_remove:
  assumes "sch_inv s" "i < sch_count s"
  shows "sch_live (sched_remove_at s i) = butlast ((sch_live s)[i := last (sch_live s)])"
proof -
  from assms have len: "sch_count s \<le> length (sch_activities s)" and ne: "sch_live s \<noteq> []"
    by (auto simp: sch_inv_def sch_live_def)
  then have "last (sch_live s) = sch_activities s ! (sch_count s - 1)"
    using assms by (simp add: last_conv_nth sch_live_nth)
  with len show ?thesis
    by (simp add: sch_live_def sched_remove_at_def take_update_swap butlast_take)
      (simp add: butlast_conv_take take_update_swap)
qed

lemma swap_remove:
  assumes "i < length xs"
  shows "mset (butlast (xs[i := last xs])) = mset xs - {#xs ! i#}"
    and "set (butlast (xs[i := last xs])) \<subseteq> set xs"
    and "distinct (map f xs) \<Longrightarrow> distinct (map f (butlast (xs[i := last xs])))"
proof -
  from assms obtain ys y where xs: "xs = ys @ [y]" by (cases xs rule: rev_cases) auto
  have m: "mset (butlast (xs[i := last xs])) = mset xs - {#xs ! i#}"
    using assms by (cases "i < length ys") (auto simp: xs list_update_append nth_append mset_update less_Suc_eq)
  then show "mset (butlast (xs[i := last xs])) = mset xs - {#xs ! i#}" .
  then show "set (butlast (xs[i := last xs])) \<subseteq> set xs"
    by (metis in_diffD set_mset_mset subsetI)
  assume "distinct (map f xs)"
  then show "distinct (map f (butlast (xs[i := last xs])))"
    using assms by (cases "i < length ys")
      (auto simp: xs list_update_append map_update less_Suc_eq simp del: butlast_list_update intro!: distinct_list_update)
qed

lemma remove_at_inv: "sch_inv s \<Longrightarrow> i < sch_count s \<Longrightarrow> sch_inv (sched_remove_at s i)"
proof -
  assume inv: "sch_inv s" and i: "i < sch_count s"
  then have il: "i < length (sch_live s)" by simp
  show ?thesis
    using inv i swap_remove(2) [OF il] swap_remove(3) [OF il, of act_id]
    unfolding sch_inv_def sch_live_remove [OF inv i]
    by (auto simp: sched_remove_at_def)
qed

lemma insert_inv: "sch_inv s \<Longrightarrow> sch_inv (snd (migris_schedule_insert s t tc))"
  by (auto simp: migris_schedule_insert_def)
    (auto simp: sch_inv_def sch_live_append index_of_eq first_index_None fsw_const)

lemma delete_inv: "sch_inv s \<Longrightarrow> sch_inv (snd (migris_schedule_delete s rid))"
  by (auto simp: migris_schedule_delete_def index_of_eq remove_at_inv dest!: first_index_less split: option.split)

lemma reset_inv: "sch_inv s \<Longrightarrow> sch_inv (migris_schedule_reset s)"
  by (simp add: sch_inv_def migris_schedule_reset_def sch_live_def)

lemma set_enabled_inv: "sch_inv s \<Longrightarrow> sch_inv (migris_schedule_set_enabled s b)"
  by (simp add: sch_inv_def migris_schedule_set_enabled_def sch_live_def)

section \<open>The map the store implements\<close>

lemma sch_find_live_iff:
  assumes "sch_inv s"
  shows "migris_schedule_find s rid = Some a \<longleftrightarrow> a \<in> set (sch_live s) \<and> act_id a = take 4 rid"
proof -
  from assms have d: "distinct (map act_id (sch_live s))" by (simp add: sch_inv_def)
  show ?thesis
  proof (cases "sched_index_of s rid")
    case None
    then have "\<forall>x \<in> set (sch_live s). act_id x \<noteq> take 4 rid" by (simp add: index_of_eq first_index_None)
    with None show ?thesis by (auto simp: migris_schedule_find_def)
  next
    case (Some i)
    then have i: "i < length (sch_live s)" "act_id (sch_live s ! i) = take 4 rid"
      by (auto simp: index_of_eq dest: first_index_Some)
    then have "i < length (sch_activities s)" "i < sch_count s" by (auto simp: sch_live_def)
    then have f: "migris_schedule_find s rid = Some (sch_live s ! i)"
      using Some by (simp add: migris_schedule_find_def sch_live_nth)
    have "x = sch_live s ! i" if "x \<in> set (sch_live s)" "act_id x = take 4 rid" for x
      using d that i by (auto simp: distinct_map dest!: inj_onD [where x = x and y = "sch_live s ! i"])
    with f i show ?thesis by auto
  qed
qed

lemma find_None_iff: "migris_schedule_find s rid = None \<longleftrightarrow> (\<forall>a \<in> set (sch_live s). act_id a \<noteq> take 4 rid)"
  unfolding migris_schedule_find_def index_of_eq
    first_index_None [of "\<lambda>a. act_id a = take 4 rid" "sch_live s", symmetric]
  by (simp split: option.split)

lemma find_eqI:
  assumes inv: "sch_inv s" and x: "\<And>a. a \<in> set (sch_live s) \<and> act_id a = take 4 rid \<longleftrightarrow> x = Some a"
  shows "migris_schedule_find s rid = x"
proof -
  have eq: "migris_schedule_find s rid = Some a \<longleftrightarrow> x = Some a" for a
    by (rule trans [OF sch_find_live_iff [OF inv] x])
  then show ?thesis by (metis not_None_eq)
qed

lemma insert_status:
  "fst (migris_schedule_insert s t tc) = SCHEDULE_OK \<longleftrightarrow>
     4 \<le> length tc \<and> length tc \<le> MIGRIS_SCHEDULE_TC_MAX \<and> migris_schedule_find s tc = None
     \<and> sch_count s < MIGRIS_SCHEDULE_CAPACITY"
  by (auto simp: migris_schedule_insert_def migris_schedule_find_def MIGRIS_SCHEDULE_REQUEST_ID_SIZE_def
      split: option.splits)

lemma insert_refused: "fst (migris_schedule_insert s t tc) \<noteq> SCHEDULE_OK \<Longrightarrow> snd (migris_schedule_insert s t tc) = s"
  by (auto simp: migris_schedule_insert_def split: if_splits)

lemma insert_accepted:
  assumes inv: "sch_inv s" and ok: "fst (migris_schedule_insert s t tc) = SCHEDULE_OK"
  shows "sch_live (snd (migris_schedule_insert s t tc)) = sch_live s @ [\<lparr>act_release_time = t, act_tc = tc\<rparr>]"
    and "sch_count (snd (migris_schedule_insert s t tc)) = Suc (sch_count s)"
    and "sch_generation (snd (migris_schedule_insert s t tc)) = sch_generation s + 1"
  using assms by (auto simp: migris_schedule_insert_def sch_inv_def sch_live_append split: if_splits)

lemma insert_find:
  assumes inv: "sch_inv s" and ok: "fst (migris_schedule_insert s t tc) = SCHEDULE_OK"
  shows "migris_schedule_find (snd (migris_schedule_insert s t tc)) rid =
    (if take 4 rid = take 4 tc then Some \<lparr>act_release_time = t, act_tc = tc\<rparr> else migris_schedule_find s rid)"
proof (rule find_eqI [OF insert_inv [OF inv]])
  fix a
  from ok have "\<forall>x \<in> set (sch_live s). act_id x \<noteq> take 4 tc" by (auto simp: insert_status find_None_iff)
  then show "a \<in> set (sch_live (snd (migris_schedule_insert s t tc))) \<and> act_id a = take 4 rid \<longleftrightarrow>
    (if take 4 rid = take 4 tc then Some \<lparr>act_release_time = t, act_tc = tc\<rparr> else migris_schedule_find s rid) = Some a"
    by (auto simp: insert_accepted [OF inv ok] sch_find_live_iff [OF inv])
qed

lemma remove_at_set:
  assumes "sch_inv s" "i < sch_count s"
  shows "set (sch_live (sched_remove_at s i)) = set (sch_live s) - {sch_live s ! i}"
    and "mset (sch_live (sched_remove_at s i)) = mset (sch_live s) - {#sch_live s ! i#}"
proof -
  from assms have i: "i < length (sch_live s)" by simp
  show m: "mset (sch_live (sched_remove_at s i)) = mset (sch_live s) - {#sch_live s ! i#}"
    using swap_remove(1) [OF i] by (simp add: sch_live_remove assms)
  have "distinct (sch_live s)" using assms(1) by (auto simp: sch_inv_def distinct_map)
  then show "set (sch_live (sched_remove_at s i)) = set (sch_live s) - {sch_live s ! i}"
    using m by (metis mset_remove1 set_mset_mset set_remove1_eq)
qed

lemma delete_absent: "migris_schedule_find s rid = None \<Longrightarrow> migris_schedule_delete s rid = (SCHEDULE_ERR_NOT_FOUND, s)"
  by (auto simp: migris_schedule_find_def migris_schedule_delete_def split: option.splits)

lemma delete_present:
  assumes inv: "sch_inv s" and a: "migris_schedule_find s rid = Some a"
  shows "fst (migris_schedule_delete s rid) = SCHEDULE_OK"
    and "Suc (sch_count (snd (migris_schedule_delete s rid))) = sch_count s"
    and "set (sch_live (snd (migris_schedule_delete s rid))) = set (sch_live s) - {a}"
    and "sch_generation (snd (migris_schedule_delete s rid)) = sch_generation s + 1"
proof -
  from a obtain i where i: "sched_index_of s rid = Some i" "a = sch_activities s ! i"
    by (auto simp: migris_schedule_find_def split: option.splits)
  then have "i < length (sch_live s)" by (auto simp: index_of_eq dest: first_index_less)
  then have ic: "i < sch_count s" "i < length (sch_activities s)" by (auto simp: sch_live_def)
  have d: "migris_schedule_delete s rid = (SCHEDULE_OK, sched_remove_at s i)"
    using i by (simp add: migris_schedule_delete_def)
  then show "fst (migris_schedule_delete s rid) = SCHEDULE_OK" by simp
  show "Suc (sch_count (snd (migris_schedule_delete s rid))) = sch_count s"
    "sch_generation (snd (migris_schedule_delete s rid)) = sch_generation s + 1"
    using ic by (simp_all add: d sched_remove_at_def)
  show "set (sch_live (snd (migris_schedule_delete s rid))) = set (sch_live s) - {a}"
    using remove_at_set(1) [OF inv ic(1)] i ic by (simp add: d sch_live_nth)
qed

lemma delete_find:
  assumes inv: "sch_inv s"
  shows "migris_schedule_find (snd (migris_schedule_delete s rid)) k =
    (if take 4 k = take 4 rid then None else migris_schedule_find s k)"
proof (cases "migris_schedule_find s rid")
  case None
  then show ?thesis by (auto simp: delete_absent find_None_iff)
next
  case (Some a)
  then have a: "a \<in> set (sch_live s)" "act_id a = take 4 rid" by (auto simp: sch_find_live_iff [OF inv])
  have u: "x = a" if "x \<in> set (sch_live s)" "act_id x = take 4 rid" for x
    using that Some sch_find_live_iff [OF inv, of rid x] by simp
  show ?thesis
  proof (rule find_eqI [OF delete_inv [OF inv]])
    fix x
    have "x \<in> set (sch_live s) \<and> act_id x = take 4 k \<and> x \<noteq> a
        \<longleftrightarrow> (take 4 k \<noteq> take 4 rid \<and> migris_schedule_find s k = Some x)"
      using a(2) u [of x] sch_find_live_iff [OF inv, of k x] by (cases "take 4 k = take 4 rid") auto
    then show "x \<in> set (sch_live (snd (migris_schedule_delete s rid))) \<and> act_id x = take 4 k \<longleftrightarrow>
        (if take 4 k = take 4 rid then None else migris_schedule_find s k) = Some x"
      unfolding delete_present(3) [OF inv Some] by auto
  qed
qed

lemma delete_status:
  assumes "sch_inv s"
  shows "fst (migris_schedule_delete s rid) = SCHEDULE_OK \<longleftrightarrow> migris_schedule_find s rid \<noteq> None"
    and "fst (migris_schedule_delete s rid) = SCHEDULE_OK \<Longrightarrow>
      sch_generation (snd (migris_schedule_delete s rid)) = sch_generation s + 1"
    and "fst (migris_schedule_delete s rid) \<noteq> SCHEDULE_OK \<Longrightarrow> snd (migris_schedule_delete s rid) = s"
  using delete_absent [of s rid] delete_present(1,4) [OF assms, of rid]
  by (cases "migris_schedule_find s rid"; simp)+

section \<open>The activity-store interface\<close>

text \<open>
  What the PUS-11 handlers rely on. The client lemmas: a batch that passes the dry-run tests
  (sizes, identifiers neither scheduled nor repeated, room for all) inserts without a single
  refusal, and deleting a list of identifiers removes exactly those, present or not.
\<close>

fun act_insert_all ::
  "('s \<Rightarrow> u32 \<Rightarrow> bytes \<Rightarrow> migris_schedule_status_t \<times> 's) \<Rightarrow> 's \<Rightarrow> (u32 \<times> bytes) list \<Rightarrow> 's" where
  "act_insert_all ins s [] = s"
| "act_insert_all ins s ((t, tc) # as) = act_insert_all ins (snd (ins s t tc)) as"

definition act_batch_ok :: "('s \<Rightarrow> bytes \<Rightarrow> migris_schedule_activity_t option) \<Rightarrow> ('s \<Rightarrow> nat) \<Rightarrow> 's \<Rightarrow>
    (u32 \<times> bytes) list \<Rightarrow> bool" where
  "act_batch_ok lookup cnt s as \<longleftrightarrow>
     (\<forall>(t, tc) \<in> set as. 4 \<le> length tc \<and> length tc \<le> MIGRIS_SCHEDULE_TC_MAX \<and> lookup s tc = None)
     \<and> distinct (map (\<lambda>(t, tc). take 4 tc) as) \<and> cnt s + length as \<le> MIGRIS_SCHEDULE_CAPACITY"

locale activity_store =
  fixes ao_find :: "'s \<Rightarrow> bytes \<Rightarrow> migris_schedule_activity_t option"
    and ao_insert :: "'s \<Rightarrow> u32 \<Rightarrow> bytes \<Rightarrow> migris_schedule_status_t \<times> 's"
    and ao_delete :: "'s \<Rightarrow> bytes \<Rightarrow> migris_schedule_status_t \<times> 's"
    and ao_count :: "'s \<Rightarrow> nat"
    and ao_inv :: "'s \<Rightarrow> bool"
  assumes ins_status: "fst (ao_insert s t tc) = SCHEDULE_OK \<longleftrightarrow>
      4 \<le> length tc \<and> length tc \<le> MIGRIS_SCHEDULE_TC_MAX \<and> ao_find s tc = None
      \<and> ao_count s < MIGRIS_SCHEDULE_CAPACITY"
    and ins_find: "ao_inv s \<Longrightarrow> fst (ao_insert s t tc) = SCHEDULE_OK \<Longrightarrow>
      ao_find (snd (ao_insert s t tc)) rid =
        (if take 4 rid = take 4 tc then Some \<lparr>act_release_time = t, act_tc = tc\<rparr> else ao_find s rid)"
    and ins_count: "ao_inv s \<Longrightarrow> fst (ao_insert s t tc) = SCHEDULE_OK \<Longrightarrow>
      ao_count (snd (ao_insert s t tc)) = Suc (ao_count s)"
    and ins_inv: "ao_inv s \<Longrightarrow> ao_inv (snd (ao_insert s t tc))"
    and del_find: "ao_inv s \<Longrightarrow> ao_find (snd (ao_delete s rid)) k =
        (if take 4 k = take 4 rid then None else ao_find s k)"
    and del_inv: "ao_inv s \<Longrightarrow> ao_inv (snd (ao_delete s rid))"
begin

lemma batch_step:
  assumes "ao_inv s" "act_batch_ok ao_find ao_count s ((t, tc) # as)"
  shows "fst (ao_insert s t tc) = SCHEDULE_OK"
    and "act_batch_ok ao_find ao_count (snd (ao_insert s t tc)) as"
proof -
  from assms show ok: "fst (ao_insert s t tc) = SCHEDULE_OK"
    by (simp add: ins_status act_batch_ok_def)
  have "\<forall>(t', tc') \<in> set as. take 4 tc' \<noteq> take 4 tc"
    using assms by (auto simp: act_batch_ok_def) (metis (mono_tags, lifting) case_prod_conv image_eqI)
  then have "ao_find (snd (ao_insert s t tc)) tc' = ao_find s tc'" if "(t', tc') \<in> set as" for t' tc'
    using that ins_find [OF assms(1) ok] by auto
  then show "act_batch_ok ao_find ao_count (snd (ao_insert s t tc)) as"
    using assms ins_count [OF assms(1) ok] by (fastforce simp: act_batch_ok_def)
qed

lemma insert_all_inv: "ao_inv s \<Longrightarrow> ao_inv (act_insert_all ao_insert s as)"
  by (induction as arbitrary: s) (auto simp: ins_inv)

lemma insert_all_each_OK:
  assumes "ao_inv s" "act_batch_ok ao_find ao_count s (us @ (t, tc) # ws)"
  shows "fst (ao_insert (act_insert_all ao_insert s us) t tc) = SCHEDULE_OK"
  using assms
proof (induction us arbitrary: s)
  case Nil
  then show ?case using batch_step(1) by simp
next
  case (Cons u us)
  obtain r x where u: "u = (r, x)" by force
  with Cons.prems batch_step(2) [of s r x "us @ (t, tc) # ws"] Cons.IH ins_inv show ?case by simp
qed

lemma insert_all_find:
  assumes "ao_inv s" "act_batch_ok ao_find ao_count s as"
  shows "ao_find (act_insert_all ao_insert s as) rid =
    (case map_of (map (\<lambda>(t, tc). (take 4 tc, \<lparr>act_release_time = t, act_tc = tc\<rparr>)) as) (take 4 rid) of
       None \<Rightarrow> ao_find s rid | Some a \<Rightarrow> Some a)"
  using assms
proof (induction as arbitrary: s)
  case (Cons u as)
  obtain t tc where u: "u = (t, tc)" by force
  from Cons.prems have b: "act_batch_ok ao_find ao_count s ((t, tc) # as)" by (simp add: u)
  have nin: "take 4 tc \<notin> (\<lambda>(t, tc). take 4 tc) ` set as" using b by (simp add: act_batch_ok_def)
  then have "map_of (map (\<lambda>(t, tc). (take 4 tc, \<lparr>act_release_time = t, act_tc = tc\<rparr>)) as) (take 4 tc) = None"
    by (force simp: map_of_eq_None_iff)
  with Cons.IH [OF ins_inv [OF Cons.prems(1)] batch_step(2) [OF Cons.prems(1) b]]
    ins_find [OF Cons.prems(1) batch_step(1) [OF Cons.prems(1) b]]
  show ?case by (auto simp: u split: option.split)
qed simp

lemma insert_all_count:
  assumes "ao_inv s" "act_batch_ok ao_find ao_count s as"
  shows "ao_count (act_insert_all ao_insert s as) = ao_count s + length as"
  using assms
proof (induction as arbitrary: s)
  case (Cons u as)
  obtain t tc where u: "u = (t, tc)" by force
  from Cons.prems have b: "act_batch_ok ao_find ao_count s ((t, tc) # as)" by (simp add: u)
  with Cons.IH [OF ins_inv [OF Cons.prems(1)] batch_step(2) [OF Cons.prems(1) b]]
    ins_count [OF Cons.prems(1) batch_step(1) [OF Cons.prems(1) b]]
  show ?case by (simp add: u)
qed simp

lemma delete_all_find:
  "ao_inv s \<Longrightarrow> ao_find (fold (\<lambda>rid s. snd (ao_delete s rid)) rids s) k =
     (if take 4 k \<in> take 4 ` set rids then None else ao_find s k)
   \<and> ao_inv (fold (\<lambda>rid s. snd (ao_delete s rid)) rids s)"
  by (induction rids arbitrary: s) (auto simp: del_find del_inv)

end

interpretation sched: activity_store migris_schedule_find migris_schedule_insert migris_schedule_delete
    migris_schedule_count sch_inv
  by unfold_locales
    (simp_all add: insert_status insert_find insert_accepted insert_inv delete_find delete_inv
      migris_schedule_count_def)

section \<open>Release in time order\<close>

definition best_of :: "migris_schedule_activity_t list \<Rightarrow> u32 \<Rightarrow> nat \<Rightarrow> nat option \<Rightarrow> bool" where
  "best_of acts now n r \<longleftrightarrow> (case r of
     None \<Rightarrow> \<forall>i < n. now < act_release_time (acts ! i)
   | Some b \<Rightarrow> b < n \<and> act_release_time (acts ! b) \<le> now
       \<and> (\<forall>i < n. act_release_time (acts ! i) \<le> now \<longrightarrow> act_release_time (acts ! b) \<le> act_release_time (acts ! i)))"

lemma best_due_spec: "best_of acts now n (sched_best_due acts n now)"
proof (induction n)
  case 0
  then show ?case by (simp add: sched_best_due_def best_of_def)
next
  case (Suc n)
  let ?step = "\<lambda>best. if now < act_release_time (acts ! n) then best else case best of None \<Rightarrow> Some n
      | Some b \<Rightarrow> if act_release_time (acts ! n) < act_release_time (acts ! b) then Some n else Some b"
  have "sched_best_due acts (Suc n) now = ?step (sched_best_due acts n now)"
    by (simp add: sched_best_due_def)
  then show ?case using Suc
    by (cases "sched_best_due acts n now") (auto simp: best_of_def less_Suc_eq not_less)
qed

text \<open>
  One release: nothing due, or the earliest due activity leaves and every other one stays.
\<close>

lemma pop_due_cases:
  assumes inv: "sch_inv s" and en: "sch_enabled s"
  obtains (none) "migris_schedule_pop_due s now cap = (Inr None, s)"
      "\<forall>a \<in> set (sch_live s). now < act_release_time a"
    | (small) a where "migris_schedule_pop_due s now cap = (Inl SCHEDULE_ERR_BUF_TOO_SMALL, s)"
      "a \<in> set (sch_live s)" "act_release_time a \<le> now" "cap < length (act_tc a)"
    | (due) a s' where "migris_schedule_pop_due s now cap = (Inr (Some (act_tc a)), s')"
      "a \<in> set (sch_live s)" "act_release_time a \<le> now"
      "\<forall>x \<in> set (sch_live s). act_release_time x \<le> now \<longrightarrow> act_release_time a \<le> act_release_time x"
      "mset (sch_live s') = mset (sch_live s) - {#a#}" "sch_inv s'" "sch_enabled s'"
      "Suc (sch_count s') = sch_count s" "sch_generation s' = sch_generation s + 1"
proof -
  have nth: "sch_activities s ! i = sch_live s ! i" if "i < sch_count s" for i
    using that inv by (simp add: sch_live_nth sch_inv_def)
  have live: "x \<in> set (sch_live s) \<longleftrightarrow> (\<exists>i < sch_count s. x = sch_live s ! i)" for x
    using length_sch_live [OF inv] by (auto simp: in_set_conv_nth)
  note spec = best_due_spec [of "sch_activities s" now "sch_count s", unfolded best_of_def]
  show thesis
  proof (cases "sched_best_due (sch_activities s) (sch_count s) now")
    case None
    with spec have "\<forall>a \<in> set (sch_live s). now < act_release_time a" by (auto simp: live nth)
    with None show thesis by (intro none) (simp_all add: migris_schedule_pop_due_def en)
  next
    case (Some b)
    let ?a = "sch_live s ! b"
    from spec Some have b: "b < sch_count s" "act_release_time ?a \<le> now"
      "\<forall>x \<in> set (sch_live s). act_release_time x \<le> now \<longrightarrow> act_release_time ?a \<le> act_release_time x"
      by (auto simp: live nth)
    have a: "?a \<in> set (sch_live s)" using b(1) by (auto simp: live)
    show thesis
    proof (cases "cap < length (act_tc ?a)")
      case True
      with Some a b show thesis
        by (intro small [of ?a]) (simp_all add: migris_schedule_pop_due_def en nth Let_def)
    next
      case False
      have "sch_enabled (sched_remove_at s b)" "Suc (sch_count (sched_remove_at s b)) = sch_count s"
        "sch_generation (sched_remove_at s b) = sch_generation s + 1"
        using b(1) en by (simp_all add: sched_remove_at_def)
      with False Some a b remove_at_inv [OF inv b(1)] remove_at_set(2) [OF inv b(1)] show thesis
        by (intro due [of ?a "sched_remove_at s b"]) (simp_all add: migris_schedule_pop_due_def en nth Let_def)
    qed
  qed
qed

lemma pop_due_inv: "sch_inv s \<Longrightarrow> sch_inv (snd (migris_schedule_pop_due s now cap))"
proof (cases "sch_enabled s")
  case True
  assume inv: "sch_inv s"
  from inv True show ?thesis by (cases rule: pop_due_cases [of s now cap]) (simp_all add: inv)
qed (simp add: migris_schedule_pop_due_def)

text \<open>Releasing with a large enough buffer at a fixed time, up to n times.\<close>

fun sched_release :: "nat \<Rightarrow> u32 \<Rightarrow> migris_schedule_t \<Rightarrow> bytes list \<times> migris_schedule_t" where
  "sched_release 0 now s = ([], s)"
| "sched_release (Suc n) now s =
    (case migris_schedule_pop_due s now MIGRIS_SCHEDULE_TC_MAX of
       (Inr (Some tc), s') \<Rightarrow> (let (tcs, s'') = sched_release n now s' in (tc # tcs, s''))
     | (_, s') \<Rightarrow> ([], s'))"

lemma release_all:
  assumes "sch_inv s" "sch_enabled s" "sch_count s \<le> n"
  shows "\<exists>as s'. sched_release n now s = (map act_tc as, s') \<and> sorted (map act_release_time as)
    \<and> mset as = filter_mset (\<lambda>a. act_release_time a \<le> now) (mset (sch_live s))
    \<and> mset (sch_live s') = filter_mset (\<lambda>a. \<not> act_release_time a \<le> now) (mset (sch_live s))
    \<and> sch_inv s' \<and> sch_enabled s'"
  using assms
proof (induction n arbitrary: s)
  case 0
  then have "sch_live s = []" by (simp add: sch_live_def)
  with 0 show ?case by (intro exI [of _ "[]"]) simp
next
  case (Suc n)
  have size: "\<forall>a \<in> set (sch_live s). length (act_tc a) \<le> MIGRIS_SCHEDULE_TC_MAX"
    using Suc.prems by (simp add: sch_inv_def)
  from Suc.prems(1,2) show ?case
  proof (cases rule: pop_due_cases [of s now MIGRIS_SCHEDULE_TC_MAX])
    case none
    then have "filter (\<lambda>a. act_release_time a \<le> now) (sch_live s) = []"
      "filter (\<lambda>a. \<not> act_release_time a \<le> now) (sch_live s) = sch_live s"
      by (simp_all add: filter_empty_conv not_le)
    with none Suc.prems show ?thesis by (intro exI [of _ "[]"]) (simp flip: mset_filter)
  next
    case (small a)
    with size show ?thesis by fastforce
  next
    case (due a s')
    from Suc.prems(3) due(8) have "sch_count s' \<le> n" by simp
    from Suc.IH [OF due(6,7) this] obtain as s'' where IH: "sched_release n now s' = (map act_tc as, s'')"
      "sorted (map act_release_time as)"
      "mset as = filter_mset (\<lambda>a. act_release_time a \<le> now) (mset (sch_live s'))"
      "mset (sch_live s'') = filter_mset (\<lambda>a. \<not> act_release_time a \<le> now) (mset (sch_live s'))"
      "sch_inv s''" "sch_enabled s''" by blast
    have M: "mset (sch_live s) = add_mset a (mset (sch_live s'))"
      unfolding due(5) using due(2) by simp
    have "set as \<subseteq> {x \<in> set (sch_live s). act_release_time x \<le> now}"
      using arg_cong [OF IH(3), of set_mset] arg_cong [OF M, of set_mset] by auto
    with due(4) IH(2) have "sorted (map act_release_time (a # as))" by auto
    then show ?thesis
      using IH(1,3-6) due(3) by (intro exI [of _ "a # as"] exI [of _ s'']) (simp add: due(1) M)
  qed
qed

section \<open>Image round trip\<close>

lemma serialize_activities_Inr:
  assumes "sched_serialize_activities as room = Inr out"
    "\<forall>a \<in> set as. 4 \<le> length (act_tc a) \<and> length (act_tc a) \<le> MIGRIS_SCHEDULE_TC_MAX"
    "sch_count s + length as \<le> length (sch_activities s)"
  shows "\<exists>s'. sched_deserialize_activities (length as) (out @ rest) s = (SCHEDULE_OK, s')
    \<and> sch_live s' = sch_live s @ as \<and> length (sch_activities s') = length (sch_activities s)
    \<and> sch_count s' = sch_count s + length as \<and> sch_enabled s' = sch_enabled s \<and> sch_generation s' = sch_generation s"
  using assms
proof (induction as arbitrary: room out s)
  case (Cons a as)
  let ?len = "length (act_tc a)"
  from Cons.prems(1) obtain out' where out': "sched_serialize_activities as (room - (4 + 2 + ?len)) = Inr out'"
    and out: "out = be32 (act_release_time a) @ be16 (of_nat ?len) @ act_tc a @ out'"
    by (auto simp: Let_def split: if_splits sum.splits)
  have len: "4 \<le> ?len" "?len \<le> 64" using Cons.prems(2) by (auto simp: fsw_const)
  let ?s = "s\<lparr>sch_activities := (sch_activities s)[sch_count s := a], sch_count := Suc (sch_count s)\<rparr>"
  have l16: "unat (of_nat ?len :: u16) = ?len" using len by (simp add: unat_of_nat_u16)
  have eta: "\<lparr>act_release_time = act_release_time a, act_tc = act_tc a\<rparr> = a" by (cases a) simp
  have step: "sched_deserialize_activities (length (a # as)) (out @ rest) s
      = sched_deserialize_activities (length as) (out' @ rest) ?s"
    using len by (simp add: out rd16_at_append l16 Let_def fsw_const eta)
  have "sch_live ?s = sch_live s @ [a]" using Cons.prems(3) by (simp add: sch_live_append)
  moreover have "\<exists>s'. sched_deserialize_activities (length as) (out' @ rest) ?s = (SCHEDULE_OK, s')
    \<and> sch_live s' = sch_live ?s @ as \<and> length (sch_activities s') = length (sch_activities ?s)
    \<and> sch_count s' = sch_count ?s + length as \<and> sch_enabled s' = sch_enabled ?s \<and> sch_generation s' = sch_generation ?s"
    by (rule Cons.IH [OF out']) (use Cons.prems in auto)
  ultimately show ?case using step by auto
qed simp

lemma sch_deserialize_serialize:
  assumes inv: "sch_inv s" and arr: "length (sch_activities s0) = MIGRIS_SCHEDULE_CAPACITY"
    and ser: "migris_schedule_serialize s cap = Inr img"
  shows "\<exists>s'. migris_schedule_deserialize s0 (img @ rest) = (SCHEDULE_OK, s')
    \<and> sch_live s' = sch_live s \<and> sch_enabled s' = sch_enabled s \<and> sch_inv s' \<and> sch_generation s' = sch_generation s0"
proof -
  let ?s0 = "s0\<lparr>sch_count := 0, sch_enabled := False\<rparr>"
  from ser obtain out where out: "sched_serialize_activities (sch_live s) (cap - 3) = Inr out"
    and img: "img = be16 (of_nat (sch_count s)) @ [if sch_enabled s then 1 else 0] @ out"
    by (auto simp: migris_schedule_serialize_def split: if_splits sum.splits)
  have l16: "unat (of_nat (sch_count s) :: u16) = sch_count s"
    using inv by (simp add: unat_of_nat_u16 sch_inv_def fsw_const)
  have sizes: "\<forall>a \<in> set (sch_live s). 4 \<le> length (act_tc a) \<and> length (act_tc a) \<le> MIGRIS_SCHEDULE_TC_MAX"
    using inv by (simp add: sch_inv_def)
  from serialize_activities_Inr [OF out sizes, of ?s0 rest] inv arr
  obtain s' where s': "sched_deserialize_activities (sch_count s) (out @ rest) ?s0 = (SCHEDULE_OK, s')"
    "sch_live s' = sch_live s" "length (sch_activities s') = MIGRIS_SCHEDULE_CAPACITY"
    "sch_count s' = sch_count s" "sch_generation s' = sch_generation s0"
    by (auto simp: sch_inv_def)
  have n2: "(img @ rest) ! 2 = (if sch_enabled s then 1 else 0)" and d3: "drop 3 (img @ rest) = out @ rest"
    by (simp_all add: img be16_def)
  have "migris_schedule_deserialize s0 (img @ rest) = (SCHEDULE_OK, s'\<lparr>sch_enabled := sch_enabled s\<rparr>)"
    using s'(1) inv unfolding migris_schedule_deserialize_def Let_def n2 d3
    by (simp add: img l16 sch_inv_def)
  then show ?thesis using s' inv by (auto simp: sch_inv_def)
qed

section \<open>Properties\<close>

definition sched_example :: "migris_schedule_t" where
  "sched_example = \<lparr>sch_activities = [\<lparr>act_release_time = 90, act_tc = [0x18, 1, 0xC0, 1, 9]\<rparr>,
       \<lparr>act_release_time = 70, act_tc = [0x18, 1, 0xC0, 2, 8]\<rparr>] @ replicate 14 \<lparr>act_release_time = 0, act_tc = []\<rparr>,
     sch_count = 2, sch_enabled = True, sch_generation = 2\<rparr>"

lemma sched_example_inv: "sch_inv sched_example" "sch_enabled sched_example" "sch_count sched_example = 2"
  by (simp_all add: sched_example_def sch_inv_def sch_live_def fsw_const)

text \<open>
  C16: an enabled schedule polled at a fixed time with a full-size buffer releases every due
  activity, nothing else, each once, in order of release time, verbatim; the activities not yet
  due stay scheduled, and the store stays well formed.
\<close>
theorem schedule_releases_in_time_order:
  assumes "sch_inv s" "sch_enabled s" "sch_count s \<le> n"
  shows "\<exists>as s'. sched_release n now s = (map act_tc as, s') \<and> sorted (map act_release_time as)
    \<and> mset as = filter_mset (\<lambda>a. act_release_time a \<le> now) (mset (sch_live s))
    \<and> mset (sch_live s') = filter_mset (\<lambda>a. \<not> act_release_time a \<le> now) (mset (sch_live s))
    \<and> sch_inv s'"
  using release_all [OF assms, of now] by blast

lemma schedule_releases_in_time_order_witness:
  "\<exists>as s'. sched_release 2 80 sched_example = (map act_tc as, s') \<and> sorted (map act_release_time as)
    \<and> mset as = filter_mset (\<lambda>a. act_release_time a \<le> 80) (mset (sch_live sched_example))
    \<and> mset (sch_live s') = filter_mset (\<lambda>a. \<not> act_release_time a \<le> 80) (mset (sch_live sched_example))
    \<and> sch_inv s'"
  by (rule schedule_releases_in_time_order) (simp_all add: sched_example_inv)

text \<open>
  C15: the store is a map keyed by the four-byte request identifier. An insert is accepted
  exactly when the telecommand's size is in bounds, its identifier is not scheduled and there is
  room, and then binds that identifier to the telecommand verbatim; a delete unbinds its
  identifier and is refused exactly when nothing is bound; the accepted mutation advances the
  generation, a refused one changes nothing.
\<close>
theorem schedule_implements_map:
  assumes "sch_inv s"
  shows "(fst (migris_schedule_insert s t tc) = SCHEDULE_OK \<longleftrightarrow>
        4 \<le> length tc \<and> length tc \<le> 64 \<and> migris_schedule_find s tc = None \<and> migris_schedule_count s < 16)
    \<and> (let s' = snd (migris_schedule_insert s t tc)
       in if fst (migris_schedule_insert s t tc) = SCHEDULE_OK
          then sch_inv s' \<and> migris_schedule_generation s' = migris_schedule_generation s + 1
            \<and> (\<forall>k. migris_schedule_find s' k =
                (if take 4 k = take 4 tc then Some \<lparr>act_release_time = t, act_tc = tc\<rparr> else migris_schedule_find s k))
          else s' = s)
    \<and> (let s' = snd (migris_schedule_delete s rid)
       in sch_inv s'
          \<and> (fst (migris_schedule_delete s rid) = SCHEDULE_OK \<longleftrightarrow> migris_schedule_find s rid \<noteq> None)
          \<and> (fst (migris_schedule_delete s rid) = SCHEDULE_OK \<longrightarrow>
               migris_schedule_generation s' = migris_schedule_generation s + 1)
          \<and> (fst (migris_schedule_delete s rid) \<noteq> SCHEDULE_OK \<longrightarrow> s' = s)
          \<and> (\<forall>k. migris_schedule_find s' k = (if take 4 k = take 4 rid then None else migris_schedule_find s k)))"
  using assms insert_refused [of s t tc] delete_status [OF assms, of rid]
  by (simp add: Let_def insert_find insert_inv insert_accepted delete_find delete_inv
      migris_schedule_count_def migris_schedule_generation_def) (simp add: insert_status fsw_const)

lemma schedule_implements_map_witness:
  "migris_schedule_find (snd (migris_schedule_delete sched_example [0x18, 1, 0xC0, 1])) [0x18, 1, 0xC0, 1, 9] = None"
  using schedule_implements_map [OF sched_example_inv(1), of undefined undefined "[0x18, 1, 0xC0, 1]"]
  by (simp add: Let_def)

text \<open>
  Restoring a saved image into any schedule array gives back the same activities in the same
  order and the enabled flag, whatever follows the image, and does not touch the generation.
\<close>
theorem schedule_image_round_trip:
  assumes "sch_inv s" and "length (sch_activities s0) = 16"
    and "migris_schedule_serialize s cap = Inr img"
  shows "\<exists>s'. migris_schedule_deserialize s0 (img @ rest) = (SCHEDULE_OK, s')
    \<and> sch_live s' = sch_live s \<and> sch_enabled s' = sch_enabled s \<and> sch_inv s'
    \<and> migris_schedule_generation s' = migris_schedule_generation s0"
  using sch_deserialize_serialize [OF assms(1) _ assms(3), of s0 rest] assms(2)
  by (simp add: fsw_const migris_schedule_generation_def)

lemma schedule_image_round_trip_witness:
  "\<exists>s'. migris_schedule_deserialize sched_example
      ([0, 2, 1, 0, 0, 0, 90, 0, 5, 0x18, 1, 0xC0, 1, 9, 0, 0, 0, 70, 0, 5, 0x18, 1, 0xC0, 2, 8] @ [])
      = (SCHEDULE_OK, s')
    \<and> sch_live s' = sch_live sched_example \<and> sch_enabled s' = sch_enabled sched_example \<and> sch_inv s'
    \<and> migris_schedule_generation s' = migris_schedule_generation sched_example"
  by (rule schedule_image_round_trip [OF sched_example_inv(1), of _ 100])
    (simp_all add: sched_example_def migris_schedule_serialize_def sch_live_def be16_def be32_def)

end
