(* ===== verification/Pktstore.thy ===== *)
theory Pktstore
  imports Prelude "HOL-Library.Multiset"
begin

text \<open>
  lib/pktstore: the circular store of telemetry packets behind PUS-15. The entries array is a
  list of MIGRIS_PKTSTORE_CAPACITY elements; the pair packet / packet_len of an entry is the
  list of its packet_len bytes. \<open>pks_list\<close> reads the ring as a list, oldest first, and the
  operations are shown to implement a time-ordered list that keeps the newest packets; a
  retrieval delivers exactly its time window.
\<close>

section \<open>Data\<close>

definition MIGRIS_PKTSTORE_CAPACITY :: nat where
  [fsw_const]: "MIGRIS_PKTSTORE_CAPACITY = 32"

definition MIGRIS_PKTSTORE_PACKET_MAX :: nat where
  [fsw_const]: "MIGRIS_PKTSTORE_PACKET_MAX = 128"

record migris_pktstore_entry_t =
  pke_storage_time :: u32
  pke_packet :: bytes

record migris_pktstore_t =
  pks_entries :: "migris_pktstore_entry_t list"
  pks_head :: nat
  pks_count :: nat
  pks_enabled :: bool
  pks_retrieval_active :: bool
  pks_retrieval_end :: u32
  pks_retrieval_cursor :: nat

datatype migris_pktstore_status_t =
    PKTSTORE_OK | PKTSTORE_ERR_BAD_ARG | PKTSTORE_ERR_PACKET_TOO_LARGE | PKTSTORE_ERR_RETRIEVAL_ACTIVE
  | PKTSTORE_ERR_BUF_TOO_SMALL

section \<open>Operations\<close>

definition migris_pktstore_init :: "migris_pktstore_t \<Rightarrow> migris_pktstore_t" where
  "migris_pktstore_init s = s\<lparr>pks_head := 0, pks_count := 0, pks_enabled := True,
     pks_retrieval_active := False, pks_retrieval_end := 0, pks_retrieval_cursor := 0\<rparr>"

definition migris_pktstore_set_enabled :: "migris_pktstore_t \<Rightarrow> bool \<Rightarrow> migris_pktstore_t" where
  "migris_pktstore_set_enabled s enabled = s\<lparr>pks_enabled := enabled\<rparr>"

definition migris_pktstore_is_enabled :: "migris_pktstore_t \<Rightarrow> bool" where
  "migris_pktstore_is_enabled s = pks_enabled s"

definition migris_pktstore_count :: "migris_pktstore_t \<Rightarrow> nat" where
  "migris_pktstore_count s = pks_count s"

definition migris_pktstore_retrieval_active :: "migris_pktstore_t \<Rightarrow> bool" where
  "migris_pktstore_retrieval_active s = pks_retrieval_active s"

text \<open>Stored is 1, suspended is 0: the Boolean of the right summand.\<close>

definition migris_pktstore_store ::
  "migris_pktstore_t \<Rightarrow> bytes \<Rightarrow> u32 \<Rightarrow> (migris_pktstore_status_t + bool) \<times> migris_pktstore_t" where
  "migris_pktstore_store s packet storage_time =
    (if length packet = 0 then (Inl PKTSTORE_ERR_BAD_ARG, s)
     else if MIGRIS_PKTSTORE_PACKET_MAX < length packet then (Inl PKTSTORE_ERR_PACKET_TOO_LARGE, s)
     else if \<not> pks_enabled s \<or> pks_retrieval_active s then (Inr False, s)
     else
       let s = (if MIGRIS_PKTSTORE_CAPACITY \<le> pks_count s
                then s\<lparr>pks_head := (pks_head s + 1) mod MIGRIS_PKTSTORE_CAPACITY, pks_count := pks_count s - 1\<rparr>
                else s);
           tail = (pks_head s + pks_count s) mod MIGRIS_PKTSTORE_CAPACITY
       in (Inr True,
           s\<lparr>pks_entries := (pks_entries s)[tail := \<lparr>pke_storage_time = storage_time, pke_packet = packet\<rparr>],
             pks_count := pks_count s + 1\<rparr>))"

function pks_delete_run :: "u32 \<Rightarrow> nat \<Rightarrow> migris_pktstore_t \<Rightarrow> nat \<times> migris_pktstore_t" where
  "pks_delete_run time_seconds deleted s =
    (if 0 < pks_count s \<and> pke_storage_time (pks_entries s ! pks_head s) \<le> time_seconds
     then pks_delete_run time_seconds (deleted + 1)
            (s\<lparr>pks_head := (pks_head s + 1) mod MIGRIS_PKTSTORE_CAPACITY, pks_count := pks_count s - 1\<rparr>)
     else (deleted, s))"
  by pat_completeness auto
termination
  by (relation "measure (\<lambda>(_, _, s). pks_count s)") auto

declare pks_delete_run.simps [simp del]

definition migris_pktstore_delete_up_to ::
  "migris_pktstore_t \<Rightarrow> u32 \<Rightarrow> (migris_pktstore_status_t + nat) \<times> migris_pktstore_t" where
  "migris_pktstore_delete_up_to s time_seconds =
    (if pks_retrieval_active s then (Inl PKTSTORE_ERR_RETRIEVAL_ACTIVE, s)
     else let (deleted, s) = pks_delete_run time_seconds 0 s in (Inr deleted, s))"

function pks_seek :: "migris_pktstore_t \<Rightarrow> u32 \<Rightarrow> nat \<Rightarrow> nat" where
  "pks_seek s from_time cursor =
    (if cursor < pks_count s
     then if from_time \<le> pke_storage_time (pks_entries s ! ((pks_head s + cursor) mod MIGRIS_PKTSTORE_CAPACITY))
          then cursor else pks_seek s from_time (cursor + 1)
     else cursor)"
  by pat_completeness auto
termination
  by (relation "measure (\<lambda>(s, _, cursor). pks_count s - cursor)") auto

declare pks_seek.simps [simp del]

definition migris_pktstore_arm_retrieval ::
  "migris_pktstore_t \<Rightarrow> u32 \<Rightarrow> u32 \<Rightarrow> migris_pktstore_status_t \<times> migris_pktstore_t" where
  "migris_pktstore_arm_retrieval s from_time to_time =
    (if to_time < from_time then (PKTSTORE_ERR_BAD_ARG, s)
     else if pks_retrieval_active s then (PKTSTORE_ERR_RETRIEVAL_ACTIVE, s)
     else (PKTSTORE_OK,
           s\<lparr>pks_retrieval_cursor := pks_seek s from_time 0, pks_retrieval_end := to_time,
             pks_retrieval_active := True\<rparr>))"

definition migris_pktstore_retrieve_next ::
  "migris_pktstore_t \<Rightarrow> nat \<Rightarrow> (migris_pktstore_status_t + bytes option) \<times> migris_pktstore_t" where
  "migris_pktstore_retrieve_next s out_cap =
    (if \<not> pks_retrieval_active s then (Inr None, s)
     else if pks_count s \<le> pks_retrieval_cursor s then (Inr None, s\<lparr>pks_retrieval_active := False\<rparr>)
     else let entry = pks_entries s ! ((pks_head s + pks_retrieval_cursor s) mod MIGRIS_PKTSTORE_CAPACITY)
          in if pks_retrieval_end s < pke_storage_time entry
             then (Inr None, s\<lparr>pks_retrieval_active := False\<rparr>)
             else if out_cap < length (pke_packet entry) then (Inl PKTSTORE_ERR_BUF_TOO_SMALL, s)
             else (Inr (Some (pke_packet entry)), s\<lparr>pks_retrieval_cursor := pks_retrieval_cursor s + 1\<rparr>))"

definition migris_pktstore_span :: "migris_pktstore_t \<Rightarrow> (u32 \<times> u32) option" where
  "migris_pktstore_span s =
    (if pks_count s = 0 then None
     else Some (pke_storage_time (pks_entries s ! pks_head s),
                pke_storage_time (pks_entries s ! ((pks_head s + pks_count s - 1) mod MIGRIS_PKTSTORE_CAPACITY))))"

section \<open>Abstraction and invariant\<close>

definition pks_list :: "migris_pktstore_t \<Rightarrow> migris_pktstore_entry_t list" where
  "pks_list s = ring_list (pks_entries s) (pks_head s) (pks_count s)"

definition pks_inv :: "migris_pktstore_t \<Rightarrow> bool" where
  "pks_inv s \<longleftrightarrow> length (pks_entries s) = MIGRIS_PKTSTORE_CAPACITY
     \<and> pks_head s < MIGRIS_PKTSTORE_CAPACITY \<and> pks_count s \<le> MIGRIS_PKTSTORE_CAPACITY
     \<and> sorted (map pke_storage_time (pks_list s))
     \<and> (\<forall>e \<in> set (pks_list s). pke_packet e \<noteq> [] \<and> length (pke_packet e) \<le> MIGRIS_PKTSTORE_PACKET_MAX)"

lemma length_pks_list [simp]: "length (pks_list s) = pks_count s"
  by (simp add: pks_list_def)

lemma pks_list_flags [simp]:
  "pks_list (s\<lparr>pks_enabled := b\<rparr>) = pks_list s" "pks_list (s\<lparr>pks_retrieval_active := b\<rparr>) = pks_list s"
  "pks_list (s\<lparr>pks_retrieval_end := t\<rparr>) = pks_list s" "pks_list (s\<lparr>pks_retrieval_cursor := c\<rparr>) = pks_list s"
  by (simp_all add: pks_list_def)

lemma pks_nth:
  "pks_inv s \<Longrightarrow> i < pks_count s \<Longrightarrow>
     pks_entries s ! ((pks_head s + i) mod MIGRIS_PKTSTORE_CAPACITY) = pks_list s ! i"
  by (simp add: pks_list_def nth_ring_list pks_inv_def)

lemma pks_head_nth: "pks_inv s \<Longrightarrow> 0 < pks_count s \<Longrightarrow> pks_entries s ! pks_head s = pks_list s ! 0"
  using pks_nth [of s 0] by (simp add: pks_inv_def)

lemma pks_pop:
  assumes "pks_inv s" "0 < pks_count s"
  shows "pks_list (s\<lparr>pks_head := (pks_head s + 1) mod MIGRIS_PKTSTORE_CAPACITY, pks_count := pks_count s - 1\<rparr>)
    = tl (pks_list s)"
  using assms ring_pop(1) [of "pks_count s" "pks_entries s" "pks_head s"] by (simp add: pks_list_def pks_inv_def)

lemma pks_pop_inv:
  assumes "pks_inv s" "0 < pks_count s"
  shows "pks_inv (s\<lparr>pks_head := (pks_head s + 1) mod MIGRIS_PKTSTORE_CAPACITY, pks_count := pks_count s - 1\<rparr>)"
proof -
  have "sorted (map pke_storage_time (tl (pks_list s)))" "set (tl (pks_list s)) \<subseteq> set (pks_list s)"
    using assms(1) by (cases "pks_list s"; auto simp: pks_inv_def)+
  with assms show ?thesis
    unfolding pks_inv_def pks_pop [OF assms] by (auto simp: fsw_const)
qed

lemma pks_push:
  assumes "pks_inv s" "pks_count s < MIGRIS_PKTSTORE_CAPACITY"
  shows "pks_list (s\<lparr>pks_entries := (pks_entries s)[(pks_head s + pks_count s) mod MIGRIS_PKTSTORE_CAPACITY := e],
      pks_count := Suc (pks_count s)\<rparr>) = pks_list s @ [e]"
  using assms ring_push [of "pks_entries s" "pks_count s" "pks_head s" e] by (simp add: pks_list_def pks_inv_def)

lemma pks_push_inv:
  assumes "pks_inv s" "pks_count s < MIGRIS_PKTSTORE_CAPACITY" "pke_packet e \<noteq> []"
    "length (pke_packet e) \<le> MIGRIS_PKTSTORE_PACKET_MAX"
    "\<forall>x \<in> set (pks_list s). pke_storage_time x \<le> pke_storage_time e"
  shows "pks_inv (s\<lparr>pks_entries := (pks_entries s)[(pks_head s + pks_count s) mod MIGRIS_PKTSTORE_CAPACITY := e],
      pks_count := Suc (pks_count s)\<rparr>)"
  using assms unfolding pks_inv_def pks_push [OF assms(1,2)] by (auto simp: sorted_append)

section \<open>The list the store implements\<close>

text \<open>Keeping the newest \<open>n\<close> elements of a list.\<close>

definition newest :: "nat \<Rightarrow> 'a list \<Rightarrow> 'a list" where
  "newest n xs = drop (length xs - n) xs"

lemma newest_newest: "n \<le> m \<Longrightarrow> newest n (newest m xs @ ys) = newest n (xs @ ys)"
  by (auto simp: newest_def) (rule arg_cong [where f = "\<lambda>k. drop k xs"], arith)

lemma newest_short [simp]: "length xs \<le> n \<Longrightarrow> newest n xs = xs"
  by (simp add: newest_def)

lemma set_newest: "set (newest n xs) \<subseteq> set xs"
  by (simp add: newest_def set_drop_subset)

lemma store_step:
  assumes inv: "pks_inv s" and on: "pks_enabled s" "\<not> pks_retrieval_active s"
    and size: "packet \<noteq> []" "length packet \<le> MIGRIS_PKTSTORE_PACKET_MAX"
    and time: "\<forall>e \<in> set (pks_list s). pke_storage_time e \<le> t"
  defines "s' \<equiv> snd (migris_pktstore_store s packet t)"
  shows "fst (migris_pktstore_store s packet t) = Inr True"
    and "pks_list s' = newest MIGRIS_PKTSTORE_CAPACITY (pks_list s @ [\<lparr>pke_storage_time = t, pke_packet = packet\<rparr>])"
    and "pks_inv s'" and "pks_enabled s'" "\<not> pks_retrieval_active s'"
proof -
  let ?e = "\<lparr>pke_storage_time = t, pke_packet = packet\<rparr>"
  let ?s = "if MIGRIS_PKTSTORE_CAPACITY \<le> pks_count s
    then s\<lparr>pks_head := (pks_head s + 1) mod MIGRIS_PKTSTORE_CAPACITY, pks_count := pks_count s - 1\<rparr> else s"
  have pos: "MIGRIS_PKTSTORE_CAPACITY \<le> pks_count s \<Longrightarrow> 0 < pks_count s" by (simp add: fsw_const)
  have inv': "pks_inv ?s" using inv pks_pop_inv [OF inv pos] by auto
  have room: "pks_count ?s < MIGRIS_PKTSTORE_CAPACITY" using inv pos by (auto simp: pks_inv_def)
  have l: "pks_list ?s = (if MIGRIS_PKTSTORE_CAPACITY \<le> pks_count s then tl (pks_list s) else pks_list s)"
    using pks_pop [OF inv pos] by simp
  have eq: "migris_pktstore_store s packet t = (Inr True, ?s\<lparr>pks_entries :=
      (pks_entries ?s)[(pks_head ?s + pks_count ?s) mod MIGRIS_PKTSTORE_CAPACITY := ?e], pks_count := Suc (pks_count ?s)\<rparr>)"
    using on size by (simp add: migris_pktstore_store_def Let_def)
  then show "fst (migris_pktstore_store s packet t) = Inr True" by simp
  have tl: "newest MIGRIS_PKTSTORE_CAPACITY (pks_list s @ [?e]) = pks_list ?s @ [?e]"
  proof (cases "MIGRIS_PKTSTORE_CAPACITY \<le> pks_count s")
    case True
    with inv have "pks_count s = MIGRIS_PKTSTORE_CAPACITY" by (simp add: pks_inv_def)
    then show ?thesis using pos [OF True] unfolding l
      by (simp add: newest_def drop_Suc True)
  qed (simp add: l)
  show "pks_list s' = newest MIGRIS_PKTSTORE_CAPACITY (pks_list s @ [?e])"
    unfolding s'_def eq snd_conv pks_push [OF inv' room] tl by simp
  have sub: "set (pks_list ?s) \<subseteq> set (pks_list s)" unfolding l by (cases "pks_list s") auto
  show "pks_inv s'"
    unfolding s'_def eq snd_conv by (rule pks_push_inv [OF inv' room]) (use size time sub in auto)
  show "pks_enabled s'" "\<not> pks_retrieval_active s'" using on by (simp_all add: s'_def eq)
qed

lemma store_suspended:
  "\<not> pks_enabled s \<or> pks_retrieval_active s \<Longrightarrow> snd (migris_pktstore_store s packet t) = s"
  by (auto simp: migris_pktstore_store_def)

lemma delete_run_spec:
  assumes "pks_inv s"
  shows "\<exists>s'. pks_delete_run t d s = (d + length (takeWhile (\<lambda>e. pke_storage_time e \<le> t) (pks_list s)), s')
    \<and> pks_list s' = dropWhile (\<lambda>e. pke_storage_time e \<le> t) (pks_list s) \<and> pks_inv s'
    \<and> pks_enabled s' = pks_enabled s \<and> pks_retrieval_active s' = pks_retrieval_active s"
  using assms
proof (induction t d s rule: pks_delete_run.induct)
  case (1 t d s)
  show ?case
  proof (cases "0 < pks_count s \<and> pke_storage_time (pks_entries s ! pks_head s) \<le> t")
    case True
    let ?s = "s\<lparr>pks_head := (pks_head s + 1) mod MIGRIS_PKTSTORE_CAPACITY, pks_count := pks_count s - 1\<rparr>"
    from True obtain x xs where xs: "pks_list s = x # xs" by (cases "pks_list s") (auto simp flip: length_pks_list)
    have x: "pke_storage_time x \<le> t" using True pks_head_nth [OF 1(2)] xs by simp
    have pop: "pks_list ?s = xs" "pks_inv ?s" using pks_pop [OF 1(2)] pks_pop_inv [OF 1(2)] True xs by auto
    have step: "pks_delete_run t d s = pks_delete_run t (d + 1) ?s" using True by (subst pks_delete_run.simps) simp
    from 1(1) [OF True pop(2)] show ?thesis unfolding step pop(1) xs using x by simp
  next
    case False
    have "pks_list s = [] \<or> \<not> pke_storage_time (hd (pks_list s)) \<le> t"
      using False pks_head_nth [OF 1(2)] by (cases "pks_list s") (auto simp flip: length_pks_list)
    moreover have "pks_delete_run t d s = (d, s)" by (subst pks_delete_run.simps) (simp only: False if_False)
    ultimately show ?thesis using 1(2) by (cases "pks_list s") auto
  qed
qed

lemma seek_spec:
  assumes "pks_inv s" "c \<le> pks_count s"
  shows "pks_seek s t c = c + length (takeWhile (\<lambda>e. pke_storage_time e < t) (drop c (pks_list s)))"
  using assms
proof (induction s t c rule: pks_seek.induct)
  case (1 s t c)
  show ?case
  proof (cases "c < pks_count s")
    case True
    then have d: "drop c (pks_list s) = pks_list s ! c # drop (Suc c) (pks_list s)"
      by (simp add: Cons_nth_drop_Suc)
    show ?thesis
      using 1 True pks_nth [OF 1(2) True] unfolding d by (subst pks_seek.simps) (simp add: not_le)
  qed (subst pks_seek.simps, simp)
qed

lemma sorted_takeWhile: "sorted (map f xs) \<Longrightarrow> takeWhile (\<lambda>x. f x \<le> t) xs = filter (\<lambda>x. f x \<le> (t :: 'a :: linorder)) xs"
  by (induction xs) (auto intro!: filter_False [symmetric], meson order_trans)

lemma sorted_dropWhile:
  "sorted (map f xs) \<Longrightarrow> dropWhile (\<lambda>x. f x \<le> t) xs = filter (\<lambda>x. \<not> f x \<le> (t :: 'a :: linorder)) xs"
  "sorted (map f xs) \<Longrightarrow> dropWhile (\<lambda>x. f x < t) xs = filter (\<lambda>x. \<not> f x < (t :: 'a :: linorder)) xs"
  by (induction xs) (auto intro!: filter_True [symmetric])

lemma delete_up_to_spec:
  assumes "pks_inv s" "\<not> pks_retrieval_active s"
  shows "\<exists>s'. migris_pktstore_delete_up_to s t = (Inr (length (filter (\<lambda>e. pke_storage_time e \<le> t) (pks_list s))), s')
    \<and> pks_list s' = filter (\<lambda>e. \<not> pke_storage_time e \<le> t) (pks_list s) \<and> pks_inv s'
    \<and> pks_enabled s' = pks_enabled s \<and> \<not> pks_retrieval_active s'"
proof -
  have "sorted (map pke_storage_time (pks_list s))" using assms(1) by (simp add: pks_inv_def)
  note s = sorted_takeWhile [OF this] sorted_dropWhile(1) [OF this]
  from delete_run_spec [OF assms(1), of t 0] assms(2) show ?thesis
    by (auto simp: migris_pktstore_delete_up_to_def s)
qed

text \<open>Draining an armed retrieval, up to n packets.\<close>

fun pks_drain :: "nat \<Rightarrow> migris_pktstore_t \<Rightarrow> bytes list \<times> migris_pktstore_t" where
  "pks_drain 0 s = ([], s)"
| "pks_drain (Suc n) s =
    (case migris_pktstore_retrieve_next s MIGRIS_PKTSTORE_PACKET_MAX of
       (Inr (Some pkt), s') \<Rightarrow> (let (pkts, s'') = pks_drain n s' in (pkt # pkts, s''))
     | (_, s') \<Rightarrow> ([], s'))"

lemma drain_spec:
  assumes "pks_inv s" "pks_retrieval_active s" "pks_retrieval_cursor s \<le> pks_count s"
    "pks_count s - pks_retrieval_cursor s < n"
  shows "\<exists>s'. pks_drain n s = (map pke_packet (takeWhile (\<lambda>e. pke_storage_time e \<le> pks_retrieval_end s)
        (drop (pks_retrieval_cursor s) (pks_list s))), s')
    \<and> \<not> pks_retrieval_active s' \<and> pks_list s' = pks_list s \<and> pks_inv s' \<and> pks_enabled s' = pks_enabled s"
  using assms
proof (induction n arbitrary: s)
  case (Suc n)
  let ?c = "pks_retrieval_cursor s"
  show ?case
  proof (cases "?c < pks_count s")
    case False
    with Suc.prems show ?thesis by (simp add: migris_pktstore_retrieve_next_def pks_inv_def)
  next
    case True
    let ?e = "pks_list s ! ?c"
    have d: "drop ?c (pks_list s) = ?e # drop (Suc ?c) (pks_list s)" using True by (simp add: Cons_nth_drop_Suc)
    have "?e \<in> set (pks_list s)" using True by simp
    then have size: "length (pke_packet ?e) \<le> MIGRIS_PKTSTORE_PACKET_MAX" using Suc.prems(1) by (simp add: pks_inv_def)
    note nth = pks_nth [OF Suc.prems(1) True]
    show ?thesis
    proof (cases "pke_storage_time ?e \<le> pks_retrieval_end s")
      case False
      then have "pks_retrieval_end s < pke_storage_time ?e" by simp
      with True Suc.prems nth show ?thesis
        by (simp add: migris_pktstore_retrieve_next_def d Let_def pks_inv_def)
    next
      case le: True
      let ?s = "s\<lparr>pks_retrieval_cursor := ?c + 1\<rparr>"
      have step: "migris_pktstore_retrieve_next s MIGRIS_PKTSTORE_PACKET_MAX = (Inr (Some (pke_packet ?e)), ?s)"
        using True le size nth Suc.prems(2) by (simp add: migris_pktstore_retrieve_next_def Let_def)
      have "\<exists>s'. pks_drain n ?s = (map pke_packet (takeWhile (\<lambda>e. pke_storage_time e \<le> pks_retrieval_end ?s)
          (drop (pks_retrieval_cursor ?s) (pks_list ?s))), s')
        \<and> \<not> pks_retrieval_active s' \<and> pks_list s' = pks_list ?s \<and> pks_inv s' \<and> pks_enabled s' = pks_enabled ?s"
        by (rule Suc.IH) (use Suc.prems True in \<open>auto simp: pks_inv_def\<close>)
      then show ?thesis using le by (auto simp: step d)
    qed
  qed
qed simp

lemma arm_spec:
  assumes "pks_inv s" "\<not> pks_retrieval_active s" "from_time \<le> to_time"
  shows "\<exists>s'. migris_pktstore_arm_retrieval s from_time to_time = (PKTSTORE_OK, s') \<and> pks_inv s'
    \<and> pks_retrieval_active s' \<and> pks_retrieval_end s' = to_time \<and> pks_list s' = pks_list s
    \<and> pks_count s' = pks_count s \<and> pks_retrieval_cursor s' \<le> pks_count s' \<and> pks_enabled s' = pks_enabled s
    \<and> drop (pks_retrieval_cursor s') (pks_list s') = filter (\<lambda>e. from_time \<le> pke_storage_time e) (pks_list s)"
proof -
  have srt: "sorted (map pke_storage_time (pks_list s))" using assms(1) by (simp add: pks_inv_def)
  let ?n = "length (takeWhile (\<lambda>e. pke_storage_time e < from_time) (pks_list s))"
  have "drop ?n (pks_list s) = filter (\<lambda>e. from_time \<le> pke_storage_time e) (pks_list s)"
    using sorted_dropWhile(2) [OF srt, of from_time] dropWhile_eq_drop [of "\<lambda>e. pke_storage_time e < from_time" "pks_list s"]
    by (simp add: not_less)
  moreover have "?n \<le> pks_count s" using length_takeWhile_le [of _ "pks_list s"] by simp
  moreover have "pks_seek s from_time 0 = ?n" using seek_spec [OF assms(1), of 0] by simp
  ultimately show ?thesis
    using assms by (simp add: migris_pktstore_arm_retrieval_def pks_inv_def)
qed

lemma sorted_window:
  "sorted (map f xs) \<Longrightarrow> takeWhile (\<lambda>x. f x \<le> b) (filter (\<lambda>x. a \<le> f x) xs)
     = filter (\<lambda>x. a \<le> f x \<and> f x \<le> (b :: 'a :: linorder)) xs"
  using sorted_takeWhile [of f "filter (\<lambda>x. a \<le> f x) xs" b] by (simp add: sorted_filter conj_commute)

lemma span_spec:
  assumes "pks_inv s"
  shows "migris_pktstore_span s = (if pks_list s = [] then None
    else Some (pke_storage_time (hd (pks_list s)), pke_storage_time (last (pks_list s))))"
proof (cases "pks_count s = 0")
  case False
  then have ne: "pks_list s \<noteq> []" by (simp flip: length_0_conv)
  have "(pks_head s + pks_count s - 1) mod MIGRIS_PKTSTORE_CAPACITY = (pks_head s + (pks_count s - 1)) mod MIGRIS_PKTSTORE_CAPACITY"
    using False by simp
  with False ne show ?thesis
    using pks_head_nth [OF assms] pks_nth [OF assms, of "pks_count s - 1"]
    by (simp add: migris_pktstore_span_def hd_conv_nth last_conv_nth)
qed (simp add: migris_pktstore_span_def pks_list_def)

section \<open>Properties\<close>

definition pks_capture :: "migris_pktstore_t \<Rightarrow> (bytes \<times> u32) list \<Rightarrow> migris_pktstore_t" where
  "pks_capture s ps = fold (\<lambda>(packet, t) s. snd (migris_pktstore_store s packet t)) ps s"

definition pks_capturable :: "migris_pktstore_t \<Rightarrow> (bytes \<times> u32) list \<Rightarrow> bool" where
  "pks_capturable s ps \<longleftrightarrow> pks_inv s \<and> pks_enabled s \<and> \<not> pks_retrieval_active s
     \<and> (\<forall>(packet, t) \<in> set ps. packet \<noteq> [] \<and> length packet \<le> MIGRIS_PKTSTORE_PACKET_MAX)
     \<and> sorted (map pke_storage_time (pks_list s) @ map snd ps)"

lemma capture_newest:
  "pks_capturable s ps \<Longrightarrow> pks_list (pks_capture s ps) = newest MIGRIS_PKTSTORE_CAPACITY
      (pks_list s @ map (\<lambda>(packet, t). \<lparr>pke_storage_time = t, pke_packet = packet\<rparr>) ps)
    \<and> pks_inv (pks_capture s ps)"
proof (induction ps arbitrary: s)
  case Nil
  then show ?case by (simp add: pks_capture_def pks_capturable_def pks_inv_def)
next
  case (Cons p ps)
  obtain packet t where p: "p = (packet, t)" by force
  let ?s = "snd (migris_pktstore_store s packet t)"
  let ?e = "\<lparr>pke_storage_time = t, pke_packet = packet\<rparr>"
  from Cons.prems p have pre: "pks_inv s" "pks_enabled s" "\<not> pks_retrieval_active s" "packet \<noteq> []"
    "length packet \<le> MIGRIS_PKTSTORE_PACKET_MAX" "\<forall>e \<in> set (pks_list s). pke_storage_time e \<le> t"
    by (auto simp: pks_capturable_def sorted_append)
  note step = store_step [OF pre]
  have "set (pks_list ?s) \<subseteq> insert ?e (set (pks_list s))"
    using set_newest [of MIGRIS_PKTSTORE_CAPACITY "pks_list s @ [?e]"] unfolding step(2) by auto
  with Cons.prems step pre have "pks_capturable ?s ps"
    by (auto simp: pks_capturable_def p sorted_append pks_inv_def [of ?s] ball_Un dest!: subsetD)
  from Cons.IH [OF this] show ?case
    by (simp add: p pks_capture_def step newest_newest)
qed

definition pks_blank :: "migris_pktstore_t" where
  "pks_blank = migris_pktstore_init \<lparr>pks_entries = replicate 32 \<lparr>pke_storage_time = 0, pke_packet = []\<rparr>,
     pks_head = 5, pks_count = 3, pks_enabled = False, pks_retrieval_active = True, pks_retrieval_end = 0,
     pks_retrieval_cursor = 0\<rparr>"

lemma pks_blank_inv: "pks_inv pks_blank" "pks_list pks_blank = []" "pks_enabled pks_blank" "\<not> pks_retrieval_active pks_blank"
  by (simp_all add: pks_blank_def pks_inv_def pks_list_def migris_pktstore_init_def fsw_const)

text \<open>
  C17: capturing any run of packets at non-decreasing times keeps, in order and verbatim, the
  newest MIGRIS_PKTSTORE_CAPACITY of everything held: the circular buffer is a bounded list that
  drops its oldest entry only when full.
\<close>
theorem pktstore_keeps_newest:
  assumes "pks_capturable s ps"
  shows "pks_list (pks_capture s ps) = newest 32
      (pks_list s @ map (\<lambda>(packet, t). \<lparr>pke_storage_time = t, pke_packet = packet\<rparr>) ps)
    \<and> pks_inv (pks_capture s ps)"
  using capture_newest [OF assms] by (simp add: fsw_const)

lemma pktstore_keeps_newest_witness:
  "pks_list (pks_capture pks_blank [([1, 2], 10), ([3], 12)]) =
     [\<lparr>pke_storage_time = 10, pke_packet = [1, 2]\<rparr>, \<lparr>pke_storage_time = 12, pke_packet = [3]\<rparr>]"
  using pktstore_keeps_newest [of pks_blank "[([1, 2], 10), ([3], 12)]"]
  by (simp add: pks_capturable_def pks_blank_inv fsw_const)



text \<open>
  Deleting up to a time removes exactly the packets stored at or before it, reports how many
  they were, and keeps every later packet in order.
\<close>
theorem pktstore_delete_exact:
  assumes "pks_inv s" "\<not> pks_retrieval_active s"
  shows "\<exists>s'. migris_pktstore_delete_up_to s t = (Inr (length (filter (\<lambda>e. pke_storage_time e \<le> t) (pks_list s))), s')
    \<and> pks_list s' = filter (\<lambda>e. t < pke_storage_time e) (pks_list s) \<and> pks_inv s'"
  using delete_up_to_spec [OF assms, of t] by (auto simp: not_le)

lemma pktstore_delete_exact_witness:
  "\<exists>s'. migris_pktstore_delete_up_to (pks_capture pks_blank [([1, 2], 10), ([3], 12)]) 10 = (Inr 1, s')
    \<and> pks_list s' = [\<lparr>pke_storage_time = 12, pke_packet = [3]\<rparr>] \<and> pks_inv s'"
proof -
  let ?ps = "[([1, 2], 10), ([3], 12)] :: (bytes \<times> u32) list"
  have "pks_capturable pks_blank ?ps" by (simp add: pks_capturable_def pks_blank_inv fsw_const)
  note l = capture_newest [OF this]
  have "\<not> pks_retrieval_active (pks_capture pks_blank ?ps)"
    by (simp add: pks_capture_def migris_pktstore_store_def pks_blank_def migris_pktstore_init_def fsw_const Let_def)
  from pktstore_delete_exact [OF conjunct2 [OF l] this, of 10] l show ?thesis
    by (simp add: pks_blank_inv fsw_const)
qed

end
