(* ===== verification/Hkstore.thy ===== *)
theory Hkstore
  imports Prelude
begin

text \<open>
  lib/hkstore: the store of ground-defined housekeeping structures behind PUS-3. The structures
  array is a list of MIGRIS_HKSTORE_CAPACITY slots, free or in use; the pair param_ids /
  param_count of a structure is the list of its param_count identifiers. The theory proves the
  invariant (unique structure ids, a count that equals the slots in use), the map the
  operations implement, the selection of the stalest due structure, and the image round trip.
\<close>

section \<open>Data\<close>

definition MIGRIS_HKSTORE_CAPACITY :: nat where
  [fsw_const]: "MIGRIS_HKSTORE_CAPACITY = 8"

definition MIGRIS_HKSTORE_MAX_PARAMS :: nat where
  [fsw_const]: "MIGRIS_HKSTORE_MAX_PARAMS = 8"

definition MIGRIS_HKSTORE_SID_MIN :: u16 where
  [fsw_const]: "MIGRIS_HKSTORE_SID_MIN = 0x0100"

record migris_hk_structure_t =
  hk_sid :: u16
  hk_param_ids :: "u16 list"
  hk_interval_sec :: u32
  hk_last_emit_sec :: u32
  hk_enabled :: bool
  hk_in_use :: bool

record migris_hkstore_t =
  hks_structures :: "migris_hk_structure_t list"
  hks_count :: nat
  hks_generation :: u32

datatype migris_hkstore_status_t =
    HKSTORE_OK | HKSTORE_ERR_BAD_ARG | HKSTORE_ERR_FULL | HKSTORE_ERR_TOO_MANY | HKSTORE_ERR_DUPLICATE
  | HKSTORE_ERR_NOT_FOUND | HKSTORE_ERR_TRUNCATED | HKSTORE_ERR_BUF_TOO_SMALL

section \<open>Operations\<close>

definition migris_hkstore_init :: "migris_hkstore_t \<Rightarrow> migris_hkstore_t" where
  "migris_hkstore_init s = s\<lparr>hks_count := 0, hks_generation := 0,
     hks_structures := map (\<lambda>x. x\<lparr>hk_in_use := False\<rparr>) (hks_structures s)\<rparr>"

definition migris_hkstore_count :: "migris_hkstore_t \<Rightarrow> nat" where
  "migris_hkstore_count s = hks_count s"

definition hkstore_index_of :: "migris_hkstore_t \<Rightarrow> u16 \<Rightarrow> nat option" where
  "hkstore_index_of s sid = first_index (\<lambda>x. hk_in_use x \<and> hk_sid x = sid) (hks_structures s)"

definition migris_hkstore_create ::
  "migris_hkstore_t \<Rightarrow> u16 \<Rightarrow> u16 list \<Rightarrow> u32 \<Rightarrow> migris_hkstore_status_t \<times> migris_hkstore_t" where
  "migris_hkstore_create s sid param_ids interval_sec =
    (if length param_ids = 0 \<or> sid < MIGRIS_HKSTORE_SID_MIN then (HKSTORE_ERR_BAD_ARG, s)
     else if MIGRIS_HKSTORE_MAX_PARAMS < length param_ids then (HKSTORE_ERR_TOO_MANY, s)
     else if hkstore_index_of s sid \<noteq> None then (HKSTORE_ERR_DUPLICATE, s)
     else case first_index (\<lambda>x. \<not> hk_in_use x) (hks_structures s) of
       None \<Rightarrow> (HKSTORE_ERR_FULL, s)
     | Some slot \<Rightarrow>
        (HKSTORE_OK,
         s\<lparr>hks_structures := (hks_structures s)[slot :=
             \<lparr>hk_sid = sid, hk_param_ids = param_ids, hk_interval_sec = interval_sec, hk_last_emit_sec = 0,
              hk_enabled = False, hk_in_use = True\<rparr>],
           hks_count := hks_count s + 1,
           hks_generation := hks_generation s + 1\<rparr>))"

definition migris_hkstore_delete ::
  "migris_hkstore_t \<Rightarrow> u16 \<Rightarrow> migris_hkstore_status_t \<times> migris_hkstore_t" where
  "migris_hkstore_delete s sid =
    (case hkstore_index_of s sid of
       None \<Rightarrow> (HKSTORE_ERR_NOT_FOUND, s)
     | Some idx \<Rightarrow>
        (HKSTORE_OK,
         s\<lparr>hks_structures := (hks_structures s)[idx := (hks_structures s ! idx)\<lparr>hk_in_use := False\<rparr>],
           hks_count := hks_count s - 1,
           hks_generation := hks_generation s + 1\<rparr>))"

definition migris_hkstore_set_enabled ::
  "migris_hkstore_t \<Rightarrow> u16 \<Rightarrow> bool \<Rightarrow> migris_hkstore_status_t \<times> migris_hkstore_t" where
  "migris_hkstore_set_enabled s sid enabled =
    (case hkstore_index_of s sid of
       None \<Rightarrow> (HKSTORE_ERR_NOT_FOUND, s)
     | Some idx \<Rightarrow>
        if hk_enabled (hks_structures s ! idx) = enabled then (HKSTORE_OK, s)
        else (HKSTORE_OK,
              s\<lparr>hks_structures := (hks_structures s)[idx := (hks_structures s ! idx)\<lparr>hk_enabled := enabled\<rparr>],
                hks_generation := hks_generation s + 1\<rparr>))"

definition migris_hkstore_find :: "migris_hkstore_t \<Rightarrow> u16 \<Rightarrow> migris_hk_structure_t option" where
  "migris_hkstore_find s sid =
    (case hkstore_index_of s sid of
       None \<Rightarrow> None
     | Some idx \<Rightarrow> Some (hks_structures s ! idx))"

definition hk_due :: "migris_hk_structure_t \<Rightarrow> u32 \<Rightarrow> bool" where
  "hk_due x now \<longleftrightarrow> hk_in_use x \<and> hk_enabled x \<and> hk_interval_sec x \<noteq> 0
     \<and> \<not> (now - hk_last_emit_sec x < hk_interval_sec x)"

definition hk_best_due :: "migris_hk_structure_t list \<Rightarrow> nat \<Rightarrow> u32 \<Rightarrow> nat option" where
  "hk_best_due xs n now =
    fold (\<lambda>i best.
        if \<not> hk_due (xs ! i) now then best
        else case best of
               None \<Rightarrow> Some i
             | Some b \<Rightarrow> if hk_last_emit_sec (xs ! i) < hk_last_emit_sec (xs ! b) then Some i else Some b)
      [0..<n] None"

definition migris_hkstore_due :: "migris_hkstore_t \<Rightarrow> u32 \<Rightarrow> migris_hk_structure_t option \<times> migris_hkstore_t" where
  "migris_hkstore_due s now_seconds =
    (case hk_best_due (hks_structures s) MIGRIS_HKSTORE_CAPACITY now_seconds of
       None \<Rightarrow> (None, s)
     | Some best \<Rightarrow>
        (let x = (hks_structures s ! best)\<lparr>hk_last_emit_sec := now_seconds\<rparr>
         in (Some x, s\<lparr>hks_structures := (hks_structures s)[best := x]\<rparr>)))"

definition migris_hkstore_generation :: "migris_hkstore_t \<Rightarrow> u32" where
  "migris_hkstore_generation s = hks_generation s"

section \<open>Serialisation\<close>

definition hkstore_write_struct :: "migris_hk_structure_t \<Rightarrow> nat \<Rightarrow> migris_hkstore_status_t + bytes" where
  "hkstore_write_struct x cap =
    (let need = 2 + 4 + 1 + 1 + 2 * length (hk_param_ids x)
     in if cap < need then Inl HKSTORE_ERR_BUF_TOO_SMALL
        else Inr (be16 (hk_sid x) @ be32 (hk_interval_sec x) @ [if hk_enabled x then 1 else 0]
                  @ [of_nat (length (hk_param_ids x))] @ concat (map be16 (hk_param_ids x))))"

fun hkstore_serialize_slots :: "migris_hk_structure_t list \<Rightarrow> nat \<Rightarrow> migris_hkstore_status_t + bytes" where
  "hkstore_serialize_slots [] room = Inr []"
| "hkstore_serialize_slots (x # xs) room =
    (if \<not> hk_in_use x then hkstore_serialize_slots xs room
     else case hkstore_write_struct x room of
       Inl e \<Rightarrow> Inl e
     | Inr out \<Rightarrow>
        (case hkstore_serialize_slots xs (room - length out) of
           Inl e \<Rightarrow> Inl e
         | Inr rest \<Rightarrow> Inr (out @ rest)))"

definition migris_hkstore_serialize :: "migris_hkstore_t \<Rightarrow> nat \<Rightarrow> migris_hkstore_status_t + bytes" where
  "migris_hkstore_serialize s out_cap =
    (if out_cap < 2 then Inl HKSTORE_ERR_BUF_TOO_SMALL
     else case hkstore_serialize_slots (hks_structures s) (out_cap - 2) of
       Inl e \<Rightarrow> Inl e
     | Inr out \<Rightarrow> Inr (be16 (of_nat (hks_count s)) @ out))"

definition hkstore_read_struct :: "bytes \<Rightarrow> migris_hkstore_status_t + (nat \<times> migris_hk_structure_t)" where
  "hkstore_read_struct inp =
    (if length inp < 8 then Inl HKSTORE_ERR_TRUNCATED
     else let sid = rd16_at inp 0; interval_sec = rd32_at inp 2; enabled = (inp ! 6 \<noteq> 0);
              param_count = unat (inp ! 7)
          in if sid < MIGRIS_HKSTORE_SID_MIN then Inl HKSTORE_ERR_BAD_ARG
             else if MIGRIS_HKSTORE_MAX_PARAMS < param_count then Inl HKSTORE_ERR_TOO_MANY
             else let need = 8 + 2 * param_count
                  in if length inp < need then Inl HKSTORE_ERR_TRUNCATED
                     else Inr (need,
                       \<lparr>hk_sid = sid, hk_param_ids = rd16s inp 8 param_count,
                        hk_interval_sec = interval_sec, hk_last_emit_sec = 0, hk_enabled = enabled,
                        hk_in_use = True\<rparr>))"

fun hkstore_deserialize_slots ::
  "nat \<Rightarrow> nat \<Rightarrow> bytes \<Rightarrow> migris_hkstore_t \<Rightarrow> migris_hkstore_status_t \<times> migris_hkstore_t" where
  "hkstore_deserialize_slots i 0 inp s = (HKSTORE_OK, s)"
| "hkstore_deserialize_slots i (Suc left) inp s =
    (case hkstore_read_struct inp of
       Inl e \<Rightarrow> (e, migris_hkstore_init s)
     | Inr (n, x) \<Rightarrow>
        (let s = s\<lparr>hks_structures := (hks_structures s)[i := x]\<rparr>
         in if \<exists>y \<in> set (take i (hks_structures s)). hk_sid y = hk_sid x
            then (HKSTORE_ERR_DUPLICATE, migris_hkstore_init s)
            else hkstore_deserialize_slots (Suc i) left (drop n inp) (s\<lparr>hks_count := hks_count s + 1\<rparr>)))"

definition migris_hkstore_deserialize ::
  "migris_hkstore_t \<Rightarrow> bytes \<Rightarrow> migris_hkstore_status_t \<times> migris_hkstore_t" where
  "migris_hkstore_deserialize s inp =
    (let s = migris_hkstore_init s
     in if length inp < 2 then (HKSTORE_ERR_TRUNCATED, s)
        else let count = unat (rd16_at inp 0)
             in if MIGRIS_HKSTORE_CAPACITY < count then (HKSTORE_ERR_FULL, s)
                else hkstore_deserialize_slots 0 count (drop 2 inp) s)"

section \<open>Invariant and the map the store implements\<close>

definition hks_live :: "migris_hkstore_t \<Rightarrow> migris_hk_structure_t list" where
  "hks_live s = filter hk_in_use (hks_structures s)"

definition hks_inv :: "migris_hkstore_t \<Rightarrow> bool" where
  "hks_inv s \<longleftrightarrow> length (hks_structures s) = MIGRIS_HKSTORE_CAPACITY
     \<and> hks_count s = length (hks_live s) \<and> distinct (map hk_sid (hks_live s))
     \<and> (\<forall>x \<in> set (hks_live s). MIGRIS_HKSTORE_SID_MIN \<le> hk_sid x
          \<and> length (hk_param_ids x) \<le> MIGRIS_HKSTORE_MAX_PARAMS)"

lemma filter_update:
  assumes "i < length xs"
  shows "filter P (xs[i := y]) = filter P (take i xs) @ (if P y then [y] else []) @ filter P (drop (Suc i) xs)"
    and "filter P xs = filter P (take i xs) @ (if P (xs ! i) then [xs ! i] else []) @ filter P (drop (Suc i) xs)"
proof -
  show "filter P (xs[i := y]) = filter P (take i xs) @ (if P y then [y] else []) @ filter P (drop (Suc i) xs)"
    by (simp add: upd_conv_take_nth_drop [OF assms])
  show "filter P xs = filter P (take i xs) @ (if P (xs ! i) then [xs ! i] else []) @ filter P (drop (Suc i) xs)"
    using arg_cong [OF id_take_nth_drop [OF assms], of "filter P"] by simp
qed

lemma hks_find_iff:
  assumes "hks_inv s"
  shows "migris_hkstore_find s sid = Some x \<longleftrightarrow> x \<in> set (hks_live s) \<and> hk_sid x = sid"
proof (cases "hkstore_index_of s sid")
  case None
  then have "\<forall>x \<in> set (hks_structures s). \<not> (hk_in_use x \<and> hk_sid x = sid)"
    by (simp add: hkstore_index_of_def first_index_None)
  then have "\<not> (x \<in> set (hks_live s) \<and> hk_sid x = sid)" by (auto simp: hks_live_def)
  moreover have "migris_hkstore_find s sid = None" using None by (simp add: migris_hkstore_find_def)
  ultimately show ?thesis by simp
next
  case (Some i)
  let ?y = "hks_structures s ! i"
  have "i < length (hks_structures s)" "hk_in_use ?y \<and> hk_sid ?y = sid"
    using first_index_less [OF Some [unfolded hkstore_index_of_def]]
      first_index_nth [OF Some [unfolded hkstore_index_of_def]] by simp_all
  then have y: "?y \<in> set (hks_live s)" "hk_sid ?y = sid" by (simp_all add: hks_live_def)
  have inj: "inj_on hk_sid (set (hks_live s))" using assms by (simp add: hks_inv_def distinct_map)
  have "x = ?y" if "x \<in> set (hks_live s)" "hk_sid x = sid"
    using inj_onD [OF inj, of x ?y] that y by simp
  then have "x \<in> set (hks_live s) \<and> hk_sid x = sid \<longleftrightarrow> ?y = x" using y by blast
  moreover have "migris_hkstore_find s sid = Some ?y" using Some by (simp add: migris_hkstore_find_def)
  ultimately show ?thesis by simp
qed

lemma hks_find_None: "migris_hkstore_find s sid = None \<longleftrightarrow> (\<forall>x \<in> set (hks_live s). hk_sid x \<noteq> sid)"
proof -
  have "migris_hkstore_find s sid = None \<longleftrightarrow> hkstore_index_of s sid = None"
    by (simp add: migris_hkstore_find_def split: option.split)
  then show ?thesis by (auto simp: hkstore_index_of_def first_index_None hks_live_def)
qed

lemma hks_find_eqI:
  assumes inv: "hks_inv s" and x: "\<And>a. a \<in> set (hks_live s) \<and> hk_sid a = sid \<longleftrightarrow> x = Some a"
  shows "migris_hkstore_find s sid = x"
proof -
  have "migris_hkstore_find s sid = Some a \<longleftrightarrow> x = Some a" for a
    by (rule trans [OF hks_find_iff [OF inv] x])
  then show ?thesis by (metis not_None_eq)
qed

lemma hks_slot_update:
  assumes inv: "hks_inv s" and i: "i < length (hks_structures s)" "hks_structures s' = (hks_structures s)[i := y]"
    and y: "hk_in_use y \<Longrightarrow> MIGRIS_HKSTORE_SID_MIN \<le> hk_sid y \<and> length (hk_param_ids y) \<le> MIGRIS_HKSTORE_MAX_PARAMS
       \<and> (\<forall>x \<in> set (hks_live s). hk_sid x = hk_sid y \<longrightarrow> hk_in_use (hks_structures s ! i) \<and> x = hks_structures s ! i)"
    and c: "hks_count s' + (if hk_in_use (hks_structures s ! i) then 1 else 0) = hks_count s + (if hk_in_use y then 1 else 0)"
  shows "hks_inv s'"
    and "set (hks_live s') = set (hks_live s) - {x. x = hks_structures s ! i \<and> hk_in_use x} \<union> {x. x = y \<and> hk_in_use x}"
proof -
  let ?x = "hks_structures s ! i"
  let ?A = "filter hk_in_use (take i (hks_structures s))" and ?B = "filter hk_in_use (drop (Suc i) (hks_structures s))"
  let ?X = "if hk_in_use ?x then [?x] else []" and ?Y = "if hk_in_use y then [y] else []"
  have l: "hks_live s = ?A @ ?X @ ?B"
    unfolding hks_live_def by (rule filter_update(2) [OF i(1)])
  have l': "hks_live s' = ?A @ ?Y @ ?B"
    unfolding hks_live_def i(2) by (rule filter_update(1) [OF i(1)])
  have d: "distinct (map hk_sid (?A @ ?X @ ?B))" and n: "hks_count s = length (?A @ ?X @ ?B)"
    and b: "\<forall>x \<in> set (?A @ ?X @ ?B). MIGRIS_HKSTORE_SID_MIN \<le> hk_sid x \<and> length (hk_param_ids x) \<le> MIGRIS_HKSTORE_MAX_PARAMS"
    and len: "length (hks_structures s) = MIGRIS_HKSTORE_CAPACITY"
    using inv unfolding hks_inv_def l by blast+
  have u: "hk_sid x \<noteq> hk_sid y" if "hk_in_use y" "x \<in> set ?A \<union> set ?B" for x
  proof
    assume eq: "hk_sid x = hk_sid y"
    have "x \<in> set (hks_live s)" using that(2) unfolding l by auto
    with y [OF that(1)] eq have "hk_in_use ?x" "x = ?x" by blast+
    with d that(2) show False by (cases "x \<in> set ?A") auto
  qed
  have "distinct (map hk_sid (hks_live s'))"
    using d u unfolding l' by (cases "hk_in_use y"; cases "hk_in_use ?x") (fastforce simp: image_iff)+
  moreover have "hks_count s' = length (hks_live s')"
    using c n unfolding l' by (simp split: if_splits)
  moreover have "\<forall>x \<in> set (hks_live s'). MIGRIS_HKSTORE_SID_MIN \<le> hk_sid x \<and> length (hk_param_ids x) \<le> MIGRIS_HKSTORE_MAX_PARAMS"
    using b y unfolding l' by (cases "hk_in_use y") (simp_all add: ball_Un)
  ultimately show "hks_inv s'" using len by (simp add: hks_inv_def i(2))
  have ni: "hk_in_use ?x \<Longrightarrow> ?x \<notin> set ?A \<union> set ?B" using d by auto
  show "set (hks_live s') = set (hks_live s) - {x. x = hks_structures s ! i \<and> hk_in_use x} \<union> {x. x = y \<and> hk_in_use x}"
    using ni unfolding l l' by (cases "hk_in_use ?x"; cases "hk_in_use y") auto
qed

lemma create_status:
  assumes "hks_inv s"
  shows "fst (migris_hkstore_create s sid ids iv) = HKSTORE_OK \<longleftrightarrow>
     ids \<noteq> [] \<and> length ids \<le> MIGRIS_HKSTORE_MAX_PARAMS \<and> MIGRIS_HKSTORE_SID_MIN \<le> sid
     \<and> migris_hkstore_find s sid = None \<and> hks_count s < MIGRIS_HKSTORE_CAPACITY"
proof -
  have len: "length (hks_structures s) = MIGRIS_HKSTORE_CAPACITY" and c: "hks_count s = length (hks_live s)"
    using assms by (simp_all add: hks_inv_def)
  have "first_index (\<lambda>x. \<not> hk_in_use x) (hks_structures s) = None \<longleftrightarrow> \<not> hks_count s < MIGRIS_HKSTORE_CAPACITY"
  proof (cases "\<forall>x \<in> set (hks_structures s). hk_in_use x")
    case True
    then have "hks_live s = hks_structures s" by (simp add: hks_live_def)
    with True len c show ?thesis by (simp add: first_index_None)
  next
    case False
    then have "hks_count s < MIGRIS_HKSTORE_CAPACITY"
      unfolding c hks_live_def len [symmetric] by (auto intro: length_filter_less)
    with False show ?thesis by (simp add: first_index_None)
  qed
  moreover have "migris_hkstore_find s sid = None \<longleftrightarrow> hkstore_index_of s sid = None"
    by (simp add: migris_hkstore_find_def split: option.split)
  ultimately show ?thesis
    by (auto simp: migris_hkstore_create_def not_le not_less split: option.split)
qed

lemma create_refused: "fst (migris_hkstore_create s sid ids iv) \<noteq> HKSTORE_OK \<Longrightarrow> snd (migris_hkstore_create s sid ids iv) = s"
  by (auto simp: migris_hkstore_create_def split: if_splits option.splits)

lemma create_accepted:
  assumes inv: "hks_inv s" and ok: "fst (migris_hkstore_create s sid ids iv) = HKSTORE_OK"
  defines "s' \<equiv> snd (migris_hkstore_create s sid ids iv)"
  shows "hks_inv s'"
    and "set (hks_live s') = insert \<lparr>hk_sid = sid, hk_param_ids = ids, hk_interval_sec = iv, hk_last_emit_sec = 0,
              hk_enabled = False, hk_in_use = True\<rparr> (set (hks_live s))"
    and "hks_generation s' = hks_generation s + 1"
proof -
  let ?y = "\<lparr>hk_sid = sid, hk_param_ids = ids, hk_interval_sec = iv, hk_last_emit_sec = 0,
              hk_enabled = False, hk_in_use = True\<rparr>"
  note st = ok [unfolded create_status [OF inv]]
  from ok obtain slot where slot: "first_index (\<lambda>x. \<not> hk_in_use x) (hks_structures s) = Some slot"
    and s': "s' = s\<lparr>hks_structures := (hks_structures s)[slot := ?y], hks_count := hks_count s + 1,
           hks_generation := hks_generation s + 1\<rparr>"
    by (auto simp: migris_hkstore_create_def s'_def split: if_splits option.splits)
  have i: "slot < length (hks_structures s)" "\<not> hk_in_use (hks_structures s ! slot)"
    using first_index_less [OF slot] first_index_nth [OF slot] by simp_all
  have fresh: "\<forall>x \<in> set (hks_live s). hk_sid x \<noteq> sid" using st by (simp add: hks_find_None)
  have str: "hks_structures s' = (hks_structures s)[slot := ?y]" by (simp add: s')
  have c: "hks_count s' + (if hk_in_use (hks_structures s ! slot) then 1 else 0) = hks_count s + (if hk_in_use ?y then 1 else 0)"
    using i by (simp add: s')
  note upd = hks_slot_update [OF inv i(1) str _ c]
  show "hks_inv s'" by (rule upd(1)) (use st fresh in simp)
  have "set (hks_live s') = set (hks_live s) - {x. x = hks_structures s ! slot \<and> hk_in_use x} \<union> {x. x = ?y \<and> hk_in_use x}"
    by (rule upd(2)) (use st fresh in simp)
  moreover have "{x. x = hks_structures s ! slot \<and> hk_in_use x} = {}" "{x. x = ?y \<and> hk_in_use x} = {?y}"
    using i by auto
  ultimately show "set (hks_live s') = insert ?y (set (hks_live s))" by simp
  show "hks_generation s' = hks_generation s + 1" by (simp add: s')
qed

lemma hks_index_Some:
  assumes "hkstore_index_of s sid = Some i"
  shows "i < length (hks_structures s)" "hk_in_use (hks_structures s ! i)" "hk_sid (hks_structures s ! i) = sid"
    "hks_structures s ! i \<in> set (hks_live s)"
  using first_index_less [OF assms [unfolded hkstore_index_of_def]]
    first_index_nth [OF assms [unfolded hkstore_index_of_def]] by (simp_all add: hks_live_def)

lemma hks_unique:
  "hks_inv s \<Longrightarrow> x \<in> set (hks_live s) \<Longrightarrow> y \<in> set (hks_live s) \<Longrightarrow> hk_sid x = hk_sid y \<Longrightarrow> x = y"
  by (auto simp: hks_inv_def distinct_map dest: inj_onD)

lemma hks_find_index:
  "migris_hkstore_find s sid = Some x \<Longrightarrow> \<exists>i. hkstore_index_of s sid = Some i \<and> x = hks_structures s ! i"
  "migris_hkstore_find s sid = None \<Longrightarrow> hkstore_index_of s sid = None"
  by (auto simp: migris_hkstore_find_def split: option.splits)

lemma hks_delete_present:
  assumes inv: "hks_inv s" and x: "migris_hkstore_find s sid = Some x"
  defines "r \<equiv> migris_hkstore_delete s sid"
  shows "fst r = HKSTORE_OK" and "hks_inv (snd r)" and "set (hks_live (snd r)) = set (hks_live s) - {x}"
    and "hks_generation (snd r) = hks_generation s + 1"
proof -
  obtain i where i: "hkstore_index_of s sid = Some i" "x = hks_structures s ! i" using hks_find_index(1) [OF x] by blast
  note ix = hks_index_Some [OF i(1)]
  let ?y = "x\<lparr>hk_in_use := False\<rparr>"
  have r: "r = (HKSTORE_OK, s\<lparr>hks_structures := (hks_structures s)[i := ?y], hks_count := hks_count s - 1,
      hks_generation := hks_generation s + 1\<rparr>)" using i by (simp add: r_def migris_hkstore_delete_def)
  have pos: "0 < hks_count s" using inv ix(4) by (auto simp: hks_inv_def length_pos_if_in_set)
  have str: "hks_structures (snd r) = (hks_structures s)[i := ?y]" by (simp add: r)
  have c: "hks_count (snd r) + (if hk_in_use (hks_structures s ! i) then 1 else 0) = hks_count s + (if hk_in_use ?y then 1 else 0)"
    using pos ix by (simp add: r)
  note upd = hks_slot_update [OF inv ix(1) str _ c]
  show "fst r = HKSTORE_OK" "hks_generation (snd r) = hks_generation s + 1" by (simp_all add: r)
  show "hks_inv (snd r)" by (rule upd(1)) simp
  have "set (hks_live (snd r)) = set (hks_live s) - {x. x = hks_structures s ! i \<and> hk_in_use x} \<union> {x. x = ?y \<and> hk_in_use x}"
    by (rule upd(2)) simp
  moreover have "{z. z = ?y \<and> hk_in_use z} = {}" by auto
  moreover have "{z. z = hks_structures s ! i \<and> hk_in_use z} = {x}" using ix(2) i(2) by auto
  ultimately show "set (hks_live (snd r)) = set (hks_live s) - {x}" by simp
qed

lemma hks_enable_present:
  fixes b :: bool
  assumes inv: "hks_inv s" and x: "migris_hkstore_find s sid = Some x"
  defines "r \<equiv> migris_hkstore_set_enabled s sid b"
  shows "fst r = HKSTORE_OK" and "hks_inv (snd r)"
    and "set (hks_live (snd r)) = insert (x\<lparr>hk_enabled := b\<rparr>) (set (hks_live s) - {x})"
    and "hks_generation (snd r) = (if hk_enabled x = b then hks_generation s else hks_generation s + 1)"
proof -
  obtain i where i: "hkstore_index_of s sid = Some i" "x = hks_structures s ! i" using hks_find_index(1) [OF x] by blast
  note ix = hks_index_Some [OF i(1)]
  let ?y = "x\<lparr>hk_enabled := b\<rparr>"
  have "fst r = HKSTORE_OK \<and> hks_inv (snd r) \<and> set (hks_live (snd r)) = insert ?y (set (hks_live s) - {x})
    \<and> hks_generation (snd r) = (if hk_enabled x = b then hks_generation s else hks_generation s + 1)"
  proof (cases "hk_enabled x = b")
    case True
    then have y: "?y = x" by (cases x) simp
    have r: "r = (HKSTORE_OK, s)" using i True by (simp add: r_def migris_hkstore_set_enabled_def)
    show ?thesis unfolding r y using ix(4) i(2) inv True by (simp add: insert_absorb)
  next
    case False
    then have r: "r = (HKSTORE_OK, s\<lparr>hks_structures := (hks_structures s)[i := ?y],
        hks_generation := hks_generation s + 1\<rparr>)" using i by (simp add: r_def migris_hkstore_set_enabled_def)
    have str: "hks_structures (snd r) = (hks_structures s)[i := ?y]" by (simp add: r)
    have c: "hks_count (snd r) + (if hk_in_use (hks_structures s ! i) then 1 else 0) = hks_count s + (if hk_in_use ?y then 1 else 0)"
      using ix i by (simp add: r)
    have b: "MIGRIS_HKSTORE_SID_MIN \<le> hk_sid x \<and> length (hk_param_ids x) \<le> MIGRIS_HKSTORE_MAX_PARAMS"
      using inv ix(4) i(2) by (simp add: hks_inv_def)
    have u: "\<forall>z \<in> set (hks_live s). hk_sid z = hk_sid x \<longrightarrow> z = x"
      using hks_unique [OF inv _ ix(4)] i(2) by blast
    have y: "hk_in_use ?y \<Longrightarrow> MIGRIS_HKSTORE_SID_MIN \<le> hk_sid ?y \<and> length (hk_param_ids ?y) \<le> MIGRIS_HKSTORE_MAX_PARAMS
       \<and> (\<forall>z \<in> set (hks_live s). hk_sid z = hk_sid ?y \<longrightarrow> hk_in_use (hks_structures s ! i) \<and> z = hks_structures s ! i)"
      using b u ix(2) by (simp add: i(2) [symmetric])
    note upd = hks_slot_update [OF inv ix(1) str y c]
    have "{z. z = ?y \<and> hk_in_use z} = {?y}" "{z. z = hks_structures s ! i \<and> hk_in_use z} = {x}"
      using ix(2) i(2) by auto
    with upd(2) have "set (hks_live (snd r)) = insert ?y (set (hks_live s) - {x})" by simp
    with upd(1) False show ?thesis by (simp add: r)
  qed
  then show "fst r = HKSTORE_OK" "hks_inv (snd r)" "set (hks_live (snd r)) = insert (x\<lparr>hk_enabled := b\<rparr>) (set (hks_live s) - {x})"
    "hks_generation (snd r) = (if hk_enabled x = b then hks_generation s else hks_generation s + 1)" by blast+
qed

lemma hks_absent:
  assumes "migris_hkstore_find s sid = None"
  shows "migris_hkstore_delete s sid = (HKSTORE_ERR_NOT_FOUND, s)"
    and "migris_hkstore_set_enabled s sid b = (HKSTORE_ERR_NOT_FOUND, s)"
  using hks_find_index(2) [OF assms] by (simp_all add: migris_hkstore_delete_def migris_hkstore_set_enabled_def)

lemma hks_find_upd:
  assumes "hks_inv s" "hks_inv s'" "\<And>a. a \<in> set (hks_live s') \<longleftrightarrow> (a \<in> set (hks_live s) \<and> hk_sid a \<noteq> sid) \<or> z = Some a"
    "\<And>a. z = Some a \<Longrightarrow> hk_sid a = sid"
  shows "migris_hkstore_find s' = (migris_hkstore_find s)(sid := z)"
  by (rule ext, rule hks_find_eqI [OF assms(2)]) (auto simp: assms(3,4) hks_find_iff [OF assms(1)])

lemma hks_create_find:
  assumes "hks_inv s" and ok: "fst (migris_hkstore_create s sid ids iv) = HKSTORE_OK"
  shows "migris_hkstore_find (snd (migris_hkstore_create s sid ids iv)) = (migris_hkstore_find s)(sid \<mapsto>
    \<lparr>hk_sid = sid, hk_param_ids = ids, hk_interval_sec = iv, hk_last_emit_sec = 0, hk_enabled = False, hk_in_use = True\<rparr>)"
    (is "_ = (migris_hkstore_find s)(sid \<mapsto> ?new)")
proof (rule hks_find_upd [OF assms(1) create_accepted(1) [OF assms]])
  from ok have "\<forall>a \<in> set (hks_live s). hk_sid a \<noteq> sid" by (simp add: create_status [OF assms(1)] hks_find_None)
  then show "a \<in> set (hks_live (snd (migris_hkstore_create s sid ids iv))) \<longleftrightarrow>
      (a \<in> set (hks_live s) \<and> hk_sid a \<noteq> sid) \<or> Some ?new = Some a" for a
    by (auto simp: create_accepted(2) [OF assms])
qed auto

lemma hks_present_find:
  assumes "hks_inv s" and x: "migris_hkstore_find s sid = Some x"
  shows "migris_hkstore_find (snd (migris_hkstore_delete s sid)) = (migris_hkstore_find s)(sid := None)"
    and "migris_hkstore_find (snd (migris_hkstore_set_enabled s sid b)) = (migris_hkstore_find s)(sid \<mapsto> x\<lparr>hk_enabled := b\<rparr>)"
proof -
  have x': "x \<in> set (hks_live s)" "hk_sid x = sid" using x by (simp_all add: hks_find_iff [OF assms(1)])
  have u: "a \<in> set (hks_live s) - {x} \<longleftrightarrow> a \<in> set (hks_live s) \<and> hk_sid a \<noteq> sid" for a
    using hks_unique [OF assms(1) _ x'(1), of a] x' by (metis Diff_iff empty_iff insert_iff)
  show "migris_hkstore_find (snd (migris_hkstore_delete s sid)) = (migris_hkstore_find s)(sid := None)"
    by (rule hks_find_upd [OF assms(1) hks_delete_present(2) [OF assms]])
      (simp_all only: hks_delete_present(3) [OF assms] u, simp_all)
  show "migris_hkstore_find (snd (migris_hkstore_set_enabled s sid b)) = (migris_hkstore_find s)(sid \<mapsto> x\<lparr>hk_enabled := b\<rparr>)"
    by (rule hks_find_upd [OF assms(1) hks_enable_present(2) [OF assms]])
      (simp_all only: hks_enable_present(3) [OF assms] insert_iff u, use x' in auto)
qed

section \<open>The structure-store interface\<close>

text \<open>
  The four management requests, and what the PUS-3 handler relies on when it applies one: each is
  accepted under a condition on the map of structures and then is one map update; a refused one
  changes nothing. The client lemma reads a request as a partial operation on the map.
\<close>

datatype hk_request = HkCreate u16 "u16 list" u32 | HkDelete u16 | HkSwitch u16 bool

fun hk_request_ok :: "(u16 \<rightharpoonup> migris_hk_structure_t) \<Rightarrow> nat \<Rightarrow> hk_request \<Rightarrow> bool" where
  "hk_request_ok m cnt (HkCreate sid ids iv) \<longleftrightarrow> ids \<noteq> [] \<and> length ids \<le> MIGRIS_HKSTORE_MAX_PARAMS
     \<and> MIGRIS_HKSTORE_SID_MIN \<le> sid \<and> m sid = None \<and> cnt < MIGRIS_HKSTORE_CAPACITY"
| "hk_request_ok m cnt (HkDelete sid) \<longleftrightarrow> m sid \<noteq> None"
| "hk_request_ok m cnt (HkSwitch sid b) \<longleftrightarrow> m sid \<noteq> None"

fun hk_request_effect :: "hk_request \<Rightarrow> (u16 \<rightharpoonup> migris_hk_structure_t) \<Rightarrow> (u16 \<rightharpoonup> migris_hk_structure_t)" where
  "hk_request_effect (HkCreate sid ids iv) m = m(sid \<mapsto>
     \<lparr>hk_sid = sid, hk_param_ids = ids, hk_interval_sec = iv, hk_last_emit_sec = 0, hk_enabled = False, hk_in_use = True\<rparr>)"
| "hk_request_effect (HkDelete sid) m = m(sid := None)"
| "hk_request_effect (HkSwitch sid b) m = m(sid := map_option (\<lambda>x. x\<lparr>hk_enabled := b\<rparr>) (m sid))"

fun hk_apply ::
  "('s \<Rightarrow> u16 \<Rightarrow> u16 list \<Rightarrow> u32 \<Rightarrow> migris_hkstore_status_t \<times> 's) \<Rightarrow> ('s \<Rightarrow> u16 \<Rightarrow> migris_hkstore_status_t \<times> 's)
     \<Rightarrow> ('s \<Rightarrow> u16 \<Rightarrow> bool \<Rightarrow> migris_hkstore_status_t \<times> 's) \<Rightarrow> 's \<Rightarrow> hk_request \<Rightarrow> migris_hkstore_status_t \<times> 's" where
  "hk_apply cre del sw s (HkCreate sid ids iv) = cre s sid ids iv"
| "hk_apply cre del sw s (HkDelete sid) = del s sid"
| "hk_apply cre del sw s (HkSwitch sid b) = sw s sid b"

locale structure_store =
  fixes st_find :: "'s \<Rightarrow> u16 \<Rightarrow> migris_hk_structure_t option"
    and st_count :: "'s \<Rightarrow> nat"
    and st_create :: "'s \<Rightarrow> u16 \<Rightarrow> u16 list \<Rightarrow> u32 \<Rightarrow> migris_hkstore_status_t \<times> 's"
    and st_delete :: "'s \<Rightarrow> u16 \<Rightarrow> migris_hkstore_status_t \<times> 's"
    and st_switch :: "'s \<Rightarrow> u16 \<Rightarrow> bool \<Rightarrow> migris_hkstore_status_t \<times> 's"
    and st_inv :: "'s \<Rightarrow> bool"
  assumes cre_ok: "st_inv s \<Longrightarrow> fst (st_create s sid ids iv) = HKSTORE_OK \<longleftrightarrow> hk_request_ok (st_find s) (st_count s) (HkCreate sid ids iv)"
    and cre_find: "st_inv s \<Longrightarrow> fst (st_create s sid ids iv) = HKSTORE_OK \<Longrightarrow>
      st_find (snd (st_create s sid ids iv)) = hk_request_effect (HkCreate sid ids iv) (st_find s)"
    and cre_inv: "st_inv s \<Longrightarrow> st_inv (snd (st_create s sid ids iv))"
    and cre_refused: "fst (st_create s sid ids iv) \<noteq> HKSTORE_OK \<Longrightarrow> snd (st_create s sid ids iv) = s"
    and del_ok: "st_inv s \<Longrightarrow> fst (st_delete s sid) = HKSTORE_OK \<longleftrightarrow> st_find s sid \<noteq> None"
    and del_find: "st_inv s \<Longrightarrow> fst (st_delete s sid) = HKSTORE_OK \<Longrightarrow>
      st_find (snd (st_delete s sid)) = hk_request_effect (HkDelete sid) (st_find s)"
    and del_inv: "st_inv s \<Longrightarrow> st_inv (snd (st_delete s sid))"
    and del_refused: "fst (st_delete s sid) \<noteq> HKSTORE_OK \<Longrightarrow> snd (st_delete s sid) = s"
    and sw_ok: "st_inv s \<Longrightarrow> fst (st_switch s sid b) = HKSTORE_OK \<longleftrightarrow> st_find s sid \<noteq> None"
    and sw_find: "st_inv s \<Longrightarrow> fst (st_switch s sid b) = HKSTORE_OK \<Longrightarrow>
      st_find (snd (st_switch s sid b)) = hk_request_effect (HkSwitch sid b) (st_find s)"
    and sw_inv: "st_inv s \<Longrightarrow> st_inv (snd (st_switch s sid b))"
    and sw_refused: "fst (st_switch s sid b) \<noteq> HKSTORE_OK \<Longrightarrow> snd (st_switch s sid b) = s"
begin

lemma apply_request_spec:
  assumes "st_inv s"
  shows "fst (hk_apply st_create st_delete st_switch s req) = HKSTORE_OK \<longleftrightarrow> hk_request_ok (st_find s) (st_count s) req"
    and "fst (hk_apply st_create st_delete st_switch s req) = HKSTORE_OK \<Longrightarrow> st_find (snd (hk_apply st_create st_delete st_switch s req)) = hk_request_effect req (st_find s)"
    and "fst (hk_apply st_create st_delete st_switch s req) \<noteq> HKSTORE_OK \<Longrightarrow> snd (hk_apply st_create st_delete st_switch s req) = s"
    and "st_inv (snd (hk_apply st_create st_delete st_switch s req))"
  using assms by (cases req; simp add: cre_ok cre_find cre_inv cre_refused del_ok del_find del_inv
      del_refused sw_ok sw_find sw_inv sw_refused del: hk_request_effect.simps)+

end

interpretation hkst: structure_store migris_hkstore_find migris_hkstore_count migris_hkstore_create
    migris_hkstore_delete migris_hkstore_set_enabled hks_inv
proof unfold_locales
  fix s sid ids iv b
  assume inv: "hks_inv s"
  show "fst (migris_hkstore_create s sid ids iv) = HKSTORE_OK \<longleftrightarrow>
      hk_request_ok (migris_hkstore_find s) (migris_hkstore_count s) (HkCreate sid ids iv)"
    using create_status [OF inv] by (simp add: migris_hkstore_count_def)
  show "hks_inv (snd (migris_hkstore_create s sid ids iv))"
    using create_accepted(1) [OF inv, of sid ids iv] create_refused [of s sid ids iv] inv by metis
  show "fst (migris_hkstore_create s sid ids iv) = HKSTORE_OK \<Longrightarrow>
      migris_hkstore_find (snd (migris_hkstore_create s sid ids iv)) = hk_request_effect (HkCreate sid ids iv) (migris_hkstore_find s)"
    by (simp add: hks_create_find [OF inv])
  show "fst (migris_hkstore_delete s sid) = HKSTORE_OK \<longleftrightarrow> migris_hkstore_find s sid \<noteq> None"
    and "fst (migris_hkstore_set_enabled s sid b) = HKSTORE_OK \<longleftrightarrow> migris_hkstore_find s sid \<noteq> None"
    and "hks_inv (snd (migris_hkstore_delete s sid))" "hks_inv (snd (migris_hkstore_set_enabled s sid b))"
    and "fst (migris_hkstore_delete s sid) = HKSTORE_OK \<Longrightarrow>
      migris_hkstore_find (snd (migris_hkstore_delete s sid)) = hk_request_effect (HkDelete sid) (migris_hkstore_find s)"
    and "fst (migris_hkstore_set_enabled s sid b) = HKSTORE_OK \<Longrightarrow>
      migris_hkstore_find (snd (migris_hkstore_set_enabled s sid b)) = hk_request_effect (HkSwitch sid b) (migris_hkstore_find s)"
    using inv by (cases "migris_hkstore_find s sid"; simp add: hks_absent hks_delete_present hks_enable_present hks_present_find)+
next
  fix s sid ids iv b
  show "fst (migris_hkstore_create s sid ids iv) \<noteq> HKSTORE_OK \<Longrightarrow> snd (migris_hkstore_create s sid ids iv) = s"
    by (rule create_refused)
  show "fst (migris_hkstore_delete s sid) \<noteq> HKSTORE_OK \<Longrightarrow> snd (migris_hkstore_delete s sid) = s"
    by (simp add: migris_hkstore_delete_def split: option.splits)
  show "fst (migris_hkstore_set_enabled s sid b) \<noteq> HKSTORE_OK \<Longrightarrow> snd (migris_hkstore_set_enabled s sid b) = s"
    by (simp add: migris_hkstore_set_enabled_def split: option.splits if_splits)
qed

section \<open>Selection of the due structure\<close>

definition hk_best_of :: "migris_hk_structure_t list \<Rightarrow> u32 \<Rightarrow> nat \<Rightarrow> nat option \<Rightarrow> bool" where
  "hk_best_of xs now n r \<longleftrightarrow> (case r of
     None \<Rightarrow> \<forall>i < n. \<not> hk_due (xs ! i) now
   | Some b \<Rightarrow> b < n \<and> hk_due (xs ! b) now
       \<and> (\<forall>i < n. hk_due (xs ! i) now \<longrightarrow> hk_last_emit_sec (xs ! b) \<le> hk_last_emit_sec (xs ! i)))"

lemma hk_best_due_spec: "hk_best_of xs now n (hk_best_due xs n now)"
proof (induction n)
  case 0
  then show ?case by (simp add: hk_best_due_def hk_best_of_def)
next
  case (Suc n)
  let ?step = "\<lambda>best. if \<not> hk_due (xs ! n) now then best else case best of None \<Rightarrow> Some n
      | Some b \<Rightarrow> if hk_last_emit_sec (xs ! n) < hk_last_emit_sec (xs ! b) then Some n else Some b"
  have "hk_best_due xs (Suc n) now = ?step (hk_best_due xs n now)"
    by (simp add: hk_best_due_def)
  then show ?case using Suc
    by (cases "hk_best_due xs n now") (auto simp: hk_best_of_def less_Suc_eq not_less)
qed

lemma due_cases:
  assumes inv: "hks_inv s"
  obtains (none) "migris_hkstore_due s now = (None, s)" "\<forall>x \<in> set (hks_live s). \<not> hk_due x now"
    | (due) x s' where "migris_hkstore_due s now = (Some (x\<lparr>hk_last_emit_sec := now\<rparr>), s')"
        "x \<in> set (hks_live s)" "hk_due x now"
        "\<forall>y \<in> set (hks_live s). hk_due y now \<longrightarrow> hk_last_emit_sec x \<le> hk_last_emit_sec y"
        "set (hks_live s') = insert (x\<lparr>hk_last_emit_sec := now\<rparr>) (set (hks_live s) - {x})"
        "hks_inv s'" "hks_generation s' = hks_generation s" "hks_count s' = hks_count s"
proof -
  have len: "length (hks_structures s) = MIGRIS_HKSTORE_CAPACITY" using inv by (simp add: hks_inv_def)
  have live: "x \<in> set (hks_live s) \<longleftrightarrow> (\<exists>i < MIGRIS_HKSTORE_CAPACITY. x = hks_structures s ! i \<and> hk_in_use x)" for x
    using len by (auto simp: hks_live_def in_set_conv_nth)
  note spec = hk_best_due_spec [of "hks_structures s" now MIGRIS_HKSTORE_CAPACITY, unfolded hk_best_of_def]
  show thesis
  proof (cases "hk_best_due (hks_structures s) MIGRIS_HKSTORE_CAPACITY now")
    case None
    with spec have "\<forall>x \<in> set (hks_live s). \<not> hk_due x now" by (auto simp: live)
    with None show thesis by (intro none) (simp_all add: migris_hkstore_due_def)
  next
    case (Some b)
    let ?x = "hks_structures s ! b"
    let ?y = "?x\<lparr>hk_last_emit_sec := now\<rparr>"
    from spec Some have b: "b < MIGRIS_HKSTORE_CAPACITY" "hk_due ?x now"
      "\<forall>y \<in> set (hks_live s). hk_due y now \<longrightarrow> hk_last_emit_sec ?x \<le> hk_last_emit_sec y"
      by (auto simp: live)
    have u: "hk_in_use ?x" using b(2) by (simp add: hk_due_def)
    then have x: "?x \<in> set (hks_live s)" using b(1) live by blast
    let ?s = "s\<lparr>hks_structures := (hks_structures s)[b := ?y]\<rparr>"
    have eq: "migris_hkstore_due s now = (Some ?y, ?s)" using Some by (simp add: migris_hkstore_due_def Let_def)
    have bnd: "MIGRIS_HKSTORE_SID_MIN \<le> hk_sid ?x \<and> length (hk_param_ids ?x) \<le> MIGRIS_HKSTORE_MAX_PARAMS"
      using inv x by (simp add: hks_inv_def)
    have un: "\<forall>z \<in> set (hks_live s). hk_sid z = hk_sid ?x \<longrightarrow> z = ?x"
      using hks_unique [OF inv _ x] by blast
    have i: "b < length (hks_structures s)" using b(1) len by simp
    have str: "hks_structures ?s = (hks_structures s)[b := ?y]" by simp
    have c: "hks_count ?s + (if hk_in_use ?x then 1 else 0) = hks_count s + (if hk_in_use ?y then 1 else 0)" by simp
    note upd = hks_slot_update [OF inv i str _ c]
    have pre: "hk_in_use ?y \<Longrightarrow> MIGRIS_HKSTORE_SID_MIN \<le> hk_sid ?y \<and> length (hk_param_ids ?y) \<le> MIGRIS_HKSTORE_MAX_PARAMS
       \<and> (\<forall>z \<in> set (hks_live s). hk_sid z = hk_sid ?y \<longrightarrow> hk_in_use ?x \<and> z = ?x)"
      using bnd un u by simp
    have "{z. z = ?x \<and> hk_in_use z} = {?x}" "{z. z = ?y \<and> hk_in_use z} = {?y}" using u by auto
    with upd(2) [OF pre] have set: "set (hks_live ?s) = insert ?y (set (hks_live s) - {?x})" by simp
    show thesis
      by (rule due [OF eq x b(2) b(3) set upd(1) [OF pre]]) simp_all
  qed
qed

section \<open>Image round trip\<close>

lemma serialize_slots_filter: "hkstore_serialize_slots xs room = hkstore_serialize_slots (filter hk_in_use xs) room"
  by (induction xs arbitrary: room) (auto split: sum.split)

lemma serialize_slots_free: "\<not> hk_in_use x \<Longrightarrow> hkstore_serialize_slots (replicate n x) room = Inr []"
  by (induction n) simp_all

lemma read_write_struct:
  assumes w: "hkstore_write_struct x cap = Inr out" and b: "MIGRIS_HKSTORE_SID_MIN \<le> hk_sid x"
    "length (hk_param_ids x) \<le> MIGRIS_HKSTORE_MAX_PARAMS" and u: "hk_in_use x"
  shows "hkstore_read_struct (out @ rest) = Inr (length out, x\<lparr>hk_last_emit_sec := 0\<rparr>)"
proof -
  let ?n = "length (hk_param_ids x)"
  let ?pre = "be16 (hk_sid x) @ be32 (hk_interval_sec x) @ [if hk_enabled x then 1 else 0] @ [of_nat ?n]"
  have out: "out = ?pre @ concat (map be16 (hk_param_ids x))"
    using w by (auto simp: hkstore_write_struct_def Let_def split: if_splits)
  have n8: "unat (of_nat ?n :: u8) = ?n" using b(2) by (simp add: unat_of_nat_u8 fsw_const)
  have ids: "rd16s (out @ rest) 8 ?n = hk_param_ids x"
    using rd16s_be16s [of ?pre "hk_param_ids x" rest] by (simp add: out)
  have lo: "length out = 8 + 2 * ?n" by (simp add: out)
  have f: "rd16_at (out @ rest) 0 = hk_sid x" "rd32_at (out @ rest) 2 = hk_interval_sec x"
    "(out @ rest) ! 6 = (if hk_enabled x then 1 else 0)" "(out @ rest) ! 7 = of_nat ?n"
    by (simp_all add: out rd32_at_append nth_append)
  have x: "x\<lparr>hk_last_emit_sec := 0\<rparr> = \<lparr>hk_sid = hk_sid x, hk_param_ids = hk_param_ids x,
      hk_interval_sec = hk_interval_sec x, hk_last_emit_sec = 0, hk_enabled = hk_enabled x, hk_in_use = True\<rparr>"
    using u by (cases x) simp
  show ?thesis
    using b lo unfolding hkstore_read_struct_def f n8 ids x Let_def by (simp add: not_less)
qed

lemma slots_round_trip:
  assumes "hkstore_serialize_slots ys room = Inr out"
    "\<forall>y \<in> set ys. hk_in_use y \<and> MIGRIS_HKSTORE_SID_MIN \<le> hk_sid y \<and> length (hk_param_ids y) \<le> MIGRIS_HKSTORE_MAX_PARAMS"
    "distinct (map hk_sid (take i (hks_structures s)) @ map hk_sid ys)"
    "i + length ys \<le> length (hks_structures s)"
  shows "\<exists>s'. hkstore_deserialize_slots i (length ys) (out @ rest) s = (HKSTORE_OK, s')
    \<and> hks_structures s' = take i (hks_structures s) @ map (\<lambda>y. y\<lparr>hk_last_emit_sec := 0\<rparr>) ys
        @ drop (i + length ys) (hks_structures s)
    \<and> hks_count s' = hks_count s + length ys \<and> hks_generation s' = hks_generation s"
  using assms
proof (induction ys arbitrary: i room out s)
  case Nil
  then show ?case by simp
next
  case (Cons y ys)
  let ?y = "y\<lparr>hk_last_emit_sec := 0\<rparr>"
  from Cons.prems(1,2) obtain w out' where w: "hkstore_write_struct y room = Inr w"
    and out': "hkstore_serialize_slots ys (room - length w) = Inr out'" and out: "out = w @ out'"
    by (auto split: sum.splits)
  have i: "i < length (hks_structures s)" using Cons.prems(4) by simp
  let ?s = "s\<lparr>hks_structures := (hks_structures s)[i := ?y], hks_count := hks_count s + 1\<rparr>"
  have rd: "hkstore_read_struct (out @ rest) = Inr (length w, ?y)"
    using read_write_struct [OF w, of "out' @ rest"] Cons.prems(2) by (simp add: out)
  have tk: "take i ((hks_structures s)[i := ?y]) = take i (hks_structures s)" by simp
  have "hk_sid y \<notin> hk_sid ` set (take i (hks_structures s))" using Cons.prems(3) by auto
  then have fresh: "\<not> (\<exists>z \<in> set (take i (hks_structures s)). hk_sid z = hk_sid y)" by (metis image_eqI)
  then have step: "hkstore_deserialize_slots i (length (y # ys)) (out @ rest) s
      = hkstore_deserialize_slots (Suc i) (length ys) (out' @ rest) ?s"
    by (simp add: rd Let_def) (simp add: out)
  have ts: "take (Suc i) (hks_structures ?s) = take i (hks_structures s) @ [?y]"
    using i by (simp add: take_Suc_conv_app_nth)
  have "\<exists>s'. hkstore_deserialize_slots (Suc i) (length ys) (out' @ rest) ?s = (HKSTORE_OK, s')
    \<and> hks_structures s' = take (Suc i) (hks_structures ?s) @ map (\<lambda>y. y\<lparr>hk_last_emit_sec := 0\<rparr>) ys
        @ drop (Suc i + length ys) (hks_structures ?s)
    \<and> hks_count s' = hks_count ?s + length ys \<and> hks_generation s' = hks_generation ?s"
  proof (rule Cons.IH [OF out'])
    show "distinct (map hk_sid (take (Suc i) (hks_structures ?s)) @ map hk_sid ys)"
      using Cons.prems(3) unfolding ts by auto
  qed (use Cons.prems in auto)
  then show ?case unfolding step ts by auto
qed

lemma hks_deserialize_serialize:
  assumes inv: "hks_inv s" and arr: "length (hks_structures s0) = MIGRIS_HKSTORE_CAPACITY"
    and ser: "migris_hkstore_serialize s cap = Inr img"
  shows "\<exists>s'. migris_hkstore_deserialize s0 (img @ rest) = (HKSTORE_OK, s') \<and> hks_inv s'
    \<and> hks_live s' = map (\<lambda>x. x\<lparr>hk_last_emit_sec := 0\<rparr>) (hks_live s) \<and> hks_generation s' = 0"
proof -
  let ?s0 = "migris_hkstore_init s0"
  from ser obtain out where out: "hkstore_serialize_slots (hks_live s) (cap - 2) = Inr out"
    and img: "img = be16 (of_nat (hks_count s)) @ out"
    by (auto simp: migris_hkstore_serialize_def serialize_slots_filter [of "hks_structures s"] hks_live_def
        split: if_splits sum.splits)
  have cnt: "hks_count s = length (hks_live s)" using inv by (simp add: hks_inv_def)
  also have "\<dots> \<le> MIGRIS_HKSTORE_CAPACITY"
    using inv length_filter_le [of hk_in_use "hks_structures s"] by (simp add: hks_inv_def hks_live_def)
  finally have le: "hks_count s \<le> MIGRIS_HKSTORE_CAPACITY" .
  then have n16: "unat (of_nat (hks_count s) :: u16) = hks_count s" by (simp add: unat_of_nat_u16 fsw_const)
  have l0: "length (hks_structures ?s0) = MIGRIS_HKSTORE_CAPACITY" using arr by (simp add: migris_hkstore_init_def)
  have bnd: "\<forall>y \<in> set (hks_live s). hk_in_use y \<and> MIGRIS_HKSTORE_SID_MIN \<le> hk_sid y \<and> length (hk_param_ids y) \<le> MIGRIS_HKSTORE_MAX_PARAMS"
    using inv by (simp add: hks_inv_def hks_live_def)
  have ds: "distinct (map hk_sid (take 0 (hks_structures ?s0)) @ map hk_sid (hks_live s))"
    using inv by (simp add: hks_inv_def)
  have fit: "0 + length (hks_live s) \<le> length (hks_structures ?s0)" using le cnt l0 by simp
  obtain s' where s': "hkstore_deserialize_slots 0 (length (hks_live s)) (out @ rest) ?s0 = (HKSTORE_OK, s')"
    "hks_structures s' = map (\<lambda>y. y\<lparr>hk_last_emit_sec := 0\<rparr>) (hks_live s) @ drop (length (hks_live s)) (hks_structures ?s0)"
    "hks_count s' = length (hks_live s)" "hks_generation s' = 0"
    using slots_round_trip [OF out bnd ds fit, of rest] by (auto simp: migris_hkstore_init_def)
  have "filter hk_in_use (drop k (hks_structures ?s0)) = []" for k
    by (simp add: migris_hkstore_init_def drop_map filter_map o_def)
  moreover have "filter hk_in_use (map (\<lambda>y. y\<lparr>hk_last_emit_sec := 0\<rparr>) (hks_live s)) = map (\<lambda>y. y\<lparr>hk_last_emit_sec := 0\<rparr>) (hks_live s)"
    using bnd by (simp add: filter_map o_def)
  ultimately have live: "hks_live s' = map (\<lambda>x. x\<lparr>hk_last_emit_sec := 0\<rparr>) (hks_live s)"
    by (simp add: hks_live_def [of s'] s'(2))
  have "length (hks_structures s') = MIGRIS_HKSTORE_CAPACITY" using fit l0 by (simp add: s'(2))
  moreover have "map hk_sid (hks_live s') = map hk_sid (hks_live s)" by (simp add: live)
  ultimately have "hks_inv s'" using inv live s'(3) by (simp add: hks_inv_def o_def)
  moreover have "migris_hkstore_deserialize s0 (img @ rest) = (HKSTORE_OK, s')"
    using s'(1) le n16 by (simp add: migris_hkstore_deserialize_def img cnt [symmetric] Let_def)
  ultimately show ?thesis using live s'(4) by blast
qed

lemma deserialize_slots_fail:
  "hkstore_deserialize_slots i n inp s = (st, s') \<Longrightarrow> st \<noteq> HKSTORE_OK \<Longrightarrow> hks_live s' = [] \<and> hks_count s' = 0"
proof (induction i n inp s rule: hkstore_deserialize_slots.induct)
  case (2 i left inp s)
  then show ?case
    by (auto simp: migris_hkstore_init_def hks_live_def filter_map o_def Let_def split: sum.splits if_splits)
qed simp

section \<open>Properties\<close>

definition hks_example :: "migris_hkstore_t" where
  "hks_example = \<lparr>hks_structures =
     [\<lparr>hk_sid = 0x0100, hk_param_ids = [1, 2], hk_interval_sec = 10, hk_last_emit_sec = 40, hk_enabled = True, hk_in_use = True\<rparr>,
      \<lparr>hk_sid = 0, hk_param_ids = [], hk_interval_sec = 0, hk_last_emit_sec = 0, hk_enabled = False, hk_in_use = False\<rparr>,
      \<lparr>hk_sid = 0x0101, hk_param_ids = [3], hk_interval_sec = 5, hk_last_emit_sec = 30, hk_enabled = True, hk_in_use = True\<rparr>]
     @ replicate 5 \<lparr>hk_sid = 0, hk_param_ids = [], hk_interval_sec = 0, hk_last_emit_sec = 0, hk_enabled = False, hk_in_use = False\<rparr>,
     hks_count = 2, hks_generation = 4\<rparr>"

lemma hks_example_inv: "hks_inv hks_example"
  by (simp add: hks_example_def hks_inv_def hks_live_def fsw_const)

text \<open>
  C19: the store is a map keyed by structure id. A create is accepted exactly for a non-empty list
  within bounds, a mission id that defines nothing yet, and a free slot; it then binds the id to
  a disabled structure. Delete unbinds and enable rewrites the flag of exactly its id, both
  refused as NOT_FOUND when the id is unbound; a refusal changes nothing; every operation keeps
  the store well formed.
\<close>
theorem hkstore_implements_map:
  assumes "hks_inv s"
  shows "(fst (migris_hkstore_create s sid ids iv) = HKSTORE_OK \<longleftrightarrow>
        ids \<noteq> [] \<and> length ids \<le> 8 \<and> 0x0100 \<le> sid \<and> migris_hkstore_find s sid = None \<and> migris_hkstore_count s < 8)
    \<and> (let s' = snd (migris_hkstore_create s sid ids iv)
       in if fst (migris_hkstore_create s sid ids iv) = HKSTORE_OK
          then hks_inv s' \<and> migris_hkstore_generation s' = migris_hkstore_generation s + 1
            \<and> migris_hkstore_find s' = (migris_hkstore_find s)(sid \<mapsto>
                \<lparr>hk_sid = sid, hk_param_ids = ids, hk_interval_sec = iv, hk_last_emit_sec = 0,
                 hk_enabled = False, hk_in_use = True\<rparr>)
          else s' = s)
    \<and> (case migris_hkstore_find s sid of
         None \<Rightarrow> migris_hkstore_delete s sid = (HKSTORE_ERR_NOT_FOUND, s)
            \<and> migris_hkstore_set_enabled s sid b = (HKSTORE_ERR_NOT_FOUND, s)
       | Some x \<Rightarrow>
           (\<exists>s'. migris_hkstore_delete s sid = (HKSTORE_OK, s') \<and> hks_inv s'
              \<and> migris_hkstore_find s' = (migris_hkstore_find s)(sid := None))
         \<and> (\<exists>s'. migris_hkstore_set_enabled s sid b = (HKSTORE_OK, s') \<and> hks_inv s'
              \<and> migris_hkstore_find s' = (migris_hkstore_find s)(sid \<mapsto> x\<lparr>hk_enabled := b\<rparr>)))"
proof -
  have present: "(\<exists>s'. migris_hkstore_delete s sid = (HKSTORE_OK, s') \<and> hks_inv s'
              \<and> migris_hkstore_find s' = (migris_hkstore_find s)(sid := None))
         \<and> (\<exists>s'. migris_hkstore_set_enabled s sid b = (HKSTORE_OK, s') \<and> hks_inv s'
              \<and> migris_hkstore_find s' = (migris_hkstore_find s)(sid \<mapsto> x\<lparr>hk_enabled := b\<rparr>))"
    if x: "migris_hkstore_find s sid = Some x" for x
    using hks_present_find [OF assms x] hks_delete_present(1,2) [OF assms x] hks_enable_present(1,2) [OF assms x, of b]
    by (metis prod.collapse)
  show ?thesis
    using hks_create_find [OF assms] create_accepted(1,3) [OF assms] create_refused present hks_absent [of s sid]
    by (simp add: Let_def create_status [OF assms] fsw_const migris_hkstore_count_def migris_hkstore_generation_def
        split: option.split)
qed

lemma hkstore_implements_map_witness:
  "migris_hkstore_find (snd (migris_hkstore_create hks_example 0x0200 [7] 60)) 0x0200 =
     Some \<lparr>hk_sid = 0x0200, hk_param_ids = [7], hk_interval_sec = 60, hk_last_emit_sec = 0, hk_enabled = False, hk_in_use = True\<rparr>"
proof -
  have "migris_hkstore_find hks_example 0x0200 = None"
    by (simp add: hks_find_None hks_example_def hks_live_def)
  moreover have "migris_hkstore_count hks_example = 2" by (simp add: hks_example_def migris_hkstore_count_def)
  ultimately show ?thesis
    using hkstore_implements_map [OF hks_example_inv, of "0x0200" "[7]" 60 False] by (simp add: Let_def)
qed

text \<open>
  C20: one poll looks at the defined structures that are enabled, have a non-zero interval and whose
  last emission lies at least that interval back (32-bit difference). It selects one of them with the
  smallest emission stamp, stamps exactly that one with the current time and leaves every other
  structure, the count and the generation alone; it selects nothing, and changes nothing, exactly
  when there is no such structure.
\<close>
theorem hkstore_due_selects_stalest:
  assumes "hks_inv s" and "migris_hkstore_due s now = (r, s')"
  shows "let due = {x \<in> set (hks_live s). hk_enabled x \<and> hk_interval_sec x \<noteq> 0
                                       \<and> hk_interval_sec x \<le> now - hk_last_emit_sec x}
    in (case r of
        None \<Rightarrow> due = {} \<and> s' = s
      | Some y \<Rightarrow> (\<exists>x \<in> due. y = x\<lparr>hk_last_emit_sec := now\<rparr>
          \<and> (\<forall>z \<in> due. hk_last_emit_sec x \<le> hk_last_emit_sec z)
          \<and> set (hks_live s') = insert y (set (hks_live s) - {x})))
      \<and> hks_inv s' \<and> migris_hkstore_generation s' = migris_hkstore_generation s
      \<and> migris_hkstore_count s' = migris_hkstore_count s"
proof -
  have live: "x \<in> set (hks_live s) \<Longrightarrow> hk_due x now \<longleftrightarrow> hk_enabled x \<and> hk_interval_sec x \<noteq> 0
      \<and> hk_interval_sec x \<le> now - hk_last_emit_sec x" for x
    by (auto simp: hk_due_def hks_live_def not_less)
  from assms(1) show ?thesis
  proof (cases rule: due_cases [of s now])
    case none
    with assms show ?thesis by (auto simp: Let_def live)
  next
    case (due x s'')
    with assms(2) have "r = Some (x\<lparr>hk_last_emit_sec := now\<rparr>)" "s' = s''" by simp_all
    moreover have "{x \<in> set (hks_live s). hk_enabled x \<and> hk_interval_sec x \<noteq> 0
        \<and> hk_interval_sec x \<le> now - hk_last_emit_sec x} = {x \<in> set (hks_live s). hk_due x now}"
      using live by blast
    ultimately show ?thesis using due
      by (auto simp: Let_def migris_hkstore_generation_def migris_hkstore_count_def intro!: bexI [of _ x])
  qed
qed

lemma hkstore_due_selects_stalest_witness:
  "\<exists>y. fst (migris_hkstore_due hks_example 50) = Some y \<and> hk_sid y = 0x0101 \<and> hk_last_emit_sec y = 50"
proof -
  let ?x = "\<lparr>hk_sid = 0x0101, hk_param_ids = [3], hk_interval_sec = 5, hk_last_emit_sec = 30, hk_enabled = True, hk_in_use = True\<rparr>"
  let ?due = "{x \<in> set (hks_live hks_example). hk_enabled x \<and> hk_interval_sec x \<noteq> 0
      \<and> hk_interval_sec x \<le> 50 - hk_last_emit_sec x}"
  have live: "set (hks_live hks_example) =
     {\<lparr>hk_sid = 0x0100, hk_param_ids = [1, 2], hk_interval_sec = 10, hk_last_emit_sec = 40, hk_enabled = True, hk_in_use = True\<rparr>, ?x}"
    by (simp add: hks_example_def hks_live_def)
  have x: "?x \<in> ?due" by (simp add: live)
  have u: "hk_sid z = 0x0101" if "z \<in> ?due" "hk_last_emit_sec z \<le> hk_last_emit_sec ?x" for z
  proof -
    from that(1) have "z \<in> set (hks_live hks_example)" by simp
    with that(2) show ?thesis unfolding live by (elim insertE emptyE) simp_all
  qed
  obtain r s' where e: "migris_hkstore_due hks_example 50 = (r, s')" by force
  note c = hkstore_due_selects_stalest [OF hks_example_inv e, unfolded Let_def, THEN conjunct1]
  show ?thesis
  proof (cases r)
    case None
    with c have "?due = {}" by simp
    with x show ?thesis by blast
  next
    case (Some y)
    from c [unfolded Some option.case] obtain z where z: "z \<in> ?due" "y = z\<lparr>hk_last_emit_sec := 50\<rparr>"
        "\<forall>w \<in> ?due. hk_last_emit_sec z \<le> hk_last_emit_sec w" by blast
    from u [OF z(1) bspec [OF z(3) x]] z(2) show ?thesis by (simp add: e Some)
  qed
qed

text \<open>
  Restoring a saved image gives back the defined structures, in slot order and compacted,
  with the emission stamp reset; a failed restore, whatever the bytes, leaves an empty store.
\<close>
theorem hkstore_image_round_trip:
  assumes "hks_inv s" and "length (hks_structures s0) = 8"
    and "migris_hkstore_serialize s cap = Inr img"
  shows "(\<exists>s'. migris_hkstore_deserialize s0 (img @ rest) = (HKSTORE_OK, s') \<and> hks_inv s'
      \<and> hks_live s' = map (\<lambda>x. x\<lparr>hk_last_emit_sec := 0\<rparr>) (hks_live s))
    \<and> (\<forall>any. fst (migris_hkstore_deserialize s0 any) \<noteq> HKSTORE_OK \<longrightarrow>
        hks_live (snd (migris_hkstore_deserialize s0 any)) = []
        \<and> migris_hkstore_count (snd (migris_hkstore_deserialize s0 any)) = 0)"
proof
  show "\<exists>s'. migris_hkstore_deserialize s0 (img @ rest) = (HKSTORE_OK, s') \<and> hks_inv s'
      \<and> hks_live s' = map (\<lambda>x. x\<lparr>hk_last_emit_sec := 0\<rparr>) (hks_live s)"
    using hks_deserialize_serialize [OF assms(1) _ assms(3), of s0 rest] assms(2) by (auto simp: fsw_const)
  have e: "hks_live (migris_hkstore_init s0) = []"
    by (simp add: migris_hkstore_init_def hks_live_def filter_map o_def)
  show "\<forall>any. fst (migris_hkstore_deserialize s0 any) \<noteq> HKSTORE_OK \<longrightarrow>
        hks_live (snd (migris_hkstore_deserialize s0 any)) = []
        \<and> migris_hkstore_count (snd (migris_hkstore_deserialize s0 any)) = 0"
    using deserialize_slots_fail [OF surjective_pairing]
    by (auto simp: migris_hkstore_deserialize_def Let_def e migris_hkstore_count_def) (simp_all add: migris_hkstore_init_def)
qed

lemma hkstore_image_round_trip_witness:
  "\<exists>s'. migris_hkstore_deserialize hks_example
      ([0, 2, 1, 0, 0, 0, 0, 10, 1, 2, 0, 1, 0, 2, 1, 1, 0, 0, 0, 5, 1, 1, 0, 3] @ []) = (HKSTORE_OK, s') \<and> hks_inv s'
      \<and> hks_live s' = map (\<lambda>x. x\<lparr>hk_last_emit_sec := 0\<rparr>) (hks_live hks_example)"
  by (rule hkstore_image_round_trip [OF hks_example_inv, of _ 200, THEN conjunct1])
    (simp_all add: hks_example_def migris_hkstore_serialize_def hkstore_write_struct_def be16_def be32_def Let_def
      serialize_slots_free)

end
