(* ===== verification/Pus1.thy ===== *)
theory Pus1
  imports Pus_Headers
begin

text \<open>
  lib/pus/src/pus1.c: the request verification reports, acceptance ([1]/[2]) and completion
  ([7]/[8]). A builder returns its status or the packet, the context with its message counter
  advanced, and the shared sequence count.
\<close>

datatype migris_pus1_failure_code_t =
    FC_NONE | FC_BAD_PRIMARY | FC_ILLEGAL_APID | FC_LENGTH_ERROR | FC_CRC_FAILURE | FC_BAD_PUS_VERSION
  | FC_UNKNOWN_SERVICE | FC_UNKNOWN_SUBTYPE | FC_EXEC_FAILURE

fun pus1_fc_code :: "migris_pus1_failure_code_t \<Rightarrow> u8" where
  "pus1_fc_code FC_NONE = 0"
| "pus1_fc_code FC_BAD_PRIMARY = 1"
| "pus1_fc_code FC_ILLEGAL_APID = 2"
| "pus1_fc_code FC_LENGTH_ERROR = 3"
| "pus1_fc_code FC_CRC_FAILURE = 4"
| "pus1_fc_code FC_BAD_PUS_VERSION = 5"
| "pus1_fc_code FC_UNKNOWN_SERVICE = 6"
| "pus1_fc_code FC_UNKNOWN_SUBTYPE = 7"
| "pus1_fc_code FC_EXEC_FAILURE = 8"

datatype migris_pus1_status_t = PUS1_OK | PUS1_ERR_BUF_TOO_SMALL | PUS1_ERR_BAD_ARG

record migris_pus1_ctx_t =
  p1_msg_counter :: bytes

definition MIGRIS_PUS1_REQUEST_ID_SIZE :: nat where
  [fsw_const]: "MIGRIS_PUS1_REQUEST_ID_SIZE = 4"

definition MIGRIS_PUS1_SUCCESS_TM_PACKET_SIZE :: nat where
  [fsw_const]: "MIGRIS_PUS1_SUCCESS_TM_PACKET_SIZE = 22"

definition MIGRIS_PUS1_FAILURE_TM_PACKET_SIZE :: nat where
  [fsw_const]: "MIGRIS_PUS1_FAILURE_TM_PACKET_SIZE = 23"

definition build_report ::
  "migris_pus1_ctx_t \<Rightarrow> u16 \<Rightarrow> u16 \<Rightarrow> u32 \<Rightarrow> bytes \<Rightarrow> u16 \<Rightarrow> migris_pus1_failure_code_t \<Rightarrow> u8 \<Rightarrow> u8 \<Rightarrow> nat \<Rightarrow> nat \<Rightarrow> nat
     \<Rightarrow> (migris_pus1_status_t + bytes) \<times> migris_pus1_ctx_t \<times> u16" where
  "build_report ctx apid tm_seq_count now_seconds request_id destination_id fc
      subtype_success subtype_failure msg_idx_success msg_idx_failure out_cap =
    (let is_failure = (fc \<noteq> FC_NONE);
         subtype = (if is_failure then subtype_failure else subtype_success);
         msg_idx = (if is_failure then msg_idx_failure else msg_idx_success);
         packet_size = (if is_failure then MIGRIS_PUS1_FAILURE_TM_PACKET_SIZE else MIGRIS_PUS1_SUCCESS_TM_PACKET_SIZE)
     in if out_cap < packet_size then (Inl PUS1_ERR_BUF_TOO_SMALL, ctx, tm_seq_count)
        else
          let data_field = of_nat (MIGRIS_PUS_TM_SECONDARY_HEADER_SIZE + MIGRIS_PUS1_REQUEST_ID_SIZE
                             + (if is_failure then 1 else 0) + 2)
          in case tm_packet apid tm_seq_count data_field 1 subtype (p1_msg_counter ctx ! msg_idx) destination_id
                    now_seconds (take MIGRIS_PUS1_REQUEST_ID_SIZE request_id
                                 @ (if is_failure then [pus1_fc_code fc] else [])) out_cap of
               None \<Rightarrow> (Inl PUS1_ERR_BUF_TOO_SMALL, ctx, tm_seq_count)
             | Some out \<Rightarrow>
                 (Inr out, ctx\<lparr>p1_msg_counter := bump (p1_msg_counter ctx) msg_idx\<rparr>, next_seq tm_seq_count))"

definition migris_pus1_build_acceptance ::
  "migris_pus1_ctx_t \<Rightarrow> u16 \<Rightarrow> u16 \<Rightarrow> u32 \<Rightarrow> bytes \<Rightarrow> u16 \<Rightarrow> migris_pus1_failure_code_t \<Rightarrow> nat
     \<Rightarrow> (migris_pus1_status_t + bytes) \<times> migris_pus1_ctx_t \<times> u16" where
  "migris_pus1_build_acceptance ctx apid tm_seq_count now_seconds request_id destination_id fc out_cap =
     build_report ctx apid tm_seq_count now_seconds request_id destination_id fc 1 2 0 1 out_cap"

definition migris_pus1_build_completion ::
  "migris_pus1_ctx_t \<Rightarrow> u16 \<Rightarrow> u16 \<Rightarrow> u32 \<Rightarrow> bytes \<Rightarrow> u16 \<Rightarrow> migris_pus1_failure_code_t \<Rightarrow> nat
     \<Rightarrow> (migris_pus1_status_t + bytes) \<times> migris_pus1_ctx_t \<times> u16" where
  "migris_pus1_build_completion ctx apid tm_seq_count now_seconds request_id destination_id fc out_cap =
     build_report ctx apid tm_seq_count now_seconds request_id destination_id fc 7 8 2 3 out_cap"

text \<open>The ground's view of a verification report.\<close>

definition pus1_source :: "bytes \<Rightarrow> migris_pus1_failure_code_t \<Rightarrow> bytes" where
  "pus1_source request_id fc = take 4 request_id @ (if fc = FC_NONE then [] else [pus1_fc_code fc])"

lemma length_pus1_source: "4 \<le> length rid \<Longrightarrow> length (pus1_source rid fc) = (if fc = FC_NONE then 4 else 5)"
  by (simp add: pus1_source_def)

lemma build_report_ok:
  assumes "apid \<le> 0x7FF" "seq \<le> 0x3FFF" "23 \<le> cap" "4 \<le> length rid"
  shows "\<exists>pkt. build_report ctx apid seq now rid dest fc ss sf is' if' cap =
      (Inr pkt, ctx\<lparr>p1_msg_counter := bump (p1_msg_counter ctx) (if fc = FC_NONE then is' else if')\<rparr>, next_seq seq)
    \<and> tm_burst apid seq pkt [tm_view_of apid seq 1 (if fc = FC_NONE then ss else sf)
        (p1_msg_counter ctx ! (if fc = FC_NONE then is' else if')) dest now (pus1_source rid fc)] (next_seq seq)
    \<and> length pkt = (if fc = FC_NONE then 22 else 23)"
proof -
  let ?i = "if fc = FC_NONE then is' else if'" and ?st = "if fc = FC_NONE then ss else sf"
  let ?src = "pus1_source rid fc"
  note l = length_pus1_source [OF assms(4), of fc]
  have df: "of_nat (10 + 4 + (if fc \<noteq> FC_NONE then 1 else 0) + 2) = (of_nat (length ?src + 12) :: u16)"
    by (simp add: l)
  have "16 \<le> cap" "length ?src < 60000" using assms(3) l by simp_all
  from tm_packet_burst [OF assms(1,2) this, of 1 ?st "p1_msg_counter ctx ! ?i" dest now] obtain pkt where
    pkt: "tm_packet apid seq (of_nat (length ?src + 12)) 1 ?st (p1_msg_counter ctx ! ?i) dest now ?src cap = Some pkt"
    and burst: "tm_burst apid seq pkt [tm_view_of apid seq 1 ?st (p1_msg_counter ctx ! ?i) dest now ?src] (next_seq seq)"
    and len: "length pkt = 18 + length ?src" by blast
  note burst
  moreover have "length pkt = (if fc = FC_NONE then 22 else 23)" using len l by simp
  moreover have "build_report ctx apid seq now rid dest fc ss sf is' if' cap =
      (Inr pkt, ctx\<lparr>p1_msg_counter := bump (p1_msg_counter ctx) ?i\<rparr>, next_seq seq)"
    using pkt assms(3) unfolding build_report_def Let_def pus1_source_def df [unfolded pus1_source_def] fsw_const
      MIGRIS_PUS_TM_SECONDARY_HEADER_SIZE_def
    by (cases "fc = FC_NONE") simp_all
  ultimately show ?thesis by blast
qed

lemmas build_acceptance_ok = build_report_ok [where ss = 1 and sf = 2 and is' = 0 and if' = 1,
    folded migris_pus1_build_acceptance_def]

lemmas build_completion_ok = build_report_ok [where ss = 7 and sf = 8 and is' = 2 and if' = 3,
    folded migris_pus1_build_completion_def]

lemma build_report_small: "cap < 22 \<Longrightarrow> build_report ctx apid seq now rid dest fc ss sf is' if' cap =
    (Inl PUS1_ERR_BUF_TOO_SMALL, ctx, seq)"
  by (simp add: build_report_def Let_def fsw_const)

end
