(* ===== verification/Tm_Service.thy ===== *)
theory Tm_Service
  imports Pus_Headers
begin

text \<open>
  What the TC router relies on in every service it routes to, and the application in every
  producer of telemetry: an operation handed the APID, the shared sequence count and a buffer
  either fails without touching the sequence count or returns a burst of well-formed packets
  stamped from that count, of a bounded length, and hands on the next count. The locale
  \<open>tm_service\<close> states it for an operation on a state with an invariant; each service
  theory interprets it on its own execute function.
\<close>

definition tm_result :: "u16 \<Rightarrow> u16 \<Rightarrow> nat \<Rightarrow> 'e + bytes \<Rightarrow> u16 \<Rightarrow> bool" where
  "tm_result apid seq bound r seq' \<longleftrightarrow>
    (case r of Inl _ \<Rightarrow> seq' = seq
     | Inr burst \<Rightarrow> length burst \<le> bound \<and> (\<exists>views. tm_burst apid seq burst views seq'))"

lemma tm_result_Inl [simp]: "tm_result apid seq bound (Inl e) seq' \<longleftrightarrow> seq' = seq"
  by (simp add: tm_result_def)

lemma tm_result_none [simp]: "tm_result apid seq bound (Inr []) seq"
  by (auto simp: tm_result_def intro: tm_burst_Nil)

lemma tm_resultI: "tm_burst apid seq b views seq' \<Longrightarrow> length b \<le> bound \<Longrightarrow> tm_result apid seq bound (Inr b) seq'"
  by (auto simp: tm_result_def)

lemma tm_result_mono: "tm_result apid seq m r seq' \<Longrightarrow> m \<le> n \<Longrightarrow> tm_result apid seq n r seq'"
  by (auto simp: tm_result_def split: sum.splits)

lemma tm_burst_seq_le: "tm_burst apid seq burst views seq' \<Longrightarrow> seq \<le> 0x3FFF \<Longrightarrow> seq' \<le> 0x3FFF"
  by (induction rule: tm_burst.induct) (simp_all add: next_seq_le)

lemma tm_result_seq: "tm_result apid seq bound r seq' \<Longrightarrow> seq \<le> 0x3FFF \<Longrightarrow> seq' \<le> 0x3FFF"
  by (auto simp: tm_result_def split: sum.splits dest: tm_burst_seq_le)

text \<open>The bytes an operation adds to the buffer: nothing on an error.\<close>

definition emitted :: "'e + bytes \<Rightarrow> bytes" where
  "emitted r = (case r of Inl _ \<Rightarrow> [] | Inr b \<Rightarrow> b)"

lemma emitted_simps [simp]: "emitted (Inl e) = []" "emitted (Inr b) = b"
  by (simp_all add: emitted_def)

lemma tm_result_emitted:
  "tm_result apid seq bound r seq' \<Longrightarrow> length (emitted r) \<le> bound \<and> (\<exists>views. tm_burst apid seq (emitted r) views seq')"
  by (auto simp: tm_result_def emitted_def split: sum.splits intro: tm_burst_Nil)

locale tm_service =
  fixes exec :: "'s \<Rightarrow> u16 \<Rightarrow> u16 \<Rightarrow> nat \<Rightarrow> ('e + bytes) \<times> 's \<times> u16"
    and inv :: "'s \<Rightarrow> bool" and bound :: nat
  assumes exec_result: "inv s \<Longrightarrow> apid \<le> 0x7FF \<Longrightarrow> seq \<le> 0x3FFF \<Longrightarrow> exec s apid seq cap = (r, s', seq') \<Longrightarrow>
      tm_result apid seq bound r seq'"
    and exec_inv: "inv s \<Longrightarrow> apid \<le> 0x7FF \<Longrightarrow> seq \<le> 0x3FFF \<Longrightarrow> exec s apid seq cap = (r, s', seq') \<Longrightarrow> inv s'"
begin

lemma exec_extends:
  assumes "inv s" "apid \<le> 0x7FF" "seq0 \<le> 0x3FFF" "tm_burst apid seq0 b views seq" "exec s apid seq cap = (r, s', seq')"
  shows "\<exists>views'. tm_burst apid seq0 (b @ emitted r) (views @ views') seq'"
    and "length (b @ emitted r) \<le> length b + bound" "seq' \<le> 0x3FFF" "inv s'"
proof -
  have le: "seq \<le> 0x3FFF" by (rule tm_burst_seq_le [OF assms(4,3)])
  have r: "tm_result apid seq bound r seq'" by (rule exec_result [OF assms(1,2) le assms(5)])
  from tm_result_emitted [OF r] tm_burst_append [OF assms(4)]
  show "\<exists>views'. tm_burst apid seq0 (b @ emitted r) (views @ views') seq'" by blast
  show "length (b @ emitted r) \<le> length b + bound" using tm_result_emitted [OF r] by simp
  show "seq' \<le> 0x3FFF" by (rule tm_result_seq [OF r le])
  show "inv s'" by (rule exec_inv [OF assms(1,2) le assms(5)])
qed

end

end
