(* ===== verification/Pus3.thy ===== *)
theory Pus3
  imports Tm_Service Datapool Hkstore
begin

text \<open>
  lib/pus/src/pus3.c: the housekeeping reports [3,25], the frozen framework structure and the
  dynamic structures of the housekeeping store, and the structure-management requests.
\<close>

section \<open>Data and operations\<close>

record migris_pus3_ctx_t =
  p3_msg_counter :: bytes

record migris_pus3_hk_params_t =
  hp_pus1_msg_counter :: bytes
  hp_pus5_msg_counter :: bytes
  hp_pus17_tm_msg_counter :: u8
  hp_tc_accepted_count :: u32
  hp_tc_rejected_count :: u32
  hp_rx_ring_overflow_drops :: u32

datatype migris_pus3_status_t =
    PUS3_OK | PUS3_ERR_BUF_TOO_SMALL | PUS3_ERR_BAD_ARG | PUS3_ERR_UNKNOWN_SID | PUS3_ERR_UNKNOWN_PARAM
  | PUS3_ERR_EXEC_FAILED

definition MIGRIS_PUS3_SID_SIZE :: nat where
  [fsw_const]: "MIGRIS_PUS3_SID_SIZE = 2"

definition MIGRIS_PUS3_SID_FRAMEWORK_DIAG :: u16 where
  [fsw_const]: "MIGRIS_PUS3_SID_FRAMEWORK_DIAG = 0x0001"

definition MIGRIS_PUS3_HK_SOURCE_DATA_SIZE :: nat where
  [fsw_const]: "MIGRIS_PUS3_HK_SOURCE_DATA_SIZE = 29"

definition migris_pus3_build_hk_report ::
  "migris_pus3_ctx_t \<Rightarrow> u16 \<Rightarrow> u16 \<Rightarrow> u32 \<Rightarrow> u16 \<Rightarrow> migris_pus3_hk_params_t \<Rightarrow> u16 \<Rightarrow> nat
     \<Rightarrow> (migris_pus3_status_t + bytes) \<times> migris_pus3_ctx_t \<times> u16" where
  "migris_pus3_build_hk_report ctx apid tm_seq_count now_seconds sid params destination_id out_cap =
    (if sid \<noteq> MIGRIS_PUS3_SID_FRAMEWORK_DIAG then (Inl PUS3_ERR_UNKNOWN_SID, ctx, tm_seq_count)
     else
       let data_field = of_nat (MIGRIS_PUS_TM_SECONDARY_HEADER_SIZE + MIGRIS_PUS3_HK_SOURCE_DATA_SIZE + 2);
           packet_size = MIGRIS_CCSDS_PRIMARY_HEADER_SIZE + unat data_field
       in if out_cap < packet_size then (Inl PUS3_ERR_BUF_TOO_SMALL, ctx, tm_seq_count)
          else case tm_packet apid tm_seq_count data_field 3 25 (p3_msg_counter ctx ! 0) destination_id now_seconds
                 (be16 sid @ be32 now_seconds @ be16 tm_seq_count
                  @ map (\<lambda>i. hp_pus1_msg_counter params ! i) [0..<4]
                  @ map (\<lambda>i. hp_pus5_msg_counter params ! i) [0..<4]
                  @ [hp_pus17_tm_msg_counter params]
                  @ be32 (hp_tc_accepted_count params) @ be32 (hp_tc_rejected_count params)
                  @ be32 (hp_rx_ring_overflow_drops params)) out_cap of
               None \<Rightarrow> (Inl PUS3_ERR_BUF_TOO_SMALL, ctx, tm_seq_count)
             | Some out \<Rightarrow>
                 (Inr out, ctx\<lparr>p3_msg_counter := bump (p3_msg_counter ctx) 0\<rparr>, next_seq tm_seq_count))"

fun pus3_resolve_params :: "migris_datapool_t \<Rightarrow> u16 list \<Rightarrow> migris_dp_value_t list option" where
  "pus3_resolve_params datapool [] = Some []"
| "pus3_resolve_params datapool (pid # ids) =
    (case migris_datapool_get datapool pid of
       Inl _ \<Rightarrow> None
     | Inr v \<Rightarrow> map_option (\<lambda>vs. v # vs) (pus3_resolve_params datapool ids))"

fun pus3_write_values :: "migris_dp_value_t list \<Rightarrow> nat \<Rightarrow> bytes option" where
  "pus3_write_values [] room = Some []"
| "pus3_write_values (v # vs) room =
    (case migris_dp_value_encode v room of
       Inl _ \<Rightarrow> None
     | Inr bs \<Rightarrow> map_option (\<lambda>more. bs @ more) (pus3_write_values vs (room - length bs)))"

definition migris_pus3_build_dynamic_hk_report ::
  "migris_pus3_ctx_t \<Rightarrow> migris_datapool_t \<Rightarrow> migris_hk_structure_t \<Rightarrow> u16 \<Rightarrow> u16 \<Rightarrow> u32 \<Rightarrow> u16 \<Rightarrow> nat
     \<Rightarrow> (migris_pus3_status_t + bytes) \<times> migris_pus3_ctx_t \<times> u16" where
  "migris_pus3_build_dynamic_hk_report ctx datapool structure apid tm_seq_count now_seconds destination_id out_cap =
    (case pus3_resolve_params datapool (hk_param_ids structure) of
       None \<Rightarrow> (Inl PUS3_ERR_UNKNOWN_PARAM, ctx, tm_seq_count)
     | Some values \<Rightarrow>
        (let source_data = MIGRIS_PUS3_SID_SIZE + sum_list (map (\<lambda>v. migris_dp_type_width (dpv_type v)) values);
             data_field = of_nat (MIGRIS_PUS_TM_SECONDARY_HEADER_SIZE + source_data + 2);
             packet_size = MIGRIS_CCSDS_PRIMARY_HEADER_SIZE + unat data_field
         in if out_cap < packet_size then (Inl PUS3_ERR_BUF_TOO_SMALL, ctx, tm_seq_count)
            else case pus3_write_values values (out_cap - 18) of
              None \<Rightarrow> (Inl PUS3_ERR_BUF_TOO_SMALL, ctx, tm_seq_count)
            | Some value_data \<Rightarrow>
                (case tm_packet apid tm_seq_count data_field 3 25 (p3_msg_counter ctx ! 0) destination_id now_seconds
                        (be16 (hk_sid structure) @ value_data) out_cap of
                   None \<Rightarrow> (Inl PUS3_ERR_BUF_TOO_SMALL, ctx, tm_seq_count)
                 | Some out \<Rightarrow>
                     (Inr out, ctx\<lparr>p3_msg_counter := bump (p3_msg_counter ctx) 0\<rparr>, next_seq tm_seq_count))))"

definition pus3_exec_create :: "migris_hkstore_t \<Rightarrow> bytes \<Rightarrow> migris_pus3_status_t \<times> migris_hkstore_t" where
  "pus3_exec_create store app =
    (if length app < 7 then (PUS3_ERR_BAD_ARG, store)
     else let count = unat (app ! 2)
          in if length app \<noteq> 7 + 2 * count then (PUS3_ERR_BAD_ARG, store)
             else if MIGRIS_HKSTORE_MAX_PARAMS < count then (PUS3_ERR_EXEC_FAILED, store)
             else let sid = rd16_at app 0; ids = rd16s app 3 count; interval = rd32_at app (3 + 2 * count);
                      (rc, store) = migris_hkstore_create store sid ids interval
                  in (if rc = HKSTORE_OK then PUS3_OK else PUS3_ERR_EXEC_FAILED, store))"

definition pus3_exec_sid_only :: "migris_hkstore_t \<Rightarrow> bytes \<Rightarrow> u8 \<Rightarrow> migris_pus3_status_t \<times> migris_hkstore_t" where
  "pus3_exec_sid_only store app subtype =
    (if length app \<noteq> MIGRIS_PUS3_SID_SIZE then (PUS3_ERR_BAD_ARG, store)
     else let sid = rd16_at app 0
          in if subtype = 2
             then let (rc, store) = migris_hkstore_delete store sid
                  in (if rc = HKSTORE_OK then PUS3_OK else PUS3_ERR_EXEC_FAILED, store)
             else let enable = (subtype = 5); (rc, store) = migris_hkstore_set_enabled store sid enable
                  in (if rc = HKSTORE_OK then PUS3_OK else PUS3_ERR_EXEC_FAILED, store))"

definition migris_pus3_execute :: "migris_hkstore_t \<Rightarrow> u8 \<Rightarrow> bytes \<Rightarrow> migris_pus3_status_t \<times> migris_hkstore_t" where
  "migris_pus3_execute store service_subtype app_data =
    (if service_subtype = 1 then pus3_exec_create store app_data
     else if service_subtype = 2 \<or> service_subtype = 5 \<or> service_subtype = 6
     then pus3_exec_sid_only store app_data service_subtype
     else (PUS3_ERR_BAD_ARG, store))"

section \<open>The framework report\<close>

definition framework_source :: "u32 \<Rightarrow> u16 \<Rightarrow> migris_pus3_hk_params_t \<Rightarrow> bytes" where
  "framework_source now seq p = be16 1 @ be32 now @ be16 seq
     @ map (\<lambda>i. hp_pus1_msg_counter p ! i) [0..<4] @ map (\<lambda>i. hp_pus5_msg_counter p ! i) [0..<4]
     @ [hp_pus17_tm_msg_counter p] @ be32 (hp_tc_accepted_count p) @ be32 (hp_tc_rejected_count p)
     @ be32 (hp_rx_ring_overflow_drops p)"

lemma hk_report_ok:
  assumes "apid \<le> 0x7FF" "seq \<le> 0x3FFF" "47 \<le> cap"
  shows "\<exists>pkt. migris_pus3_build_hk_report ctx apid seq now 1 p dest cap =
      (Inr pkt, ctx\<lparr>p3_msg_counter := bump (p3_msg_counter ctx) 0\<rparr>, next_seq seq)
    \<and> tm_burst apid seq pkt [tm_view_of apid seq 3 25 (p3_msg_counter ctx ! 0) dest now (framework_source now seq p)] (next_seq seq)
    \<and> length pkt = 47"
proof -
  let ?src = "framework_source now seq p"
  have len: "length ?src = 29" by (simp add: framework_source_def)
  have df: "of_nat (10 + 29 + 2) = (of_nat (length ?src + 12) :: u16)" by (simp add: len)
  have un: "unat (of_nat (length ?src + 12) :: u16) = 41" by (simp add: len)
  have "16 \<le> cap" "length ?src < 60000" using assms(3) len by simp_all
  from tm_packet_burst [OF assms(1,2) this, of 3 25 "p3_msg_counter ctx ! 0" dest now] obtain pkt where
    pkt: "tm_packet apid seq (of_nat (length ?src + 12)) 3 25 (p3_msg_counter ctx ! 0) dest now ?src cap = Some pkt"
    and burst: "tm_burst apid seq pkt [tm_view_of apid seq 3 25 (p3_msg_counter ctx ! 0) dest now ?src] (next_seq seq)"
    and l: "length pkt = 18 + length ?src" by blast
  have "migris_pus3_build_hk_report ctx apid seq now 1 p dest cap =
      (Inr pkt, ctx\<lparr>p3_msg_counter := bump (p3_msg_counter ctx) 0\<rparr>, next_seq seq)"
    using assms(3) pkt by (simp only: migris_pus3_build_hk_report_def Let_def MIGRIS_PUS_TM_SECONDARY_HEADER_SIZE_def
        MIGRIS_CCSDS_PRIMARY_HEADER_SIZE_def MIGRIS_PUS3_HK_SOURCE_DATA_SIZE_def MIGRIS_PUS3_SID_FRAMEWORK_DIAG_def
        df un framework_source_def [symmetric]) simp
  with burst l len show ?thesis by simp
qed

lemma hk_report_small:
  "cap < 47 \<Longrightarrow> migris_pus3_build_hk_report ctx apid seq now sid p dest cap =
     (Inl (if sid = 1 then PUS3_ERR_BUF_TOO_SMALL else PUS3_ERR_UNKNOWN_SID), ctx, seq)"
  by (simp add: migris_pus3_build_hk_report_def fsw_const)

lemma hk_report_result:
  assumes "apid \<le> 0x7FF" "seq \<le> 0x3FFF" "migris_pus3_build_hk_report ctx apid seq now sid p dest cap = (r, ctx', seq')"
  shows "tm_result apid seq 47 r seq'"
proof (cases "sid = 1 \<and> 47 \<le> cap")
  case True
  with hk_report_ok [OF assms(1,2), of cap ctx now p dest] assms(3) show ?thesis by (auto intro: tm_resultI)
next
  case False
  then show ?thesis
    using assms(3) hk_report_small [of cap ctx apid seq now sid p dest]
    by (cases "sid = 1") (auto simp: migris_pus3_build_hk_report_def fsw_const)
qed

section \<open>The report of a dynamic structure\<close>

definition hk_values :: "migris_datapool_t \<Rightarrow> u16 list \<Rightarrow> migris_dp_value_t list" where
  "hk_values dp ids = map (\<lambda>i. dpp_value (the (migris_datapool_find dp i))) ids"

definition dynamic_source :: "migris_datapool_t \<Rightarrow> migris_hk_structure_t \<Rightarrow> bytes" where
  "dynamic_source dp x = be16 (hk_sid x) @ concat (map value_bytes (hk_values dp (hk_param_ids x)))"

lemma resolve_params_eq:
  "pus3_resolve_params dp ids =
     (if \<forall>i \<in> set ids. migris_datapool_find dp i \<noteq> None then Some (hk_values dp ids) else None)"
  by (induction ids) (auto simp: migris_datapool_get_def hk_values_def split: option.splits)

lemma values_length:
  "length (concat (map value_bytes vs)) = sum_list (map (\<lambda>v. migris_dp_type_width (dpv_type v)) vs)"
  by (induction vs) (simp_all add: length_value_bytes)

lemma hk_write_values_ok:
  "\<forall>v \<in> set vs. migris_dp_type_width (dpv_type v) \<noteq> 0 \<Longrightarrow> length (concat (map value_bytes vs)) \<le> room \<Longrightarrow>
     pus3_write_values vs room = Some (concat (map value_bytes vs))"
proof (induction vs arbitrary: room)
  case (Cons v vs)
  then have "migris_dp_value_encode v room = Inr (value_bytes v)"
    by (intro encode_value_bytes) (simp_all add: length_value_bytes)
  with Cons show ?case by simp
qed simp

lemma values_bound: "length (concat (map value_bytes vs)) \<le> 4 * length vs"
proof (induction vs)
  case (Cons v vs)
  then show ?case using type_width_le [of "dpv_type v"] by (simp add: length_value_bytes)
qed simp

lemma dynamic_report_unknown:
  "\<exists>i \<in> set (hk_param_ids x). migris_datapool_find dp i = None \<Longrightarrow>
     migris_pus3_build_dynamic_hk_report ctx dp x apid seq now dest cap = (Inl PUS3_ERR_UNKNOWN_PARAM, ctx, seq)"
  by (auto simp: migris_pus3_build_dynamic_hk_report_def resolve_params_eq)

lemma dynamic_report_ok:
  assumes "dp_inv dp" "length (hk_param_ids x) \<le> 8" "\<forall>i \<in> set (hk_param_ids x). migris_datapool_find dp i \<noteq> None"
    and "apid \<le> 0x7FF" "seq \<le> 0x3FFF"
  shows "52 \<le> cap \<Longrightarrow> \<exists>pkt. migris_pus3_build_dynamic_hk_report ctx dp x apid seq now dest cap =
      (Inr pkt, ctx\<lparr>p3_msg_counter := bump (p3_msg_counter ctx) 0\<rparr>, next_seq seq)
    \<and> tm_burst apid seq pkt [tm_view_of apid seq 3 25 (p3_msg_counter ctx ! 0) dest now (dynamic_source dp x)] (next_seq seq)
    \<and> length pkt \<le> 52"
    and "tm_result apid seq 52 (fst (migris_pus3_build_dynamic_hk_report ctx dp x apid seq now dest cap))
      (snd (snd (migris_pus3_build_dynamic_hk_report ctx dp x apid seq now dest cap)))"
proof -
  let ?src = "dynamic_source dp x" and ?vs = "hk_values dp (hk_param_ids x)"
  let ?w = "sum_list (map (\<lambda>v. migris_dp_type_width (dpv_type v)) ?vs)"
  have src: "be16 (hk_sid x) @ concat (map value_bytes ?vs) = ?src" by (simp add: dynamic_source_def)
  have len: "length ?src = 2 + ?w" by (simp add: dynamic_source_def values_length)
  have "length ?src \<le> 34" using values_bound [of ?vs] assms(2) by (simp add: dynamic_source_def hk_values_def)
  then have l52: "18 + length ?src \<le> 52" by simp
  have df: "of_nat (10 + (2 + ?w) + 2) = (of_nat (length ?src + 12) :: u16)"
    unfolding len by (rule arg_cong [where f = of_nat]) simp
  have un: "unat (of_nat (length ?src + 12) :: u16) = length ?src + 12"
    using l52 by (simp only: unat_of_nat_u16)
  have res: "pus3_resolve_params dp (hk_param_ids x) = Some ?vs" using assms(3) by (simp add: resolve_params_eq)
  have width: "\<forall>v \<in> set ?vs. migris_dp_type_width (dpv_type v) \<noteq> 0"
    using assms(1,3) find_Some_live by (fastforce simp: hk_values_def dp_inv_def)
  have big: "\<exists>pkt. migris_pus3_build_dynamic_hk_report ctx dp x apid seq now dest cap =
      (Inr pkt, ctx\<lparr>p3_msg_counter := bump (p3_msg_counter ctx) 0\<rparr>, next_seq seq)
    \<and> tm_burst apid seq pkt [tm_view_of apid seq 3 25 (p3_msg_counter ctx ! 0) dest now ?src] (next_seq seq)
    \<and> length pkt = 18 + length ?src" if cap: "18 + length ?src \<le> cap"
  proof -
    have "16 \<le> cap" "length ?src < 60000" using cap l52 by simp_all
    from tm_packet_burst [OF assms(4,5) this, of 3 25 "p3_msg_counter ctx ! 0" dest now] obtain pkt where
      pkt: "tm_packet apid seq (of_nat (length ?src + 12)) 3 25 (p3_msg_counter ctx ! 0) dest now ?src cap = Some pkt"
      and burst: "tm_burst apid seq pkt [tm_view_of apid seq 3 25 (p3_msg_counter ctx ! 0) dest now ?src] (next_seq seq)"
      and l: "length pkt = 18 + length ?src" by blast
    have wr: "pus3_write_values ?vs (cap - 18) = Some (concat (map value_bytes ?vs))"
      by (rule hk_write_values_ok [OF width]) (use cap len in \<open>simp add: values_length\<close>)
    have "migris_pus3_build_dynamic_hk_report ctx dp x apid seq now dest cap =
      (Inr pkt, ctx\<lparr>p3_msg_counter := bump (p3_msg_counter ctx) 0\<rparr>, next_seq seq)"
      using cap pkt by (simp only: migris_pus3_build_dynamic_hk_report_def res option.case Let_def
          MIGRIS_PUS_TM_SECONDARY_HEADER_SIZE_def MIGRIS_CCSDS_PRIMARY_HEADER_SIZE_def MIGRIS_PUS3_SID_SIZE_def df un wr src) simp
    with burst l show ?thesis by blast
  qed
  have small: "migris_pus3_build_dynamic_hk_report ctx dp x apid seq now dest cap = (Inl PUS3_ERR_BUF_TOO_SMALL, ctx, seq)"
    if "cap < 18 + length ?src"
    using that by (simp only: migris_pus3_build_dynamic_hk_report_def res option.case Let_def
        MIGRIS_PUS_TM_SECONDARY_HEADER_SIZE_def MIGRIS_CCSDS_PRIMARY_HEADER_SIZE_def MIGRIS_PUS3_SID_SIZE_def df un) simp
  show "52 \<le> cap \<Longrightarrow> \<exists>pkt. migris_pus3_build_dynamic_hk_report ctx dp x apid seq now dest cap =
      (Inr pkt, ctx\<lparr>p3_msg_counter := bump (p3_msg_counter ctx) 0\<rparr>, next_seq seq)
    \<and> tm_burst apid seq pkt [tm_view_of apid seq 3 25 (p3_msg_counter ctx ! 0) dest now (dynamic_source dp x)] (next_seq seq)
    \<and> length pkt \<le> 52"
    using big l52 by fastforce
  show "tm_result apid seq 52 (fst (migris_pus3_build_dynamic_hk_report ctx dp x apid seq now dest cap))
      (snd (snd (migris_pus3_build_dynamic_hk_report ctx dp x apid seq now dest cap)))"
  proof (cases "18 + length ?src \<le> cap")
    case True
    then obtain pkt where "migris_pus3_build_dynamic_hk_report ctx dp x apid seq now dest cap =
        (Inr pkt, ctx\<lparr>p3_msg_counter := bump (p3_msg_counter ctx) 0\<rparr>, next_seq seq)"
      "tm_burst apid seq pkt [tm_view_of apid seq 3 25 (p3_msg_counter ctx ! 0) dest now ?src] (next_seq seq)"
      "length pkt \<le> 52" using big l52 by fastforce
    then show ?thesis by (auto intro: tm_resultI)
  next
    case False
    then show ?thesis by (simp add: small)
  qed
qed

lemma dynamic_report_result:
  assumes "dp_inv dp" "length (hk_param_ids x) \<le> 8" "apid \<le> 0x7FF" "seq \<le> 0x3FFF"
    and "migris_pus3_build_dynamic_hk_report ctx dp x apid seq now dest cap = (r, ctx', seq')"
  shows "tm_result apid seq 52 r seq'"
proof (cases "\<forall>i \<in> set (hk_param_ids x). migris_datapool_find dp i \<noteq> None")
  case True
  from dynamic_report_ok(2) [OF assms(1,2) True assms(3,4), of ctx now dest cap] assms(5) show ?thesis by simp
next
  case False
  then show ?thesis using dynamic_report_unknown [of x dp ctx apid seq now dest cap] assms(5) by auto
qed

section \<open>Structure management\<close>

text \<open>The wire image of a management request: the service subtype and the application data.\<close>

fun hk_request_bytes :: "hk_request \<Rightarrow> u8 \<times> bytes" where
  "hk_request_bytes (HkCreate sid ids iv) = (1, be16 sid @ [of_nat (length ids)] @ concat (map be16 ids) @ be32 iv)"
| "hk_request_bytes (HkDelete sid) = (2, be16 sid)"
| "hk_request_bytes (HkSwitch sid b) = (if b then 5 else 6, be16 sid)"

abbreviation hk_manage :: "migris_hkstore_t \<Rightarrow> hk_request \<Rightarrow> migris_hkstore_status_t \<times> migris_hkstore_t" where
  "hk_manage \<equiv> hk_apply migris_hkstore_create migris_hkstore_delete migris_hkstore_set_enabled"

lemma create_bytes_decode:
  assumes "7 \<le> length app" "length app = 7 + 2 * unat (app ! 2)"
  shows "app = snd (hk_request_bytes (HkCreate (rd16_at app 0) (rd16s app 3 (unat (app ! 2))) (rd32_at app (3 + 2 * unat (app ! 2)))))"
proof -
  let ?c = "unat (app ! 2)"
  have "app = take 2 app @ drop 2 app" by simp
  also have "drop 2 app = app ! 2 # drop 3 app" using assms(1) Cons_nth_drop_Suc [of 2 app] by (simp add: eval_nat_numeral)
  also have "drop 3 app = take (2 * ?c) (drop 3 app) @ drop (3 + 2 * ?c) app" by (metis append_take_drop_id drop_drop add.commute)
  also have "drop (3 + 2 * ?c) app = take 4 (drop (3 + 2 * ?c) app)" using assms(2) by simp
  finally have app: "app = take 2 app @ app ! 2 # take (2 * ?c) (drop 3 app) @ take 4 (drop (3 + 2 * ?c) app)" .
  moreover have "take 2 app = be16 (rd16_at app 0)" using be16_rd16_at [of 0 app] assms(1) by simp
  moreover have "take (2 * ?c) (drop 3 app) = concat (map be16 (rd16s app 3 ?c))"
    using be16s_rd16s [of 3 ?c app] assms(2) by simp
  moreover have "take 4 (drop (3 + 2 * ?c) app) = be32 (rd32_at app (3 + 2 * ?c))"
    using be32_rd32_at [of "3 + 2 * ?c" app] assms(2) by simp
  moreover have "of_nat (length (rd16s app 3 ?c)) = app ! 2" by (simp add: rd16s_def)
  ultimately show ?thesis by simp
qed

lemma execute_request:
  assumes "hk_request_bytes req = (st, app)" "case req of HkCreate sid ids iv \<Rightarrow> length ids \<le> 8 | _ \<Rightarrow> True"
  shows "migris_pus3_execute s st app =
    (if fst (hk_manage s req) = HKSTORE_OK then PUS3_OK else PUS3_ERR_EXEC_FAILED, snd (hk_manage s req))"
proof (cases req)
  case (HkCreate sid ids iv)
  let ?n = "length ids"
  have n: "?n \<le> 8" "unat (of_nat ?n :: u8) = ?n" using assms(2) by (simp_all add: HkCreate unat_of_nat_u8)
  have app: "app = be16 sid @ of_nat ?n # concat (map be16 ids) @ be32 iv" "st = 1"
    using assms(1) by (simp_all add: HkCreate)
  have len: "length app = 7 + 2 * ?n" by (simp add: app)
  have "app ! 2 = of_nat ?n" by (simp add: app nth_append)
  then have c: "unat (app ! 2) = ?n" using n(2) by simp
  have sid: "rd16_at app 0 = sid" by (simp add: app)
  have app3: "app = (be16 sid @ [of_nat ?n]) @ concat (map be16 ids) @ be32 iv" by (simp add: app)
  have ids: "rd16s app 3 ?n = ids"
    using rd16s_be16s [of "be16 sid @ [of_nat ?n]" ids "be32 iv"] unfolding app3 by simp
  have app4: "app = (be16 sid @ [of_nat ?n] @ concat (map be16 ids)) @ be32 iv @ []" by (simp add: app)
  have iv: "rd32_at app (3 + 2 * ?n) = iv"
    unfolding app4 by (subst rd32_at_append) (simp_all del: append_Nil2)
  show ?thesis
    using n(1) len by (simp add: migris_pus3_execute_def app(2) pus3_exec_create_def Let_def c sid ids iv HkCreate fsw_const split_def)
next
  case (HkDelete sid)
  then have e: "st = 2" "rd16_at app 0 = sid" "length app = 2"
    using assms(1) rd16_at_be16 [of sid "[]"] length_be16 [of sid] by auto
  then show ?thesis by (simp add: migris_pus3_execute_def pus3_exec_sid_only_def Let_def fsw_const split_def HkDelete)
next
  case (HkSwitch sid b)
  then have e: "st = (if b then 5 else 6)" "rd16_at app 0 = sid" "length app = 2"
    using assms(1) rd16_at_be16 [of sid "[]"] length_be16 [of sid] by auto
  then show ?thesis
    by (cases b) (simp_all add: migris_pus3_execute_def pus3_exec_sid_only_def Let_def fsw_const split_def HkSwitch)
qed

lemma execute_refuses:
  assumes "\<nexists>req. hk_request_bytes req = (st, app) \<and> (case req of HkCreate sid ids iv \<Rightarrow> length ids \<le> 8 | _ \<Rightarrow> True)"
  shows "fst (migris_pus3_execute s st app) \<noteq> PUS3_OK \<and> snd (migris_pus3_execute s st app) = s"
proof -
  have create: "\<not> (7 \<le> length app \<and> length app = 7 + 2 * unat (app ! 2) \<and> unat (app ! 2) \<le> 8)" if st: "st = 1"
  proof
    let ?ids = "rd16s app 3 (unat (app ! 2))"
    assume a: "7 \<le> length app \<and> length app = 7 + 2 * unat (app ! 2) \<and> unat (app ! 2) \<le> 8"
    then have "hk_request_bytes (HkCreate (rd16_at app 0) ?ids (rd32_at app (3 + 2 * unat (app ! 2)))) = (st, app)"
      using create_bytes_decode [of app] st by simp
    moreover have "length ?ids \<le> 8" using a by (simp add: rd16s_def)
    ultimately show False using assms by fastforce
  qed
  have sid: "length app \<noteq> 2" if st: "st = 2 \<or> st = 5 \<or> st = 6"
  proof
    assume "length app = 2"
    then have app: "be16 (rd16_at app 0) = app" using be16_rd16_at [of 0 app] by simp
    have "hk_request_bytes (HkDelete (rd16_at app 0)) = (2, app)" "hk_request_bytes (HkSwitch (rd16_at app 0) True) = (5, app)"
      "hk_request_bytes (HkSwitch (rd16_at app 0) False) = (6, app)" by (simp_all add: app)
    with st show False using assms by fastforce
  qed
  show ?thesis
    using create sid by (auto simp: migris_pus3_execute_def pus3_exec_create_def pus3_exec_sid_only_def Let_def fsw_const)
qed

text \<open>Two management requests with the same wire image are the same request.\<close>

lemma request_bytes_inject:
  assumes "hk_request_bytes r = x" "hk_request_bytes q = x"
    and "case r of HkCreate sid ids iv \<Rightarrow> length ids \<le> 8 | _ \<Rightarrow> True" "case q of HkCreate sid ids iv \<Rightarrow> length ids \<le> 8 | _ \<Rightarrow> True"
  shows "r = q"
proof -
  have count: "length xs = length ys" if "length xs \<le> 8" "length ys \<le> 8" "(of_nat (length xs) :: u8) = of_nat (length ys)" for xs ys :: "u16 list"
    using arg_cong [OF that(3), of unat] that(1,2) by (simp add: unat_of_nat_u8)
  have ids: "xs = ys" if "length xs = length ys" "concat (map be16 xs) = concat (map be16 ys)" for xs ys
    using rd16s_be16s [of "[]" xs "[]"] rd16s_be16s [of "[]" ys "[]"] that by simp
  show ?thesis
  proof (cases r)
    case (HkCreate sid xs iv)
    with assms(1,2) obtain sid' ys iv' where q: "q = HkCreate sid' ys iv'" by (cases q) (auto split: if_splits)
    from assms(1,2) have img: "be16 sid @ [of_nat (length xs)] @ concat (map be16 xs) @ be32 iv =
        be16 sid' @ [of_nat (length ys)] @ concat (map be16 ys) @ be32 iv'" unfolding HkCreate q by auto
    then have hd: "sid = sid'" "(of_nat (length xs) :: u8) = of_nat (length ys)"
      and tl: "concat (map be16 xs) @ be32 iv = concat (map be16 ys) @ be32 iv'" by simp_all
    have len: "length xs = length ys"
      by (rule count) (use assms(3,4) HkCreate q hd(2) in simp_all)
    then have "length (concat (map be16 xs)) = length (concat (map be16 ys))" by simp
    from append_eq_append_conv [OF disjI1, OF this, of "be32 iv" "be32 iv'"] tl
    have "concat (map be16 xs) = concat (map be16 ys)" "iv = iv'" by simp_all
    with ids [OF len] hd(1) show ?thesis unfolding HkCreate q by simp
  qed (use assms(1,2) in \<open>cases q; auto split: if_splits\<close>)+
qed

lemma execute_inv: "hks_inv s \<Longrightarrow> hks_inv (snd (migris_pus3_execute s st app))"
  using execute_request [of _ st app s] execute_refuses [of st app s] hkst.apply_request_spec(4) [of s]
  by (metis snd_conv)

section \<open>Properties\<close>

text \<open>
  C27: a structure-management telecommand is executed exactly when its subtype and application
  data are the wire image of a create, delete, enable or disable request that the store can
  grant; the store then changes by exactly that request, and in every other case, malformed data
  and refused requests alike, it is untouched. The store stays well-formed either way.
\<close>
theorem pus3_manages_structures:
  assumes "hks_inv s" and "migris_pus3_execute s st app = (rc, s')"
  shows "hks_inv s' \<and>
    (if rc = PUS3_OK
     then \<exists>req. hk_request_bytes req = (st, app) \<and> hk_request_ok (migris_hkstore_find s) (migris_hkstore_count s) req
       \<and> migris_hkstore_find s' = hk_request_effect req (migris_hkstore_find s)
     else s' = s \<and> (\<nexists>req. hk_request_bytes req = (st, app)
       \<and> hk_request_ok (migris_hkstore_find s) (migris_hkstore_count s) req))"
proof (cases "\<exists>req. hk_request_bytes req = (st, app) \<and> (case req of HkCreate sid ids iv \<Rightarrow> length ids \<le> 8 | _ \<Rightarrow> True)")
  case True
  then obtain req where req: "hk_request_bytes req = (st, app)" "case req of HkCreate sid ids iv \<Rightarrow> length ids \<le> 8 | _ \<Rightarrow> True"
    by blast
  note x = execute_request [OF req, of s]
  note spec = hkst.apply_request_spec [OF assms(1), of req]
  have other: "r = req" if "hk_request_bytes r = (st, app)" "hk_request_ok m n r" for r m n
    by (rule request_bytes_inject [OF that(1) req(1)]) (use that(2) req(2) in \<open>cases r; simp add: fsw_const\<close>)+
  show ?thesis
  proof (cases "fst (hk_manage s req) = HKSTORE_OK")
    case True
    with x spec req(1) assms(2) show ?thesis by auto
  next
    case False
    with x spec assms(2) have "rc = PUS3_ERR_EXEC_FAILED" "s' = s" by auto
    moreover have "\<not> hk_request_ok (migris_hkstore_find s) (migris_hkstore_count s) req" using False spec(1) by blast
    ultimately show ?thesis using other assms(1) by auto
  qed
next
  case False
  have "\<nexists>req. hk_request_bytes req = (st, app) \<and> hk_request_ok (migris_hkstore_find s) (migris_hkstore_count s) req"
  proof
    assume "\<exists>req. hk_request_bytes req = (st, app) \<and> hk_request_ok (migris_hkstore_find s) (migris_hkstore_count s) req"
    then obtain req where "hk_request_bytes req = (st, app)" "hk_request_ok (migris_hkstore_find s) (migris_hkstore_count s) req" by blast
    moreover from this(2) have "case req of HkCreate sid ids iv \<Rightarrow> length ids \<le> 8 | _ \<Rightarrow> True"
      by (cases req) (simp_all add: fsw_const)
    ultimately show False using False by blast
  qed
  with execute_refuses [OF False, of s] assms show ?thesis by simp
qed

lemma pus3_manages_structures_witness:
  "\<exists>s'. migris_pus3_execute hks_example 5 [1, 1] = (PUS3_OK, s') \<and> hks_inv s'"
proof -
  obtain rc s' where e: "migris_pus3_execute hks_example 5 [1, 1] = (rc, s')" by fastforce
  have "hk_request_bytes (HkSwitch 0x0101 True) = (5, [1, 1])" by (simp add: be16_def)
  moreover have "hk_request_ok (migris_hkstore_find hks_example) (migris_hkstore_count hks_example) (HkSwitch 0x0101 True)"
    by (simp add: hks_find_None hks_example_def hks_live_def)
  ultimately have "rc = PUS3_OK" "hks_inv s'"
    using pus3_manages_structures [OF hks_example_inv e] by (metis)+
  with e show ?thesis by blast
qed

text \<open>
  C28: the report of a dynamic structure is sent exactly when every parameter it lists is still
  declared; it is then one well-formed [3,25] whose source data is the structure id and the
  current value of each parameter in the structure's order. Otherwise no counter moves.
\<close>
theorem pus3_reports_current_values:
  assumes "dp_inv dp" "length (hk_param_ids x) \<le> 8" "apid \<le> 0x7FF" "seq \<le> 0x3FFF" "52 \<le> cap"
    and "migris_pus3_build_dynamic_hk_report ctx dp x apid seq now dest cap = (r, ctx', seq')"
  shows "case r of
      Inl e \<Rightarrow> e = PUS3_ERR_UNKNOWN_PARAM \<and> ctx' = ctx \<and> seq' = seq
        \<and> (\<exists>i \<in> set (hk_param_ids x). migris_datapool_find dp i = None)
    | Inr pkt \<Rightarrow> (\<forall>i \<in> set (hk_param_ids x). migris_datapool_find dp i \<noteq> None)
        \<and> ctx' = ctx\<lparr>p3_msg_counter := bump (p3_msg_counter ctx) 0\<rparr> \<and> seq' = next_seq seq
        \<and> tm_burst apid seq pkt [tm_view_of apid seq 3 25 (p3_msg_counter ctx ! 0) dest now
            (be16 (hk_sid x) @ concat (map (\<lambda>i. value_bytes (dpp_value (the (migris_datapool_find dp i)))) (hk_param_ids x)))] seq'"
proof (cases "\<forall>i \<in> set (hk_param_ids x). migris_datapool_find dp i \<noteq> None")
  case True
  from dynamic_report_ok(1) [OF assms(1,2) True assms(3-5), of ctx now dest] assms(6) True show ?thesis
    by (auto simp: dynamic_source_def hk_values_def comp_def)
next
  case False
  then show ?thesis using dynamic_report_unknown [of x dp ctx apid seq now dest cap] assms(6) by auto
qed

lemma pus3_reports_current_values_witness:
  "\<exists>r ctx' seq'. migris_pus3_build_dynamic_hk_report \<lparr>p3_msg_counter = [0]\<rparr> dp_example
      \<lparr>hk_sid = 0x0100, hk_param_ids = [0x0101], hk_interval_sec = 0, hk_last_emit_sec = 0, hk_enabled = False, hk_in_use = True\<rparr>
      5 0 9 3 64 = (r, ctx', seq') \<and> \<not> isl r \<and> seq' = 1"
proof -
  let ?x = "\<lparr>hk_sid = 0x0100, hk_param_ids = [0x0101], hk_interval_sec = 0, hk_last_emit_sec = 0, hk_enabled = False, hk_in_use = True\<rparr>"
  obtain r ctx' seq' where e: "migris_pus3_build_dynamic_hk_report \<lparr>p3_msg_counter = [0]\<rparr> dp_example ?x 5 0 9 3 64 = (r, ctx', seq')"
    by (metis prod.exhaust)
  have "migris_datapool_find dp_example 0x0101 \<noteq> None"
    by (simp add: find_by_id dp_example_def dp_pad_def dp_live_def)
  with pus3_reports_current_values [OF dp_example_ok(1) _ _ _ _ e] e show ?thesis
    by (auto simp: next_seq_def split: sum.splits)
qed

end
