(* ===== verification/Pus5.thy ===== *)
theory Pus5
  imports Pus_Headers
begin

text \<open>
  lib/pus/src/pus5.c: event reports. The severity enumeration is ordered as the wire orders it;
  the builder takes the enum's underlying integer, since its guard is about values outside the
  enumeration.
\<close>

datatype migris_pus5_severity_t = SEV_INFO | SEV_LOW | SEV_MEDIUM | SEV_HIGH

fun sev_value :: "migris_pus5_severity_t \<Rightarrow> nat" where
  "sev_value SEV_INFO = 0"
| "sev_value SEV_LOW = 1"
| "sev_value SEV_MEDIUM = 2"
| "sev_value SEV_HIGH = 3"

instantiation migris_pus5_severity_t :: linorder
begin

definition less_eq_severity: "a \<le> b \<longleftrightarrow> sev_value a \<le> sev_value b"

definition less_severity: "a < b \<longleftrightarrow> sev_value a < sev_value b"

instance
proof
  fix a b c :: migris_pus5_severity_t
  show "a < b \<longleftrightarrow> a \<le> b \<and> \<not> b \<le> a" "a \<le> a" "a \<le> b \<or> b \<le> a"
    by (auto simp: less_eq_severity less_severity)
  show "a \<le> b \<Longrightarrow> b \<le> c \<Longrightarrow> a \<le> c" by (simp add: less_eq_severity)
  show "a \<le> b \<Longrightarrow> b \<le> a \<Longrightarrow> a = b" by (cases a; cases b) (simp_all add: less_eq_severity)
qed

end

lemma sev_value_le: "sev_value s \<le> sev_value SEV_HIGH"
  by (cases s) simp_all

datatype migris_pus5_status_t = PUS5_OK | PUS5_ERR_BUF_TOO_SMALL | PUS5_ERR_BAD_ARG

record migris_pus5_ctx_t =
  p5_msg_counter :: bytes

definition MIGRIS_PUS5_EVENT_ID_SIZE :: nat where
  [fsw_const]: "MIGRIS_PUS5_EVENT_ID_SIZE = 2"

definition MIGRIS_PUS5_AUX_MAX_LEN :: nat where
  [fsw_const]: "MIGRIS_PUS5_AUX_MAX_LEN = 32"

definition MIGRIS_PUS5_TM_MAX_PACKET_SIZE :: nat where
  [fsw_const]: "MIGRIS_PUS5_TM_MAX_PACKET_SIZE = 52"

definition MIGRIS_PUS5_EVT_FSW_BOOT :: u16 where
  [fsw_const]: "MIGRIS_PUS5_EVT_FSW_BOOT = 1"

definition MIGRIS_PUS5_EVT_TC_REJECTED :: u16 where
  [fsw_const]: "MIGRIS_PUS5_EVT_TC_REJECTED = 2"

definition MIGRIS_PUS5_EVT_RX_OVERFLOW :: u16 where
  [fsw_const]: "MIGRIS_PUS5_EVT_RX_OVERFLOW = 3"

definition MIGRIS_PUS5_EVT_MODE_CHANGED :: u16 where
  [fsw_const]: "MIGRIS_PUS5_EVT_MODE_CHANGED = 4"

definition MIGRIS_PUS5_EVT_FDIR_RECOVERY :: u16 where
  [fsw_const]: "MIGRIS_PUS5_EVT_FDIR_RECOVERY = 5"

definition migris_pus5_build_event_report ::
  "migris_pus5_ctx_t \<Rightarrow> u16 \<Rightarrow> u16 \<Rightarrow> u32 \<Rightarrow> nat \<Rightarrow> u16 \<Rightarrow> bytes option \<Rightarrow> nat \<Rightarrow> u16 \<Rightarrow> nat
     \<Rightarrow> (migris_pus5_status_t + bytes) \<times> migris_pus5_ctx_t \<times> u16" where
  "migris_pus5_build_event_report ctx apid tm_seq_count now_seconds severity event_id aux aux_len
      destination_id out_cap =
    (if sev_value SEV_HIGH < severity then (Inl PUS5_ERR_BAD_ARG, ctx, tm_seq_count)
     else if MIGRIS_PUS5_AUX_MAX_LEN < aux_len then (Inl PUS5_ERR_BAD_ARG, ctx, tm_seq_count)
     else if aux = None \<and> aux_len \<noteq> 0 then (Inl PUS5_ERR_BAD_ARG, ctx, tm_seq_count)
     else
       let subtype = of_nat (severity + 1); msg_idx = severity;
           data_field = of_nat (MIGRIS_PUS_TM_SECONDARY_HEADER_SIZE + MIGRIS_PUS5_EVENT_ID_SIZE + aux_len + 2);
           packet_size = MIGRIS_CCSDS_PRIMARY_HEADER_SIZE + unat data_field
       in if out_cap < packet_size then (Inl PUS5_ERR_BUF_TOO_SMALL, ctx, tm_seq_count)
          else case tm_packet apid tm_seq_count data_field 5 subtype (p5_msg_counter ctx ! msg_idx) destination_id
                 now_seconds (be16 event_id @ (case aux of None \<Rightarrow> [] | Some a \<Rightarrow> take aux_len a)) out_cap of
                 None \<Rightarrow> (Inl PUS5_ERR_BUF_TOO_SMALL, ctx, tm_seq_count)
               | Some out \<Rightarrow>
                   (Inr out, ctx\<lparr>p5_msg_counter := bump (p5_msg_counter ctx) msg_idx\<rparr>, next_seq tm_seq_count))"

lemma build_event_report_ok:
  assumes "apid \<le> 0x7FF" "seq \<le> 0x3FFF" "severity \<le> 3" "length aux \<le> 32" "20 + length aux \<le> cap"
  shows "\<exists>pkt. migris_pus5_build_event_report ctx apid seq now severity eid (Some aux) (length aux) dest cap =
      (Inr pkt, ctx\<lparr>p5_msg_counter := bump (p5_msg_counter ctx) severity\<rparr>, next_seq seq)
    \<and> tm_burst apid seq pkt [tm_view_of apid seq 5 (of_nat (severity + 1)) (p5_msg_counter ctx ! severity) dest now
        (be16 eid @ aux)] (next_seq seq)
    \<and> length pkt = 20 + length aux"
proof -
  let ?src = "be16 eid @ aux"
  have df: "of_nat (10 + 2 + length aux + 2) = (of_nat (length ?src + 12) :: u16)" by (simp add: algebra_simps)
  have un: "unat (of_nat (length ?src + 12) :: u16) = length ?src + 12"
    using assms(4) by (simp add: unat_of_nat_u16 del: of_nat_add)
  have "16 \<le> cap" "length ?src < 60000" using assms(4,5) by simp_all
  from tm_packet_burst [OF assms(1,2) this, of 5 "of_nat (severity + 1)" "p5_msg_counter ctx ! severity" dest now] obtain pkt where
    pkt: "tm_packet apid seq (of_nat (length ?src + 12)) 5 (of_nat (severity + 1)) (p5_msg_counter ctx ! severity) dest now ?src cap = Some pkt"
    and burst: "tm_burst apid seq pkt [tm_view_of apid seq 5 (of_nat (severity + 1)) (p5_msg_counter ctx ! severity) dest now ?src] (next_seq seq)"
    and len: "length pkt = 18 + length ?src" by blast
  note burst
  moreover have "length pkt = 20 + length aux" using len by simp
  moreover have "migris_pus5_build_event_report ctx apid seq now severity eid (Some aux) (length aux) dest cap =
      (Inr pkt, ctx\<lparr>p5_msg_counter := bump (p5_msg_counter ctx) severity\<rparr>, next_seq seq)"
    using assms(3-5) pkt un unfolding migris_pus5_build_event_report_def Let_def fsw_const
      MIGRIS_PUS_TM_SECONDARY_HEADER_SIZE_def df by simp
  ultimately show ?thesis by blast
qed

end
