(* ===== verification/Pus11.thy ===== *)
theory Pus11
  imports Tm_Service Schedule
begin

text \<open>
  lib/pus/src/pus11.c: time-based scheduling over the schedule store. The borrowed pointers into
  the application data (an embedded telecommand, a request identifier) are the byte lists they
  point at.
\<close>

section \<open>Data and operations\<close>

record migris_pus11_ctx_t =
  p11_msg_counter :: bytes

datatype migris_pus11_status_t =
    PUS11_OK | PUS11_ERR_BUF_TOO_SMALL | PUS11_ERR_BAD_ARG | PUS11_ERR_MALFORMED | PUS11_ERR_TOO_MANY
  | PUS11_ERR_NOT_FOUND | PUS11_ERR_DUPLICATE | PUS11_ERR_FULL | PUS11_ERR_TC_TOO_LARGE | PUS11_ERR_BAD_SUBTYPE

definition MIGRIS_PUS11_MAX_PER_TC :: nat where
  [fsw_const]: "MIGRIS_PUS11_MAX_PER_TC = 8"

definition pus11_request_id_eq :: "bytes \<Rightarrow> bytes \<Rightarrow> bool" where
  "pus11_request_id_eq a b \<longleftrightarrow>
     take MIGRIS_SCHEDULE_REQUEST_ID_SIZE a = take MIGRIS_SCHEDULE_REQUEST_ID_SIZE b"

definition pus11_id_seen :: "bytes list \<Rightarrow> bytes \<Rightarrow> bool" where
  "pus11_id_seen tc_ptrs candidate \<longleftrightarrow> list_ex (\<lambda>tc. pus11_request_id_eq tc candidate) tc_ptrs"

definition pus11_embedded_tc_total :: "bytes \<Rightarrow> nat \<Rightarrow> nat" where
  "pus11_embedded_tc_total app off =
    (if length app < off + MIGRIS_CCSDS_PRIMARY_HEADER_SIZE then 0
     else let data_length = rd16_at app (off + 4); tc_total = migris_ccsds_packet_total_size data_length
          in if length app < off + tc_total then 0 else tc_total)"

fun pus11_decode_inserts_from ::
  "migris_schedule_t \<Rightarrow> bytes \<Rightarrow> nat \<Rightarrow> nat \<Rightarrow> bytes list \<Rightarrow> migris_pus11_status_t + (u32 \<times> bytes) list" where
  "pus11_decode_inserts_from sched app off 0 seen = (if off \<noteq> length app then Inl PUS11_ERR_MALFORMED else Inr [])"
| "pus11_decode_inserts_from sched app off (Suc n) seen =
    (if length app < off + 4 then Inl PUS11_ERR_MALFORMED
     else
       let release_time = rd32_at app off; off = off + 4; tc_total = pus11_embedded_tc_total app off
       in if tc_total = 0 then Inl PUS11_ERR_MALFORMED
          else if MIGRIS_SCHEDULE_TC_MAX < tc_total then Inl PUS11_ERR_TC_TOO_LARGE
          else
            let tc = take tc_total (drop off app); off = off + tc_total
            in if pus11_id_seen seen tc \<or> migris_schedule_find sched tc \<noteq> None then Inl PUS11_ERR_DUPLICATE
               else (case pus11_decode_inserts_from sched app off n (seen @ [tc]) of
                       Inl e \<Rightarrow> Inl e
                     | Inr acts \<Rightarrow> Inr ((release_time, tc) # acts)))"

definition pus11_decode_inserts ::
  "migris_schedule_t \<Rightarrow> bytes \<Rightarrow> migris_pus11_status_t + (u32 \<times> bytes) list" where
  "pus11_decode_inserts sched app =
    (if length app < 1 then Inl PUS11_ERR_MALFORMED
     else let count = unat (app ! 0)
          in if MIGRIS_PUS11_MAX_PER_TC < count then Inl PUS11_ERR_TOO_MANY
             else if MIGRIS_SCHEDULE_CAPACITY < migris_schedule_count sched + count then Inl PUS11_ERR_FULL
             else pus11_decode_inserts_from sched app 1 count [])"

definition pus11_decode_request_ids :: "bytes \<Rightarrow> migris_pus11_status_t + bytes list" where
  "pus11_decode_request_ids app =
    (if length app < 1 then Inl PUS11_ERR_MALFORMED
     else let count = unat (app ! 0)
          in if MIGRIS_PUS11_MAX_PER_TC < count then Inl PUS11_ERR_TOO_MANY
             else if length app \<noteq> 1 + MIGRIS_SCHEDULE_REQUEST_ID_SIZE * count then Inl PUS11_ERR_MALFORMED
             else Inr (map (\<lambda>k. take MIGRIS_SCHEDULE_REQUEST_ID_SIZE (drop (1 + MIGRIS_SCHEDULE_REQUEST_ID_SIZE * k) app))
                        [0..<count]))"

definition pus11_insert :: "migris_schedule_t \<Rightarrow> bytes \<Rightarrow> (migris_pus11_status_t + bytes) \<times> migris_schedule_t" where
  "pus11_insert sched app =
    (case pus11_decode_inserts sched app of
       Inl e \<Rightarrow> (Inl e, sched)
     | Inr acts \<Rightarrow> (Inr [], act_insert_all migris_schedule_insert sched acts))"

definition pus11_delete :: "migris_schedule_t \<Rightarrow> bytes \<Rightarrow> (migris_pus11_status_t + bytes) \<times> migris_schedule_t" where
  "pus11_delete sched app =
    (case pus11_decode_request_ids app of
       Inl e \<Rightarrow> (Inl e, sched)
     | Inr rids \<Rightarrow>
         if list_ex (\<lambda>rid. migris_schedule_find sched rid = None) rids then (Inl PUS11_ERR_NOT_FOUND, sched)
         else (Inr [], fold (\<lambda>rid s. snd (migris_schedule_delete s rid)) rids sched))"

definition pus11_build_summary_report ::
  "migris_pus11_ctx_t \<Rightarrow> u16 \<Rightarrow> u16 \<Rightarrow> u32 \<Rightarrow> u16 \<Rightarrow> migris_schedule_activity_t list \<Rightarrow> nat
     \<Rightarrow> (migris_pus11_status_t + bytes) \<times> migris_pus11_ctx_t \<times> u16" where
  "pus11_build_summary_report ctx apid tm_seq_count now_seconds source_id found out_cap =
    (let source_data = 1 + length found * 8;
         data_field = of_nat (MIGRIS_PUS_TM_SECONDARY_HEADER_SIZE + source_data + 2);
         packet_size = MIGRIS_CCSDS_PRIMARY_HEADER_SIZE + unat data_field
     in if out_cap < packet_size then (Inl PUS11_ERR_BUF_TOO_SMALL, ctx, tm_seq_count)
        else case tm_packet apid tm_seq_count data_field 11 12 (p11_msg_counter ctx ! 0) source_id now_seconds
                    ([of_nat (length found)]
                     @ concat (map (\<lambda>a. be32 (act_release_time a) @ take MIGRIS_SCHEDULE_REQUEST_ID_SIZE (act_tc a)) found))
                    out_cap of
               None \<Rightarrow> (Inl PUS11_ERR_BUF_TOO_SMALL, ctx, tm_seq_count)
             | Some out \<Rightarrow>
                 (Inr out, ctx\<lparr>p11_msg_counter := bump (p11_msg_counter ctx) 0\<rparr>, next_seq tm_seq_count))"

definition pus11_report ::
  "migris_pus11_ctx_t \<Rightarrow> migris_schedule_t \<Rightarrow> u16 \<Rightarrow> u16 \<Rightarrow> u32 \<Rightarrow> u16 \<Rightarrow> bytes \<Rightarrow> nat
     \<Rightarrow> (migris_pus11_status_t + bytes) \<times> migris_pus11_ctx_t \<times> u16" where
  "pus11_report ctx sched apid tm_seq_count now_seconds source_id app out_cap =
    (case pus11_decode_request_ids app of
       Inl e \<Rightarrow> (Inl e, ctx, tm_seq_count)
     | Inr rids \<Rightarrow>
        (let found = List.map_filter (migris_schedule_find sched) rids
         in pus11_build_summary_report ctx apid tm_seq_count now_seconds source_id found out_cap))"

definition migris_pus11_execute ::
  "migris_pus11_ctx_t \<Rightarrow> migris_schedule_t \<Rightarrow> u16 \<Rightarrow> u16 \<Rightarrow> u32 \<Rightarrow> u8 \<Rightarrow> u16 \<Rightarrow> bytes \<Rightarrow> nat
     \<Rightarrow> (migris_pus11_status_t + bytes) \<times> (migris_pus11_ctx_t \<times> migris_schedule_t) \<times> u16" where
  "migris_pus11_execute ctx sched apid tm_seq_count now_seconds service_subtype source_id app_data out_cap =
    (if service_subtype = 1 then
       if length app_data \<noteq> 0 then (Inl PUS11_ERR_MALFORMED, (ctx, sched), tm_seq_count)
       else (Inr [], (ctx, migris_schedule_set_enabled sched True), tm_seq_count)
     else if service_subtype = 2 then
       if length app_data \<noteq> 0 then (Inl PUS11_ERR_MALFORMED, (ctx, sched), tm_seq_count)
       else (Inr [], (ctx, migris_schedule_set_enabled sched False), tm_seq_count)
     else if service_subtype = 3 then
       if length app_data \<noteq> 0 then (Inl PUS11_ERR_MALFORMED, (ctx, sched), tm_seq_count)
       else (Inr [], (ctx, migris_schedule_reset sched), tm_seq_count)
     else if service_subtype = 4 then
       (let (r, sched) = pus11_insert sched app_data in (r, (ctx, sched), tm_seq_count))
     else if service_subtype = 5 then
       (let (r, sched) = pus11_delete sched app_data in (r, (ctx, sched), tm_seq_count))
     else if service_subtype = 11 then
       (let (r, ctx, tm_seq_count) = pus11_report ctx sched apid tm_seq_count now_seconds source_id app_data out_cap
        in (r, (ctx, sched), tm_seq_count))
     else (Inl PUS11_ERR_BAD_SUBTYPE, (ctx, sched), tm_seq_count))"

section \<open>What an insert request says\<close>

text \<open>A telecommand as long as its own packet data length declares.\<close>

definition tc_framed :: "bytes \<Rightarrow> bool" where
  "tc_framed tc \<longleftrightarrow> 6 \<le> length tc \<and> length tc = migris_ccsds_packet_total_size (rd16_at tc 4)"

definition insert_bytes :: "(u32 \<times> bytes) list \<Rightarrow> bytes" where
  "insert_bytes as = concat (map (\<lambda>(t, tc). be32 t @ tc) as)"

definition inserts_ok :: "migris_schedule_t \<Rightarrow> bytes list \<Rightarrow> (u32 \<times> bytes) list \<Rightarrow> bool" where
  "inserts_ok s seen as \<longleftrightarrow>
     (\<forall>(t, tc) \<in> set as. tc_framed tc \<and> length tc \<le> 64 \<and> migris_schedule_find s tc = None \<and> take 4 tc \<notin> take 4 ` set seen)
     \<and> distinct (map (\<lambda>(t, tc). take 4 tc) as)"

lemma insert_bytes_simps [simp]:
  "insert_bytes [] = []" "insert_bytes ((t, tc) # as) = be32 t @ tc @ insert_bytes as"
  by (simp_all add: insert_bytes_def)

lemma inserts_ok_simps:
  "inserts_ok s seen []"
  "inserts_ok s seen ((t, tc) # as) \<longleftrightarrow> tc_framed tc \<and> length tc \<le> 64 \<and> migris_schedule_find s tc = None
     \<and> take 4 tc \<notin> take 4 ` set seen \<and> inserts_ok s (seen @ [tc]) as"
  by (auto simp: inserts_ok_def image_iff split: prod.splits)

lemma rd16_at_prefix: "i + 2 \<le> length tc \<Longrightarrow> rd16_at (tc @ rest) i = rd16_at tc i"
  by (simp add: rd16_at_def nth_append)

lemma rd16_at_drop: "off \<le> length app \<Longrightarrow> rd16_at app (off + i) = rd16_at (drop off app) i"
  by (simp add: rd16_at_def add.assoc)

lemma embedded_total:
  assumes "off \<le> length app"
  shows "pus11_embedded_tc_total app off = m \<and> m \<noteq> 0 \<longleftrightarrow>
    (\<exists>tc rest. drop off app = tc @ rest \<and> tc_framed tc \<and> length tc = m)"
proof
  assume m: "pus11_embedded_tc_total app off = m \<and> m \<noteq> 0"
  then have l: "off + 6 \<le> length app" "m = migris_ccsds_packet_total_size (rd16_at app (off + 4))" "off + m \<le> length app"
    by (auto simp: pus11_embedded_tc_total_def Let_def split: if_splits)
  let ?tc = "take m (drop off app)"
  have d: "drop off app = ?tc @ drop m (drop off app)" by (simp del: drop_drop)
  have len: "length ?tc = m" "6 < m" using l by (simp_all add: migris_ccsds_packet_total_size_def)
  have "rd16_at app (off + 4) = rd16_at ?tc 4"
    using rd16_at_drop [OF assms, of 4] rd16_at_prefix [of 4 ?tc "drop m (drop off app)"] len
    by (simp del: drop_drop)
  then have "tc_framed ?tc" using len l(2) by (simp add: tc_framed_def)
  with d len(1) show "\<exists>tc rest. drop off app = tc @ rest \<and> tc_framed tc \<and> length tc = m" by blast
next
  assume "\<exists>tc rest. drop off app = tc @ rest \<and> tc_framed tc \<and> length tc = m"
  then obtain tc rest where tc: "drop off app = tc @ rest" "tc_framed tc" "length tc = m" by blast
  from arg_cong [OF tc(1), of length] assms tc(3) have l: "off + m \<le> length app" by simp
  have "rd16_at app (off + 4) = rd16_at tc 4"
    using tc rd16_at_prefix [of 4 tc rest] by (simp add: rd16_at_drop [OF assms] tc_framed_def)
  with tc l show "pus11_embedded_tc_total app off = m \<and> m \<noteq> 0"
    by (auto simp: pus11_embedded_tc_total_def tc_framed_def)
qed

lemma id_seen_iff: "pus11_id_seen seen tc \<longleftrightarrow> take 4 tc \<in> take 4 ` set seen"
  by (auto simp: pus11_id_seen_def list_ex_iff pus11_request_id_eq_def fsw_const image_iff) metis+

lemma drop_be32_at: "off + 4 \<le> length app \<Longrightarrow> drop off app = be32 (rd32_at app off) @ drop (off + 4) app"
  using be32_rd32_at [of off app] by (metis append_take_drop_id drop_drop add.commute)

lemma decode_inserts_sound:
  "pus11_decode_inserts_from s app off n seen = Inr as \<Longrightarrow> off \<le> length app \<Longrightarrow>
     length as = n \<and> drop off app = insert_bytes as \<and> inserts_ok s seen as"
proof (induction n arbitrary: off seen as)
  case (Suc n)
  let ?m = "pus11_embedded_tc_total app (off + 4)" and ?t = "rd32_at app off"
  let ?tc = "take ?m (drop (off + 4) app)"
  from Suc.prems obtain as' where len: "off + 4 \<le> length app" and m: "?m \<noteq> 0" "?m \<le> 64" and new: "\<not> pus11_id_seen seen ?tc"
    "migris_schedule_find s ?tc = None" and rest: "pus11_decode_inserts_from s app (off + 4 + ?m) n (seen @ [?tc]) = Inr as'"
    and as: "as = (?t, ?tc) # as'"
    by (auto simp: Let_def fsw_const split: if_splits sum.splits)
  from embedded_total [OF len, of ?m] m(1) obtain tc r where tc: "drop (off + 4) app = tc @ r" "tc_framed tc" "length tc = ?m" by blast
  then have tc_eq: "?tc = tc" by simp
  from arg_cong [OF tc(1), of length] len tc(3) have le: "off + 4 + ?m \<le> length app" by simp
  have "drop (off + 4) app = tc @ drop (off + 4 + ?m) app"
    using tc(1,3) by (metis append_eq_conv_conj drop_drop add.commute)
  then show ?case
    using Suc.IH [OF rest le] drop_be32_at [OF len] tc(2,3) m(2) new
    by (simp add: as inserts_ok_simps tc_eq id_seen_iff)
qed (auto simp: inserts_ok_simps split: if_splits)

lemma decode_inserts_complete:
  "drop off app = insert_bytes as \<Longrightarrow> off \<le> length app \<Longrightarrow> inserts_ok s seen as \<Longrightarrow>
     pus11_decode_inserts_from s app off (length as) seen = Inr as"
proof (induction as arbitrary: off seen)
  case (Cons a as)
  obtain t tc where a: "a = (t, tc)" by force
  have ok: "tc_framed tc" "length tc \<le> 64" "migris_schedule_find s tc = None" "\<not> pus11_id_seen seen tc" "inserts_ok s (seen @ [tc]) as"
    using Cons.prems(3) by (simp_all add: a inserts_ok_simps id_seen_iff)
  from Cons.prems(1) have d: "drop off app = be32 t @ tc @ insert_bytes as" by (simp add: a)
  from arg_cong [OF d, of length] Cons.prems(2) have len: "off + 4 + length tc \<le> length app" by simp
  then have len4: "off + 4 \<le> length app" by simp
  from drop_be32_at [OF len4] d have t: "rd32_at app off = t" "drop (off + 4) app = tc @ insert_bytes as"
    by (simp_all add: append_eq_append_conv)
  have m: "pus11_embedded_tc_total app (off + 4) = length tc" "length tc \<noteq> 0"
    using embedded_total [OF len4, of "length tc"] t(2) ok(1) by blast+
  have "drop (off + 4 + length tc) app = insert_bytes as"
    using t(2) by (metis append_eq_conv_conj drop_drop add.commute)
  from Cons.IH [OF this len ok(5)] show ?case
    using ok m len4 t by (simp add: a Let_def fsw_const)
qed simp

definition insert_request :: "migris_schedule_t \<Rightarrow> (u32 \<times> bytes) list \<Rightarrow> bytes \<Rightarrow> bool" where
  "insert_request s as app \<longleftrightarrow> length as \<le> 8 \<and> app = of_nat (length as) # insert_bytes as
     \<and> (\<forall>(t, tc) \<in> set as. tc_framed tc) \<and> act_batch_ok migris_schedule_find migris_schedule_count s as"

lemma inserts_ok_batch:
  "inserts_ok s [] as \<and> migris_schedule_count s + length as \<le> 16 \<longleftrightarrow>
     (\<forall>(t, tc) \<in> set as. tc_framed tc) \<and> act_batch_ok migris_schedule_find migris_schedule_count s as"
  by (auto simp: inserts_ok_def act_batch_ok_def fsw_const tc_framed_def)

lemma decode_inserts_iff: "pus11_decode_inserts s app = Inr as \<longleftrightarrow> insert_request s as app"
proof
  assume d: "pus11_decode_inserts s app = Inr as"
  then obtain c cs where app: "app = c # cs" by (cases app) (auto simp: pus11_decode_inserts_def)
  with d have c: "unat c \<le> 8" "migris_schedule_count s + unat c \<le> 16" "pus11_decode_inserts_from s app 1 (unat c) [] = Inr as"
    by (auto simp: pus11_decode_inserts_def Let_def fsw_const split: if_splits)
  have "1 \<le> length app" by (simp add: app)
  from decode_inserts_sound [OF c(3) this] have s: "length as = unat c" "cs = insert_bytes as" "inserts_ok s [] as" by (simp_all add: app)
  have "c = of_nat (length as)" by (simp add: s(1))
  with s c(1,2) inserts_ok_batch [of s as] show "insert_request s as app" by (simp add: insert_request_def app)
next
  assume r: "insert_request s as app"
  then have u: "unat (of_nat (length as) :: u8) = length as" by (simp add: insert_request_def unat_of_nat_u8)
  have app: "app = of_nat (length as) # insert_bytes as" using r by (simp add: insert_request_def)
  from r have ok: "inserts_ok s [] as" "migris_schedule_count s + length as \<le> 16"
    using inserts_ok_batch [of s as] by (auto simp: insert_request_def)
  then have "pus11_decode_inserts_from s app 1 (length as) [] = Inr as"
    by (intro decode_inserts_complete) (simp_all add: app)
  with r u ok(2) show "pus11_decode_inserts s app = Inr as"
    by (simp add: pus11_decode_inserts_def app insert_request_def fsw_const)
qed

section \<open>Request identifiers\<close>

definition id_request :: "bytes list \<Rightarrow> bytes \<Rightarrow> bool" where
  "id_request rids app \<longleftrightarrow> length rids \<le> 8 \<and> app = of_nat (length rids) # concat rids \<and> (\<forall>rid \<in> set rids. length rid = 4)"

lemma concat_ids_length: "\<forall>rid \<in> set rids. length rid = 4 \<Longrightarrow> length (concat rids) = 4 * length rids"
  by (induction rids) simp_all

lemma decode_ids_iff: "pus11_decode_request_ids app = Inr rids \<longleftrightarrow> id_request rids app"
proof
  assume d: "pus11_decode_request_ids app = Inr rids"
  then obtain c cs where app: "app = c # cs" by (cases app) (auto simp: pus11_decode_request_ids_def)
  with d have c: "unat c \<le> 8" "length cs = 4 * unat c" "rids = map (\<lambda>k. take 4 (drop (4 * k) cs)) [0..<unat c]"
    by (auto simp: pus11_decode_request_ids_def Let_def fsw_const split: if_splits)
  have "concat rids = cs" unfolding c(3) concat_chunks c(2) [symmetric] by simp
  moreover have "\<forall>rid \<in> set rids. length rid = 4" unfolding c(3) using c(2) by auto
  moreover have n: "length rids = unat c" unfolding c(3) by simp
  moreover have "c = of_nat (length rids)" unfolding n by simp
  ultimately show "id_request rids app" using c(1) unfolding id_request_def app by simp
next
  assume r: "id_request rids app"
  then have len: "length rids \<le> 8" "\<forall>rid \<in> set rids. length rid = 4" by (simp_all add: id_request_def)
  then have u: "unat (of_nat (length rids) :: u8) = length rids" by (simp add: unat_of_nat_u8)
  have "map (\<lambda>k. take 4 (drop (4 * k) (concat rids))) [0..<length rids] = rids"
    by (rule nth_equalityI) (simp_all add: chunk_of_concat [OF len(2)])
  then have m: "map (\<lambda>k. take 4 (drop (1 + 4 * k) app)) [0..<length rids] = rids"
    using r by (simp add: id_request_def)
  have app: "app ! 0 = of_nat (length rids)" "length app = 1 + 4 * length rids"
    using r concat_ids_length [OF len(2)] by (simp_all add: id_request_def)
  have "\<not> length app < 1" "\<not> 8 < length rids" using app(2) len(1) by simp_all
  then show "pus11_decode_request_ids app = Inr rids"
    unfolding pus11_decode_request_ids_def Let_def fsw_const app(1) u m app(2) by simp
qed

lemma pus11_delete_spec:
  assumes "sch_inv s"
  shows "(\<nexists>rids. id_request rids app \<and> (\<forall>rid \<in> set rids. migris_schedule_find s rid \<noteq> None)) \<Longrightarrow>
      \<exists>e. pus11_delete s app = (Inl e, s)"
    and "id_request rids app \<Longrightarrow> \<forall>rid \<in> set rids. migris_schedule_find s rid \<noteq> None \<Longrightarrow>
      pus11_delete s app = (Inr [], fold (\<lambda>rid s. snd (migris_schedule_delete s rid)) rids s)"
  by (auto simp: pus11_delete_def decode_ids_iff [symmetric] list_ex_iff split: sum.splits)

lemma pus11_insert_spec:
  "(\<nexists>as. insert_request s as app) \<Longrightarrow> \<exists>e. pus11_insert s app = (Inl e, s)"
  "insert_request s as app \<Longrightarrow> pus11_insert s app = (Inr [], act_insert_all migris_schedule_insert s as)"
  by (auto simp: pus11_insert_def decode_inserts_iff [symmetric] split: sum.splits)

section \<open>The summary report\<close>

definition summary_source :: "migris_schedule_activity_t list \<Rightarrow> bytes" where
  "summary_source found = of_nat (length found) # concat (map (\<lambda>a. be32 (act_release_time a) @ act_id a) found)"

lemma length_summary:
  "\<forall>a \<in> set found. 4 \<le> length (act_tc a) \<Longrightarrow> length (summary_source found) = 1 + 8 * length found"
proof -
  assume "\<forall>a \<in> set found. 4 \<le> length (act_tc a)"
  then have "length (concat (map (\<lambda>a. be32 (act_release_time a) @ act_id a) found)) = 8 * length found"
    by (induction found) simp_all
  then show ?thesis by (simp add: summary_source_def)
qed

lemma summary_ok:
  assumes "length found \<le> 8" "\<forall>a \<in> set found. 4 \<le> length (act_tc a)" "apid \<le> 0x7FF" "seq \<le> 0x3FFF"
  shows "83 \<le> cap \<Longrightarrow> \<exists>pkt. pus11_build_summary_report ctx apid seq now src found cap =
      (Inr pkt, ctx\<lparr>p11_msg_counter := bump (p11_msg_counter ctx) 0\<rparr>, next_seq seq)
    \<and> tm_burst apid seq pkt [tm_view_of apid seq 11 12 (p11_msg_counter ctx ! 0) src now (summary_source found)] (next_seq seq)
    \<and> length pkt \<le> 83"
    and "tm_result apid seq 83 (fst (pus11_build_summary_report ctx apid seq now src found cap))
      (snd (snd (pus11_build_summary_report ctx apid seq now src found cap)))"
proof -
  let ?src = "summary_source found"
  have len: "length ?src = 1 + 8 * length found" by (rule length_summary [OF assms(2)])
  have df: "of_nat (10 + (1 + length found * 8) + 2) = (of_nat (length ?src + 12) :: u16)"
    unfolding len by (rule arg_cong [where f = of_nat]) simp
  have "length ?src < 65000" using len assms(1) by simp
  then have un: "unat (of_nat (length ?src + 12) :: u16) = length ?src + 12" by (simp only: unat_of_nat_u16)
  have code: "[of_nat (length found)] @ concat (map (\<lambda>a. be32 (act_release_time a) @ take 4 (act_tc a)) found) = ?src"
    by (simp add: summary_source_def)
  have big: "\<exists>pkt. pus11_build_summary_report ctx apid seq now src found cap =
      (Inr pkt, ctx\<lparr>p11_msg_counter := bump (p11_msg_counter ctx) 0\<rparr>, next_seq seq)
    \<and> tm_burst apid seq pkt [tm_view_of apid seq 11 12 (p11_msg_counter ctx ! 0) src now ?src] (next_seq seq)
    \<and> length pkt = 18 + length ?src" if cap: "18 + length ?src \<le> cap"
  proof -
    have "16 \<le> cap" "length ?src < 60000" using cap assms(1) len by simp_all
    from tm_packet_burst [OF assms(3,4) this, of 11 12 "p11_msg_counter ctx ! 0" src now] obtain pkt where
      pkt: "tm_packet apid seq (of_nat (length ?src + 12)) 11 12 (p11_msg_counter ctx ! 0) src now ?src cap = Some pkt"
      and burst: "tm_burst apid seq pkt [tm_view_of apid seq 11 12 (p11_msg_counter ctx ! 0) src now ?src] (next_seq seq)"
      and l: "length pkt = 18 + length ?src" by blast
    have "pus11_build_summary_report ctx apid seq now src found cap =
      (Inr pkt, ctx\<lparr>p11_msg_counter := bump (p11_msg_counter ctx) 0\<rparr>, next_seq seq)"
      using cap pkt by (simp only: pus11_build_summary_report_def Let_def MIGRIS_PUS_TM_SECONDARY_HEADER_SIZE_def
          MIGRIS_CCSDS_PRIMARY_HEADER_SIZE_def MIGRIS_SCHEDULE_REQUEST_ID_SIZE_def df un code) simp
    with burst l show ?thesis by blast
  qed
  have small: "pus11_build_summary_report ctx apid seq now src found cap = (Inl PUS11_ERR_BUF_TOO_SMALL, ctx, seq)"
    if "cap < 18 + length ?src"
    using that by (simp only: pus11_build_summary_report_def Let_def MIGRIS_PUS_TM_SECONDARY_HEADER_SIZE_def
        MIGRIS_CCSDS_PRIMARY_HEADER_SIZE_def df un) simp
  have l83: "18 + length ?src \<le> 83" using len assms(1) by simp
  then show "83 \<le> cap \<Longrightarrow> \<exists>pkt. pus11_build_summary_report ctx apid seq now src found cap =
      (Inr pkt, ctx\<lparr>p11_msg_counter := bump (p11_msg_counter ctx) 0\<rparr>, next_seq seq)
    \<and> tm_burst apid seq pkt [tm_view_of apid seq 11 12 (p11_msg_counter ctx ! 0) src now (summary_source found)] (next_seq seq)
    \<and> length pkt \<le> 83"
    using big by fastforce
  show "tm_result apid seq 83 (fst (pus11_build_summary_report ctx apid seq now src found cap))
      (snd (snd (pus11_build_summary_report ctx apid seq now src found cap)))"
  proof (cases "18 + length ?src \<le> cap")
    case True
    then obtain pkt where "pus11_build_summary_report ctx apid seq now src found cap =
        (Inr pkt, ctx\<lparr>p11_msg_counter := bump (p11_msg_counter ctx) 0\<rparr>, next_seq seq)"
      "tm_burst apid seq pkt [tm_view_of apid seq 11 12 (p11_msg_counter ctx ! 0) src now ?src] (next_seq seq)"
      "length pkt \<le> 83" using big l83 by fastforce
    then show ?thesis by (auto intro: tm_resultI)
  next
    case False
    then show ?thesis by (simp add: small)
  qed
qed

lemma map_filter_conv: "List.map_filter f xs = map (\<lambda>x. the (f x)) (filter (\<lambda>x. f x \<noteq> None) xs)"
  by (simp add: List.map_filter_def comp_def)

lemma found_bounds:
  assumes "sch_inv s" "length rids \<le> 8"
  shows "length (List.map_filter (migris_schedule_find s) rids) \<le> 8"
    and "\<forall>a \<in> set (List.map_filter (migris_schedule_find s) rids). 4 \<le> length (act_tc a)"
proof -
  show "length (List.map_filter (migris_schedule_find s) rids) \<le> 8"
    using length_filter_le [of "\<lambda>x. migris_schedule_find s x \<noteq> None" rids] assms(2)
    unfolding map_filter_conv length_map by (rule order_trans)
  show "\<forall>a \<in> set (List.map_filter (migris_schedule_find s) rids). 4 \<le> length (act_tc a)"
  proof
    fix a assume "a \<in> set (List.map_filter (migris_schedule_find s) rids)"
    then obtain rid where "migris_schedule_find s rid = Some a" by (auto simp: map_filter_conv)
    then show "4 \<le> length (act_tc a)"
      unfolding sch_find_live_iff [OF assms(1)] using assms(1) by (simp add: sch_inv_def)
  qed
qed

lemma report_spec:
  assumes "sch_inv s" "apid \<le> 0x7FF" "seq \<le> 0x3FFF"
  shows "(\<nexists>rids. id_request rids app) \<Longrightarrow> \<exists>e. pus11_report ctx s apid seq now src app cap = (Inl e, ctx, seq)"
    and "id_request rids app \<Longrightarrow> pus11_report ctx s apid seq now src app cap =
      pus11_build_summary_report ctx apid seq now src (List.map_filter (migris_schedule_find s) rids) cap"
    and "tm_result apid seq 83 (fst (pus11_report ctx s apid seq now src app cap))
      (snd (snd (pus11_report ctx s apid seq now src app cap)))"
proof -
  show none: "(\<nexists>rids. id_request rids app) \<Longrightarrow> \<exists>e. pus11_report ctx s apid seq now src app cap = (Inl e, ctx, seq)"
    by (auto simp: pus11_report_def decode_ids_iff [symmetric] split: sum.splits)
  show some: "id_request rids app \<Longrightarrow> pus11_report ctx s apid seq now src app cap =
      pus11_build_summary_report ctx apid seq now src (List.map_filter (migris_schedule_find s) rids) cap" for rids
    by (simp add: pus11_report_def decode_ids_iff [symmetric])
  show "tm_result apid seq 83 (fst (pus11_report ctx s apid seq now src app cap))
      (snd (snd (pus11_report ctx s apid seq now src app cap)))"
  proof (cases "\<exists>rids. id_request rids app")
    case False
    with none show ?thesis by fastforce
  next
    case True
    then obtain rids where r: "id_request rids app" by blast
    then have "length rids \<le> 8" by (simp add: id_request_def)
    from summary_ok(2) [OF found_bounds [OF assms(1) this] assms(2,3)] show ?thesis by (simp add: some [OF r])
  qed
qed

lemma pus11_result:
  assumes "sch_inv (snd cs)" "apid \<le> 0x7FF" "seq \<le> 0x3FFF"
    and e: "migris_pus11_execute (fst cs) (snd cs) apid seq now st src app cap = (r, cs', seq')"
  shows "tm_result apid seq 83 r seq' \<and> sch_inv (snd cs')"
proof -
  let ?s = "snd cs"
  have ins: "tm_result apid seq 83 (fst (pus11_insert ?s app)) seq \<and> sch_inv (snd (pus11_insert ?s app))"
    using pus11_insert_spec(1) [of ?s app] pus11_insert_spec(2) [of ?s _ app] sched.insert_all_inv [OF assms(1)] assms(1)
    by (metis fst_conv snd_conv tm_result_none tm_result_Inl)
  have del: "tm_result apid seq 83 (fst (pus11_delete ?s app)) seq \<and> sch_inv (snd (pus11_delete ?s app))"
    using pus11_delete_spec(1) [OF assms(1), of app] pus11_delete_spec(2) [OF assms(1), of _ app]
      sched.delete_all_find [OF assms(1)] assms(1)
    by (metis fst_conv snd_conv tm_result_none tm_result_Inl)
  note rep = report_spec(3) [OF assms(1-3), of "fst cs" now src app cap]
  show ?thesis
    using e assms(1) ins del rep
    by (auto simp: migris_pus11_execute_def set_enabled_inv reset_inv split: prod.splits if_splits)
qed

interpretation pus11: tm_service
  "\<lambda>cs apid seq cap. migris_pus11_execute (fst cs) (snd cs) apid seq now st src app cap"
  "\<lambda>cs. sch_inv (snd cs)" 83
  by unfold_locales (blast dest: pus11_result)+

section \<open>Properties\<close>

text \<open>
  C31: an insert request is all-or-nothing. It is executed exactly when the application data is a
  count of at most eight followed by that many release times each with a telecommand as long as
  its own header declares, nothing left over, every telecommand within the size limit, every
  request identifier neither scheduled nor repeated, and room for all; then no single insert fails
  and exactly these activities are added. Otherwise the schedule is unchanged.
\<close>
theorem pus11_insert_all_or_nothing:
  assumes "sch_inv s" and "migris_pus11_execute ctx s apid seq now 4 src app cap = (r, (ctx', s'), seq')"
  shows "ctx' = ctx \<and> seq' = seq \<and> sch_inv s' \<and>
    (case r of
       Inl e \<Rightarrow> s' = s \<and> (\<nexists>as. insert_request s as app)
     | Inr pkt \<Rightarrow> pkt = [] \<and> (\<exists>as. insert_request s as app
         \<and> migris_schedule_count s' = migris_schedule_count s + length as
         \<and> (\<forall>rid. migris_schedule_find s' rid =
              (case map_of (map (\<lambda>(t, tc). (take 4 tc, \<lparr>act_release_time = t, act_tc = tc\<rparr>)) as) (take 4 rid) of
                 None \<Rightarrow> migris_schedule_find s rid | Some a \<Rightarrow> Some a))
         \<and> (\<forall>us t tc vs. as = us @ (t, tc) # vs \<longrightarrow>
              fst (migris_schedule_insert (act_insert_all migris_schedule_insert s us) t tc) = SCHEDULE_OK)))"
proof (cases "\<exists>as. insert_request s as app")
  case False
  with pus11_insert_spec(1) [of s app] assms show ?thesis by (auto simp: migris_pus11_execute_def)
next
  case True
  then obtain as where as: "insert_request s as app" by blast
  then have ok: "act_batch_ok migris_schedule_find migris_schedule_count s as" by (simp add: insert_request_def)
  have e: "(r, (ctx', s'), seq') = (Inr [], (ctx, act_insert_all migris_schedule_insert s as), seq)"
    using assms(2) by (simp add: migris_pus11_execute_def pus11_insert_spec(2) [OF as])
  have each: "fst (migris_schedule_insert (act_insert_all migris_schedule_insert s us) t tc) = SCHEDULE_OK"
    if "as = us @ (t, tc) # vs" for us t tc vs
    using sched.insert_all_each_OK [OF assms(1), of us t tc vs] ok that by simp
  show ?thesis
    using e as each sched.insert_all_inv [OF assms(1), of as] sched.insert_all_find [OF assms(1) ok]
      sched.insert_all_count [OF assms(1) ok]
    by auto
qed

lemma pus11_insert_all_or_nothing_witness:
  "\<exists>r ctx' s' seq'. migris_pus11_execute \<lparr>p11_msg_counter = [0]\<rparr> sched_example 5 0 9 4 0 [1, 0, 0, 0, 50, 0x18, 1, 0xC0, 7, 0, 0, 9] 128
      = (r, (ctx', s'), seq') \<and> r = Inr [] \<and> migris_schedule_count s' = 3"
proof -
  let ?app = "[1, 0, 0, 0, 50, 0x18, 1, 0xC0, 7, 0, 0, 9] :: bytes" and ?as = "[(50, [0x18, 1, 0xC0, 7, 0, 0, 9])] :: (u32 \<times> bytes) list"
  obtain r ctx' s' seq' where e: "migris_pus11_execute \<lparr>p11_msg_counter = [0]\<rparr> sched_example 5 0 9 4 0 ?app 128 = (r, (ctx', s'), seq')"
    by (metis prod.exhaust)
  have "migris_schedule_find sched_example [0x18, 1, 0xC0, 7, 0, 0, 9] = None"
    by (simp add: find_None_iff sched_example_def sch_live_def)
  then have w: "insert_request sched_example ?as ?app"
    using sched_example_inv(3)
    by (simp add: insert_request_def act_batch_ok_def tc_framed_def be32_def rd16_at_def rd16_def
        migris_ccsds_packet_total_size_def fsw_const migris_schedule_count_def)
  have u: "as = ?as" if "insert_request sched_example as ?app" for as
    using that w unfolding decode_inserts_iff [symmetric] by simp
  note T = pus11_insert_all_or_nothing [OF sched_example_inv(1) e]
  obtain pkt where r: "r = Inr pkt" using T w by (cases r) (simp_all only: sum.case, blast)
  obtain as where p: "pkt = []" "insert_request sched_example as ?app"
    "migris_schedule_count s' = migris_schedule_count sched_example + length as"
    using T unfolding r sum.case by blast
  have "migris_schedule_count s' = 3" using p(3) sched_example_inv(3) unfolding u [OF p(2)] by (simp add: migris_schedule_count_def)
  with e r p(1) show ?thesis by blast
qed

text \<open>
  C32: a delete request is executed exactly when it names its count and at most eight identifiers,
  all of them scheduled, and then removes exactly those activities, a repeated identifier once;
  otherwise the schedule is unchanged.
\<close>
theorem pus11_delete_all_or_nothing:
  assumes "sch_inv s" and "migris_pus11_execute ctx s apid seq now 5 src app cap = (r, (ctx', s'), seq')"
  shows "ctx' = ctx \<and> seq' = seq \<and> sch_inv s' \<and>
    (case r of
       Inl e \<Rightarrow> s' = s \<and> (\<nexists>rids. id_request rids app \<and> (\<forall>rid \<in> set rids. migris_schedule_find s rid \<noteq> None))
     | Inr pkt \<Rightarrow> pkt = [] \<and> (\<exists>rids. id_request rids app \<and> (\<forall>rid \<in> set rids. migris_schedule_find s rid \<noteq> None)
         \<and> (\<forall>k. migris_schedule_find s' k = (if take 4 k \<in> set rids then None else migris_schedule_find s k))))"
proof (cases "\<exists>rids. id_request rids app \<and> (\<forall>rid \<in> set rids. migris_schedule_find s rid \<noteq> None)")
  case False
  with pus11_delete_spec(1) [OF assms(1) False] assms show ?thesis by (auto simp: migris_pus11_execute_def)
next
  case True
  then obtain rids where rids: "id_request rids app" "\<forall>rid \<in> set rids. migris_schedule_find s rid \<noteq> None" by blast
  have e: "(r, (ctx', s'), seq') = (Inr [], (ctx, fold (\<lambda>rid s. snd (migris_schedule_delete s rid)) rids s), seq)"
    using assms(2) by (simp add: migris_pus11_execute_def pus11_delete_spec(2) [OF assms(1) rids])
  have "take 4 ` set rids = set rids" using rids(1) by (auto simp: id_request_def image_iff)
  then have "\<forall>k. migris_schedule_find s' k = (if take 4 k \<in> set rids then None else migris_schedule_find s k)" "sch_inv s'"
    using sched.delete_all_find [OF assms(1), of rids] e by auto
  with e rids show ?thesis by auto
qed

lemma pus11_delete_all_or_nothing_witness:
  "\<exists>r ctx' s' seq'. migris_pus11_execute \<lparr>p11_msg_counter = [0]\<rparr> sched_example 5 0 9 5 0 [0] 128 = (r, (ctx', s'), seq')
      \<and> r = Inr [] \<and> sch_inv s'"
proof -
  obtain r ctx' s' seq' where e: "migris_pus11_execute \<lparr>p11_msg_counter = [0]\<rparr> sched_example 5 0 9 5 0 [0] 128 = (r, (ctx', s'), seq')"
    by (metis prod.exhaust)
  have "id_request [] [0]" by (simp add: id_request_def)
  with pus11_delete_all_or_nothing [OF sched_example_inv(1) e] e show ?thesis
    by (cases r) (simp_all only: sum.case, force, blast)
qed

end
