(* ===== verification/Pus13.thy ===== *)
theory Pus13
  imports Tm_Service
begin

text \<open>lib/pus/src/pus13.c: the part packets [13,1], [13,2] and [13,3] of a large-data transfer.\<close>

record migris_pus13_ctx_t =
  p13_msg_counter :: bytes

datatype migris_pus13_status_t = PUS13_ERR_BUF_TOO_SMALL | PUS13_ERR_BAD_ARG

definition MIGRIS_PUS13_PART_SIZE :: nat where
  [fsw_const]: "MIGRIS_PUS13_PART_SIZE = 64"

definition MIGRIS_PUS13_PART_HEADER_SIZE :: nat where
  [fsw_const]: "MIGRIS_PUS13_PART_HEADER_SIZE = 6"

definition pus13_subtype_for :: "u16 \<Rightarrow> u16 \<Rightarrow> u8" where
  "pus13_subtype_for part_number total_parts =
    (if part_number = total_parts - 1 then 3
     else if part_number = 0 then 1
     else 2)"

definition migris_pus13_build_part ::
  "migris_pus13_ctx_t \<Rightarrow> u16 \<Rightarrow> u16 \<Rightarrow> u32 \<Rightarrow> u16 \<Rightarrow> u16 \<Rightarrow> u16 \<Rightarrow> u16 \<Rightarrow> bytes \<Rightarrow> nat
     \<Rightarrow> (migris_pus13_status_t + bytes) \<times> migris_pus13_ctx_t \<times> u16" where
  "migris_pus13_build_part ctx apid tm_seq_count now_seconds destination_id transaction_id part_number total_parts
      payload out_cap =
    (if total_parts = 0 \<or> total_parts \<le> part_number then (Inl PUS13_ERR_BAD_ARG, ctx, tm_seq_count)
     else if length payload = 0 \<or> MIGRIS_PUS13_PART_SIZE < length payload then (Inl PUS13_ERR_BAD_ARG, ctx, tm_seq_count)
     else
       let source_len = MIGRIS_PUS13_PART_HEADER_SIZE + length payload;
           data_field = of_nat (MIGRIS_PUS_TM_SECONDARY_HEADER_SIZE + source_len + 2);
           packet_len = MIGRIS_CCSDS_PRIMARY_HEADER_SIZE + unat data_field
       in if out_cap < packet_len then (Inl PUS13_ERR_BUF_TOO_SMALL, ctx, tm_seq_count)
          else
            let subtype = pus13_subtype_for part_number total_parts; counter_index = unat (subtype - 1)
            in case tm_packet apid tm_seq_count data_field 13 subtype (p13_msg_counter ctx ! counter_index) destination_id
                 now_seconds (be16 transaction_id @ be16 part_number @ be16 total_parts @ payload) out_cap of
                 None \<Rightarrow> (Inl PUS13_ERR_BUF_TOO_SMALL, ctx, tm_seq_count)
               | Some out \<Rightarrow>
                   (Inr out, ctx\<lparr>p13_msg_counter := bump (p13_msg_counter ctx) counter_index\<rparr>, next_seq tm_seq_count))"

text \<open>The ground's view of a part, and the counter it steps.\<close>

definition part_source :: "u16 \<Rightarrow> u16 \<Rightarrow> u16 \<Rightarrow> bytes \<Rightarrow> bytes" where
  "part_source tid part parts payload = be16 tid @ be16 part @ be16 parts @ payload"

definition part_counter :: "u16 \<Rightarrow> u16 \<Rightarrow> nat" where
  "part_counter part parts = unat (pus13_subtype_for part parts - 1)"

lemma build_part_ok:
  assumes "apid \<le> 0x7FF" "seq \<le> 0x3FFF" "part < parts" "payload \<noteq> []" "length payload \<le> 64" "24 + length payload \<le> cap"
  shows "\<exists>pkt. migris_pus13_build_part ctx apid seq now dest tid part parts payload cap =
      (Inr pkt, ctx\<lparr>p13_msg_counter := bump (p13_msg_counter ctx) (part_counter part parts)\<rparr>, next_seq seq)
    \<and> tm_burst apid seq pkt [tm_view_of apid seq 13 (pus13_subtype_for part parts)
        (p13_msg_counter ctx ! part_counter part parts) dest now (part_source tid part parts payload)] (next_seq seq)
    \<and> length pkt = 24 + length payload"
proof -
  let ?src = "part_source tid part parts payload" and ?i = "part_counter part parts" and ?st = "pus13_subtype_for part parts"
  have len: "length ?src = 6 + length payload" by (simp add: part_source_def)
  have df: "of_nat (10 + (6 + length payload) + 2) = (of_nat (length ?src + 12) :: u16)"
    unfolding len by (rule arg_cong [where f = of_nat]) simp
  have un: "unat (of_nat (length ?src + 12) :: u16) = length ?src + 12"
    using assms(5) len by (simp add: unat_of_nat_u16 del: of_nat_add)
  have "16 \<le> cap" "length ?src < 60000" using assms(5,6) len by simp_all
  from tm_packet_burst [OF assms(1,2) this, of 13 ?st "p13_msg_counter ctx ! ?i" dest now] obtain pkt where
    pkt: "tm_packet apid seq (of_nat (length ?src + 12)) 13 ?st (p13_msg_counter ctx ! ?i) dest now ?src cap = Some pkt"
    and burst: "tm_burst apid seq pkt [tm_view_of apid seq 13 ?st (p13_msg_counter ctx ! ?i) dest now ?src] (next_seq seq)"
    and l: "length pkt = 18 + length ?src" by blast
  have t: "parts \<noteq> 0" "\<not> parts \<le> part" using assms(3) by (auto simp: word_greater_zero_iff)
  have "migris_pus13_build_part ctx apid seq now dest tid part parts payload cap =
      (Inr pkt, ctx\<lparr>p13_msg_counter := bump (p13_msg_counter ctx) ?i\<rparr>, next_seq seq)"
    using pkt assms(4-6) t un len unfolding migris_pus13_build_part_def Let_def fsw_const MIGRIS_PUS_TM_SECONDARY_HEADER_SIZE_def
      df part_source_def [symmetric] part_counter_def [symmetric] by simp
  with burst l len show ?thesis by simp
qed

lemma build_part_small:
  assumes "part < parts" "payload \<noteq> []" "length payload \<le> 64" "cap < 24 + length payload"
  shows "migris_pus13_build_part ctx apid seq now dest tid part parts payload cap = (Inl PUS13_ERR_BUF_TOO_SMALL, ctx, seq)"
proof -
  have t: "parts \<noteq> 0" "\<not> parts \<le> part" using assms(1) by (auto simp: word_greater_zero_iff)
  have un: "unat (of_nat (10 + (6 + length payload) + 2) :: u16) = 10 + (6 + length payload) + 2"
    using assms(3) by (simp only: unat_of_nat_u16)
  show ?thesis
    using t assms unfolding migris_pus13_build_part_def Let_def fsw_const MIGRIS_PUS_TM_SECONDARY_HEADER_SIZE_def un by simp
qed

lemma build_part_bad:
  "\<not> part < parts \<or> payload = [] \<or> 64 < length payload \<Longrightarrow>
     migris_pus13_build_part ctx apid seq now dest tid part parts payload cap = (Inl PUS13_ERR_BAD_ARG, ctx, seq)"
  by (auto simp: migris_pus13_build_part_def fsw_const)

end
