(* ===== verification/Pus15.thy ===== *)
theory Pus15
  imports Tm_Service Pktstore
begin

text \<open>
  lib/pus/src/pus15.c: on-board storage and retrieval over the packet store of Pktstore. The
  C return value "0, no telemetry" is \<open>Inr []\<close>.
\<close>

record migris_pus15_ctx_t =
  p15_msg_counter :: bytes

datatype migris_pus15_status_t =
    PUS15_OK | PUS15_ERR_BUF_TOO_SMALL | PUS15_ERR_BAD_ARG | PUS15_ERR_MALFORMED
  | PUS15_ERR_RETRIEVAL_ACTIVE | PUS15_ERR_BAD_SUBTYPE

definition MIGRIS_PUS15_STORE_REPORT_PACKET_SIZE :: nat where
  [fsw_const]: "MIGRIS_PUS15_STORE_REPORT_PACKET_SIZE = 29"

definition pus15_build_store_report ::
  "migris_pus15_ctx_t \<Rightarrow> migris_pktstore_t \<Rightarrow> u16 \<Rightarrow> u16 \<Rightarrow> u32 \<Rightarrow> u16 \<Rightarrow> nat
     \<Rightarrow> (migris_pus15_status_t + bytes) \<times> migris_pus15_ctx_t \<times> u16" where
  "pus15_build_store_report ctx store apid tm_seq_count now_seconds source_id out_cap =
    (if out_cap < MIGRIS_PUS15_STORE_REPORT_PACKET_SIZE then (Inl PUS15_ERR_BUF_TOO_SMALL, ctx, tm_seq_count)
     else
       let data_field = of_nat (MIGRIS_PUS_TM_SECONDARY_HEADER_SIZE + 11 + 2);
           (oldest, newest) = (case migris_pktstore_span store of None \<Rightarrow> (0, 0) | Some span \<Rightarrow> span);
           packet_count = of_nat (migris_pktstore_count store)
       in case tm_packet apid tm_seq_count data_field 15 13 (p15_msg_counter ctx ! 0) source_id now_seconds
                 ([if migris_pktstore_is_enabled store then 1 else 0] @ be16 packet_count @ be32 oldest @ be32 newest)
                 out_cap of
            None \<Rightarrow> (Inl PUS15_ERR_BUF_TOO_SMALL, ctx, tm_seq_count)
          | Some out \<Rightarrow>
              (Inr out, ctx\<lparr>p15_msg_counter := bump (p15_msg_counter ctx) 0\<rparr>, next_seq tm_seq_count))"

definition pus15_downlink ::
  "migris_pktstore_t \<Rightarrow> bytes \<Rightarrow> (migris_pus15_status_t + bytes) \<times> migris_pktstore_t" where
  "pus15_downlink store app =
    (if length app \<noteq> 8 then (Inl PUS15_ERR_MALFORMED, store)
     else case migris_pktstore_arm_retrieval store (rd32_at app 0) (rd32_at app 4) of
       (PKTSTORE_ERR_RETRIEVAL_ACTIVE, store) \<Rightarrow> (Inl PUS15_ERR_RETRIEVAL_ACTIVE, store)
     | (rc, store) \<Rightarrow> if rc \<noteq> PKTSTORE_OK then (Inl PUS15_ERR_MALFORMED, store) else (Inr [], store))"

definition pus15_delete ::
  "migris_pktstore_t \<Rightarrow> bytes \<Rightarrow> (migris_pus15_status_t + bytes) \<times> migris_pktstore_t" where
  "pus15_delete store app =
    (if length app \<noteq> 4 then (Inl PUS15_ERR_MALFORMED, store)
     else case migris_pktstore_delete_up_to store (rd32_at app 0) of
       (Inl PKTSTORE_ERR_RETRIEVAL_ACTIVE, store) \<Rightarrow> (Inl PUS15_ERR_RETRIEVAL_ACTIVE, store)
     | (Inl _, store) \<Rightarrow> (Inl PUS15_ERR_BAD_ARG, store)
     | (Inr _, store) \<Rightarrow> (Inr [], store))"

definition migris_pus15_execute ::
  "migris_pus15_ctx_t \<Rightarrow> migris_pktstore_t \<Rightarrow> u16 \<Rightarrow> u16 \<Rightarrow> u32 \<Rightarrow> u8 \<Rightarrow> u16 \<Rightarrow> bytes \<Rightarrow> nat
     \<Rightarrow> (migris_pus15_status_t + bytes) \<times> (migris_pus15_ctx_t \<times> migris_pktstore_t) \<times> u16" where
  "migris_pus15_execute ctx store apid tm_seq_count now_seconds service_subtype source_id app_data out_cap =
    (if service_subtype = 1 then
       if length app_data \<noteq> 0 then (Inl PUS15_ERR_MALFORMED, (ctx, store), tm_seq_count)
       else (Inr [], (ctx, migris_pktstore_set_enabled store True), tm_seq_count)
     else if service_subtype = 2 then
       if length app_data \<noteq> 0 then (Inl PUS15_ERR_MALFORMED, (ctx, store), tm_seq_count)
       else (Inr [], (ctx, migris_pktstore_set_enabled store False), tm_seq_count)
     else if service_subtype = 9 then
       (let (r, store) = pus15_downlink store app_data in (r, (ctx, store), tm_seq_count))
     else if service_subtype = 11 then
       (let (r, store) = pus15_delete store app_data in (r, (ctx, store), tm_seq_count))
     else if service_subtype = 12 then
       if length app_data \<noteq> 0 then (Inl PUS15_ERR_MALFORMED, (ctx, store), tm_seq_count)
       else (let (r, ctx, tm_seq_count) =
                   pus15_build_store_report ctx store apid tm_seq_count now_seconds source_id out_cap
             in (r, (ctx, store), tm_seq_count))
     else (Inl PUS15_ERR_BAD_SUBTYPE, (ctx, store), tm_seq_count))"

section \<open>The branches\<close>

definition store_summary :: "migris_pktstore_t \<Rightarrow> bytes" where
  "store_summary s = [if migris_pktstore_is_enabled s then 1 else 0] @ be16 (of_nat (length (pks_list s)))
     @ (if pks_list s = [] then replicate 8 0
        else be32 (pke_storage_time (hd (pks_list s))) @ be32 (pke_storage_time (last (pks_list s))))"

lemma be32_0: "be32 0 = [0, 0, 0, 0]"
  by (simp add: be32_def)

lemma store_report_ok:
  assumes "pks_inv s" "apid \<le> 0x7FF" "seq \<le> 0x3FFF" "29 \<le> cap"
  shows "\<exists>pkt. pus15_build_store_report ctx s apid seq now src cap =
      (Inr pkt, ctx\<lparr>p15_msg_counter := bump (p15_msg_counter ctx) 0\<rparr>, next_seq seq)
    \<and> tm_burst apid seq pkt [tm_view_of apid seq 15 13 (p15_msg_counter ctx ! 0) src now (store_summary s)] (next_seq seq)
    \<and> length pkt = 29"
proof -
  have len: "length (store_summary s) = 11" by (simp add: store_summary_def)
  have df: "of_nat (10 + 11 + 2) = (of_nat (length (store_summary s) + 12) :: u16)" by (simp add: len)
  have "16 \<le> cap" "length (store_summary s) < 60000" using assms(4) len by simp_all
  from tm_packet_burst [OF assms(2,3) this, of 15 13 "p15_msg_counter ctx ! 0" src now] obtain pkt where
    pkt: "tm_packet apid seq (of_nat (length (store_summary s) + 12)) 15 13 (p15_msg_counter ctx ! 0) src now (store_summary s) cap = Some pkt"
    and burst: "tm_burst apid seq pkt [tm_view_of apid seq 15 13 (p15_msg_counter ctx ! 0) src now (store_summary s)] (next_seq seq)"
    and l: "length pkt = 18 + length (store_summary s)" by blast
  have sp: "store_summary s = [if migris_pktstore_is_enabled s then 1 else 0] @ be16 (of_nat (migris_pktstore_count s))
      @ be32 (fst (case migris_pktstore_span s of None \<Rightarrow> (0, 0) | Some span \<Rightarrow> span))
      @ be32 (snd (case migris_pktstore_span s of None \<Rightarrow> (0, 0) | Some span \<Rightarrow> span))"
    using span_spec [OF assms(1)]
    by (simp add: store_summary_def migris_pktstore_count_def be32_0 eval_nat_numeral)
  have "pus15_build_store_report ctx s apid seq now src cap =
      (Inr pkt, ctx\<lparr>p15_msg_counter := bump (p15_msg_counter ctx) 0\<rparr>, next_seq seq)"
    using pkt assms(4) unfolding pus15_build_store_report_def Let_def fsw_const MIGRIS_PUS_TM_SECONDARY_HEADER_SIZE_def
      df split_def sp [symmetric] by simp
  with burst l len show ?thesis by simp
qed

lemma store_report_small:
  "cap < 29 \<Longrightarrow> pus15_build_store_report ctx s apid seq now src cap = (Inl PUS15_ERR_BUF_TOO_SMALL, ctx, seq)"
  by (simp add: pus15_build_store_report_def fsw_const)

lemma downlink_spec:
  assumes "pks_inv s"
  shows "\<not> (length app = 8 \<and> \<not> pks_retrieval_active s \<and> rd32_at app 0 \<le> rd32_at app 4) \<Longrightarrow>
      \<exists>e. pus15_downlink s app = (Inl e, s)"
    and "length app = 8 \<and> \<not> pks_retrieval_active s \<and> rd32_at app 0 \<le> rd32_at app 4 \<Longrightarrow>
      pus15_downlink s app = (Inr [], snd (migris_pktstore_arm_retrieval s (rd32_at app 0) (rd32_at app 4)))"
  by (auto simp: pus15_downlink_def migris_pktstore_arm_retrieval_def)

lemma delete_spec:
  "length app \<noteq> 4 \<or> pks_retrieval_active s \<Longrightarrow> \<exists>e. pus15_delete s app = (Inl e, s)"
  "length app = 4 \<and> \<not> pks_retrieval_active s \<Longrightarrow>
     pus15_delete s app = (Inr [], snd (migris_pktstore_delete_up_to s (rd32_at app 0)))"
  by (auto simp: pus15_delete_def migris_pktstore_delete_up_to_def split: prod.split)

text \<open>When a request is executed, and what it then does to the store.\<close>

definition pus15_accepts :: "migris_pktstore_t \<Rightarrow> u8 \<Rightarrow> bytes \<Rightarrow> bool" where
  "pus15_accepts s st app \<longleftrightarrow> st \<in> {1, 2, 12} \<and> app = []
     \<or> st = 9 \<and> length app = 8 \<and> \<not> pks_retrieval_active s \<and> rd32_at app 0 \<le> rd32_at app 4
     \<or> st = 11 \<and> length app = 4 \<and> \<not> pks_retrieval_active s"

lemma pus15_refused:
  assumes "pks_inv s" "\<not> pus15_accepts s st app"
  shows "\<exists>e. migris_pus15_execute ctx s apid seq now st src app cap = (Inl e, (ctx, s), seq)"
  using assms downlink_spec(1) [OF assms(1), of app] delete_spec(1) [of app s]
  by (auto simp: migris_pus15_execute_def pus15_accepts_def split: if_splits)

lemma pus15_stored:
  assumes "pks_inv s" "pus15_accepts s st app" "st \<noteq> 12"
  shows "\<exists>s'. migris_pus15_execute ctx s apid seq now st src app cap = (Inr [], (ctx, s'), seq) \<and> pks_inv s'
    \<and> pks_list s' = (if st = 11 then filter (\<lambda>e. rd32_at app 0 < pke_storage_time e) (pks_list s) else pks_list s)
    \<and> pks_enabled s' = (if st = 1 then True else if st = 2 then False else pks_enabled s)
    \<and> (st = 9 \<longrightarrow> fst (pks_drain 33 s') = map pke_packet
          (filter (\<lambda>e. rd32_at app 0 \<le> pke_storage_time e \<and> pke_storage_time e \<le> rd32_at app 4) (pks_list s)))"
proof -
  consider "st = 1 \<or> st = 2" "app = []" | "st = 9" | "st = 11" using assms(2,3) by (auto simp: pus15_accepts_def)
  then show ?thesis
  proof cases
    case 1
    with assms(1) show ?thesis
      by (auto simp: migris_pus15_execute_def migris_pktstore_set_enabled_def pks_inv_def)
  next
    case 2
    with assms(2) have a: "length app = 8" "\<not> pks_retrieval_active s" "rd32_at app 0 \<le> rd32_at app 4"
      by (auto simp: pus15_accepts_def)
    have srt: "sorted (map pke_storage_time (pks_list s))" using assms(1) by (simp add: pks_inv_def)
    obtain s' where s': "migris_pktstore_arm_retrieval s (rd32_at app 0) (rd32_at app 4) = (PKTSTORE_OK, s')" "pks_inv s'"
      "pks_retrieval_active s'" "pks_retrieval_end s' = rd32_at app 4" "pks_list s' = pks_list s"
      "pks_retrieval_cursor s' \<le> pks_count s'" "pks_enabled s' = pks_enabled s"
      "drop (pks_retrieval_cursor s') (pks_list s') = filter (\<lambda>e. rd32_at app 0 \<le> pke_storage_time e) (pks_list s)"
      using arm_spec [OF assms(1) a(2,3)] by blast
    have "pks_count s' \<le> 32" using s'(2) by (simp add: pks_inv_def fsw_const)
    then have "pks_count s' - pks_retrieval_cursor s' < 33" by simp
    from drain_spec [OF s'(2,3,6) this] have "fst (pks_drain 33 s') = map pke_packet
        (filter (\<lambda>e. rd32_at app 0 \<le> pke_storage_time e \<and> pke_storage_time e \<le> rd32_at app 4) (pks_list s))"
      by (auto simp: s'(4,8) sorted_window [OF srt])
    moreover have "migris_pus15_execute ctx s apid seq now st src app cap = (Inr [], (ctx, s'), seq)"
      using downlink_spec(2) [OF assms(1), of app] a by (simp add: migris_pus15_execute_def 2 s'(1))
    ultimately show ?thesis using s' 2 by simp
  next
    case 3
    with assms(2) have a: "length app = 4 \<and> \<not> pks_retrieval_active s" by (auto simp: pus15_accepts_def)
    then show ?thesis
      using delete_up_to_spec [OF assms(1), of "rd32_at app 0"] delete_spec(2) [OF a]
      by (auto simp: migris_pus15_execute_def 3 not_le)
  qed
qed

lemma pus15_reported:
  assumes "pks_inv s" "pus15_accepts s 12 app" "apid \<le> 0x7FF" "seq \<le> 0x3FFF" "29 \<le> cap"
  shows "\<exists>pkt. migris_pus15_execute ctx s apid seq now 12 src app cap =
      (Inr pkt, (ctx\<lparr>p15_msg_counter := bump (p15_msg_counter ctx) 0\<rparr>, s), next_seq seq)
    \<and> tm_burst apid seq pkt [tm_view_of apid seq 15 13 (p15_msg_counter ctx ! 0) src now (store_summary s)] (next_seq seq)
    \<and> length pkt = 29"
proof -
  have "app = []" using assms(2) by (auto simp: pus15_accepts_def)
  with store_report_ok [OF assms(1,3,4,5), of ctx now src] show ?thesis
    by (auto simp: migris_pus15_execute_def)
qed

lemma pus15_result:
  assumes "pks_inv (snd cs)" "apid \<le> 0x7FF" "seq \<le> 0x3FFF"
    and e: "migris_pus15_execute (fst cs) (snd cs) apid seq now st src app cap = (r, cs', seq')"
  shows "tm_result apid seq 29 r seq' \<and> pks_inv (snd cs')"
proof (cases "pus15_accepts (snd cs) st app")
  case False
  from pus15_refused [OF assms(1) this] e assms(1) show ?thesis by (metis tm_result_Inl prod.inject snd_conv)
next
  case True
  show ?thesis
  proof (cases "st = 12")
    case False
    from pus15_stored [OF assms(1) True this] e show ?thesis by (metis tm_result_none prod.inject snd_conv)
  next
    case r: True
    show ?thesis
    proof (cases "29 \<le> cap")
      case False
      then show ?thesis
        using True e assms(1) by (auto simp: r migris_pus15_execute_def pus15_accepts_def store_report_small)
    next
      case le: True
      from pus15_reported [OF assms(1) True [unfolded r] assms(2,3) le, of "fst cs" now src] e [unfolded r] assms(1)
      show ?thesis by (auto intro: tm_resultI)
    qed
  qed
qed

text \<open>No storage request adds a packet.\<close>

lemma pus15_keeps:
  assumes "pks_inv (snd cs)" "apid \<le> 0x7FF" "seq \<le> 0x3FFF"
    and e: "migris_pus15_execute (fst cs) (snd cs) apid seq now st src app cap = (r, cs', seq')"
  shows "set (pks_list (snd cs')) \<subseteq> set (pks_list (snd cs))"
proof (cases "pus15_accepts (snd cs) st app")
  case False
  from pus15_refused [OF assms(1) this] e show ?thesis by (metis order_refl prod.inject snd_conv)
next
  case True
  show ?thesis
  proof (cases "st = 12")
    case False
    from pus15_stored [OF assms(1) True this, of "fst cs" apid seq now src cap] e show ?thesis by (auto split: if_splits)
  next
    case r: True
    then show ?thesis using e by (auto simp: migris_pus15_execute_def split: if_splits prod.splits)
  qed
qed

interpretation pus15: tm_service
  "\<lambda>cs apid seq cap. migris_pus15_execute (fst cs) (snd cs) apid seq now st src app cap"
  "\<lambda>cs. pks_inv (snd cs)" 29
  by unfold_locales (blast dest: pus15_result)+

section \<open>Properties\<close>



end
