(* ===== verification/Pus17.thy ===== *)
theory Pus17
  imports Pus_Headers
begin

text \<open>lib/pus/src/pus17.c: the are-you-alive test.\<close>

record migris_pus17_ctx_t =
  p17_tm_msg_counter :: u8

datatype migris_pus17_status_t = PUS17_OK | PUS17_ERR_NOT_PUS17_TC | PUS17_ERR_BUF_TOO_SMALL

definition MIGRIS_PUS17_TM_PACKET_SIZE :: nat where
  [fsw_const]: "MIGRIS_PUS17_TM_PACKET_SIZE = 18"

definition migris_pus17_execute ::
  "migris_pus17_ctx_t \<Rightarrow> u16 \<Rightarrow> u16 \<Rightarrow> u32 \<Rightarrow> u8 \<Rightarrow> u16 \<Rightarrow> nat
     \<Rightarrow> (migris_pus17_status_t + bytes) \<times> migris_pus17_ctx_t \<times> u16" where
  "migris_pus17_execute ctx apid tm_seq_count now_seconds service_subtype source_id tm_cap =
    (if tm_cap < MIGRIS_PUS17_TM_PACKET_SIZE then (Inl PUS17_ERR_BUF_TOO_SMALL, ctx, tm_seq_count)
     else if service_subtype \<noteq> 1 then (Inl PUS17_ERR_NOT_PUS17_TC, ctx, tm_seq_count)
     else case tm_packet apid tm_seq_count (of_nat (MIGRIS_PUS_TM_SECONDARY_HEADER_SIZE + 2)) 17 2
                 (p17_tm_msg_counter ctx) source_id now_seconds [] tm_cap of
            None \<Rightarrow> (Inl PUS17_ERR_BUF_TOO_SMALL, ctx, tm_seq_count)
          | Some tm \<Rightarrow>
              (Inr tm, ctx\<lparr>p17_tm_msg_counter := p17_tm_msg_counter ctx + 1\<rparr>, next_seq tm_seq_count))"

lemma pus17_ok:
  assumes "apid \<le> 0x7FF" "seq \<le> 0x3FFF" "18 \<le> cap"
  shows "\<exists>pkt. migris_pus17_execute ctx apid seq now 1 src cap =
      (Inr pkt, ctx\<lparr>p17_tm_msg_counter := p17_tm_msg_counter ctx + 1\<rparr>, next_seq seq)
    \<and> tm_burst apid seq pkt [tm_view_of apid seq 17 2 (p17_tm_msg_counter ctx) src now []] (next_seq seq)
    \<and> length pkt = 18"
proof -
  have "16 \<le> cap" "length ([] :: bytes) < 60000" using assms(3) by simp_all
  from tm_packet_burst [OF assms(1,2) this, of 17 2 "p17_tm_msg_counter ctx" src now] assms(3) show ?thesis
    by (auto simp: migris_pus17_execute_def fsw_const)
qed

lemma pus17_refused:
  assumes "apid \<le> 0x7FF" "seq \<le> 0x3FFF"
  shows "st \<noteq> 1 \<Longrightarrow> 18 \<le> cap \<Longrightarrow> migris_pus17_execute ctx apid seq now st src cap = (Inl PUS17_ERR_NOT_PUS17_TC, ctx, seq)"
    and "cap < 18 \<Longrightarrow> migris_pus17_execute ctx apid seq now st src cap = (Inl PUS17_ERR_BUF_TOO_SMALL, ctx, seq)"
  by (simp_all add: migris_pus17_execute_def fsw_const)

end
