(* ===== verification/Pus20.thy ===== *)
theory Pus20
  imports Tm_Service Datapool
begin

text \<open>
  lib/pus/src/pus20.c: on-board parameter management over the datapool. A report request is
  collected against the pool and answered with one [20,2]; a set request is decoded and checked
  as a whole before the first write.
\<close>

section \<open>Data and operations\<close>

record migris_pus20_ctx_t =
  p20_msg_counter :: bytes

datatype migris_pus20_status_t =
    PUS20_OK | PUS20_ERR_BUF_TOO_SMALL | PUS20_ERR_BAD_ARG | PUS20_ERR_MALFORMED | PUS20_ERR_TOO_MANY
  | PUS20_ERR_UNKNOWN_ID | PUS20_ERR_READ_ONLY | PUS20_ERR_BAD_SUBTYPE

definition MIGRIS_PUS20_MAX_PARAMS_PER_TC :: nat where
  [fsw_const]: "MIGRIS_PUS20_MAX_PARAMS_PER_TC = 8"

definition pus20_read_id :: "bytes \<Rightarrow> nat \<Rightarrow> u16" where
  "pus20_read_id buf off = rd16_at buf off"

fun pus20_collect_from ::
  "migris_datapool_t \<Rightarrow> bytes \<Rightarrow> nat \<Rightarrow> nat \<Rightarrow> nat \<Rightarrow> migris_pus20_status_t + (migris_dp_param_t list \<times> nat)" where
  "pus20_collect_from dp app off 0 source = Inr ([], source)"
| "pus20_collect_from dp app off (Suc n) source =
    (case migris_datapool_find dp (pus20_read_id app off) of
       None \<Rightarrow> Inl PUS20_ERR_UNKNOWN_ID
     | Some param \<Rightarrow>
        (case pus20_collect_from dp app (off + 2) n (source + (2 + migris_dp_type_width (dpv_type (dpp_value param)))) of
           Inl e \<Rightarrow> Inl e
         | Inr (found, source) \<Rightarrow> Inr (param # found, source)))"

definition pus20_collect ::
  "migris_datapool_t \<Rightarrow> bytes \<Rightarrow> migris_pus20_status_t + (migris_dp_param_t list \<times> nat)" where
  "pus20_collect dp app =
    (if length app < 1 then Inl PUS20_ERR_MALFORMED
     else let count = unat (app ! 0)
          in if MIGRIS_PUS20_MAX_PARAMS_PER_TC < count then Inl PUS20_ERR_TOO_MANY
             else if length app \<noteq> 1 + 2 * count then Inl PUS20_ERR_MALFORMED
             else pus20_collect_from dp app 1 count 1)"

fun pus20_write_values :: "migris_dp_param_t list \<Rightarrow> nat \<Rightarrow> bytes option" where
  "pus20_write_values [] room = Some []"
| "pus20_write_values (p # ps) room =
    (case migris_dp_value_encode (dpp_value p) (room - 2) of
       Inl _ \<Rightarrow> None
     | Inr v \<Rightarrow> map_option (\<lambda>more. be16 (dpp_id p) @ v @ more) (pus20_write_values ps (room - 2 - length v)))"

definition pus20_report ::
  "migris_pus20_ctx_t \<Rightarrow> migris_datapool_t \<Rightarrow> u16 \<Rightarrow> u16 \<Rightarrow> u32 \<Rightarrow> u16 \<Rightarrow> bytes \<Rightarrow> nat
     \<Rightarrow> (migris_pus20_status_t + bytes) \<times> migris_pus20_ctx_t \<times> u16" where
  "pus20_report ctx dp apid tm_seq_count now_seconds source_id app out_cap =
    (case pus20_collect dp app of
       Inl e \<Rightarrow> (Inl e, ctx, tm_seq_count)
     | Inr (found, source_data) \<Rightarrow>
        (let data_field = of_nat (MIGRIS_PUS_TM_SECONDARY_HEADER_SIZE + source_data + 2);
             packet_size = MIGRIS_CCSDS_PRIMARY_HEADER_SIZE + unat data_field
         in if out_cap < packet_size then (Inl PUS20_ERR_BUF_TOO_SMALL, ctx, tm_seq_count)
            else case pus20_write_values found (out_cap - 17) of
              None \<Rightarrow> (Inl PUS20_ERR_BUF_TOO_SMALL, ctx, tm_seq_count)
            | Some values \<Rightarrow>
                (case tm_packet apid tm_seq_count data_field 20 2 (p20_msg_counter ctx ! 0) source_id now_seconds
                        ([of_nat (length found)] @ values) out_cap of
                   None \<Rightarrow> (Inl PUS20_ERR_BUF_TOO_SMALL, ctx, tm_seq_count)
                 | Some out \<Rightarrow>
                     (Inr out, ctx\<lparr>p20_msg_counter := bump (p20_msg_counter ctx) 0\<rparr>, next_seq tm_seq_count))))"

fun pus20_decode_from ::
  "migris_datapool_t \<Rightarrow> bytes \<Rightarrow> nat \<Rightarrow> nat \<Rightarrow> migris_pus20_status_t + (u16 \<times> migris_dp_value_t) list" where
  "pus20_decode_from dp app off 0 = (if off \<noteq> length app then Inl PUS20_ERR_MALFORMED else Inr [])"
| "pus20_decode_from dp app off (Suc n) =
    (if length app < off + 2 then Inl PUS20_ERR_MALFORMED
     else let pid = pus20_read_id app off; off = off + 2
          in case migris_datapool_find dp pid of
               None \<Rightarrow> Inl PUS20_ERR_UNKNOWN_ID
             | Some param \<Rightarrow>
                 if dpp_access param \<noteq> DP_ACCESS_READ_WRITE then Inl PUS20_ERR_READ_ONLY
                 else (case migris_dp_value_decode (dpv_type (dpp_value param)) (drop off app) of
                         Inl _ \<Rightarrow> Inl PUS20_ERR_MALFORMED
                       | Inr (nread, v) \<Rightarrow>
                           (case pus20_decode_from dp app (off + nread) n of
                              Inl e \<Rightarrow> Inl e
                            | Inr sets \<Rightarrow> Inr ((pid, v) # sets))))"

definition pus20_decode_sets ::
  "migris_datapool_t \<Rightarrow> bytes \<Rightarrow> migris_pus20_status_t + (u16 \<times> migris_dp_value_t) list" where
  "pus20_decode_sets dp app =
    (if length app < 1 then Inl PUS20_ERR_MALFORMED
     else let count = unat (app ! 0)
          in if MIGRIS_PUS20_MAX_PARAMS_PER_TC < count then Inl PUS20_ERR_TOO_MANY
             else pus20_decode_from dp app 1 count)"

definition pus20_set :: "migris_datapool_t \<Rightarrow> bytes \<Rightarrow> (migris_pus20_status_t + bytes) \<times> migris_datapool_t" where
  "pus20_set dp app =
    (case pus20_decode_sets dp app of
       Inl e \<Rightarrow> (Inl e, dp)
     | Inr sets \<Rightarrow> (Inr [], dp_apply_all migris_datapool_set dp sets))"

definition migris_pus20_execute ::
  "migris_pus20_ctx_t \<Rightarrow> migris_datapool_t \<Rightarrow> u16 \<Rightarrow> u16 \<Rightarrow> u32 \<Rightarrow> u8 \<Rightarrow> u16 \<Rightarrow> bytes \<Rightarrow> nat
     \<Rightarrow> (migris_pus20_status_t + bytes) \<times> (migris_pus20_ctx_t \<times> migris_datapool_t) \<times> u16" where
  "migris_pus20_execute ctx dp apid tm_seq_count now_seconds service_subtype source_id app_data out_cap =
    (if service_subtype = 1 then
       (let (r, ctx, tm_seq_count) = pus20_report ctx dp apid tm_seq_count now_seconds source_id app_data out_cap
        in (r, (ctx, dp), tm_seq_count))
     else if service_subtype = 3 then
       (let (r, dp) = pus20_set dp app_data in (r, (ctx, dp), tm_seq_count))
     else (Inl PUS20_ERR_BAD_SUBTYPE, (ctx, dp), tm_seq_count))"

section \<open>What a set request says\<close>

definition set_bytes :: "(u16 \<times> migris_dp_value_t) list \<Rightarrow> bytes" where
  "set_bytes ws = concat (map (\<lambda>(pid, v). be16 pid @ value_bytes v) ws)"

definition sets_ok :: "migris_datapool_t \<Rightarrow> (u16 \<times> migris_dp_value_t) list \<Rightarrow> bool" where
  "sets_ok dp ws \<longleftrightarrow> (\<forall>(pid, v) \<in> set ws. dp_value_ok v \<and> dp_acceptable (migris_datapool_find dp pid) v)"

lemma sets_ok_simps [simp]:
  "sets_ok dp []"
  "sets_ok dp ((pid, v) # ws) \<longleftrightarrow> dp_value_ok v \<and> dp_acceptable (migris_datapool_find dp pid) v \<and> sets_ok dp ws"
  by (simp_all add: sets_ok_def)

lemma set_bytes_simps [simp]:
  "set_bytes [] = []" "set_bytes ((pid, v) # ws) = be16 pid @ value_bytes v @ set_bytes ws"
  by (simp_all add: set_bytes_def)

lemma decode_from_sound:
  "pus20_decode_from dp app off n = Inr ws \<Longrightarrow> off \<le> length app \<Longrightarrow>
     length ws = n \<and> drop off app = set_bytes ws \<and> sets_ok dp ws"
proof (induction n arbitrary: off ws)
  case (Suc n)
  let ?pid = "pus20_read_id app off"
  from Suc.prems obtain p nread v ws' where len: "off + 2 \<le> length app" and p: "migris_datapool_find dp ?pid = Some p"
    "dpp_access p = DP_ACCESS_READ_WRITE" and v: "migris_dp_value_decode (dpv_type (dpp_value p)) (drop (off + 2) app) = Inr (nread, v)"
    and rest: "pus20_decode_from dp app (off + 2 + nread) n = Inr ws'" and ws: "ws = (?pid, v) # ws'"
    by (auto simp: Let_def split: if_splits option.splits sum.splits prod.splits)
  from value_decode_ok [OF v] have ok: "dp_value_ok v" "dpv_type v = dpv_type (dpp_value p)" "nread \<le> length app - (off + 2)"
    by auto
  have le: "off + 2 + nread \<le> length app" using len ok(3) by simp
  have "drop off app = take 2 (drop off app) @ take nread (drop (off + 2) app) @ drop (off + 2 + nread) app"
    by (metis append_take_drop_id drop_drop add.commute)
  then have "drop off app = be16 ?pid @ value_bytes v @ drop (off + 2 + nread) app"
    using be16_rd16_at [OF len] value_bytes_decode [OF v] by (simp add: pus20_read_id_def)
  moreover have "dp_acceptable (migris_datapool_find dp ?pid) v" using p ok(2) by (simp add: dp_acceptable_def)
  ultimately show ?case using Suc.IH [OF rest le] ok(1) by (simp add: ws)
qed (auto split: if_splits)

lemma decode_from_complete:
  "drop off app = set_bytes ws \<Longrightarrow> off \<le> length app \<Longrightarrow> sets_ok dp ws \<Longrightarrow>
     pus20_decode_from dp app off (length ws) = Inr ws"
proof (induction ws arbitrary: off)
  case (Cons w ws)
  obtain pid v where w: "w = (pid, v)" by force
  from Cons.prems(1) have d: "drop off app = be16 pid @ value_bytes v @ set_bytes ws" by (simp add: w)
  from arg_cong [OF d, of length] Cons.prems(2) have len: "off + 2 \<le> length app" by simp
  from Cons.prems(3) have v: "dp_value_ok v" "dp_acceptable (migris_datapool_find dp pid) v" "sets_ok dp ws" by (simp_all add: w)
  have d2: "drop (off + 2) app = value_bytes v @ set_bytes ws"
  proof -
    have "drop 2 (drop off app) = value_bytes v @ set_bytes ws" unfolding d by simp
    then show ?thesis by (simp add: add.commute)
  qed
  have "be16 (rd16_at app off) = be16 pid" using be16_rd16_at [OF len] d by simp
  then have pid: "pus20_read_id app off = pid" by (simp add: pus20_read_id_def)
  obtain p where p: "migris_datapool_find dp pid = Some p" "dpv_type v = dpv_type (dpp_value p)" "dpp_access p = DP_ACCESS_READ_WRITE"
    using v(2) by (auto simp: dp_acceptable_def split: option.splits)
  let ?n = "migris_dp_type_width (dpv_type v)"
  have dec: "migris_dp_value_decode (dpv_type (dpp_value p)) (drop (off + 2) app) = Inr (?n, v)"
    unfolding d2 p(2) [symmetric] by (rule decode_value_bytes [OF v(1)])
  have "drop (off + 2 + ?n) app = set_bytes ws" using arg_cong [OF d2, of "drop ?n"] by (simp add: length_value_bytes add_ac)
  moreover from arg_cong [OF d2, of length] len have "off + 2 + ?n \<le> length app" by (simp add: length_value_bytes)
  ultimately have "pus20_decode_from dp app (off + 2 + ?n) (length ws) = Inr ws" using Cons.IH v(3) by blast
  with len pid p dec show ?case by (simp add: w Let_def)
qed simp

text \<open>A request that names its own count and as many acceptable sets, and nothing else.\<close>

definition set_request :: "migris_datapool_t \<Rightarrow> (u16 \<times> migris_dp_value_t) list \<Rightarrow> bytes \<Rightarrow> bool" where
  "set_request dp ws app \<longleftrightarrow> length ws \<le> 8 \<and> app = of_nat (length ws) # set_bytes ws \<and> sets_ok dp ws"

lemma decode_sets_iff: "pus20_decode_sets dp app = Inr ws \<longleftrightarrow> set_request dp ws app"
proof
  assume d: "pus20_decode_sets dp app = Inr ws"
  then obtain c cs where app: "app = c # cs" by (cases app) (auto simp: pus20_decode_sets_def)
  with d have c: "unat c \<le> 8" "pus20_decode_from dp app 1 (unat c) = Inr ws"
    by (auto simp: pus20_decode_sets_def Let_def fsw_const split: if_splits)
  have "1 \<le> length app" by (simp add: app)
  from decode_from_sound [OF c(2) this] have s: "length ws = unat c" "cs = set_bytes ws" "sets_ok dp ws" by (simp_all add: app)
  have "c = of_nat (length ws)" by (simp add: s(1))
  with s c(1) show "set_request dp ws app" by (simp add: set_request_def app)
next
  assume r: "set_request dp ws app"
  then have u: "unat (of_nat (length ws) :: u8) = length ws" by (simp add: set_request_def unat_of_nat_u8)
  have app: "app = of_nat (length ws) # set_bytes ws" using r by (simp add: set_request_def)
  from r have "pus20_decode_from dp app 1 (length ws) = Inr ws"
    by (intro decode_from_complete) (auto simp: set_request_def)
  with r u show "pus20_decode_sets dp app = Inr ws" by (simp add: pus20_decode_sets_def app set_request_def fsw_const)
qed

lemma set_generation:
  "dp_inv dp \<Longrightarrow> sets_ok dp ws \<Longrightarrow>
     migris_datapool_generation (dp_apply_all migris_datapool_set dp ws) = migris_datapool_generation dp + of_nat (length ws)"
proof (induction ws arbitrary: dp)
  case (Cons w ws)
  obtain pid v where w: "w = (pid, v)" by force
  from Cons.prems have a: "dp_acceptable (migris_datapool_find dp pid) v" "sets_ok dp ws" by (simp_all add: w)
  let ?dp = "snd (migris_datapool_set dp pid v)"
  have "sets_ok ?dp ws" using a dpool.acceptable_after_set [OF Cons.prems(1) a(1)] by (simp add: sets_ok_def)
  moreover have "migris_datapool_generation ?dp = migris_datapool_generation dp + 1"
    using a(1) by (auto simp: set_eq_find dp_acceptable_def migris_datapool_generation_def Let_def split: option.splits)
  ultimately show ?case using Cons.IH [OF dpool.set_inv [OF Cons.prems(1)]] by (simp add: w algebra_simps)
qed simp

lemma pus20_set_spec:
  assumes "dp_inv dp"
  shows "(\<nexists>ws. set_request dp ws app) \<Longrightarrow> \<exists>e. pus20_set dp app = (Inl e, dp)"
    and "set_request dp ws app \<Longrightarrow> pus20_set dp app = (Inr [], dp_apply_all migris_datapool_set dp ws)"
  by (auto simp: pus20_set_def decode_sets_iff [symmetric] split: sum.splits)

section \<open>What a report request gets\<close>

definition report_request :: "migris_datapool_t \<Rightarrow> migris_dp_param_t list \<Rightarrow> bytes \<Rightarrow> bool" where
  "report_request dp ps app \<longleftrightarrow> length ps \<le> 8 \<and> app = of_nat (length ps) # concat (map (\<lambda>p. be16 (dpp_id p)) ps)
     \<and> (\<forall>p \<in> set ps. migris_datapool_find dp (dpp_id p) = Some p)"

definition param_bytes :: "migris_dp_param_t list \<Rightarrow> bytes" where
  "param_bytes ps = concat (map (\<lambda>p. be16 (dpp_id p) @ value_bytes (dpp_value p)) ps)"

definition report_source :: "migris_dp_param_t list \<Rightarrow> bytes" where
  "report_source ps = of_nat (length ps) # param_bytes ps"

lemma param_bytes_simps [simp]:
  "param_bytes [] = []" "param_bytes (p # ps) = be16 (dpp_id p) @ value_bytes (dpp_value p) @ param_bytes ps"
  by (simp_all add: param_bytes_def)

lemma length_param_bytes: "length (param_bytes ps) \<le> 6 * length ps"
proof (induction ps)
  case (Cons p ps)
  then show ?case using type_width_le [of "dpv_type (dpp_value p)"] by (simp add: length_value_bytes)
qed simp

lemma collect_from_iff:
  "length app = off + 2 * n \<Longrightarrow> pus20_collect_from dp app off n s = Inr (ps, s') \<longleftrightarrow>
     length ps = n \<and> drop off app = concat (map (\<lambda>p. be16 (dpp_id p)) ps)
     \<and> (\<forall>p \<in> set ps. migris_datapool_find dp (dpp_id p) = Some p) \<and> s' = s + length (param_bytes ps)"
proof (induction n arbitrary: off s ps)
  case (Suc n)
  let ?pid = "pus20_read_id app off"
  have len: "off + 2 \<le> length app" "length app = off + 2 + 2 * n" using Suc.prems by simp_all
  have "drop off app = take 2 (drop off app) @ drop (off + 2) app" by (metis append_take_drop_id drop_drop add.commute)
  then have d: "drop off app = be16 ?pid @ drop (off + 2) app"
    using be16_rd16_at [OF len(1)] by (simp add: pus20_read_id_def)
  have split: "be16 a @ xs = be16 b @ ys \<longleftrightarrow> a = b \<and> xs = ys" for a b :: u16 and xs ys by (auto simp: append_eq_append_conv)
  note IH = Suc.IH [OF len(2)]
  show ?case
  proof (cases ps)
    case Nil
    then show ?thesis by (auto split: option.splits sum.splits prod.splits)
  next
    case (Cons p qs)
    have "pus20_collect_from dp app off (Suc n) s = Inr (ps, s') \<longleftrightarrow>
        migris_datapool_find dp ?pid = Some p
        \<and> pus20_collect_from dp app (off + 2) n (s + (2 + migris_dp_type_width (dpv_type (dpp_value p)))) = Inr (qs, s')"
      by (auto simp: Cons split: option.splits sum.splits prod.splits)
    moreover have "migris_datapool_find dp ?pid = Some p \<longleftrightarrow> ?pid = dpp_id p \<and> migris_datapool_find dp (dpp_id p) = Some p"
      using find_Some_live [of dp ?pid p] by auto
    ultimately show ?thesis
      unfolding IH d by (auto simp: Cons split length_value_bytes)
  qed
qed auto

lemma collect_iff:
  "pus20_collect dp app = Inr (ps, s) \<longleftrightarrow> report_request dp ps app \<and> s = length (report_source ps)"
proof (cases app)
  case (Cons c cs)
  have len: "length (concat (map (\<lambda>p. be16 (dpp_id p)) ps)) = 2 * length ps" by (induction ps) simp_all
  show ?thesis
  proof
    assume r: "pus20_collect dp app = Inr (ps, s)"
    then have c: "unat c \<le> 8" "length app = 1 + 2 * unat c" "pus20_collect_from dp app 1 (unat c) 1 = Inr (ps, s)"
      by (auto simp: pus20_collect_def Cons fsw_const Let_def split: if_splits)
    from c(3) have s: "length ps = unat c" "cs = concat (map (\<lambda>p. be16 (dpp_id p)) ps)"
      "\<forall>p \<in> set ps. migris_datapool_find dp (dpp_id p) = Some p" "s = 1 + length (param_bytes ps)"
      unfolding collect_from_iff [OF c(2)] by (simp_all add: Cons)
    have "c = of_nat (length ps)" by (simp add: s(1))
    with s c(1) show "report_request dp ps app \<and> s = length (report_source ps)"
      by (simp add: report_request_def report_source_def Cons)
  next
    assume r: "report_request dp ps app \<and> s = length (report_source ps)"
    then have "length ps \<le> 8" and app: "app = of_nat (length ps) # concat (map (\<lambda>p. be16 (dpp_id p)) ps)"
      by (simp_all add: report_request_def)
    then have u: "unat (of_nat (length ps) :: u8) = length ps" by (simp add: unat_of_nat_u8)
    have la: "length app = 1 + 2 * length ps" unfolding app using len by simp
    have "pus20_collect_from dp app 1 (length ps) 1 = Inr (ps, s)"
      unfolding collect_from_iff [OF la] using r by (simp add: app report_request_def report_source_def)
    with la u \<open>length ps \<le> 8\<close> show "pus20_collect dp app = Inr (ps, s)"
      by (simp add: pus20_collect_def app fsw_const)
  qed
qed (auto simp: pus20_collect_def report_request_def)

lemma report_request_live: "dp_inv dp \<Longrightarrow> report_request dp ps app \<Longrightarrow> p \<in> set ps \<Longrightarrow> migris_dp_type_width (dpv_type (dpp_value p)) \<noteq> 0"
  using find_Some_live by (auto simp: report_request_def dp_inv_def)

lemma write_values_ok:
  "\<forall>p \<in> set ps. migris_dp_type_width (dpv_type (dpp_value p)) \<noteq> 0 \<Longrightarrow> length (param_bytes ps) \<le> room \<Longrightarrow>
     pus20_write_values ps room = Some (param_bytes ps)"
proof (induction ps arbitrary: room)
  case (Cons p ps)
  then have "migris_dp_value_encode (dpp_value p) (room - 2) = Inr (value_bytes (dpp_value p))"
    by (intro encode_value_bytes) (simp_all add: length_value_bytes)
  with Cons show ?case by simp
qed simp

lemma pus20_report_refused:
  "(\<nexists>ps. report_request dp ps app) \<Longrightarrow> \<exists>e. pus20_report ctx dp apid seq now src app cap = (Inl e, ctx, seq)"
  using collect_iff [of dp app] by (cases "pus20_collect dp app") (auto simp: pus20_report_def)

lemma pus20_report_ok:
  assumes "dp_inv dp" "report_request dp ps app" "apid \<le> 0x7FF" "seq \<le> 0x3FFF"
  shows "18 + length (report_source ps) \<le> cap \<Longrightarrow> \<exists>pkt. pus20_report ctx dp apid seq now src app cap =
      (Inr pkt, ctx\<lparr>p20_msg_counter := bump (p20_msg_counter ctx) 0\<rparr>, next_seq seq)
    \<and> tm_burst apid seq pkt [tm_view_of apid seq 20 2 (p20_msg_counter ctx ! 0) src now (report_source ps)] (next_seq seq)
    \<and> length pkt \<le> 67"
    and "cap < 18 + length (report_source ps) \<Longrightarrow>
      pus20_report ctx dp apid seq now src app cap = (Inl PUS20_ERR_BUF_TOO_SMALL, ctx, seq)"
proof -
  let ?src = "report_source ps"
  have "length ps \<le> 8" using assms(2) by (simp add: report_request_def)
  then have len: "length ?src \<le> 49" "length ?src = 1 + length (param_bytes ps)"
    using length_param_bytes [of ps] by (simp_all add: report_source_def)
  have df: "of_nat (10 + length ?src + 2) = (of_nat (length ?src + 12) :: u16)"
    by (rule arg_cong [where f = of_nat]) simp
  have un: "unat (of_nat (length ?src + 12) :: u16) = length ?src + 12"
    using len(1) by (simp only: unat_of_nat_u16)
  have col: "pus20_collect dp app = Inr (ps, length ?src)" using assms(2) by (simp add: collect_iff)
  { assume cap: "18 + length ?src \<le> cap"
    then have "16 \<le> cap" "length ?src < 60000" using len by simp_all
    from tm_packet_burst [OF assms(3,4) this, of 20 2 "p20_msg_counter ctx ! 0" src now] obtain pkt where
      pkt: "tm_packet apid seq (of_nat (length ?src + 12)) 20 2 (p20_msg_counter ctx ! 0) src now ?src cap = Some pkt"
      and burst: "tm_burst apid seq pkt [tm_view_of apid seq 20 2 (p20_msg_counter ctx ! 0) src now ?src] (next_seq seq)"
      and l: "length pkt = 18 + length ?src" by blast
    have "pus20_write_values ps (cap - 17) = Some (param_bytes ps)"
      by (rule write_values_ok) (use report_request_live [OF assms(1,2)] cap len(2) in auto)
    then have "pus20_report ctx dp apid seq now src app cap =
        (Inr pkt, ctx\<lparr>p20_msg_counter := bump (p20_msg_counter ctx) 0\<rparr>, next_seq seq)"
      using pkt cap un unfolding pus20_report_def col Let_def MIGRIS_PUS_TM_SECONDARY_HEADER_SIZE_def
        MIGRIS_CCSDS_PRIMARY_HEADER_SIZE_def df by (simp add: report_source_def)
    with burst l len show "\<exists>pkt. pus20_report ctx dp apid seq now src app cap =
      (Inr pkt, ctx\<lparr>p20_msg_counter := bump (p20_msg_counter ctx) 0\<rparr>, next_seq seq)
    \<and> tm_burst apid seq pkt [tm_view_of apid seq 20 2 (p20_msg_counter ctx ! 0) src now (report_source ps)] (next_seq seq)
    \<and> length pkt \<le> 67" by simp }
  show "cap < 18 + length ?src \<Longrightarrow> pus20_report ctx dp apid seq now src app cap = (Inl PUS20_ERR_BUF_TOO_SMALL, ctx, seq)"
    by (simp only: pus20_report_def col Let_def sum.case prod.case MIGRIS_PUS_TM_SECONDARY_HEADER_SIZE_def
      MIGRIS_CCSDS_PRIMARY_HEADER_SIZE_def df un) simp
qed

lemma pus20_result:
  assumes "dp_inv (snd cs)" "apid \<le> 0x7FF" "seq \<le> 0x3FFF"
    and e: "migris_pus20_execute (fst cs) (snd cs) apid seq now st src app cap = (r, cs', seq')"
  shows "tm_result apid seq 67 r seq' \<and> dp_inv (snd cs')"
proof -
  let ?rep = "pus20_report (fst cs) (snd cs) apid seq now src app cap" and ?set = "pus20_set (snd cs) app"
  have "tm_result apid seq 67 (fst ?rep) (snd (snd ?rep))"
    using pus20_report_refused [of "snd cs" app "fst cs" apid seq now src cap]
      pus20_report_ok [OF assms(1) _ assms(2,3), of _ app cap "fst cs" now src]
    by (metis fst_conv snd_conv tm_resultI tm_result_Inl not_less)
  moreover have "tm_result apid seq 67 (fst ?set) seq \<and> dp_inv (snd ?set)"
    using pus20_set_spec(1) [OF assms(1), of app] pus20_set_spec(2) [OF assms(1), of _ app] dpool.apply_all_inv [OF assms(1)] assms(1)
    by (metis fst_conv snd_conv tm_result_none tm_result_Inl)
  ultimately show ?thesis
    using e assms(1) by (auto simp: migris_pus20_execute_def split: prod.splits if_splits)
qed

lemma pus20_keeps:
  assumes "dp_inv dp" and e: "migris_pus20_execute ctx dp apid seq now st src app cap = (r, (ctx', dp'), seq')"
  shows "dp_keeps dp dp'"
proof -
  have "dp_keeps dp (snd (pus20_set dp app))"
  proof (cases "pus20_decode_sets dp app")
    case (Inr ws)
    then have "pus20_decode_from dp app 1 (unat (app ! 0)) = Inr ws" "1 \<le> length app"
      by (auto simp: pus20_decode_sets_def Let_def Suc_le_eq split: if_splits)
    then have "sets_ok dp ws" by (blast dest: decode_from_sound)
    then have "\<forall>(pid, v) \<in> set ws. dp_value_ok v" by (auto simp: sets_ok_def)
    then show ?thesis by (simp add: pus20_set_def Inr apply_all_keeps)
  qed (simp add: pus20_set_def dp_keeps_refl)
  then show ?thesis using e by (auto simp: migris_pus20_execute_def dp_keeps_refl split: prod.splits if_splits)
qed

interpretation pus20: tm_service
  "\<lambda>cs apid seq cap. migris_pus20_execute (fst cs) (snd cs) apid seq now st src app cap"
  "\<lambda>cs. dp_inv (snd cs)" 67
  by unfold_locales (blast dest: pus20_result)+

section \<open>Properties\<close>

text \<open>
  C29: a set request is all-or-nothing. It is executed exactly when the application data is a count
  of at most eight followed by that many identifier and value pairs, nothing left over, every
  parameter declared and writable and every value of its parameter's type; then every single write
  succeeds, the pool is the fold of the updates in order (the last writer of an identifier wins),
  and the generation advances once per write. Otherwise nothing is written.
\<close>
theorem pus20_set_all_or_nothing:
  assumes "dp_inv dp" and "migris_pus20_execute ctx dp apid seq now 3 src app cap = (r, (ctx', dp'), seq')"
  shows "ctx' = ctx \<and> seq' = seq \<and> dp_inv dp' \<and>
    (case r of
       Inl e \<Rightarrow> dp' = dp \<and> (\<nexists>ws. set_request dp ws app)
     | Inr pkt \<Rightarrow> pkt = [] \<and> (\<exists>ws. set_request dp ws app
         \<and> migris_datapool_find dp' = fold (\<lambda>(pid, v) m. dp_updated m pid v) ws (migris_datapool_find dp)
         \<and> migris_datapool_generation dp' = migris_datapool_generation dp + of_nat (length ws)
         \<and> (\<forall>us pid v vs. ws = us @ (pid, v) # vs \<longrightarrow>
              fst (migris_datapool_set (dp_apply_all migris_datapool_set dp us) pid v) = DATAPOOL_OK)))"
proof (cases "\<exists>ws. set_request dp ws app")
  case False
  with pus20_set_spec(1) [OF assms(1), of app] assms show ?thesis by (auto simp: migris_pus20_execute_def)
next
  case True
  then obtain ws where ws: "set_request dp ws app" by blast
  then have ok: "sets_ok dp ws" "\<forall>(pid, v) \<in> set ws. dp_acceptable (migris_datapool_find dp pid) v"
    by (auto simp: set_request_def sets_ok_def)
  have e: "(r, (ctx', dp'), seq') = (Inr [], (ctx, dp_apply_all migris_datapool_set dp ws), seq)"
    using assms(2) by (simp add: migris_pus20_execute_def pus20_set_spec(2) [OF assms(1) ws])
  have each: "fst (migris_datapool_set (dp_apply_all migris_datapool_set dp us) pid v) = DATAPOOL_OK"
    if "ws = us @ (pid, v) # vs" for us pid v vs
    by (rule dpool.apply_all_each_OK [OF assms(1)]) (use ok(2) that in auto)
  show ?thesis
    using e ws each dpool.apply_all_inv [OF assms(1), of ws] dpool.apply_all_find [OF assms(1) ok(2)] set_generation [OF assms(1) ok(1)]
    by auto
qed

lemma pus20_set_all_or_nothing_witness:
  "\<exists>r ctx' dp' seq'. migris_pus20_execute \<lparr>p20_msg_counter = [0]\<rparr> dp_example 5 0 9 3 0 [1, 1, 1, 0, 7] 128 = (r, (ctx', dp'), seq')
    \<and> r = Inr [] \<and> migris_datapool_find dp' 0x0101
        = Some \<lparr>dpp_id = 0x0101, dpp_access = DP_ACCESS_READ_WRITE, dpp_value = migris_dp_u16 7\<rparr>"
proof -
  obtain r ctx' dp' seq' where e: "migris_pus20_execute \<lparr>p20_msg_counter = [0]\<rparr> dp_example 5 0 9 3 0 [1, 1, 1, 0, 7] 128 = (r, (ctx', dp'), seq')"
    by (metis prod.exhaust)
  have f: "migris_datapool_find dp_example 0x0101
      = Some \<lparr>dpp_id = 0x0101, dpp_access = DP_ACCESS_READ_WRITE, dpp_value = migris_dp_u16 0xBEEF\<rparr>"
    by (simp add: find_by_id dp_example_def dp_pad_def dp_live_def)
  have v: "value_bytes (migris_dp_u16 7) = [0, 7]"
    by (simp add: value_bytes_def migris_dp_value_encode_def migris_dp_u16_def dp_value_bits_def upt_2_4)
  have w: "set_request dp_example [(0x0101, migris_dp_u16 7)] [1, 1, 1, 0, 7]"
    using f v by (simp add: set_request_def be16_def dp_constructors_ok dp_acceptable_def) (simp add: migris_dp_u16_def)
  have u: "ws = [(0x0101, migris_dp_u16 7)]" if "set_request dp_example ws [1, 1, 1, 0, 7]" for ws
    using that w unfolding decode_sets_iff [symmetric] by simp
  note T = pus20_set_all_or_nothing [OF dp_example_ok(1) e]
  obtain pkt where r: "r = Inr pkt" using T w by (cases r) (simp_all only: sum.case, blast)
  obtain ws where p: "pkt = []" "set_request dp_example ws [1, 1, 1, 0, 7]"
    "migris_datapool_find dp' = fold (\<lambda>(pid, v) m. dp_updated m pid v) ws (migris_datapool_find dp_example)"
    using T unfolding r sum.case by blast
  have "migris_datapool_find dp' 0x0101 = Some \<lparr>dpp_id = 0x0101, dpp_access = DP_ACCESS_READ_WRITE, dpp_value = migris_dp_u16 7\<rparr>"
    unfolding p(3) u [OF p(2)] using f by (simp add: dp_updated_def)
  with e r p(1) show ?thesis by blast
qed

text \<open>
  C30: a report request is answered exactly when it names its count and at most eight declared
  parameters and the packet fits; the answer is one well-formed [20,2] whose source data is the
  count and each identifier with its parameter's current value, in the order asked, addressed to
  the requester; the datapool is never touched.
\<close>
theorem pus20_reports_current_values:
  assumes "dp_inv dp" "apid \<le> 0x7FF" "seq \<le> 0x3FFF" "67 \<le> cap"
    and "migris_pus20_execute ctx dp apid seq now 1 src app cap = (r, (ctx', dp'), seq')"
  shows "dp' = dp \<and> (case r of
      Inl e \<Rightarrow> ctx' = ctx \<and> seq' = seq \<and> (\<nexists>ps. report_request dp ps app)
    | Inr pkt \<Rightarrow> \<exists>ps. report_request dp ps app \<and> seq' = next_seq seq
        \<and> ctx' = ctx\<lparr>p20_msg_counter := bump (p20_msg_counter ctx) 0\<rparr>
        \<and> tm_burst apid seq pkt [tm_view_of apid seq 20 2 (p20_msg_counter ctx ! 0) src now
            (of_nat (length ps) # concat (map (\<lambda>p. be16 (dpp_id p) @ value_bytes (dpp_value p)) ps))] seq')"
proof (cases "\<exists>ps. report_request dp ps app")
  case False
  with pus20_report_refused [of dp app ctx apid seq now src cap] assms(5) show ?thesis
    by (auto simp: migris_pus20_execute_def)
next
  case True
  then obtain ps where ps: "report_request dp ps app" by blast
  then have "18 + length (report_source ps) \<le> cap"
    using length_param_bytes [of ps] assms(4) by (simp add: report_request_def report_source_def)
  from pus20_report_ok(1) [OF assms(1) ps assms(2,3) this, of ctx now src] ps assms(5) show ?thesis
    by (auto simp: migris_pus20_execute_def report_source_def param_bytes_def intro!: exI [of _ ps])
qed

lemma pus20_reports_current_values_witness:
  "\<exists>r ctx' dp' seq'. migris_pus20_execute \<lparr>p20_msg_counter = [0]\<rparr> dp_example 5 0 9 1 0 [0] 128 = (r, (ctx', dp'), seq')
    \<and> \<not> isl r \<and> seq' = 1"
proof -
  obtain r ctx' dp' seq' where e: "migris_pus20_execute \<lparr>p20_msg_counter = [0]\<rparr> dp_example 5 0 9 1 0 [0] 128 = (r, (ctx', dp'), seq')"
    by (metis prod.exhaust)
  have "report_request dp_example [] [0]" by (simp add: report_request_def)
  with pus20_reports_current_values [OF dp_example_ok(1) _ _ _ e] e show ?thesis
    by (auto simp: next_seq_def split: sum.splits)
qed

end
