(* ===== verification/Largedata.thy ===== *)
theory Largedata
  imports Pus13
begin

text \<open>
  lib/largedata: the downlink session, a cursor over a borrowed data unit that emits one PUS-13
  part per call. The NULL unit pointer of an idle session is the empty list; the data unit and
  unit_len of a start are one list.
\<close>

section \<open>Data and operations\<close>

definition MIGRIS_LARGEDATA_UNIT_MAX :: nat where
  [fsw_const]: "MIGRIS_LARGEDATA_UNIT_MAX = 4096"

datatype migris_largedata_state_t = LARGEDATA_IDLE | LARGEDATA_ACTIVE

datatype migris_largedata_status_t =
    LARGEDATA_OK | LARGEDATA_ERR_BAD_ARG | LARGEDATA_ERR_BUSY | LARGEDATA_ERR_UNIT_TOO_LARGE
  | LARGEDATA_ERR_BUF_TOO_SMALL

record migris_largedata_session_t =
  ld_state :: migris_largedata_state_t
  ld_unit :: bytes
  ld_unit_len :: nat
  ld_cursor :: nat
  ld_transaction_id :: u16
  ld_next_part :: u16
  ld_total_parts :: u16
  ld_pus13 :: migris_pus13_ctx_t

definition migris_largedata_init :: "migris_largedata_session_t \<Rightarrow> migris_largedata_session_t" where
  "migris_largedata_init session = session\<lparr>ld_state := LARGEDATA_IDLE, ld_unit := [], ld_unit_len := 0,
     ld_cursor := 0, ld_transaction_id := 0, ld_next_part := 0, ld_total_parts := 0,
     ld_pus13 := \<lparr>p13_msg_counter = [0, 0, 0]\<rparr>\<rparr>"

definition migris_largedata_active :: "migris_largedata_session_t \<Rightarrow> bool" where
  "migris_largedata_active session \<longleftrightarrow> ld_state session = LARGEDATA_ACTIVE"

definition migris_largedata_start ::
  "migris_largedata_session_t \<Rightarrow> u16 \<Rightarrow> bytes \<Rightarrow> migris_largedata_status_t \<times> migris_largedata_session_t" where
  "migris_largedata_start session transaction_id unit =
    (if length unit = 0 then (LARGEDATA_ERR_BAD_ARG, session)
     else if ld_state session \<noteq> LARGEDATA_IDLE then (LARGEDATA_ERR_BUSY, session)
     else if MIGRIS_LARGEDATA_UNIT_MAX < length unit then (LARGEDATA_ERR_UNIT_TOO_LARGE, session)
     else (LARGEDATA_OK,
       session\<lparr>ld_total_parts := of_nat ((length unit + MIGRIS_PUS13_PART_SIZE - 1) div MIGRIS_PUS13_PART_SIZE),
         ld_unit := unit, ld_unit_len := length unit, ld_cursor := 0, ld_transaction_id := transaction_id,
         ld_next_part := 0, ld_state := LARGEDATA_ACTIVE\<rparr>))"

definition migris_largedata_next_part ::
  "migris_largedata_session_t \<Rightarrow> u16 \<Rightarrow> u16 \<Rightarrow> u32 \<Rightarrow> u16 \<Rightarrow> nat
     \<Rightarrow> (migris_largedata_status_t + bytes) \<times> migris_largedata_session_t \<times> u16" where
  "migris_largedata_next_part session apid tm_seq_count now_seconds destination_id out_cap =
    (if ld_state session \<noteq> LARGEDATA_ACTIVE then (Inr [], session, tm_seq_count)
     else
       let remaining = ld_unit_len session - ld_cursor session;
           chunk = (if MIGRIS_PUS13_PART_SIZE < remaining then MIGRIS_PUS13_PART_SIZE else remaining)
       in case migris_pus13_build_part (ld_pus13 session) apid tm_seq_count now_seconds destination_id
                 (ld_transaction_id session) (ld_next_part session) (ld_total_parts session)
                 (take chunk (drop (ld_cursor session) (ld_unit session))) out_cap of
            (Inl PUS13_ERR_BUF_TOO_SMALL, pus13, seq) \<Rightarrow>
              (Inl LARGEDATA_ERR_BUF_TOO_SMALL, session\<lparr>ld_pus13 := pus13\<rparr>, seq)
          | (Inl _, pus13, seq) \<Rightarrow> (Inl LARGEDATA_ERR_BAD_ARG, session\<lparr>ld_pus13 := pus13\<rparr>, seq)
          | (Inr out, pus13, seq) \<Rightarrow>
              (let session = session\<lparr>ld_pus13 := pus13, ld_cursor := ld_cursor session + chunk,
                               ld_next_part := ld_next_part session + 1\<rparr>
               in (Inr out,
                   if ld_total_parts session \<le> ld_next_part session then session\<lparr>ld_state := LARGEDATA_IDLE\<rparr> else session,
                   seq)))"

section \<open>The transfer in progress\<close>

definition part_count :: "bytes \<Rightarrow> nat" where
  "part_count unit = (length unit + 63) div 64"

definition chunk_of :: "bytes \<Rightarrow> nat \<Rightarrow> bytes" where
  "chunk_of unit j = take 64 (drop (64 * j) unit)"

text \<open>The session that has sent \<open>j\<close> parts of \<open>unit\<close>.\<close>

definition sent :: "u16 \<Rightarrow> bytes \<Rightarrow> nat \<Rightarrow> migris_largedata_session_t \<Rightarrow> bool" where
  "sent tid unit j s \<longleftrightarrow> ld_unit s = unit \<and> ld_unit_len s = length unit \<and> ld_cursor s = min (64 * j) (length unit)
     \<and> ld_transaction_id s = tid \<and> ld_next_part s = of_nat j \<and> ld_total_parts s = of_nat (part_count unit)
     \<and> ld_state s = (if j < part_count unit then LARGEDATA_ACTIVE else LARGEDATA_IDLE)"

text \<open>
  The views of the parts from the \<open>j\<close>th on, sent at the given times: what the standard asks of the
  part packets, written from the position of the part alone. The last part is a [13,3] (a unit of one
  part is sent as a last part), the first of several a [13,1], the others are [13,2], and each of the
  three subtypes has a message counter of its own.
\<close>

definition part_kind :: "nat \<Rightarrow> nat \<Rightarrow> nat" where
  "part_kind j parts = (if j + 1 = parts then 3 else if j = 0 then 1 else 2)"

fun part_views :: "u16 \<Rightarrow> u16 \<Rightarrow> u16 \<Rightarrow> u16 \<Rightarrow> bytes \<Rightarrow> bytes \<Rightarrow> nat \<Rightarrow> u32 list \<Rightarrow> tm_view list" where
  "part_views apid seq dest tid unit ctr j [] = []"
| "part_views apid seq dest tid unit ctr j (t # ts) =
    (let parts = part_count unit; kind = part_kind j parts
     in tm_view_of apid seq 13 (of_nat kind) (ctr ! (kind - 1)) dest t
          (be16 tid @ be16 (of_nat j) @ be16 (of_nat parts) @ chunk_of unit j)
        # part_views apid (next_seq seq) dest tid unit (bump ctr (kind - 1)) (Suc j) ts)"

fun ld_send :: "migris_largedata_session_t \<Rightarrow> u16 \<Rightarrow> u16 \<Rightarrow> u32 list \<Rightarrow> u16 \<Rightarrow> nat
    \<Rightarrow> bytes \<times> migris_largedata_session_t \<times> u16" where
  "ld_send s apid seq [] dest cap = ([], s, seq)"
| "ld_send s apid seq (t # ts) dest cap =
    (let (r, s, seq) = migris_largedata_next_part s apid seq t dest cap;
         (more, s, seq) = ld_send s apid seq ts dest cap
     in (emitted r @ more, s, seq))"

lemma part_in_unit: "j < part_count unit \<longleftrightarrow> 64 * j < length unit"
proof -
  have "j < part_count unit \<longleftrightarrow> Suc j * 64 \<le> length unit + 63"
    unfolding part_count_def Suc_le_eq [symmetric] by (rule less_eq_div_iff_mult_less_eq) simp
  then show ?thesis by arith
qed

lemma part_count_le: "length unit \<le> 4096 \<Longrightarrow> part_count unit \<le> 64"
  using div_le_mono [of "length unit + 63" "4096 + 63" 64] by (simp add: part_count_def)

lemma part_subtype:
  assumes "j < part_count unit" "length unit \<le> 4096"
  shows "pus13_subtype_for (of_nat j) (of_nat (part_count unit)) = of_nat (part_kind j (part_count unit))"
    and "part_counter (of_nat j) (of_nat (part_count unit)) = part_kind j (part_count unit) - 1"
proof -
  let ?n = "part_count unit"
  have n: "?n \<le> 64" by (rule part_count_le [OF assms(2)])
  have "(of_nat j :: u16) = of_nat ?n - 1 \<longleftrightarrow> of_nat (j + 1) = (of_nat ?n :: u16)" by (simp add: eq_diff_eq add.commute)
  also have "\<dots> \<longleftrightarrow> j + 1 = ?n"
    using assms(1) n by (simp add: word_unat_eq_iff unat_of_nat_u16 del: of_nat_add of_nat_Suc)
  finally have last_part: "(of_nat j :: u16) = of_nat ?n - 1 \<longleftrightarrow> j + 1 = ?n" .
  have "(of_nat j :: u16) = 0 \<longleftrightarrow> j = 0" using assms(1) n by (simp add: word_unat_eq_iff unat_of_nat_u16)
  with last_part show "pus13_subtype_for (of_nat j) (of_nat ?n) = of_nat (part_kind j ?n)"
    by (simp add: pus13_subtype_for_def part_kind_def)
  then show "part_counter (of_nat j) (of_nat ?n) = part_kind j ?n - 1"
    by (simp add: part_counter_def part_kind_def)
qed

lemma start_sent:
  assumes "ld_state s = LARGEDATA_IDLE" "unit \<noteq> []" "length unit \<le> 4096"
  shows "\<exists>s'. migris_largedata_start s tid unit = (LARGEDATA_OK, s') \<and> sent tid unit 0 s' \<and> ld_pus13 s' = ld_pus13 s"
proof -
  have "0 < part_count unit" using assms(2) by (simp add: part_in_unit)
  moreover have "(length unit + 64 - 1) div 64 = part_count unit" by (simp add: part_count_def)
  ultimately show ?thesis using assms by (simp add: migris_largedata_start_def sent_def fsw_const)
qed

lemma next_part_sends:
  assumes "sent tid unit j s" "j < part_count unit" "length unit \<le> 4096" "apid \<le> 0x7FF" "seq \<le> 0x3FFF"
    and cap: "24 + length (chunk_of unit j) \<le> cap"
  defines "parts \<equiv> of_nat (part_count unit)" and "ctr \<equiv> p13_msg_counter (ld_pus13 s)"
  shows "\<exists>pkt s'. migris_largedata_next_part s apid seq t dest cap = (Inr pkt, s', next_seq seq)
    \<and> sent tid unit (Suc j) s' \<and> p13_msg_counter (ld_pus13 s') = bump ctr (part_counter (of_nat j) parts)
    \<and> tm_burst apid seq pkt [tm_view_of apid seq 13 (pus13_subtype_for (of_nat j) parts) (ctr ! part_counter (of_nat j) parts)
        dest t (part_source tid (of_nat j) parts (chunk_of unit j))] (next_seq seq)
    \<and> length pkt \<le> 88"
proof -
  let ?rem = "length unit - 64 * j" and ?pay = "chunk_of unit j"
  have in_unit: "64 * j < length unit" using assms(2) by (simp add: part_in_unit)
  have k: "part_count unit \<le> 64" by (rule part_count_le [OF assms(3)])
  have un: "unat (of_nat j :: u16) = j" "unat (parts :: u16) = part_count unit"
    using assms(2) k by (simp_all add: unat_of_nat_u16 parts_def)
  have lt: "of_nat j < parts" using un assms(2) by (simp add: word_less_nat_alt)
  have cur: "ld_cursor s = 64 * j" using assms(1) in_unit by (simp add: sent_def)
  have chunk: "take (if 64 < ?rem then 64 else ?rem) (drop (64 * j) unit) = ?pay" by (simp add: chunk_of_def)
  have pay: "?pay \<noteq> []" "length ?pay \<le> 64" using in_unit by (simp_all add: chunk_of_def)
  obtain pkt where pkt: "migris_pus13_build_part (ld_pus13 s) apid seq t dest tid (of_nat j) parts ?pay cap =
      (Inr pkt, (ld_pus13 s)\<lparr>p13_msg_counter := bump ctr (part_counter (of_nat j) parts)\<rparr>, next_seq seq)"
    and burst: "tm_burst apid seq pkt [tm_view_of apid seq 13 (pus13_subtype_for (of_nat j) parts) (ctr ! part_counter (of_nat j) parts)
        dest t (part_source tid (of_nat j) parts ?pay)] (next_seq seq)" and len: "length pkt = 24 + length ?pay"
    using build_part_ok [OF assms(4,5) lt pay cap, of "ld_pus13 s" t dest tid] unfolding ctr_def by blast
  have suc: "(of_nat j + 1 :: u16) = of_nat (Suc j)" by simp
  have fin: "parts \<le> of_nat (Suc j) \<longleftrightarrow> part_count unit \<le> Suc j"
    using assms(2) k un by (simp add: word_le_nat_alt unat_of_nat_u16 del: of_nat_Suc)
  let ?chunk = "if 64 < ?rem then 64 else ?rem"
  let ?s = "s\<lparr>ld_pus13 := (ld_pus13 s)\<lparr>p13_msg_counter := bump ctr (part_counter (of_nat j) parts)\<rparr>,
      ld_cursor := 64 * j + ?chunk, ld_next_part := of_nat (Suc j)\<rparr>"
  let ?s' = "if part_count unit \<le> Suc j then ?s\<lparr>ld_state := LARGEDATA_IDLE\<rparr> else ?s"
  have st: "ld_state s = LARGEDATA_ACTIVE" "ld_unit s = unit" "ld_unit_len s = length unit" "ld_transaction_id s = tid"
    "ld_next_part s = of_nat j" "ld_total_parts s = parts"
    using assms(1,2) by (simp_all add: sent_def parts_def)
  have "migris_largedata_next_part s apid seq t dest cap = (Inr pkt, ?s', next_seq seq)"
    unfolding migris_largedata_next_part_def Let_def st cur fsw_const chunk pkt suc by (simp add: st fin del: of_nat_Suc)
  moreover have "64 * j + ?chunk = min (64 * Suc j) (length unit)" using in_unit by simp
  then have "sent tid unit (Suc j) ?s'" using st by (simp add: sent_def parts_def del: of_nat_Suc)
  ultimately show ?thesis using burst len pay by (intro exI [of _ pkt] exI [of _ ?s'] conjI) simp_all
qed

lemma length_chunk_of: "length (chunk_of unit j) \<le> 64"
  by (simp add: chunk_of_def)

lemma next_part_small:
  assumes "sent tid unit j s" "j < part_count unit" "length unit \<le> 4096" "cap < 24 + length (chunk_of unit j)"
  shows "migris_largedata_next_part s apid seq t dest cap = (Inl LARGEDATA_ERR_BUF_TOO_SMALL, s, seq)"
proof -
  let ?rem = "length unit - 64 * j" and ?parts = "of_nat (part_count unit) :: u16"
  have in_unit: "64 * j < length unit" using assms(2) by (simp add: part_in_unit)
  have k: "part_count unit \<le> 64" by (rule part_count_le [OF assms(3)])
  have lt: "of_nat j < ?parts" using k assms(2) by (simp add: word_less_nat_alt unat_of_nat_u16)
  have st: "ld_state s = LARGEDATA_ACTIVE" "ld_unit s = unit" "ld_unit_len s = length unit" "ld_transaction_id s = tid"
    "ld_next_part s = of_nat j" "ld_total_parts s = ?parts" "ld_cursor s = 64 * j"
    using assms(1,2) in_unit by (simp_all add: sent_def)
  have chunk: "take (if 64 < ?rem then 64 else ?rem) (drop (64 * j) unit) = chunk_of unit j" by (simp add: chunk_of_def)
  have pay: "chunk_of unit j \<noteq> []" "length (chunk_of unit j) \<le> 64" using in_unit by (simp_all add: chunk_of_def)
  have "s\<lparr>ld_pus13 := ld_pus13 s\<rparr> = s" by simp
  then show ?thesis
    using build_part_small [OF lt pay assms(4), of "ld_pus13 s" apid seq t dest tid]
    unfolding migris_largedata_next_part_def Let_def st fsw_const chunk by simp
qed

lemma next_part_idle:
  "ld_state s = LARGEDATA_IDLE \<Longrightarrow> migris_largedata_next_part s apid seq t dest cap = (Inr [], s, seq)"
  by (simp add: migris_largedata_next_part_def)

lemma ld_send_spec:
  assumes "sent tid unit j s" "j + length ts \<le> part_count unit" "length unit \<le> 4096" "apid \<le> 0x7FF" "seq \<le> 0x3FFF" "88 \<le> cap"
  shows "\<exists>burst s' seq'. ld_send s apid seq ts dest cap = (burst, s', seq') \<and> sent tid unit (j + length ts) s'
    \<and> tm_burst apid seq burst (part_views apid seq dest tid unit (p13_msg_counter (ld_pus13 s)) j ts) seq'"
  using assms
proof (induction ts arbitrary: s seq j)
  case (Cons t ts)
  let ?n = "part_count unit" and ?ctr = "p13_msg_counter (ld_pus13 s)"
  let ?k = "part_kind j ?n"
  from Cons.prems have j: "j < ?n" "Suc j + length ts \<le> ?n" by simp_all
  have cap: "24 + length (chunk_of unit j) \<le> cap" using length_chunk_of [of unit j] Cons.prems(6) by simp
  obtain pkt s' where n: "migris_largedata_next_part s apid seq t dest cap = (Inr pkt, s', next_seq seq)" "sent tid unit (Suc j) s'"
    "p13_msg_counter (ld_pus13 s') = bump ?ctr (?k - 1)"
    and b: "tm_burst apid seq pkt [tm_view_of apid seq 13 (of_nat ?k) (?ctr ! (?k - 1))
        dest t (be16 tid @ be16 (of_nat j) @ be16 (of_nat ?n) @ chunk_of unit j)] (next_seq seq)"
    using next_part_sends [OF Cons.prems(1) j(1) Cons.prems(3-5) cap]
    unfolding part_subtype [OF j(1) Cons.prems(3)] part_source_def by blast
  obtain burst s'' seq' where i: "ld_send s' apid (next_seq seq) ts dest cap = (burst, s'', seq')" "sent tid unit (Suc j + length ts) s''"
    "tm_burst apid (next_seq seq) burst (part_views apid (next_seq seq) dest tid unit (bump ?ctr (?k - 1)) (Suc j) ts) seq'"
    using Cons.IH [OF n(2) j(2) Cons.prems(3,4) next_seq_le Cons.prems(6)] unfolding n(3) by blast
  from tm_burst_append [OF b i(3)] i(1,2) n(1) show ?case by (simp add: Let_def)
qed simp

lemma part_views_payloads:
  "map (\<lambda>v. drop 6 (tv_source v)) (part_views apid seq dest tid unit ctr j ts) = map (chunk_of unit) [j..<j + length ts]"
proof (induction ts arbitrary: seq ctr j)
  case (Cons t ts)
  have "[j..<j + length (t # ts)] = j # [Suc j..<Suc j + length ts]" by (simp add: upt_rec)
  with Cons show ?case by (simp add: Let_def tm_view_of_def be16_def)
qed simp

lemma part_views_kinds:
  "map (\<lambda>v. tm_service_subtype (tv_secondary v)) (part_views apid seq dest tid unit ctr j ts)
     = map (\<lambda>i. of_nat (part_kind i (part_count unit))) [j..<j + length ts]"
proof (induction ts arbitrary: seq ctr j)
  case (Cons t ts)
  have "[j..<j + length (t # ts)] = j # [Suc j..<Suc j + length ts]" by (simp add: upt_rec)
  with Cons show ?case by (simp add: Let_def tm_view_of_def)
qed simp

lemma chunks_whole: "concat (map (chunk_of unit) [0..<part_count unit]) = unit"
  using part_in_unit [of "part_count unit" unit] concat_chunks [of 64 unit "part_count unit"] by (simp add: chunk_of_def [abs_def])

definition ld_inv :: "migris_largedata_session_t \<Rightarrow> bool" where
  "ld_inv s \<longleftrightarrow> ld_state s = LARGEDATA_IDLE
     \<or> (\<exists>tid unit j. sent tid unit j s \<and> j < part_count unit \<and> length unit \<le> 4096)"

lemma sent_inv: "sent tid unit j s \<Longrightarrow> length unit \<le> 4096 \<Longrightarrow> ld_inv s"
  by (cases "j < part_count unit") (auto simp: ld_inv_def sent_def)

lemma next_part_result:
  assumes "ld_inv s" "apid \<le> 0x7FF" "seq \<le> 0x3FFF" "migris_largedata_next_part s apid seq now dest cap = (r, s', seq')"
  shows "tm_result apid seq 88 r seq' \<and> ld_inv s'"
proof (cases "ld_state s")
  case LARGEDATA_IDLE
  with assms next_part_idle [OF this, of apid seq now dest cap] show ?thesis by auto
next
  case LARGEDATA_ACTIVE
  with assms(1) obtain tid unit j where s: "sent tid unit j s" "j < part_count unit" "length unit \<le> 4096"
    by (auto simp: ld_inv_def)
  show ?thesis
  proof (cases "24 + length (chunk_of unit j) \<le> cap")
    case True
    from next_part_sends [OF s assms(2,3) True, of now dest] assms(4) s(3) show ?thesis
      by (auto intro: tm_resultI sent_inv)
  next
    case False
    with next_part_small [OF s, of cap apid seq now dest] assms(1,4) show ?thesis by auto
  qed
qed

interpretation largedata: tm_service
  "\<lambda>s apid seq cap. migris_largedata_next_part s apid seq now dest cap" ld_inv 88
  by unfold_locales (blast dest: next_part_result)+

section \<open>Properties\<close>

text \<open>
  C34: a transfer started on an idle session for a unit of 1 to 4096 bytes sends, over as many calls
  as the unit has 64-byte parts, exactly those parts as well-formed packets: part 0, 1, ... of the
  right total, the final one as a last part [13,3] (a unit of one part too), the one that opens a
  longer transfer as a first part [13,1], those between as [13,2], each with its subtype's message
  counter; the payloads concatenate to the unit. The session is then idle, sends nothing more, and
  while it was busy refused another start.
\<close>
theorem largedata_delivers_unit:
  assumes "\<not> migris_largedata_active s" "unit \<noteq> []" "length unit \<le> 4096" "apid \<le> 0x7FF" "seq \<le> 0x3FFF" "88 \<le> cap"
    and "length ts = (length unit + 63) div 64"
    and "migris_largedata_start s tid unit = (rc, s0)" and "ld_send s0 apid seq ts dest cap = (burst, s1, seq1)"
  shows "rc = LARGEDATA_OK \<and> fst (migris_largedata_start s0 tid' unit) = LARGEDATA_ERR_BUSY
    \<and> (\<exists>views. tm_burst apid seq burst views seq1 \<and> length views = length ts
        \<and> views = part_views apid seq dest tid unit (p13_msg_counter (ld_pus13 s)) 0 ts
        \<and> map (\<lambda>v. tm_service_subtype (tv_secondary v)) views = map (\<lambda>j. if j = length ts - 1 then 3 else if j = 0 then 1 else 2) [0..<length ts]
        \<and> concat (map (\<lambda>v. drop 6 (tv_source v)) views) = unit)
    \<and> \<not> migris_largedata_active s1 \<and> migris_largedata_next_part s1 apid seq1 now dest cap = (Inr [], s1, seq1)"
proof -
  have k: "length ts = part_count unit" using assms(7) by (simp add: part_count_def)
  have idle: "ld_state s = LARGEDATA_IDLE" using assms(1) by (cases "ld_state s") (simp_all add: migris_largedata_active_def)
  have s0: "rc = LARGEDATA_OK" "sent tid unit 0 s0" "ld_pus13 s0 = ld_pus13 s"
    using start_sent [OF idle assms(2,3), of tid] assms(8) by auto
  have "0 < part_count unit" using assms(2) by (simp add: part_in_unit)
  then have busy: "fst (migris_largedata_start s0 tid' unit) = LARGEDATA_ERR_BUSY"
    using s0(2) assms(2) by (simp add: migris_largedata_start_def sent_def)
  have fit: "0 + length ts \<le> part_count unit" by (simp add: k)
  have s1: "sent tid unit (0 + length ts) s1"
    "tm_burst apid seq burst (part_views apid seq dest tid unit (p13_msg_counter (ld_pus13 s)) 0 ts) seq1"
    using ld_send_spec [OF s0(2) fit assms(3-6), of dest] assms(9) unfolding s0(3) by auto
  have pl: "map (\<lambda>v. drop 6 (tv_source v)) (part_views apid seq dest tid unit (p13_msg_counter (ld_pus13 s)) 0 ts)
      = map (chunk_of unit) [0..<part_count unit]"
    unfolding part_views_payloads by (simp add: k)
  have kd: "map (\<lambda>v. tm_service_subtype (tv_secondary v)) (part_views apid seq dest tid unit (p13_msg_counter (ld_pus13 s)) 0 ts)
      = map (\<lambda>j. if j = length ts - 1 then 3 else if j = 0 then 1 else 2) [0..<length ts]"
    unfolding part_views_kinds by (auto simp: k part_kind_def)
  from arg_cong [OF pl, of length] have "length (part_views apid seq dest tid unit (p13_msg_counter (ld_pus13 s)) 0 ts) = length ts"
    by (simp add: k)
  moreover have "ld_state s1 = LARGEDATA_IDLE" using s1(1) by (simp add: sent_def k)
  ultimately show ?thesis
    using s0(1) busy s1(2) pl kd chunks_whole [of unit]
    by (auto simp: next_part_idle migris_largedata_active_def)
qed

definition ld_blank :: migris_largedata_session_t where
  "ld_blank = \<lparr>ld_state = LARGEDATA_IDLE, ld_unit = [], ld_unit_len = 0, ld_cursor = 0, ld_transaction_id = 0,
     ld_next_part = 0, ld_total_parts = 0, ld_pus13 = \<lparr>p13_msg_counter = [0, 0, 0]\<rparr>\<rparr>"

lemma largedata_delivers_unit_witness:
  "\<exists>views. tm_burst 5 0 (fst (ld_send (snd (migris_largedata_start ld_blank 9 (replicate 100 7))) 5 0 [20, 21] 0 128)) views
      (snd (snd (ld_send (snd (migris_largedata_start ld_blank 9 (replicate 100 7))) 5 0 [20, 21] 0 128)))
    \<and> concat (map (\<lambda>v. drop 6 (tv_source v)) views) = replicate 100 7"
proof -
  let ?u = "replicate 100 (7 :: u8)"
  obtain rc s0 burst s1 seq1 where e: "migris_largedata_start ld_blank 9 ?u = (rc, s0)" "ld_send s0 5 0 [20, 21] 0 128 = (burst, s1, seq1)"
    by (metis prod.exhaust)
  have idle: "\<not> migris_largedata_active ld_blank" by (simp add: ld_blank_def migris_largedata_active_def)
  have "?u \<noteq> []" by (metis length_replicate list.size(3) zero_neq_numeral)
  from largedata_delivers_unit [OF idle this _ _ _ _ _ e] e show ?thesis by auto
qed

end
