(* ===== verification/Event_Fifo.thy ===== *)
theory Event_Fifo
  imports Prelude
begin

text \<open>
  lib/fdir/src/event_fifo.c: the ring of detected events, drop-newest when full. The slots array
  is a list of MIGRIS_FDIR_EVENT_FIFO_CAPACITY elements. The locale \<open>bounded_fifo\<close> is the
  contract of such a queue: any interleaving of pushes and pops hands the accepted records out
  once each, in arrival order.
\<close>

section \<open>The bounded queue contract\<close>

datatype 'e fifo_op = Push 'e | Pop

fun fifo_run :: "('s \<Rightarrow> 'e \<Rightarrow> bool \<times> 's) \<Rightarrow> ('s \<Rightarrow> 'e option \<times> 's) \<Rightarrow> 's \<Rightarrow> 'e fifo_op list
    \<Rightarrow> 'e list \<times> 'e list \<times> 's" where
  "fifo_run push pop s [] = ([], [], s)"
| "fifo_run push pop s (Push e # ops) =
    (let (ok, s') = push s e; (popped, accepted, s'') = fifo_run push pop s' ops
     in (popped, if ok then e # accepted else accepted, s''))"
| "fifo_run push pop s (Pop # ops) =
    (let (r, s') = pop s; (popped, accepted, s'') = fifo_run push pop s' ops
     in (case r of None \<Rightarrow> popped | Some e \<Rightarrow> e # popped, accepted, s''))"

locale bounded_fifo =
  fixes fq_list :: "'s \<Rightarrow> 'e list"
    and fq_push :: "'s \<Rightarrow> 'e \<Rightarrow> bool \<times> 's"
    and fq_pop :: "'s \<Rightarrow> 'e option \<times> 's"
    and fq_inv :: "'s \<Rightarrow> bool"
    and fq_ok :: "'e \<Rightarrow> bool"
    and fq_cap :: nat
  assumes push_room: "fq_inv s \<Longrightarrow> fq_ok e \<Longrightarrow> length (fq_list s) < fq_cap \<Longrightarrow>
      fst (fq_push s e) \<and> fq_list (snd (fq_push s e)) = fq_list s @ [e]"
    and push_refused: "fq_inv s \<Longrightarrow> \<not> (fq_ok e \<and> length (fq_list s) < fq_cap) \<Longrightarrow>
      \<not> fst (fq_push s e) \<and> fq_list (snd (fq_push s e)) = fq_list s"
    and push_inv: "fq_inv s \<Longrightarrow> fq_inv (snd (fq_push s e))"
    and pop_empty: "fq_inv s \<Longrightarrow> fq_list s = [] \<Longrightarrow> fq_pop s = (None, s)"
    and pop_Cons: "fq_inv s \<Longrightarrow> fq_list s = e # es \<Longrightarrow>
      fst (fq_pop s) = Some e \<and> fq_list (snd (fq_pop s)) = es"
    and pop_inv: "fq_inv s \<Longrightarrow> fq_inv (snd (fq_pop s))"
    and bounded: "fq_inv s \<Longrightarrow> length (fq_list s) \<le> fq_cap"
begin

lemma push_accepted: "fq_inv s \<Longrightarrow> fst (fq_push s e) \<longleftrightarrow> fq_ok e \<and> length (fq_list s) < fq_cap"
  using push_room push_refused by blast

lemma run_fifo_order:
  assumes "fq_inv s" "fifo_run fq_push fq_pop s ops = (popped, accepted, s')"
  shows "popped @ fq_list s' = fq_list s @ accepted \<and> fq_inv s' \<and> length (fq_list s') \<le> fq_cap"
  using assms
proof (induction ops arbitrary: s popped accepted s')
  case Nil
  then show ?case by (simp add: bounded)
next
  case (Cons a ops)
  show ?case
  proof (cases a)
    case (Push e)
    obtain ok s1 where p: "fq_push s e = (ok, s1)" by force
    obtain popped1 accepted1 s2 where r: "fifo_run fq_push fq_pop s1 ops = (popped1, accepted1, s2)"
      by (metis prod_cases3)
    have "fq_inv s1" using push_inv [OF Cons.prems(1), of e] p by simp
    note IH = Cons.IH [OF this r]
    have "fq_list s1 = fq_list s @ (if ok then [e] else [])"
      using push_room [OF Cons.prems(1), of e] push_refused [OF Cons.prems(1), of e]
      by (cases "fq_ok e \<and> length (fq_list s) < fq_cap") (simp_all add: p)
    with IH Cons.prems(2) show ?thesis by (auto simp: Push p r split: if_splits)
  next
    case Pop
    obtain x s1 where p: "fq_pop s = (x, s1)" by force
    obtain popped1 accepted1 s2 where r: "fifo_run fq_push fq_pop s1 ops = (popped1, accepted1, s2)"
      by (metis prod_cases3)
    have "fq_inv s1" using pop_inv [OF Cons.prems(1)] p by simp
    note IH = Cons.IH [OF this r]
    have "(case x of None \<Rightarrow> [] | Some e \<Rightarrow> [e]) @ fq_list s1 = fq_list s"
      using pop_empty [OF Cons.prems(1)] pop_Cons [OF Cons.prems(1)]
      by (cases "fq_list s") (simp_all add: p)
    with IH Cons.prems(2) show ?thesis by (cases x) (auto simp: Pop p r)
  qed
qed

end

section \<open>The ring\<close>

definition MIGRIS_FDIR_EVENT_FIFO_CAPACITY :: nat where
  [fsw_const]: "MIGRIS_FDIR_EVENT_FIFO_CAPACITY = 16"

definition MIGRIS_FDIR_EVENT_AUX_MAX :: nat where
  [fsw_const]: "MIGRIS_FDIR_EVENT_AUX_MAX = 8"

datatype migris_event_fifo_status_t = EVENT_FIFO_OK | EVENT_FIFO_ERR_FULL | EVENT_FIFO_ERR_BAD_ARG

record migris_fdir_event_t =
  ev_event_id :: u16
  ev_severity :: u8
  ev_aux_len :: u8
  ev_aux :: bytes
  ev_t_seconds :: u32

record migris_event_fifo_t =
  ef_slots :: "migris_fdir_event_t list"
  ef_head :: nat
  ef_count :: nat
  ef_dropped :: u32

definition migris_event_fifo_init :: "migris_event_fifo_t \<Rightarrow> migris_event_fifo_t" where
  "migris_event_fifo_init fifo = fifo\<lparr>ef_head := 0, ef_count := 0, ef_dropped := 0\<rparr>"

definition migris_event_fifo_push ::
  "migris_event_fifo_t \<Rightarrow> migris_fdir_event_t \<Rightarrow> migris_event_fifo_status_t \<times> migris_event_fifo_t" where
  "migris_event_fifo_push fifo ev =
    (if MIGRIS_FDIR_EVENT_AUX_MAX < unat (ev_aux_len ev) then (EVENT_FIFO_ERR_BAD_ARG, fifo)
     else if MIGRIS_FDIR_EVENT_FIFO_CAPACITY \<le> ef_count fifo
     then (EVENT_FIFO_ERR_FULL, fifo\<lparr>ef_dropped := ef_dropped fifo + 1\<rparr>)
     else let tail = (ef_head fifo + ef_count fifo) mod MIGRIS_FDIR_EVENT_FIFO_CAPACITY
          in (EVENT_FIFO_OK, fifo\<lparr>ef_slots := (ef_slots fifo)[tail := ev], ef_count := ef_count fifo + 1\<rparr>))"

definition migris_event_fifo_pop ::
  "migris_event_fifo_t \<Rightarrow> migris_fdir_event_t option \<times> migris_event_fifo_t" where
  "migris_event_fifo_pop fifo =
    (if ef_count fifo = 0 then (None, fifo)
     else (Some (ef_slots fifo ! ef_head fifo),
           fifo\<lparr>ef_head := (ef_head fifo + 1) mod MIGRIS_FDIR_EVENT_FIFO_CAPACITY, ef_count := ef_count fifo - 1\<rparr>))"

definition migris_event_fifo_count :: "migris_event_fifo_t \<Rightarrow> nat" where
  "migris_event_fifo_count fifo = ef_count fifo"

definition migris_event_fifo_dropped :: "migris_event_fifo_t \<Rightarrow> u32" where
  "migris_event_fifo_dropped fifo = ef_dropped fifo"

definition ef_list :: "migris_event_fifo_t \<Rightarrow> migris_fdir_event_t list" where
  "ef_list fifo = ring_list (ef_slots fifo) (ef_head fifo) (ef_count fifo)"

definition ef_ok :: "migris_fdir_event_t \<Rightarrow> bool" where
  "ef_ok ev \<longleftrightarrow> unat (ev_aux_len ev) \<le> MIGRIS_FDIR_EVENT_AUX_MAX"

definition ef_inv :: "migris_event_fifo_t \<Rightarrow> bool" where
  "ef_inv fifo \<longleftrightarrow> length (ef_slots fifo) = MIGRIS_FDIR_EVENT_FIFO_CAPACITY
     \<and> ef_head fifo < MIGRIS_FDIR_EVENT_FIFO_CAPACITY \<and> ef_count fifo \<le> MIGRIS_FDIR_EVENT_FIFO_CAPACITY
     \<and> (\<forall>ev \<in> set (ef_list fifo). ef_ok ev)"

lemma length_ef_list [simp]: "length (ef_list fifo) = ef_count fifo"
  by (simp add: ef_list_def)

lemma ef_push_spec:
  assumes "ef_inv fifo"
  shows "migris_event_fifo_push fifo ev =
      (if \<not> ef_ok ev then (EVENT_FIFO_ERR_BAD_ARG, fifo)
       else if ef_count fifo = MIGRIS_FDIR_EVENT_FIFO_CAPACITY
       then (EVENT_FIFO_ERR_FULL, fifo\<lparr>ef_dropped := ef_dropped fifo + 1\<rparr>)
       else (EVENT_FIFO_OK, snd (migris_event_fifo_push fifo ev)))"
    and "ef_ok ev \<Longrightarrow> ef_count fifo < MIGRIS_FDIR_EVENT_FIFO_CAPACITY \<Longrightarrow>
      ef_list (snd (migris_event_fifo_push fifo ev)) = ef_list fifo @ [ev]"
    and "ef_inv (snd (migris_event_fifo_push fifo ev))"
proof -
  show "migris_event_fifo_push fifo ev =
      (if \<not> ef_ok ev then (EVENT_FIFO_ERR_BAD_ARG, fifo)
       else if ef_count fifo = MIGRIS_FDIR_EVENT_FIFO_CAPACITY
       then (EVENT_FIFO_ERR_FULL, fifo\<lparr>ef_dropped := ef_dropped fifo + 1\<rparr>)
       else (EVENT_FIFO_OK, snd (migris_event_fifo_push fifo ev)))"
    using assms by (auto simp: migris_event_fifo_push_def ef_ok_def ef_inv_def Let_def)
  show l: "ef_list (snd (migris_event_fifo_push fifo ev)) = ef_list fifo @ [ev]"
    if "ef_ok ev" "ef_count fifo < MIGRIS_FDIR_EVENT_FIFO_CAPACITY"
    using that assms ring_push [of "ef_slots fifo" "ef_count fifo" "ef_head fifo" ev]
    by (simp add: ef_list_def migris_event_fifo_push_def ef_ok_def ef_inv_def Let_def)
  have "ef_list (fifo\<lparr>ef_dropped := d\<rparr>) = ef_list fifo" for d by (simp add: ef_list_def)
  with l assms show "ef_inv (snd (migris_event_fifo_push fifo ev))"
    by (cases "ef_ok ev \<and> ef_count fifo < MIGRIS_FDIR_EVENT_FIFO_CAPACITY")
      (auto simp: ef_inv_def migris_event_fifo_push_def ef_ok_def Let_def)
qed

lemma ef_pop_spec:
  assumes "ef_inv fifo"
  shows "ef_list fifo = [] \<Longrightarrow> migris_event_fifo_pop fifo = (None, fifo)"
    and "ef_list fifo = e # es \<Longrightarrow> fst (migris_event_fifo_pop fifo) = Some e
      \<and> ef_list (snd (migris_event_fifo_pop fifo)) = es"
    and "ef_inv (snd (migris_event_fifo_pop fifo))"
proof -
  show "ef_list fifo = [] \<Longrightarrow> migris_event_fifo_pop fifo = (None, fifo)"
    by (simp add: migris_event_fifo_pop_def flip: length_0_conv)
  have pop: "ef_list (snd (migris_event_fifo_pop fifo)) = tl (ef_list fifo)"
      "fst (migris_event_fifo_pop fifo) = Some (hd (ef_list fifo))" if "0 < ef_count fifo"
    using that assms ring_pop [of "ef_count fifo" "ef_slots fifo" "ef_head fifo"]
    by (simp_all add: ef_list_def migris_event_fifo_pop_def ef_inv_def) (metis list.sel(1))
  then show "fst (migris_event_fifo_pop fifo) = Some e \<and> ef_list (snd (migris_event_fifo_pop fifo)) = es"
    if l: "ef_list fifo = e # es"
  proof -
    have "0 < ef_count fifo" by (simp flip: length_ef_list add: l)
    with pop l show ?thesis by simp
  qed
  show "ef_inv (snd (migris_event_fifo_pop fifo))"
  proof (cases "ef_count fifo = 0")
    case True
    with assms show ?thesis by (simp add: migris_event_fifo_pop_def)
  next
    case False
    then have "set (ef_list (snd (migris_event_fifo_pop fifo))) \<subseteq> set (ef_list fifo)"
      using pop(1) by (cases "ef_list fifo") auto
    with False assms show ?thesis
      by (auto simp: ef_inv_def migris_event_fifo_pop_def fsw_const)
  qed
qed

interpretation efifo: bounded_fifo ef_list
    "\<lambda>fifo ev. (fst (migris_event_fifo_push fifo ev) = EVENT_FIFO_OK, snd (migris_event_fifo_push fifo ev))"
    migris_event_fifo_pop ef_inv ef_ok MIGRIS_FDIR_EVENT_FIFO_CAPACITY
proof unfold_locales
  fix s e
  assume inv: "ef_inv s"
  show "\<not> (ef_ok e \<and> length (ef_list s) < MIGRIS_FDIR_EVENT_FIFO_CAPACITY) \<Longrightarrow>
      \<not> fst (fst (migris_event_fifo_push s e) = EVENT_FIFO_OK, snd (migris_event_fifo_push s e))
      \<and> ef_list (snd (fst (migris_event_fifo_push s e) = EVENT_FIFO_OK, snd (migris_event_fifo_push s e))) = ef_list s"
    using inv by (auto simp: ef_inv_def migris_event_fifo_push_def ef_ok_def ef_list_def)
  show "ef_ok e \<Longrightarrow> length (ef_list s) < MIGRIS_FDIR_EVENT_FIFO_CAPACITY \<Longrightarrow>
      fst (fst (migris_event_fifo_push s e) = EVENT_FIFO_OK, snd (migris_event_fifo_push s e))
      \<and> ef_list (snd (fst (migris_event_fifo_push s e) = EVENT_FIFO_OK, snd (migris_event_fifo_push s e))) = ef_list s @ [e]"
    using ef_push_spec(2) [OF inv, of e] by (simp add: migris_event_fifo_push_def ef_ok_def Let_def)
qed (auto simp: ef_push_spec(3) ef_pop_spec, simp add: ef_inv_def)

section \<open>Properties\<close>

text \<open>
  C21: under any interleaving of pushes and pops the records come out once each, in the order in
  which they were accepted, followed by what is still queued; the queue never holds more than
  MIGRIS_FDIR_EVENT_FIFO_CAPACITY records. A refused push (full, or oversized aux) leaves the
  queued records alone, and only the full one counts as dropped.
\<close>
theorem event_fifo_order:
  assumes "ef_inv fifo"
    and "fifo_run (\<lambda>f ev. (fst (migris_event_fifo_push f ev) = EVENT_FIFO_OK, snd (migris_event_fifo_push f ev)))
           migris_event_fifo_pop fifo ops = (popped, accepted, fifo')"
  shows "popped @ ef_list fifo' = ef_list fifo @ accepted \<and> length (ef_list fifo') \<le> 16
    \<and> migris_event_fifo_count fifo' = length (ef_list fifo')
    \<and> migris_event_fifo_dropped (snd (migris_event_fifo_push fifo' ev)) =
        migris_event_fifo_dropped fifo'
          + (if fst (migris_event_fifo_push fifo' ev) = EVENT_FIFO_ERR_FULL then 1 else 0)"
  using efifo.run_fifo_order [OF assms]
  by (auto simp: fsw_const migris_event_fifo_count_def migris_event_fifo_dropped_def migris_event_fifo_push_def Let_def)

definition ef_blank :: "migris_event_fifo_t" where
  "ef_blank = migris_event_fifo_init \<lparr>ef_slots = replicate 16 \<lparr>ev_event_id = 0, ev_severity = 0, ev_aux_len = 0,
     ev_aux = replicate 8 0, ev_t_seconds = 0\<rparr>, ef_head = 15, ef_count = 2, ef_dropped = 1\<rparr>"

lemma ef_blank_inv: "ef_inv ef_blank" "ef_list ef_blank = []"
  by (simp_all add: ef_blank_def ef_inv_def ef_list_def migris_event_fifo_init_def fsw_const)

lemma event_fifo_order_witness:
  "\<exists>popped accepted fifo'. fifo_run (\<lambda>f ev. (fst (migris_event_fifo_push f ev) = EVENT_FIFO_OK, snd (migris_event_fifo_push f ev)))
       migris_event_fifo_pop ef_blank
       [Push \<lparr>ev_event_id = 2, ev_severity = 1, ev_aux_len = 0, ev_aux = replicate 8 0, ev_t_seconds = 9\<rparr>, Pop, Pop]
      = (popped, accepted, fifo') \<and> popped @ ef_list fifo' = accepted \<and> length (ef_list fifo') \<le> 16"
  (is "\<exists>popped accepted fifo'. ?run = _ \<and> _")
proof (cases "?run")
  case (fields popped accepted fifo')
  have "popped @ ef_list fifo' = accepted" "length (ef_list fifo') \<le> 16"
    using event_fifo_order [OF ef_blank_inv(1) fields] by (simp_all only: ef_blank_inv append_Nil)
  with fields show ?thesis by (intro exI conjI)
qed

end
