(* ===== verification/Mode.thy ===== *)
theory Mode
  imports Prelude Pus5
begin

text \<open>
  lib/mode: the operating-mode manager, and the event-sink interface of event_sink.h through
  which it announces a change. The defs array is a list of MIGRIS_MODE_CAPACITY elements of
  which the first \<open>mm_count\<close> are declared; the sink pointer is the flag \<open>mm_sink\<close>, and the
  wired report function is a parameter acting on the state it reaches, which includes the
  manager itself. The locale \<open>recording_sink\<close> is what the manager needs of a sink: an event
  it counts as quiet leaves a part of the state alone.
\<close>

section \<open>The event sink\<close>

type_synonym 's event_sink =
  "'s \<Rightarrow> u32 \<Rightarrow> migris_pus5_severity_t \<Rightarrow> u16 \<Rightarrow> bytes \<Rightarrow> bool \<times> 's"

locale recording_sink =
  fixes report :: "'s event_sink"
    and kept :: "'s \<Rightarrow> 'v"
    and quiet :: "u16 \<Rightarrow> bool"
  assumes report_keeps: "quiet event_id \<Longrightarrow> kept (snd (report s now severity event_id aux)) = kept s"

section \<open>Data\<close>

definition MIGRIS_MODE_CAPACITY :: nat where
  [fsw_const]: "MIGRIS_MODE_CAPACITY = 8"

definition MIGRIS_MODE_ID_MAX :: nat where
  [fsw_const]: "MIGRIS_MODE_ID_MAX = 32"

record migris_mode_def_t =
  md_id :: u8
  md_allowed_targets :: u32

datatype migris_mode_status_t =
    MODE_OK | MODE_ERR_BAD_ARG | MODE_ERR_CAPACITY | MODE_ERR_DUPLICATE | MODE_ERR_RANGE | MODE_ERR_NOT_FOUND
  | MODE_ERR_FORBIDDEN | MODE_ERR_BUF_TOO_SMALL | MODE_ERR_TRUNCATED

record migris_mode_manager_t =
  mm_defs :: "migris_mode_def_t list"
  mm_count :: nat
  mm_current :: u8
  mm_sink :: bool
  mm_generation :: u32

section \<open>Operations\<close>

definition mode_index_of :: "migris_mode_def_t list \<Rightarrow> nat \<Rightarrow> u8 \<Rightarrow> nat option" where
  "mode_index_of defs cnt mid = first_index (\<lambda>d. md_id d = mid) (take cnt defs)"

definition mode_targets_declared :: "migris_mode_def_t list \<Rightarrow> nat \<Rightarrow> nat \<Rightarrow> bool" where
  "mode_targets_declared defs n i =
    list_all (\<lambda>t. drop_bit t (md_allowed_targets (defs ! i)) AND 1 \<noteq> 0 \<longrightarrow> mode_index_of defs n (of_nat t) \<noteq> None)
      [0..<MIGRIS_MODE_ID_MAX]"

fun mode_validate_ids :: "migris_mode_def_t list \<Rightarrow> nat \<Rightarrow> nat \<Rightarrow> migris_mode_status_t" where
  "mode_validate_ids defs i 0 = MODE_OK"
| "mode_validate_ids defs i (Suc left) =
    (if MIGRIS_MODE_ID_MAX \<le> unat (md_id (defs ! i)) then MODE_ERR_RANGE
     else if mode_index_of defs i (md_id (defs ! i)) \<noteq> None then MODE_ERR_DUPLICATE
     else mode_validate_ids defs (Suc i) left)"

definition mode_validate :: "migris_mode_def_t list \<Rightarrow> nat \<Rightarrow> migris_mode_status_t" where
  "mode_validate defs n =
    (let rc = mode_validate_ids defs 0 n
     in if rc \<noteq> MODE_OK then rc
        else if list_all (mode_targets_declared defs n) [0..<n] then MODE_OK else MODE_ERR_RANGE)"

definition migris_mode_init ::
  "migris_mode_manager_t \<Rightarrow> migris_mode_def_t list \<Rightarrow> u8 \<Rightarrow> bool \<Rightarrow> migris_mode_status_t \<times> migris_mode_manager_t" where
  "migris_mode_init mgr defs initial sink =
    (let mgr = mgr\<lparr>mm_count := 0, mm_current := 0, mm_sink := False, mm_generation := 0\<rparr>; n = length defs
     in if MIGRIS_MODE_CAPACITY < n then (MODE_ERR_CAPACITY, mgr)
        else let rc = mode_validate defs n
             in if rc \<noteq> MODE_OK then (rc, mgr)
                else if mode_index_of defs n initial = None then (MODE_ERR_NOT_FOUND, mgr)
                else (MODE_OK, mgr\<lparr>mm_defs := defs @ drop n (mm_defs mgr), mm_count := n,
                                   mm_current := initial, mm_sink := sink\<rparr>))"

definition migris_mode_current :: "migris_mode_manager_t \<Rightarrow> u8" where
  "migris_mode_current mgr = mm_current mgr"

definition migris_mode_is_allowed :: "migris_mode_manager_t \<Rightarrow> u8 \<Rightarrow> bool" where
  "migris_mode_is_allowed mgr target =
    (if MIGRIS_MODE_ID_MAX \<le> unat target then False
     else case mode_index_of (mm_defs mgr) (mm_count mgr) (mm_current mgr) of
       None \<Rightarrow> False
     | Some idx \<Rightarrow> drop_bit (unat target) (md_allowed_targets (mm_defs mgr ! idx)) AND 1 \<noteq> 0)"

definition migris_mode_request ::
  "('s \<times> migris_mode_manager_t) event_sink \<Rightarrow> 's \<times> migris_mode_manager_t \<Rightarrow> u8 \<Rightarrow> u32
     \<Rightarrow> migris_mode_status_t \<times> ('s \<times> migris_mode_manager_t)" where
  "migris_mode_request report st target now_seconds =
    (let (s, mgr) = st
     in if MIGRIS_MODE_ID_MAX \<le> unat target \<or> mode_index_of (mm_defs mgr) (mm_count mgr) target = None
        then (MODE_ERR_NOT_FOUND, st)
        else if \<not> migris_mode_is_allowed mgr target then (MODE_ERR_FORBIDDEN, st)
        else let from_mode = mm_current mgr;
                 mgr = mgr\<lparr>mm_current := target, mm_generation := mm_generation mgr + 1\<rparr>;
                 st = (if mm_sink mgr
                       then snd (report (s, mgr) now_seconds SEV_INFO MIGRIS_PUS5_EVT_MODE_CHANGED [from_mode, target])
                       else (s, mgr))
             in (MODE_OK, st))"

definition migris_mode_generation :: "migris_mode_manager_t \<Rightarrow> u32" where
  "migris_mode_generation mgr = mm_generation mgr"

definition migris_mode_serialize :: "migris_mode_manager_t \<Rightarrow> nat \<Rightarrow> migris_mode_status_t + bytes" where
  "migris_mode_serialize mgr out_cap =
    (if out_cap < 1 then Inl MODE_ERR_BUF_TOO_SMALL else Inr [mm_current mgr])"

definition migris_mode_deserialize_current ::
  "migris_mode_manager_t \<Rightarrow> bytes \<Rightarrow> migris_mode_status_t \<times> migris_mode_manager_t" where
  "migris_mode_deserialize_current mgr inp =
    (if length inp < 1 then (MODE_ERR_TRUNCATED, mgr)
     else let restored = inp ! 0
          in if MIGRIS_MODE_ID_MAX \<le> unat restored then (MODE_OK, mgr)
             else if mode_index_of (mm_defs mgr) (mm_count mgr) restored = None then (MODE_OK, mgr)
             else (MODE_OK, mgr\<lparr>mm_current := restored\<rparr>))"

text \<open>A request calls the sink with the mode-change event only.\<close>

lemma migris_mode_request_cong [fundef_cong]:
  assumes "st = st'" "target = target'" "now = now'"
    "\<And>st aux. report st now' SEV_INFO MIGRIS_PUS5_EVT_MODE_CHANGED aux = report' st now' SEV_INFO MIGRIS_PUS5_EVT_MODE_CHANGED aux"
  shows "migris_mode_request report st target now = migris_mode_request report' st' target' now'"
  unfolding migris_mode_request_def Let_def assms(1-3) by (simp add: assms(4) split: prod.split)

section \<open>Well-formed managers\<close>

definition mm_declared :: "migris_mode_manager_t \<Rightarrow> migris_mode_def_t list" where
  "mm_declared mgr = take (mm_count mgr) (mm_defs mgr)"

definition mm_inv :: "migris_mode_manager_t \<Rightarrow> bool" where
  "mm_inv mgr \<longleftrightarrow> length (mm_defs mgr) = MIGRIS_MODE_CAPACITY \<and> mm_count mgr \<le> MIGRIS_MODE_CAPACITY
     \<and> distinct (map md_id (mm_declared mgr))
     \<and> (\<forall>d \<in> set (mm_declared mgr). unat (md_id d) < MIGRIS_MODE_ID_MAX
          \<and> (\<forall>t. bit (md_allowed_targets d) t \<longrightarrow> of_nat t \<in> md_id ` set (mm_declared mgr)))
     \<and> mm_current mgr \<in> md_id ` set (mm_declared mgr)"

definition mode_edge :: "migris_mode_manager_t \<Rightarrow> u8 \<Rightarrow> u8 \<Rightarrow> bool" where
  "mode_edge mgr a b \<longleftrightarrow> (\<exists>d \<in> set (mm_declared mgr). md_id d = a \<and> bit (md_allowed_targets d) (unat b))"

lemma shift_and_1: "drop_bit t w AND 1 \<noteq> 0 \<longleftrightarrow> bit (w :: u32) t"
  by (simp add: and_one_eq mod_2_eq_odd bit_iff_odd_drop_bit)

lemma mode_index_declared: "mode_index_of (mm_defs mgr) (mm_count mgr) a = None \<longleftrightarrow> a \<notin> md_id ` set (mm_declared mgr)"
  by (auto simp: mode_index_of_def mm_declared_def first_index_None)

lemma is_allowed_edge:
  assumes "mm_inv mgr"
  shows "migris_mode_is_allowed mgr target \<longleftrightarrow> unat target < MIGRIS_MODE_ID_MAX \<and> mode_edge mgr (mm_current mgr) target"
proof (cases "mode_index_of (mm_defs mgr) (mm_count mgr) (mm_current mgr)")
  case None
  with assms show ?thesis by (simp add: mode_index_declared mm_inv_def)
next
  case (Some i)
  let ?d = "mm_declared mgr ! i"
  have i: "i < length (mm_declared mgr)" "md_id ?d = mm_current mgr"
    using first_index_less [OF Some [unfolded mode_index_of_def]] first_index_nth [OF Some [unfolded mode_index_of_def]]
    by (simp_all add: mm_declared_def)
  have nth: "mm_defs mgr ! i = ?d" using i(1) by (simp add: mm_declared_def)
  have inj: "inj_on md_id (set (mm_declared mgr))" using assms by (simp add: mm_inv_def distinct_map)
  have "d = ?d" if "d \<in> set (mm_declared mgr)" "md_id d = mm_current mgr" for d
    using inj_onD [OF inj, of d ?d] that i by simp
  then have "mode_edge mgr (mm_current mgr) target \<longleftrightarrow> bit (md_allowed_targets ?d) (unat target)"
    using i by (auto simp: mode_edge_def)
  then show ?thesis using Some by (auto simp: migris_mode_is_allowed_def nth shift_and_1)
qed

lemma edge_declared:
  "mm_inv mgr \<Longrightarrow> mode_edge mgr a b \<Longrightarrow> b \<in> md_id ` set (mm_declared mgr) \<and> unat b < MIGRIS_MODE_ID_MAX"
proof -
  assume inv: "mm_inv mgr" and e: "mode_edge mgr a b"
  have "b = of_nat (unat b)" by simp
  with inv e have b: "b \<in> md_id ` set (mm_declared mgr)" unfolding mm_inv_def mode_edge_def by metis
  with inv show ?thesis by (auto simp: mm_inv_def)
qed

definition mm_moved :: "migris_mode_manager_t \<Rightarrow> u8 \<Rightarrow> migris_mode_manager_t" where
  "mm_moved mgr target = mgr\<lparr>mm_current := target, mm_generation := mm_generation mgr + 1\<rparr>"

lemma mm_moved_simps [simp]:
  "mm_declared (mm_moved mgr t) = mm_declared mgr" "mm_current (mm_moved mgr t) = t"
  "mm_generation (mm_moved mgr t) = mm_generation mgr + 1" "mm_sink (mm_moved mgr t) = mm_sink mgr"
  by (simp_all add: mm_moved_def mm_declared_def)

lemma mm_moved_inv: "mm_inv mgr \<Longrightarrow> t \<in> md_id ` set (mm_declared mgr) \<Longrightarrow> mm_inv (mm_moved mgr t)"
  by (simp add: mm_inv_def) (simp add: mm_moved_def)

text \<open>
  A request is granted exactly along a declared edge; otherwise the state is untouched. With a
  sink that keeps the manager on the mode-change event, the manager moves and nothing else in
  it changes.
\<close>

lemma request_refused:
  "mm_inv mgr \<Longrightarrow> \<not> mode_edge mgr (mm_current mgr) target \<Longrightarrow>
     fst (migris_mode_request report (s, mgr) target now) \<noteq> MODE_OK
     \<and> snd (migris_mode_request report (s, mgr) target now) = (s, mgr)"
  by (auto simp: migris_mode_request_def is_allowed_edge Let_def)

lemma request_granted:
  assumes "mm_inv mgr" "mode_edge mgr (mm_current mgr) target"
  shows "migris_mode_request report (s, mgr) target now =
    (MODE_OK, if mm_sink mgr
              then snd (report (s, mm_moved mgr target) now SEV_INFO MIGRIS_PUS5_EVT_MODE_CHANGED [mm_current mgr, target])
              else (s, mm_moved mgr target))"
  using assms edge_declared [OF assms]
  by (simp add: migris_mode_request_def is_allowed_edge Let_def mode_index_declared mm_moved_def)

locale mode_sink =
  recording_sink report snd "\<lambda>event_id. event_id = MIGRIS_PUS5_EVT_MODE_CHANGED"
  for report :: "('s \<times> migris_mode_manager_t) event_sink"
begin

lemma request_manager:
  assumes "mm_inv (snd st)"
  shows "snd (snd (migris_mode_request report st target now)) =
      (if mode_edge (snd st) (mm_current (snd st)) target then mm_moved (snd st) target else snd st)"
    and "fst (migris_mode_request report st target now) = MODE_OK \<longleftrightarrow> mode_edge (snd st) (mm_current (snd st)) target"
proof -
  obtain s mgr where st: "st = (s, mgr)" by force
  show "snd (snd (migris_mode_request report st target now)) =
      (if mode_edge (snd st) (mm_current (snd st)) target then mm_moved (snd st) target else snd st)"
    using assms request_refused [of mgr target report s now] request_granted [of mgr target report s now] report_keeps [OF refl]
    by (cases "mode_edge mgr (mm_current mgr) target") (simp_all add: st)
  show "fst (migris_mode_request report st target now) = MODE_OK \<longleftrightarrow> mode_edge (snd st) (mm_current (snd st)) target"
    using assms request_refused [of mgr target report s now] request_granted [of mgr target report s now]
    by (cases "mode_edge mgr (mm_current mgr) target") (simp_all add: st)
qed

lemma request_inv:
  "mm_inv (snd st) \<Longrightarrow> mm_inv (snd (snd (migris_mode_request report st target now)))"
  by (auto simp: request_manager mm_moved_inv edge_declared)

end

section \<open>Initialisation\<close>

lemma validate_ids_OK:
  "i + k = length defs \<Longrightarrow> mode_validate_ids defs i k = MODE_OK \<longleftrightarrow>
     (\<forall>j. i \<le> j \<longrightarrow> j < length defs \<longrightarrow> unat (md_id (defs ! j)) < MIGRIS_MODE_ID_MAX
        \<and> md_id (defs ! j) \<notin> md_id ` set (take j defs))"
proof (induction k arbitrary: i)
  case (Suc k)
  have split: "(\<forall>j. i \<le> j \<longrightarrow> P j) \<longleftrightarrow> P i \<and> (\<forall>j. Suc i \<le> j \<longrightarrow> P j)" for P
    by (metis Suc_leD Suc_leI le_neq_implies_less order_refl)
  have "mode_index_of defs i a = None \<longleftrightarrow> a \<notin> md_id ` set (take i defs)" for a
    by (auto simp: mode_index_of_def first_index_None)
  with Suc show ?case by (simp add: split not_le)
qed simp

lemma ids_distinct:
  "distinct (map f xs) \<longleftrightarrow> (\<forall>j < length xs. f (xs ! j) \<notin> f ` set (take j xs))"
proof (induction xs rule: rev_induct)
  case (snoc x xs)
  then show ?case by (auto simp: nth_append less_Suc_eq)
qed simp

lemma targets_declared_iff:
  "mode_targets_declared defs (length defs) i \<longleftrightarrow>
     (\<forall>t. bit (md_allowed_targets (defs ! i)) t \<longrightarrow> of_nat t \<in> md_id ` set defs)"
proof -
  have "mode_index_of defs (length defs) a = None \<longleftrightarrow> a \<notin> md_id ` set defs" for a
    by (auto simp: mode_index_of_def first_index_None)
  moreover have "bit (w :: u32) t \<Longrightarrow> t < 32" for w t
    using bit_imp_le_length [of w t] by simp
  ultimately show ?thesis by (fastforce simp: mode_targets_declared_def shift_and_1 list_all_iff fsw_const)
qed

lemma mode_init_inv:
  assumes "length (mm_defs mgr) = MIGRIS_MODE_CAPACITY" "migris_mode_init mgr defs initial sink = (MODE_OK, mgr')"
  shows "mm_inv mgr'" "mm_declared mgr' = defs" "mm_current mgr' = initial" "mm_sink mgr' = sink"
proof -
  from assms(2) have len: "length defs \<le> MIGRIS_MODE_CAPACITY" and v: "mode_validate defs (length defs) = MODE_OK"
    and ini: "mode_index_of defs (length defs) initial \<noteq> None"
    and m: "mgr' = mgr\<lparr>mm_defs := defs @ drop (length defs) (mm_defs mgr), mm_count := length defs,
        mm_current := initial, mm_sink := sink, mm_generation := 0\<rparr>"
    by (auto simp: migris_mode_init_def Let_def split: if_splits)
  have ids: "distinct (map md_id defs)" "\<forall>d \<in> set defs. unat (md_id d) < MIGRIS_MODE_ID_MAX"
    using v by (auto simp: mode_validate_def Let_def validate_ids_OK ids_distinct all_set_conv_all_nth split: if_splits)
  have tg: "\<forall>d \<in> set defs. \<forall>t. bit (md_allowed_targets d) t \<longrightarrow> of_nat t \<in> md_id ` set defs"
    using v by (auto simp: mode_validate_def Let_def targets_declared_iff list_all_iff all_set_conv_all_nth split: if_splits)
  have cur: "initial \<in> md_id ` set defs"
    using ini by (auto simp: mode_index_of_def first_index_None)
  show d: "mm_declared mgr' = defs" "mm_current mgr' = initial" "mm_sink mgr' = sink" by (simp_all add: m mm_declared_def)
  show "mm_inv mgr'" unfolding mm_inv_def d using ids tg cur len assms(1) by (simp add: m)
qed

lemma mode_restore:
  assumes "mm_inv mgr"
  shows "mm_inv (snd (migris_mode_deserialize_current mgr inp))"
    and "mm_declared (snd (migris_mode_deserialize_current mgr inp)) = mm_declared mgr"
  using assms
  by (auto simp: migris_mode_deserialize_current_def Let_def mode_index_declared mm_inv_def mm_declared_def)

lemma mode_serialize_restore:
  assumes "mm_inv mgr" "mm_inv mgr0" "mm_current mgr \<in> md_id ` set (mm_declared mgr0)" "1 \<le> cap"
  shows "\<exists>img. migris_mode_serialize mgr cap = Inr img
    \<and> migris_mode_deserialize_current mgr0 (img @ rest) = (MODE_OK, mgr0\<lparr>mm_current := mm_current mgr\<rparr>)"
proof -
  from assms(2,3) have "unat (mm_current mgr) < MIGRIS_MODE_ID_MAX" by (auto simp: mm_inv_def)
  with assms(3,4) show ?thesis
    by (simp add: migris_mode_serialize_def migris_mode_deserialize_current_def Let_def mode_index_declared)
qed

end
