(* ===== verification/Fdir.thy ===== *)
theory Fdir
  imports Event_Fifo Mode
begin

text \<open>
  lib/fdir/src/fdir.c: detection, confirmation and recovery. The context's pointer to the mode
  manager is the flag \<open>fd_mode\<close>, and the state is the pair of the context and the manager it
  points to, whose own sink is this context: recovery re-enters the sink with the mode-change
  event, which the function package proves to be a terminating recursion. The theory proves the
  confirmation latch, the order of cause and effect in the queue, and that every mode the
  vehicle reaches, autonomous recovery included, is reached along a declared edge.
\<close>

section \<open>Data\<close>

datatype migris_fdir_anomaly_t = ANOM_TC_REJECTED | ANOM_RX_OVERFLOW | ANOM_OUTSIDE nat

fun anom_index :: "migris_fdir_anomaly_t \<Rightarrow> nat" where
  "anom_index ANOM_TC_REJECTED = 0"
| "anom_index ANOM_RX_OVERFLOW = 1"
| "anom_index (ANOM_OUTSIDE k) = k + 2"

definition MIGRIS_FDIR_ANOMALY_COUNT :: nat where
  [fsw_const]: "MIGRIS_FDIR_ANOMALY_COUNT = 2"

record migris_fdir_confirm_def_t =
  cd_anomaly :: migris_fdir_anomaly_t
  cd_threshold :: u16

record migris_fdir_ctx_t =
  fd_fifo :: migris_event_fifo_t
  fd_occurrences :: "u16 list"
  fd_thresholds :: "u16 list"
  fd_confirmed :: "bool list"
  fd_mode :: bool
  fd_safe_mode :: u8
  fd_recovery_enabled :: bool

type_synonym fdir_state = "migris_fdir_ctx_t \<times> migris_mode_manager_t"

section \<open>Operations\<close>

definition fdir_enqueue ::
  "migris_fdir_ctx_t \<Rightarrow> u32 \<Rightarrow> migris_pus5_severity_t \<Rightarrow> u16 \<Rightarrow> bytes
     \<Rightarrow> migris_event_fifo_status_t \<times> migris_fdir_ctx_t" where
  "fdir_enqueue ctx now_seconds severity event_id aux =
    (if MIGRIS_FDIR_EVENT_AUX_MAX < length aux then (EVENT_FIFO_ERR_BAD_ARG, ctx)
     else let ev = \<lparr>ev_event_id = event_id, ev_severity = of_nat (sev_value severity),
                    ev_aux_len = of_nat (length aux),
                    ev_aux = map (\<lambda>i. if i < length aux then aux ! i else 0) [0..<MIGRIS_FDIR_EVENT_AUX_MAX],
                    ev_t_seconds = now_seconds\<rparr>;
              (rc, fifo) = migris_event_fifo_push (fd_fifo ctx) ev
          in (rc, ctx\<lparr>fd_fifo := fifo\<rparr>))"

definition fdir_event_anomaly :: "u16 \<Rightarrow> migris_fdir_anomaly_t option" where
  "fdir_event_anomaly event_id =
    (if event_id = MIGRIS_PUS5_EVT_TC_REJECTED then Some ANOM_TC_REJECTED
     else if event_id = MIGRIS_PUS5_EVT_RX_OVERFLOW then Some ANOM_RX_OVERFLOW
     else None)"

definition fdir_observe ::
  "fdir_state event_sink \<Rightarrow> fdir_state \<Rightarrow> migris_fdir_anomaly_t \<Rightarrow> u32 \<Rightarrow> fdir_state" where
  "fdir_observe report st anomaly now_seconds =
    (let (ctx, mgr) = st; i = anom_index anomaly;
         ctx = (if fd_occurrences ctx ! i < 0xFFFF
                then ctx\<lparr>fd_occurrences := (fd_occurrences ctx)[i := fd_occurrences ctx ! i + 1]\<rparr> else ctx);
         below = (fd_thresholds ctx ! i = 0 \<or> fd_occurrences ctx ! i < fd_thresholds ctx ! i)
     in if below \<or> fd_confirmed ctx ! i then (ctx, mgr)
        else let ctx = ctx\<lparr>fd_confirmed := (fd_confirmed ctx)[i := True]\<rparr>
             in if \<not> fd_recovery_enabled ctx \<or> \<not> fd_mode ctx then (ctx, mgr)
                else let aux = [of_nat i, fd_safe_mode ctx] @ be16 (fd_occurrences ctx ! i);
                         (rc, ctx) = fdir_enqueue ctx now_seconds SEV_HIGH MIGRIS_PUS5_EVT_FDIR_RECOVERY aux
                     in snd (migris_mode_request report (ctx, mgr) (fd_safe_mode ctx) now_seconds))"

lemma fdir_observe_cong [fundef_cong]:
  assumes "st = st'" "anomaly = anomaly'" "now = now'"
    "\<And>st aux. report st now' SEV_INFO MIGRIS_PUS5_EVT_MODE_CHANGED aux = report' st now' SEV_INFO MIGRIS_PUS5_EVT_MODE_CHANGED aux"
  shows "fdir_observe report st anomaly now = fdir_observe report' st' anomaly' now'"
proof -
  have "migris_mode_request report s t now' = migris_mode_request report' s t now'" for s t
    by (rule migris_mode_request_cong) (simp_all add: assms(4))
  then show ?thesis unfolding fdir_observe_def assms(1-3) by (simp only:)
qed

function fdir_sink_report :: "fdir_state event_sink" where
  "fdir_sink_report st now_seconds severity event_id aux =
    (let (rc, ctx) = fdir_enqueue (fst st) now_seconds severity event_id aux; st = (ctx, snd st)
     in case fdir_event_anomaly event_id of
          None \<Rightarrow> (rc = EVENT_FIFO_OK, st)
        | Some anomaly \<Rightarrow> (rc = EVENT_FIFO_OK, fdir_observe fdir_sink_report st anomaly now_seconds))"
  by pat_completeness auto
termination
  by (relation "measure (\<lambda>(st, now, severity, event_id, aux). if fdir_event_anomaly event_id = None then 0 else 1)")
    (auto simp: fdir_event_anomaly_def fsw_const)

declare fdir_sink_report.simps [simp del]

definition migris_fdir_init :: "migris_fdir_ctx_t \<Rightarrow> migris_fdir_ctx_t" where
  "migris_fdir_init ctx = ctx\<lparr>fd_fifo := migris_event_fifo_init (fd_fifo ctx),
     fd_occurrences := replicate MIGRIS_FDIR_ANOMALY_COUNT 0, fd_thresholds := replicate MIGRIS_FDIR_ANOMALY_COUNT 0,
     fd_confirmed := replicate MIGRIS_FDIR_ANOMALY_COUNT False, fd_mode := False, fd_safe_mode := 0,
     fd_recovery_enabled := False\<rparr>"

definition migris_fdir_arm_recovery ::
  "migris_fdir_ctx_t \<Rightarrow> bool \<Rightarrow> u8 \<Rightarrow> migris_fdir_confirm_def_t list
     \<Rightarrow> migris_event_fifo_status_t \<times> migris_fdir_ctx_t" where
  "migris_fdir_arm_recovery ctx mode safe_mode confirms =
    (if \<exists>c \<in> set confirms. MIGRIS_FDIR_ANOMALY_COUNT \<le> anom_index (cd_anomaly c)
     then (EVENT_FIFO_ERR_BAD_ARG, ctx)
     else (EVENT_FIFO_OK,
           ctx\<lparr>fd_occurrences := replicate MIGRIS_FDIR_ANOMALY_COUNT 0,
               fd_thresholds := fold (\<lambda>c ts. ts[anom_index (cd_anomaly c) := cd_threshold c]) confirms
                                  (replicate MIGRIS_FDIR_ANOMALY_COUNT 0),
               fd_confirmed := replicate MIGRIS_FDIR_ANOMALY_COUNT False,
               fd_mode := mode, fd_safe_mode := safe_mode, fd_recovery_enabled := True\<rparr>))"

definition migris_fdir_set_enabled :: "migris_fdir_ctx_t \<Rightarrow> bool \<Rightarrow> migris_fdir_ctx_t" where
  "migris_fdir_set_enabled ctx enabled = ctx\<lparr>fd_recovery_enabled := enabled\<rparr>"

definition migris_fdir_is_enabled :: "migris_fdir_ctx_t \<Rightarrow> bool" where
  "migris_fdir_is_enabled ctx = fd_recovery_enabled ctx"

fun anomaly_event :: "migris_fdir_anomaly_t \<Rightarrow> u32 \<Rightarrow> (migris_pus5_severity_t \<times> u16 \<times> bytes) option" where
  "anomaly_event ANOM_TC_REJECTED detail =
     Some (SEV_LOW, MIGRIS_PUS5_EVT_TC_REJECTED,
       [ucast (drop_bit 16 detail AND 0xFF), ucast (drop_bit 8 detail AND 0xFF), ucast (detail AND 0xFF)])"
| "anomaly_event ANOM_RX_OVERFLOW detail = Some (SEV_MEDIUM, MIGRIS_PUS5_EVT_RX_OVERFLOW, be32 detail)"
| "anomaly_event (ANOM_OUTSIDE k) detail = None"

definition migris_fdir_report_anomaly ::
  "fdir_state \<Rightarrow> migris_fdir_anomaly_t \<Rightarrow> u32 \<Rightarrow> u32 \<Rightarrow> migris_event_fifo_status_t \<times> fdir_state" where
  "migris_fdir_report_anomaly st anomaly now_seconds detail =
    (case anomaly_event anomaly detail of
       None \<Rightarrow> (EVENT_FIFO_ERR_BAD_ARG, st)
     | Some (severity, event_id, aux) \<Rightarrow>
        (let (rc, ctx) = fdir_enqueue (fst st) now_seconds severity event_id aux
         in (rc, fdir_observe fdir_sink_report (ctx, snd st) anomaly now_seconds)))"

definition migris_fdir_drain ::
  "migris_fdir_ctx_t \<Rightarrow> u16 \<Rightarrow> u16 \<Rightarrow> migris_pus5_ctx_t \<Rightarrow> nat
     \<Rightarrow> (migris_pus5_status_t + bytes) \<times> migris_fdir_ctx_t \<times> migris_pus5_ctx_t \<times> u16" where
  "migris_fdir_drain ctx apid tm_seq_count pus5_ctx out_cap =
    (if out_cap < MIGRIS_PUS5_TM_MAX_PACKET_SIZE then (Inl PUS5_ERR_BUF_TOO_SMALL, ctx, pus5_ctx, tm_seq_count)
     else case migris_event_fifo_pop (fd_fifo ctx) of
       (None, fifo) \<Rightarrow> (Inr [], ctx\<lparr>fd_fifo := fifo\<rparr>, pus5_ctx, tm_seq_count)
     | (Some ev, fifo) \<Rightarrow>
        (let (r, pus5_ctx, tm_seq_count) =
               migris_pus5_build_event_report pus5_ctx apid tm_seq_count (ev_t_seconds ev) (unat (ev_severity ev))
                 (ev_event_id ev) (Some (ev_aux ev)) (unat (ev_aux_len ev)) 0 out_cap
         in (r, ctx\<lparr>fd_fifo := fifo\<rparr>, pus5_ctx, tm_seq_count)))"

section \<open>The queue of a well-formed context\<close>

definition fd_event :: "u32 \<Rightarrow> migris_pus5_severity_t \<Rightarrow> u16 \<Rightarrow> bytes \<Rightarrow> migris_fdir_event_t" where
  "fd_event now severity event_id aux =
    \<lparr>ev_event_id = event_id, ev_severity = of_nat (sev_value severity), ev_aux_len = of_nat (length aux),
     ev_aux = map (\<lambda>i. if i < length aux then aux ! i else 0) [0..<MIGRIS_FDIR_EVENT_AUX_MAX],
     ev_t_seconds = now\<rparr>"

definition fd_queue :: "migris_fdir_ctx_t \<Rightarrow> migris_fdir_event_t list" where
  "fd_queue ctx = ef_list (fd_fifo ctx)"

definition fd_inv :: "migris_fdir_ctx_t \<Rightarrow> bool" where
  "fd_inv ctx \<longleftrightarrow> ef_inv (fd_fifo ctx)
     \<and> (\<forall>ev \<in> set (fd_queue ctx). unat (ev_severity ev) \<le> 3 \<and> length (ev_aux ev) = MIGRIS_FDIR_EVENT_AUX_MAX)
     \<and> length (fd_occurrences ctx) = MIGRIS_FDIR_ANOMALY_COUNT \<and> length (fd_thresholds ctx) = MIGRIS_FDIR_ANOMALY_COUNT
     \<and> length (fd_confirmed ctx) = MIGRIS_FDIR_ANOMALY_COUNT"

text \<open>Drop-newest enqueueing on the list: what a push leaves in the queue.\<close>

definition enq :: "migris_fdir_event_t list \<Rightarrow> migris_fdir_event_t list \<Rightarrow> migris_fdir_event_t list" where
  "enq q evs = q @ take (MIGRIS_FDIR_EVENT_FIFO_CAPACITY - length q) evs"

lemma enq_Nil [simp]: "enq q [] = q"
  by (simp add: enq_def)

lemma enq_enq: "enq (enq q a) b = enq q (a @ b)"
proof -
  let ?n = "MIGRIS_FDIR_EVENT_FIFO_CAPACITY - length q"
  have "MIGRIS_FDIR_EVENT_FIFO_CAPACITY - length (q @ take ?n a) = ?n - length a"
    by (cases "length a \<le> ?n") simp_all
  then show ?thesis by (simp add: enq_def)
qed

lemma sev_u8: "unat (of_nat (sev_value s) :: u8) = sev_value s" "sev_value s \<le> 3"
  by (cases s; simp)+

lemma enqueue_spec:
  fixes now :: u32 and severity :: migris_pus5_severity_t and event_id :: u16
  assumes inv: "fd_inv ctx" and len: "length aux \<le> MIGRIS_FDIR_EVENT_AUX_MAX"
  defines "r \<equiv> fdir_enqueue ctx now severity event_id aux"
  shows "fd_queue (snd r) = enq (fd_queue ctx) [fd_event now severity event_id aux]"
    and "fd_inv (snd r)" and "snd r = ctx\<lparr>fd_fifo := fd_fifo (snd r)\<rparr>"
    and "fst r = EVENT_FIFO_OK \<longleftrightarrow> length (fd_queue ctx) < MIGRIS_FDIR_EVENT_FIFO_CAPACITY"
proof -
  let ?ev = "fd_event now severity event_id aux"
  let ?p = "migris_event_fifo_push (fd_fifo ctx) ?ev"
  have r: "r = (fst ?p, ctx\<lparr>fd_fifo := snd ?p\<rparr>)"
    using len by (simp add: r_def fdir_enqueue_def fd_event_def Let_def split: prod.split)
  have ef: "ef_inv (fd_fifo ctx)" using inv by (simp add: fd_inv_def)
  have l8: "unat (of_nat (length aux) :: u8) = length aux"
    using len by (simp add: unat_of_nat_u8 fsw_const)
  have ok: "ef_ok ?ev" using len l8 by (simp add: ef_ok_def fd_event_def)
  have le: "ef_count (fd_fifo ctx) \<le> MIGRIS_FDIR_EVENT_FIFO_CAPACITY" using ef by (simp add: ef_inv_def)
  have q: "ef_list (snd ?p) = enq (fd_queue ctx) [?ev]"
  proof (cases "ef_count (fd_fifo ctx) < MIGRIS_FDIR_EVENT_FIFO_CAPACITY")
    case True
    then obtain k where "MIGRIS_FDIR_EVENT_FIFO_CAPACITY - ef_count (fd_fifo ctx) = Suc k"
      by (metis Suc_diff_Suc)
    with True ef_push_spec(2) [OF ef ok] show ?thesis by (simp add: enq_def fd_queue_def)
  next
    case False
    with le ok efifo.push_refused [OF ef, of ?ev] show ?thesis by (simp add: enq_def fd_queue_def)
  qed
  then show "fd_queue (snd r) = enq (fd_queue ctx) [?ev]" by (simp add: r fd_queue_def)
  have "set (enq (fd_queue ctx) [?ev]) \<subseteq> insert ?ev (set (fd_queue ctx))"
    by (auto simp: enq_def dest!: in_set_takeD)
  moreover have "unat (ev_severity ?ev) \<le> 3 \<and> length (ev_aux ?ev) = MIGRIS_FDIR_EVENT_AUX_MAX"
    by (simp add: fd_event_def sev_u8)
  ultimately show "fd_inv (snd r)"
    using inv ef_push_spec(3) [OF ef, of ?ev] q by (auto simp: fd_inv_def r fd_queue_def)
  show "snd r = ctx\<lparr>fd_fifo := fd_fifo (snd r)\<rparr>" by (simp add: r)
  show "fst r = EVENT_FIFO_OK \<longleftrightarrow> length (fd_queue ctx) < MIGRIS_FDIR_EVENT_FIFO_CAPACITY"
    using efifo.push_accepted [OF ef, of ?ev] ok by (simp add: r fd_queue_def)
qed

section \<open>The sink interfaces FDIR provides\<close>

lemma sink_report_quiet:
  "fdir_event_anomaly event_id = None \<Longrightarrow> fdir_sink_report st now severity event_id aux =
     (fst (fdir_enqueue (fst st) now severity event_id aux) = EVENT_FIFO_OK,
      (snd (fdir_enqueue (fst st) now severity event_id aux), snd st))"
  by (subst fdir_sink_report.simps) (simp split: prod.split)

lemma sink_report_anomaly:
  "fdir_event_anomaly event_id = Some a \<Longrightarrow> fdir_sink_report st now severity event_id aux =
     (fst (fdir_enqueue (fst st) now severity event_id aux) = EVENT_FIFO_OK,
      fdir_observe fdir_sink_report (snd (fdir_enqueue (fst st) now severity event_id aux), snd st) a now)"
  by (subst fdir_sink_report.simps) (simp split: prod.split)

interpretation fdir_rec: recording_sink fdir_sink_report snd "\<lambda>event_id. fdir_event_anomaly event_id = None"
  by unfold_locales (simp add: sink_report_quiet)

lemma mode_changed_quiet: "fdir_event_anomaly MIGRIS_PUS5_EVT_MODE_CHANGED = None"
  by (simp add: fdir_event_anomaly_def fsw_const)

interpretation fdir_mode: mode_sink fdir_sink_report
  by unfold_locales (simp add: sink_report_quiet mode_changed_quiet)

section \<open>Confirmation and recovery\<close>

definition sat_inc :: "u16 \<Rightarrow> u16" where
  "sat_inc n = (if n < 0xFFFF then n + 1 else n)"

definition fd_latches :: "migris_fdir_ctx_t \<Rightarrow> migris_fdir_anomaly_t \<Rightarrow> bool" where
  "fd_latches ctx a \<longleftrightarrow> (let i = anom_index a in \<not> fd_confirmed ctx ! i \<and> fd_thresholds ctx ! i \<noteq> 0
     \<and> fd_thresholds ctx ! i \<le> sat_inc (fd_occurrences ctx ! i))"

definition fd_fires :: "migris_fdir_ctx_t \<Rightarrow> migris_fdir_anomaly_t \<Rightarrow> bool" where
  "fd_fires ctx a \<longleftrightarrow> fd_latches ctx a \<and> fd_recovery_enabled ctx \<and> fd_mode ctx"

definition recovery_event :: "migris_fdir_ctx_t \<Rightarrow> migris_fdir_anomaly_t \<Rightarrow> u32 \<Rightarrow> migris_fdir_event_t" where
  "recovery_event ctx a now = fd_event now SEV_HIGH MIGRIS_PUS5_EVT_FDIR_RECOVERY
     ([of_nat (anom_index a), fd_safe_mode ctx] @ be16 (sat_inc (fd_occurrences ctx ! anom_index a)))"

definition mode_event :: "migris_mode_manager_t \<Rightarrow> u8 \<Rightarrow> u32 \<Rightarrow> migris_fdir_event_t" where
  "mode_event mgr target now = fd_event now SEV_INFO MIGRIS_PUS5_EVT_MODE_CHANGED [mm_current mgr, target]"

definition fd_same_policy :: "migris_fdir_ctx_t \<Rightarrow> migris_fdir_ctx_t \<Rightarrow> bool" where
  "fd_same_policy ctx ctx' \<longleftrightarrow> fd_thresholds ctx' = fd_thresholds ctx \<and> fd_mode ctx' = fd_mode ctx
     \<and> fd_safe_mode ctx' = fd_safe_mode ctx \<and> fd_recovery_enabled ctx' = fd_recovery_enabled ctx"

lemma request_spec:
  fixes target :: u8 and now :: u32
  assumes inv: "fd_inv ctx" "mm_inv mgr"
  defines "st \<equiv> snd (migris_mode_request fdir_sink_report (ctx, mgr) target now)"
  shows "fd_queue (fst st) = enq (fd_queue ctx)
      (if mode_edge mgr (mm_current mgr) target \<and> mm_sink mgr then [mode_event mgr target now] else [])"
    and "snd st = (if mode_edge mgr (mm_current mgr) target then mm_moved mgr target else mgr)"
    and "fd_inv (fst st)" "fd_same_policy ctx (fst st)"
    "fd_occurrences (fst st) = fd_occurrences ctx" "fd_confirmed (fst st) = fd_confirmed ctx"
proof -
  let ?e = "fdir_enqueue ctx now SEV_INFO MIGRIS_PUS5_EVT_MODE_CHANGED [mm_current mgr, target]"
  show "snd st = (if mode_edge mgr (mm_current mgr) target then mm_moved mgr target else mgr)"
    using fdir_mode.request_manager(1) [of "(ctx, mgr)"] inv(2) by (simp add: st_def)
  have f: "fst st = (if mode_edge mgr (mm_current mgr) target \<and> mm_sink mgr then snd ?e else ctx)"
    using request_granted [OF inv(2), of target fdir_sink_report ctx now] request_refused [OF inv(2), of target fdir_sink_report ctx now]
    by (cases "mode_edge mgr (mm_current mgr) target") (simp_all add: st_def sink_report_quiet [OF mode_changed_quiet])
  have len: "length [mm_current mgr, target] \<le> MIGRIS_FDIR_EVENT_AUX_MAX" by (simp add: fsw_const)
  note e = enqueue_spec [OF inv(1) len, of now SEV_INFO MIGRIS_PUS5_EVT_MODE_CHANGED]
  show "fd_queue (fst st) = enq (fd_queue ctx)
      (if mode_edge mgr (mm_current mgr) target \<and> mm_sink mgr then [mode_event mgr target now] else [])"
    using e(1) by (simp add: f mode_event_def)
  show "fd_inv (fst st)" using e(2) inv(1) by (simp add: f)
  have "fst st = ctx\<lparr>fd_fifo := fd_fifo (fst st)\<rparr>" using e(3) by (simp add: f)
  then obtain q where "fst st = ctx\<lparr>fd_fifo := q\<rparr>" by blast
  then show "fd_same_policy ctx (fst st)" "fd_occurrences (fst st) = fd_occurrences ctx" "fd_confirmed (fst st) = fd_confirmed ctx"
    by (simp_all add: fd_same_policy_def)
qed

lemma observe_spec:
  fixes now :: u32
  assumes inv: "fd_inv ctx" "mm_inv mgr" and a: "anom_index a < MIGRIS_FDIR_ANOMALY_COUNT"
  defines "st \<equiv> fdir_observe fdir_sink_report (ctx, mgr) a now" and "i \<equiv> anom_index a"
  shows "fd_queue (fst st) = enq (fd_queue ctx)
      (if fd_fires ctx a
       then recovery_event ctx a now #
         (if mode_edge mgr (mm_current mgr) (fd_safe_mode ctx) \<and> mm_sink mgr then [mode_event mgr (fd_safe_mode ctx) now] else [])
       else [])"
    and "snd st = (if fd_fires ctx a \<and> mode_edge mgr (mm_current mgr) (fd_safe_mode ctx) then mm_moved mgr (fd_safe_mode ctx) else mgr)"
    and "fd_inv (fst st)" "fd_same_policy ctx (fst st)"
    and "fd_occurrences (fst st) = (fd_occurrences ctx)[i := sat_inc (fd_occurrences ctx ! i)]"
    and "fd_confirmed (fst st) = (if fd_latches ctx a then (fd_confirmed ctx)[i := True] else fd_confirmed ctx)"
proof -
  have i: "i < length (fd_occurrences ctx)" "i < length (fd_confirmed ctx)"
    using inv(1) a by (simp_all add: fd_inv_def i_def)
  let ?c1 = "ctx\<lparr>fd_occurrences := (fd_occurrences ctx)[i := sat_inc (fd_occurrences ctx ! i)]\<rparr>"
  have c1: "(if fd_occurrences ctx ! i < 0xFFFF
      then ctx\<lparr>fd_occurrences := (fd_occurrences ctx)[i := fd_occurrences ctx ! i + 1]\<rparr> else ctx) = ?c1"
    by (simp add: sat_inc_def)
  have l: "(fd_thresholds ?c1 ! i = 0 \<or> fd_occurrences ?c1 ! i < fd_thresholds ?c1 ! i) \<or> fd_confirmed ?c1 ! i \<longleftrightarrow> \<not> fd_latches ctx a"
    using i by (auto simp: fd_latches_def Let_def not_less simp flip: i_def)
  let ?c2 = "?c1\<lparr>fd_confirmed := (fd_confirmed ctx)[i := True]\<rparr>"
  let ?aux = "of_nat i # fd_safe_mode ctx # be16 (sat_inc (fd_occurrences ctx ! i))"
  let ?e = "fdir_enqueue ?c2 now SEV_HIGH MIGRIS_PUS5_EVT_FDIR_RECOVERY ?aux"
  have st: "st = (if \<not> fd_latches ctx a then (?c1, mgr)
      else if \<not> fd_fires ctx a then (?c2, mgr)
      else snd (migris_mode_request fdir_sink_report (snd ?e, mgr) (fd_safe_mode (snd ?e)) now))"
    using i l unfolding st_def fdir_observe_def Let_def prod.case c1 i_def [symmetric]
    by (auto simp: fd_fires_def split: prod.split)
  have inv2: "fd_inv ?c1" "fd_inv ?c2" using inv(1) by (simp_all add: fd_inv_def fd_queue_def)
  have len: "length ?aux \<le> MIGRIS_FDIR_EVENT_AUX_MAX" by (simp add: fsw_const)
  note e = enqueue_spec [OF inv2(2) len, of now SEV_HIGH MIGRIS_PUS5_EVT_FDIR_RECOVERY]
  obtain q where q: "snd ?e = ?c2\<lparr>fd_fifo := q\<rparr>" using e(3) by blast
  have safe: "fd_safe_mode (snd ?e) = fd_safe_mode ctx" unfolding q by simp
  have eo: "fd_occurrences (snd ?e) = (fd_occurrences ctx)[i := sat_inc (fd_occurrences ctx ! i)]"
    "fd_confirmed (snd ?e) = (fd_confirmed ctx)[i := True]" "fd_same_policy ctx (snd ?e)"
    unfolding q by (simp_all add: fd_same_policy_def)
  note r = request_spec [OF e(2) inv(2), of "fd_safe_mode ctx" now]
  have q2: "fd_queue ?c2 = fd_queue ctx" "fd_queue ?c1 = fd_queue ctx" by (simp_all add: fd_queue_def)
  have rev: "fd_event now SEV_HIGH MIGRIS_PUS5_EVT_FDIR_RECOVERY ?aux = recovery_event ctx a now"
    by (simp add: recovery_event_def i_def)
  have ff: "fd_fires ctx a \<Longrightarrow> fd_latches ctx a" by (simp add: fd_fires_def)
  show "fd_queue (fst st) = enq (fd_queue ctx)
      (if fd_fires ctx a
       then recovery_event ctx a now #
         (if mode_edge mgr (mm_current mgr) (fd_safe_mode ctx) \<and> mm_sink mgr then [mode_event mgr (fd_safe_mode ctx) now] else [])
       else [])"
    using ff unfolding st safe by (auto simp: r(1) e(1) q2 rev enq_enq)
  show "snd st = (if fd_fires ctx a \<and> mode_edge mgr (mm_current mgr) (fd_safe_mode ctx) then mm_moved mgr (fd_safe_mode ctx) else mgr)"
    using ff unfolding st safe by (auto simp: r(2))
  show "fd_inv (fst st)" using inv2 r(3) unfolding st safe by auto
  show "fd_same_policy ctx (fst st)" using r(4) eo(3) unfolding st safe by (auto simp: fd_same_policy_def)
  show "fd_occurrences (fst st) = (fd_occurrences ctx)[i := sat_inc (fd_occurrences ctx ! i)]"
    unfolding st safe by (auto simp: r(5) eo)
  show "fd_confirmed (fst st) = (if fd_latches ctx a then (fd_confirmed ctx)[i := True] else fd_confirmed ctx)"
    using ff unfolding st safe by (auto simp: r(6) eo)
qed

lemma same_policy_fires:
  "fd_same_policy ctx ctx' \<Longrightarrow> fd_thresholds ctx' = fd_thresholds ctx \<and> fd_mode ctx' = fd_mode ctx
     \<and> fd_recovery_enabled ctx' = fd_recovery_enabled ctx \<and> fd_safe_mode ctx' = fd_safe_mode ctx"
  by (simp add: fd_same_policy_def)

text \<open>What both anomaly entry points do after the event itself is queued.\<close>

definition fd_reaction :: "fdir_state \<Rightarrow> migris_fdir_anomaly_t \<Rightarrow> u32 \<Rightarrow> migris_fdir_event_t list" where
  "fd_reaction st a now = (let (ctx, mgr) = st in
     if fd_fires ctx a
     then recovery_event ctx a now #
       (if mode_edge mgr (mm_current mgr) (fd_safe_mode ctx) \<and> mm_sink mgr then [mode_event mgr (fd_safe_mode ctx) now] else [])
     else [])"

lemma enqueue_fifo_only:
  fixes now :: u32 and sev :: migris_pus5_severity_t and eid :: u16
  assumes "fd_inv ctx" "length aux \<le> MIGRIS_FDIR_EVENT_AUX_MAX"
  defines "ctx' \<equiv> snd (fdir_enqueue ctx now sev eid aux)"
  shows "fd_occurrences ctx' = fd_occurrences ctx" "fd_confirmed ctx' = fd_confirmed ctx" "fd_same_policy ctx ctx'"
    "fd_fires ctx' a = fd_fires ctx a" "fd_latches ctx' a = fd_latches ctx a" "recovery_event ctx' a t = recovery_event ctx a t"
    "fd_safe_mode ctx' = fd_safe_mode ctx"
proof -
  obtain q where "ctx' = ctx\<lparr>fd_fifo := q\<rparr>" using enqueue_spec(3) [OF assms(1,2)] unfolding ctx'_def by blast
  then show "fd_occurrences ctx' = fd_occurrences ctx" "fd_confirmed ctx' = fd_confirmed ctx" "fd_same_policy ctx ctx'"
    "fd_fires ctx' a = fd_fires ctx a" "fd_latches ctx' a = fd_latches ctx a" "recovery_event ctx' a t = recovery_event ctx a t"
    "fd_safe_mode ctx' = fd_safe_mode ctx"
    by (simp_all add: fd_same_policy_def fd_fires_def fd_latches_def recovery_event_def)
qed

lemma anomaly_then_observe:
  fixes now :: u32 and sev :: migris_pus5_severity_t and eid :: u16
  assumes inv: "fd_inv ctx" "mm_inv mgr" and a: "anom_index a < MIGRIS_FDIR_ANOMALY_COUNT"
    and len: "length aux \<le> MIGRIS_FDIR_EVENT_AUX_MAX"
  defines "st \<equiv> fdir_observe fdir_sink_report (snd (fdir_enqueue ctx now sev eid aux), mgr) a now"
  shows "fd_queue (fst st) = enq (fd_queue ctx) (fd_event now sev eid aux # fd_reaction (ctx, mgr) a now)"
    and "snd st = (if fd_fires ctx a \<and> mode_edge mgr (mm_current mgr) (fd_safe_mode ctx) then mm_moved mgr (fd_safe_mode ctx) else mgr)"
    and "fd_inv (fst st)" "fd_same_policy ctx (fst st)"
    and "fd_occurrences (fst st) = (fd_occurrences ctx)[anom_index a := sat_inc (fd_occurrences ctx ! anom_index a)]"
    and "fd_confirmed (fst st) = (if fd_latches ctx a then (fd_confirmed ctx)[anom_index a := True] else fd_confirmed ctx)"
proof -
  note e = enqueue_spec [OF inv(1) len, of now sev eid]
  note k = enqueue_fifo_only [OF inv(1) len, of now sev eid]
  note o = observe_spec [OF e(2) inv(2) a, of now, folded st_def]
  show "fd_queue (fst st) = enq (fd_queue ctx) (fd_event now sev eid aux # fd_reaction (ctx, mgr) a now)"
    unfolding o(1) e(1) k enq_enq fd_reaction_def by simp
  show "snd st = (if fd_fires ctx a \<and> mode_edge mgr (mm_current mgr) (fd_safe_mode ctx) then mm_moved mgr (fd_safe_mode ctx) else mgr)"
    unfolding o(2) k ..
  show "fd_inv (fst st)" by (rule o(3))
  show "fd_same_policy ctx (fst st)" using o(4) k(3) by (simp add: fd_same_policy_def)
  show "fd_occurrences (fst st) = (fd_occurrences ctx)[anom_index a := sat_inc (fd_occurrences ctx ! anom_index a)]"
    unfolding o(5) k ..
  show "fd_confirmed (fst st) = (if fd_latches ctx a then (fd_confirmed ctx)[anom_index a := True] else fd_confirmed ctx)"
    unfolding o(6) k ..
qed

section \<open>Runs\<close>

datatype fdir_act =
    Anomaly migris_fdir_anomaly_t u32 u32
  | SinkEvent u32 migris_pus5_severity_t u16 bytes
  | Drain u16 u16 migris_pus5_ctx_t nat
  | SetEnabled bool
  | ModeRequest u8 u32
  | ModeRestore bytes

fun fdir_do :: "fdir_act \<Rightarrow> fdir_state \<Rightarrow> fdir_state" where
  "fdir_do (Anomaly a now detail) st = snd (migris_fdir_report_anomaly st a now detail)"
| "fdir_do (SinkEvent now severity event_id aux) st = snd (fdir_sink_report st now severity event_id aux)"
| "fdir_do (Drain apid seq p5 cap) st = (fst (snd (migris_fdir_drain (fst st) apid seq p5 cap)), snd st)"
| "fdir_do (SetEnabled b) st = (migris_fdir_set_enabled (fst st) b, snd st)"
| "fdir_do (ModeRequest target now) st = snd (migris_mode_request fdir_sink_report st target now)"
| "fdir_do (ModeRestore img) st = (fst st, snd (migris_mode_deserialize_current (snd st) img))"

fun act_anomaly :: "fdir_act \<Rightarrow> migris_fdir_anomaly_t option" where
  "act_anomaly (Anomaly a now detail) = (if anom_index a < 2 then Some a else None)"
| "act_anomaly (SinkEvent now severity event_id aux) =
    (if event_id = MIGRIS_PUS5_EVT_TC_REJECTED then Some ANOM_TC_REJECTED
     else if event_id = MIGRIS_PUS5_EVT_RX_OVERFLOW then Some ANOM_RX_OVERFLOW
     else None)"
| "act_anomaly act = None"

lemma act_anomaly_sink [simp]: "act_anomaly (SinkEvent now severity event_id aux) = fdir_event_anomaly event_id"
  by (simp add: fdir_event_anomaly_def)

declare act_anomaly.simps(2) [simp del]

text \<open>
  The events a step really put in the queue, read off the queue itself (a drain only removes), and
  the runs of the FDIR and mode machinery with all the events they queued.
\<close>

definition act_queued :: "fdir_act \<Rightarrow> fdir_state \<Rightarrow> migris_fdir_event_t list" where
  "act_queued act st = drop (length (fd_queue (fst st))) (fd_queue (fst (fdir_do act st)))"

inductive fdir_trace :: "fdir_state \<Rightarrow> fdir_act list \<Rightarrow> migris_fdir_event_t list \<Rightarrow> fdir_state \<Rightarrow> bool" where
  fdir_trace_start: "fdir_trace st0 [] [] st0"
| fdir_trace_step: "fdir_trace st0 acts queued st \<Longrightarrow>
    fdir_trace st0 (acts @ [act]) (queued @ act_queued act st) (fdir_do act st)"

inductive_cases fdir_trace_NilE: "fdir_trace st0 [] queued st"

lemma event_anomaly_index: "fdir_event_anomaly eid = Some a \<Longrightarrow> anom_index a < MIGRIS_FDIR_ANOMALY_COUNT"
  by (auto simp: fdir_event_anomaly_def fsw_const split: if_splits)

lemma fifo_only_inv:
  assumes "fd_inv ctx" "ef_inv fifo" "set (ef_list fifo) \<subseteq> set (fd_queue ctx)"
  shows "fd_inv (ctx\<lparr>fd_fifo := fifo\<rparr>)"
  using assms by (auto simp: fd_inv_def fd_queue_def)

lemma drain_fifo:
  assumes "fd_inv ctx"
  shows "\<exists>fifo. fst (snd (migris_fdir_drain ctx apid seq p5 cap)) = ctx\<lparr>fd_fifo := fifo\<rparr> \<and> ef_inv fifo
    \<and> set (ef_list fifo) \<subseteq> set (fd_queue ctx) \<and> length (ef_list fifo) \<le> length (fd_queue ctx)"
proof -
  have inv: "ef_inv (fd_fifo ctx)" using assms by (simp add: fd_inv_def)
  have sub: "set (ef_list (snd (migris_event_fifo_pop (fd_fifo ctx)))) \<subseteq> set (fd_queue ctx)
      \<and> length (ef_list (snd (migris_event_fifo_pop (fd_fifo ctx)))) \<le> length (fd_queue ctx)"
    using ef_pop_spec(1,2) [OF inv] by (cases "ef_list (fd_fifo ctx)") (auto simp: fd_queue_def)
  have "fst (snd (migris_fdir_drain ctx apid seq p5 cap)) = ctx
      \<or> fst (snd (migris_fdir_drain ctx apid seq p5 cap)) = ctx\<lparr>fd_fifo := snd (migris_event_fifo_pop (fd_fifo ctx))\<rparr>"
    by (auto simp: migris_fdir_drain_def Let_def split: prod.splits option.splits)
  then show ?thesis
  proof
    assume "fst (snd (migris_fdir_drain ctx apid seq p5 cap)) = ctx"
    then show ?thesis using inv by (intro exI [of _ "fd_fifo ctx"]) (simp add: fd_queue_def)
  qed (use ef_pop_spec(3) [OF inv] sub in blast)
qed

text \<open>
  One step: the invariants and the policy survive, only a reported anomaly is counted and
  latched, and the mode moves along a declared edge or is restored.
\<close>

lemma report_as_observe:
  assumes "anomaly_event a detail = Some (sev, eid, aux)"
  shows "snd (migris_fdir_report_anomaly st a now detail) =
    fdir_observe fdir_sink_report (snd (fdir_enqueue (fst st) now sev eid aux), snd st) a now"
    and "length aux \<le> MIGRIS_FDIR_EVENT_AUX_MAX" "anom_index a < MIGRIS_FDIR_ANOMALY_COUNT"
  using assms
  by (auto simp: migris_fdir_report_anomaly_def fsw_const be32_def elim: anomaly_event.elims split: prod.split)

lemma oversized_enqueue:
  "MIGRIS_FDIR_EVENT_AUX_MAX < length aux \<Longrightarrow> snd (fdir_enqueue ctx now sev eid aux) = ctx"
  by (simp add: fdir_enqueue_def)

lemma fdir_step_effect:
  fixes act :: fdir_act
  assumes inv: "fd_inv ctx" "mm_inv mgr"
  defines "st \<equiv> fdir_do act (ctx, mgr)"
  shows "fd_inv (fst st)" and "mm_inv (snd st)"
    and "fd_thresholds (fst st) = fd_thresholds ctx"
    and "mm_declared (snd st) = mm_declared mgr"
    and "fd_occurrences (fst st) = (case act_anomaly act of None \<Rightarrow> fd_occurrences ctx
       | Some a \<Rightarrow> (fd_occurrences ctx)[anom_index a := sat_inc (fd_occurrences ctx ! anom_index a)])"
    and "fd_confirmed (fst st) = (case act_anomaly act of None \<Rightarrow> fd_confirmed ctx
       | Some a \<Rightarrow> if fd_latches ctx a then (fd_confirmed ctx)[anom_index a := True] else fd_confirmed ctx)"
    and "mm_current (snd st) = mm_current mgr \<or> mode_edge mgr (mm_current mgr) (mm_current (snd st))
       \<or> (\<exists>img. act = ModeRestore img)"
    and "fd_mode (fst st) = fd_mode ctx" "fd_safe_mode (fst st) = fd_safe_mode ctx"
    and "fd_recovery_enabled (fst st) = (case act of SetEnabled b \<Rightarrow> b | _ \<Rightarrow> fd_recovery_enabled ctx)"
proof -
  let ?G = "fd_inv (fst st) \<and> mm_inv (snd st) \<and> fd_thresholds (fst st) = fd_thresholds ctx
    \<and> mm_declared (snd st) = mm_declared mgr
    \<and> fd_occurrences (fst st) = (case act_anomaly act of None \<Rightarrow> fd_occurrences ctx
       | Some a \<Rightarrow> (fd_occurrences ctx)[anom_index a := sat_inc (fd_occurrences ctx ! anom_index a)])
    \<and> fd_confirmed (fst st) = (case act_anomaly act of None \<Rightarrow> fd_confirmed ctx
       | Some a \<Rightarrow> if fd_latches ctx a then (fd_confirmed ctx)[anom_index a := True] else fd_confirmed ctx)
    \<and> (mm_current (snd st) = mm_current mgr \<or> mode_edge mgr (mm_current mgr) (mm_current (snd st))
       \<or> (\<exists>img. act = ModeRestore img))
    \<and> fd_mode (fst st) = fd_mode ctx \<and> fd_safe_mode (fst st) = fd_safe_mode ctx
    \<and> fd_recovery_enabled (fst st) = (case act of SetEnabled b \<Rightarrow> b | _ \<Rightarrow> fd_recovery_enabled ctx)"
  have obs: ?G if st: "st = fdir_observe fdir_sink_report (ctx1, mgr) a now" and act: "act_anomaly act = Some a"
    and a: "anom_index a < MIGRIS_FDIR_ANOMALY_COUNT" and c: "ctx1 = ctx \<or> (\<exists>now sev eid aux. length aux \<le> MIGRIS_FDIR_EVENT_AUX_MAX
       \<and> ctx1 = snd (fdir_enqueue ctx now sev eid aux))" for ctx1 a now
  proof -
    have c1: "fd_inv ctx1" "fd_thresholds ctx1 = fd_thresholds ctx" "fd_occurrences ctx1 = fd_occurrences ctx"
      "fd_confirmed ctx1 = fd_confirmed ctx" "fd_latches ctx1 a = fd_latches ctx a" "fd_same_policy ctx ctx1"
      using c inv(1) enqueue_spec(2) [OF inv(1)] enqueue_fifo_only [OF inv(1)] by (auto simp: fd_same_policy_def)
    note o = observe_spec [OF c1(1) inv(2) a, of now, folded st]
    have on: "(case act of SetEnabled b \<Rightarrow> b | _ \<Rightarrow> fd_recovery_enabled ctx) = fd_recovery_enabled ctx"
      using act by (cases act) simp_all
    show ?thesis
      using o(3-6) c1(6) inv(2) unfolding o(2) on by (auto simp: act c1 fd_same_policy_def mm_moved_inv edge_declared)
  qed
  have ?G
  proof (cases act)
    case (Anomaly a now detail)
    show ?thesis
    proof (cases "anomaly_event a detail")
      case None
      then have "\<not> anom_index a < 2" by (cases a) auto
      with None inv show ?thesis by (simp add: st_def Anomaly migris_fdir_report_anomaly_def)
    next
      case (Some p)
      obtain sev eid aux where p: "p = (sev, eid, aux)" by (metis prod_cases3)
      note r = report_as_observe [OF Some [unfolded p]]
      let ?c = "snd (fdir_enqueue ctx now sev eid aux)"
      have c: "?c = ctx \<or> (\<exists>now sev eid aux. length aux \<le> MIGRIS_FDIR_EVENT_AUX_MAX \<and> ?c = snd (fdir_enqueue ctx now sev eid aux))"
        using r(2) by blast
      show ?thesis
        by (rule obs [of ?c a now, OF _ _ r(3) c])
          (use r(1) r(3) in \<open>simp_all add: st_def Anomaly fsw_const\<close>)
    qed
  next
    case (SinkEvent now sev eid aux)
    let ?c = "snd (fdir_enqueue ctx now sev eid aux)"
    have c: "?c = ctx \<or> (\<exists>now sev eid aux'. length aux' \<le> MIGRIS_FDIR_EVENT_AUX_MAX \<and> ?c = snd (fdir_enqueue ctx now sev eid aux'))"
      using oversized_enqueue [of aux ctx now sev eid] not_less by blast
    show ?thesis
    proof (cases "fdir_event_anomaly eid")
      case None
      then have st: "st = (?c, mgr)" by (simp add: st_def SinkEvent sink_report_quiet)
      have "fd_inv ?c \<and> fd_same_policy ctx ?c \<and> fd_occurrences ?c = fd_occurrences ctx \<and> fd_confirmed ?c = fd_confirmed ctx"
        using oversized_enqueue [of aux ctx now sev eid] enqueue_spec(2) [OF inv(1), of aux now sev eid]
          enqueue_fifo_only(1-3) [OF inv(1), of aux now sev eid] inv(1)
        by (cases "length aux \<le> MIGRIS_FDIR_EVENT_AUX_MAX") (simp_all add: fd_same_policy_def)
      with None inv(2) show ?thesis by (simp add: st SinkEvent fd_same_policy_def)
    next
      case (Some a)
      show ?thesis
        by (rule obs [of ?c a now, OF _ _ event_anomaly_index [OF Some] c])
          (simp_all add: st_def SinkEvent sink_report_anomaly [OF Some] Some)
    qed
  next
    case (Drain apid seq p5 cap)
    obtain fifo where f: "fst (snd (migris_fdir_drain ctx apid seq p5 cap)) = ctx\<lparr>fd_fifo := fifo\<rparr>" "ef_inv fifo"
      "set (ef_list fifo) \<subseteq> set (fd_queue ctx)" using drain_fifo [OF inv(1)] by blast
    with fifo_only_inv [OF inv(1) f(2,3)] inv show ?thesis by (simp add: st_def Drain)
  next
    case (SetEnabled b)
    with inv show ?thesis by (simp add: st_def migris_fdir_set_enabled_def fd_inv_def fd_queue_def)
  next
    case (ModeRequest target now)
    note r = request_spec [OF inv, of target now]
    have "snd st = (if mode_edge mgr (mm_current mgr) target then mm_moved mgr target else mgr)"
      using r(2) by (simp add: st_def ModeRequest)
    with r(3-6) inv(2) show ?thesis
      by (auto simp: st_def ModeRequest fd_same_policy_def mm_moved_inv edge_declared)
  next
    case (ModeRestore img)
    with inv mode_restore [OF inv(2), of img] show ?thesis by (simp add: st_def)
  qed
  then show "fd_inv (fst st)" "mm_inv (snd st)" "fd_thresholds (fst st) = fd_thresholds ctx"
    "mm_declared (snd st) = mm_declared mgr"
    "fd_occurrences (fst st) = (case act_anomaly act of None \<Rightarrow> fd_occurrences ctx
       | Some a \<Rightarrow> (fd_occurrences ctx)[anom_index a := sat_inc (fd_occurrences ctx ! anom_index a)])"
    "fd_confirmed (fst st) = (case act_anomaly act of None \<Rightarrow> fd_confirmed ctx
       | Some a \<Rightarrow> if fd_latches ctx a then (fd_confirmed ctx)[anom_index a := True] else fd_confirmed ctx)"
    "mm_current (snd st) = mm_current mgr \<or> mode_edge mgr (mm_current mgr) (mm_current (snd st))
       \<or> (\<exists>img. act = ModeRestore img)"
    "fd_mode (fst st) = fd_mode ctx" "fd_safe_mode (fst st) = fd_safe_mode ctx"
    "fd_recovery_enabled (fst st) = (case act of SetEnabled b \<Rightarrow> b | _ \<Rightarrow> fd_recovery_enabled ctx)"
    by blast+
qed

text \<open>Whether recovery is commissioned after a run: armed commissioned, then as last switched.\<close>

definition commissioned :: "fdir_act list \<Rightarrow> bool" where
  "commissioned acts = fold (\<lambda>act on. case act of SetEnabled b \<Rightarrow> b | _ \<Rightarrow> on) acts True"

lemma commissioned_snoc: "commissioned (acts @ [act]) = (case act of SetEnabled b \<Rightarrow> b | _ \<Rightarrow> commissioned acts)"
  by (cases act) (simp_all add: commissioned_def)

lemma trace_invariants:
  assumes "fdir_trace st0 acts queued st" "fd_inv (fst st0)" "mm_inv (snd st0)"
  shows "fd_inv (fst st) \<and> mm_inv (snd st) \<and> mm_declared (snd st) = mm_declared (snd st0)
    \<and> fd_thresholds (fst st) = fd_thresholds (fst st0)
    \<and> fd_mode (fst st) = fd_mode (fst st0) \<and> fd_safe_mode (fst st) = fd_safe_mode (fst st0)
    \<and> (fd_recovery_enabled (fst st0) \<longrightarrow> fd_recovery_enabled (fst st) = commissioned acts)"
  using assms
proof (induction rule: fdir_trace.induct)
  case (fdir_trace_step st0 acts queued st act)
  then obtain ctx mgr where st: "st = (ctx, mgr)" "fd_inv ctx" "mm_inv mgr" by (cases st) auto
  from fdir_step_effect(1-4,8-10) [OF st(2,3), of act] fdir_trace_step show ?case
    by (simp add: st(1) commissioned_snoc split: fdir_act.split)
qed (simp add: commissioned_def)

section \<open>The confirmation latch\<close>

definition reports_of :: "migris_fdir_anomaly_t \<Rightarrow> fdir_act list \<Rightarrow> nat" where
  "reports_of a acts = length (filter (\<lambda>act. act_anomaly act = Some a) acts)"

lemma reports_of_snoc: "reports_of a (acts @ [act]) = reports_of a acts + (if act_anomaly act = Some a then 1 else 0)"
  by (simp add: reports_of_def)

lemma act_anomaly_index: "act_anomaly act = Some b \<Longrightarrow> anom_index b < MIGRIS_FDIR_ANOMALY_COUNT"
  by (cases act) (auto simp: MIGRIS_FDIR_ANOMALY_COUNT_def dest: event_anomaly_index split: if_splits)

lemma anom_index_inj: "anom_index a = anom_index b \<longleftrightarrow> a = b"
  by (cases a; cases b) auto

lemma sat_inc_of_nat: "sat_inc (of_nat (min n 65535)) = of_nat (min (Suc n) 65535)"
proof (cases "n < 65535")
  case True
  then have "unat (of_nat n :: u16) = n" by (simp add: unat_of_nat_u16)
  with True have "(of_nat n :: u16) < 0xFFFF" by (simp add: word_less_nat_alt)
  with True show ?thesis by (simp add: sat_inc_def min_def algebra_simps)
next
  case False
  then show ?thesis by (simp add: sat_inc_def min_def)
qed

lemma threshold_reached: "T \<le> (of_nat (min n 65535) :: u16) \<longleftrightarrow> unat T \<le> n"
proof -
  have "unat T < 2 ^ LENGTH(16)" by (rule unsigned_less)
  then have "unat T \<le> 65535" by simp
  moreover have "unat (of_nat (min n 65535) :: u16) = min n 65535" by (simp add: unat_of_nat_u16)
  ultimately show ?thesis by (simp add: word_le_nat_alt)
qed

definition fd_armed :: "migris_fdir_ctx_t \<Rightarrow> bool" where
  "fd_armed ctx \<longleftrightarrow> fd_inv ctx \<and> (\<forall>i < MIGRIS_FDIR_ANOMALY_COUNT. fd_occurrences ctx ! i = 0 \<and> \<not> fd_confirmed ctx ! i)"

definition recovery_of :: "migris_fdir_anomaly_t \<Rightarrow> migris_fdir_event_t \<Rightarrow> bool" where
  "recovery_of a ev \<longleftrightarrow> ev_event_id ev = MIGRIS_PUS5_EVT_FDIR_RECOVERY \<and> ev_aux ev ! 0 = of_nat (anom_index a)"

lemma reaction_recoveries:
  assumes "anom_index a < MIGRIS_FDIR_ANOMALY_COUNT" "anom_index b < MIGRIS_FDIR_ANOMALY_COUNT" "\<forall>ev \<in> set pre. \<not> recovery_of a ev"
  shows "length (filter (recovery_of a) (take n (pre @ fd_reaction (ctx, mgr) b now))) \<le> (if b = a \<and> fd_fires ctx a then 1 else 0)"
proof -
  have le: "length (filter (recovery_of a) (take n xs)) \<le> length (filter (recovery_of a) xs)" for xs
    by (metis append_take_drop_id filter_append length_append le_add1)
  have "recovery_of a (recovery_event ctx b now) \<longleftrightarrow> a = b"
    using assms(1,2)
    by (cases a; cases b) (simp_all add: recovery_of_def recovery_event_def fd_event_def fsw_const upt_rec)
  moreover have "\<not> recovery_of a (mode_event mgr t now)" for t
    by (simp add: recovery_of_def mode_event_def fd_event_def fsw_const)
  moreover have "filter (recovery_of a) pre = []" using assms(3) by (simp add: filter_empty_conv)
  ultimately have "length (filter (recovery_of a) (pre @ fd_reaction (ctx, mgr) b now)) \<le> (if b = a \<and> fd_fires ctx a then 1 else 0)"
    by (auto simp: fd_reaction_def)
  with le show ?thesis by (rule order_trans)
qed

lemma drop_enq: "drop (length q) (enq q evs) = take (MIGRIS_FDIR_EVENT_FIFO_CAPACITY - length q) evs"
  by (simp add: enq_def)

lemma sink_event_recoveries:
  assumes inv: "fd_inv ctx" "mm_inv mgr" and a: "anom_index a < MIGRIS_FDIR_ANOMALY_COUNT" and own: "eid \<noteq> MIGRIS_PUS5_EVT_FDIR_RECOVERY"
  shows "length (filter (recovery_of a) (act_queued (SinkEvent now sev eid aux) (ctx, mgr)))
    \<le> (if fdir_event_anomaly eid = Some a \<and> fd_fires ctx a then 1 else 0)"
proof -
  let ?c = "snd (fdir_enqueue ctx now sev eid aux)"
  let ?pre = "if length aux \<le> MIGRIS_FDIR_EVENT_AUX_MAX then [fd_event now sev eid aux] else []"
  have pre: "\<forall>ev \<in> set ?pre. \<not> recovery_of a ev" using own by (simp add: recovery_of_def fd_event_def)
  have c: "fd_queue ?c = enq (fd_queue ctx) ?pre"
    using enqueue_spec(1) [OF inv(1)] oversized_enqueue not_less by auto
  show ?thesis
  proof (cases "fdir_event_anomaly eid")
    case None
    have "length (filter (recovery_of a) (take n ?pre)) = 0" for n
      using pre by (auto simp: filter_empty_conv dest: in_set_takeD)
    then show ?thesis unfolding act_queued_def by (simp add: sink_report_quiet None c drop_enq)
  next
    case (Some b)
    note b = event_anomaly_index [OF Some]
    have q: "fd_queue (fst (fdir_do (SinkEvent now sev eid aux) (ctx, mgr)))
        = enq (fd_queue ctx) (?pre @ fd_reaction (ctx, mgr) b now)"
    proof (cases "length aux \<le> MIGRIS_FDIR_EVENT_AUX_MAX")
      case True
      then show ?thesis using anomaly_then_observe(1) [OF inv b True, of now sev eid] by (simp add: sink_report_anomaly [OF Some])
    next
      case False
      then have "?c = ctx" by (simp add: oversized_enqueue)
      with False show ?thesis
        using observe_spec(1) [OF inv b, of now] by (simp add: sink_report_anomaly [OF Some] fd_reaction_def)
    qed
    show ?thesis unfolding act_queued_def fst_conv q drop_enq Some option.inject by (rule reaction_recoveries [OF a b pre])
  qed
qed

lemma act_recoveries:
  assumes inv: "fd_inv ctx" "mm_inv mgr" and a: "anom_index a < MIGRIS_FDIR_ANOMALY_COUNT"
    and own: "\<forall>now sev aux. act \<noteq> SinkEvent now sev MIGRIS_PUS5_EVT_FDIR_RECOVERY aux"
  shows "length (filter (recovery_of a) (act_queued act (ctx, mgr))) \<le> (if act_anomaly act = Some a \<and> fd_fires ctx a then 1 else 0)"
proof (cases act)
  case (Anomaly b now detail)
  show ?thesis
  proof (cases "anomaly_event b detail")
    case None
    then show ?thesis by (simp add: act_queued_def Anomaly migris_fdir_report_anomaly_def)
  next
    case (Some p)
    obtain sev eid aux where p: "p = (sev, eid, aux)" by (metis prod_cases3)
    note r = report_as_observe [OF Some [unfolded p]]
    have q: "fd_queue (fst (fdir_do act (ctx, mgr))) = enq (fd_queue ctx) ([fd_event now sev eid aux] @ fd_reaction (ctx, mgr) b now)"
      using anomaly_then_observe(1) [OF inv r(3,2), of now sev eid] r(1) [of "(ctx, mgr)" now] by (simp add: Anomaly)
    have "eid \<noteq> MIGRIS_PUS5_EVT_FDIR_RECOVERY" using Some p by (auto simp: fsw_const elim: anomaly_event.elims)
    then have pre: "\<forall>ev \<in> set [fd_event now sev eid aux]. \<not> recovery_of a ev" by (simp add: recovery_of_def fd_event_def)
    show ?thesis
      using reaction_recoveries [OF a r(3) pre] r(3) unfolding act_queued_def fst_conv q drop_enq
      by (simp add: Anomaly MIGRIS_FDIR_ANOMALY_COUNT_def)
  qed
next
  case (SinkEvent now sev eid aux)
  with sink_event_recoveries [OF inv a, of eid now sev aux] own show ?thesis by simp
next
  case (Drain apid seq p5 cap)
  obtain fifo where "fst (snd (migris_fdir_drain ctx apid seq p5 cap)) = ctx\<lparr>fd_fifo := fifo\<rparr>"
    "length (ef_list fifo) \<le> length (fd_queue ctx)" using drain_fifo [OF inv(1)] by blast
  then show ?thesis by (simp add: act_queued_def Drain fd_queue_def)
next
  case (SetEnabled b)
  then show ?thesis by (simp add: act_queued_def migris_fdir_set_enabled_def fd_queue_def)
next
  case (ModeRequest target now)
  have "length (filter (recovery_of a) (take n [mode_event mgr target now])) = 0" for n
    by (cases n) (simp_all add: recovery_of_def mode_event_def fd_event_def fsw_const)
  with request_spec(1) [OF inv, of target now] show ?thesis by (simp add: act_queued_def ModeRequest drop_enq)
next
  case (ModeRestore img)
  then show ?thesis by (simp add: act_queued_def)
qed

lemma latch_count:
  assumes "fdir_trace st0 acts queued st" "fd_armed (fst st0)" "mm_inv (snd st0)"
    and a: "anom_index a < MIGRIS_FDIR_ANOMALY_COUNT"
  defines "T \<equiv> fd_thresholds (fst st0) ! anom_index a"
  shows "fd_occurrences (fst st) ! anom_index a = of_nat (min (reports_of a acts) 65535)
    \<and> (fd_confirmed (fst st) ! anom_index a \<longleftrightarrow> T \<noteq> 0 \<and> unat T \<le> reports_of a acts)
    \<and> ((\<forall>now sev aux. SinkEvent now sev MIGRIS_PUS5_EVT_FDIR_RECOVERY aux \<notin> set acts) \<longrightarrow>
        length (filter (recovery_of a) queued) \<le> (if fd_confirmed (fst st) ! anom_index a then 1 else 0))"
  using assms(1-3) unfolding T_def
proof (induction rule: fdir_trace.induct)
  case (fdir_trace_start st0)
  have "T = 0 \<or> 0 < unat T" for T :: u16 by (simp add: unat_gt_0)
  with fdir_trace_start show ?case using a by (simp add: fd_armed_def reports_of_def)
next
  case (fdir_trace_step st0 acts queued st act)
  let ?i = "anom_index a" and ?T = "fd_thresholds (fst st0) ! anom_index a" and ?n = "reports_of a acts"
  from fdir_trace_step have inv0: "fd_inv (fst st0)" "mm_inv (snd st0)" by (simp_all add: fd_armed_def)
  note tr = trace_invariants [OF fdir_trace_step(1) inv0]
  obtain ctx mgr where st: "st = (ctx, mgr)" by force
  from tr have inv: "fd_inv ctx" "mm_inv mgr" and thr: "fd_thresholds ctx ! ?i = ?T" by (simp_all add: st)
  note IH0 = fdir_trace_step.IH [OF fdir_trace_step.prems, unfolded st fst_conv]
  note IH = conjunct1 [OF IH0] conjunct1 [OF conjunct2 [OF IH0]] conjunct2 [OF conjunct2 [OF IH0]]
  note eff = fdir_step_effect(5,6) [OF inv, of act]
  have len: "?i < length (fd_occurrences ctx)" "?i < length (fd_confirmed ctx)"
    using inv(1) a by (simp_all add: fd_inv_def)
  let ?own = "\<lambda>acts. \<forall>now sev aux. SinkEvent now sev MIGRIS_PUS5_EVT_FDIR_RECOVERY aux \<notin> set acts"
  have own: "?own acts" "\<forall>now sev aux. act \<noteq> SinkEvent now sev MIGRIS_PUS5_EVT_FDIR_RECOVERY aux" if "?own (acts @ [act])"
    using that by auto
  show ?case
  proof (cases "act_anomaly act = Some a")
    case True
    have occ: "fd_occurrences (fst (fdir_do act st)) ! ?i = of_nat (min (Suc ?n) 65535)"
      using len by (simp only: st eff True) (simp add: IH(1) sat_inc_of_nat)
    have lt: "fd_latches ctx a \<longleftrightarrow> \<not> fd_confirmed ctx ! ?i \<and> ?T \<noteq> 0 \<and> unat ?T \<le> Suc ?n"
      unfolding fd_latches_def Let_def thr IH(1) sat_inc_of_nat threshold_reached ..
    have conf: "fd_confirmed (fst (fdir_do act st)) ! ?i \<longleftrightarrow> ?T \<noteq> 0 \<and> unat ?T \<le> Suc ?n"
      using len by (simp add: st eff True) (auto simp: lt IH(2))
    have "length (filter (recovery_of a) (queued @ act_queued act st)) \<le> (if fd_confirmed (fst (fdir_do act st)) ! ?i then 1 else 0)"
      if w: "?own (acts @ [act])"
    proof -
      have "length (filter (recovery_of a) queued) \<le> (if fd_confirmed ctx ! ?i then 1 else 0)" using IH(3) own(1) [OF w] by blast
      moreover have "length (filter (recovery_of a) (act_queued act st)) \<le> (if fd_fires ctx a then 1 else 0)"
        using act_recoveries [OF inv a own(2) [OF w]] True by (simp add: st)
      moreover have "fd_fires ctx a \<Longrightarrow> \<not> fd_confirmed ctx ! ?i \<and> fd_confirmed (fst (fdir_do act st)) ! ?i"
        using lt by (simp add: fd_fires_def conf)
      moreover have "fd_confirmed ctx ! ?i \<Longrightarrow> fd_confirmed (fst (fdir_do act st)) ! ?i" using IH(2) conf by auto
      ultimately show ?thesis by (auto split: if_splits)
    qed
    with occ conf show ?thesis by (simp add: reports_of_snoc True)
  next
    case False
    have "fd_occurrences (fst (fdir_do act st)) ! ?i = fd_occurrences ctx ! ?i"
      "fd_confirmed (fst (fdir_do act st)) ! ?i = fd_confirmed ctx ! ?i"
      using False by (auto simp: st eff anom_index_inj split: option.split)
    moreover have "length (filter (recovery_of a) (act_queued act st)) = 0" if "?own (acts @ [act])"
      using act_recoveries [OF inv a own(2) [OF that]] False by (simp add: st)
    ultimately show ?thesis using IH own(1) False by (simp add: reports_of_snoc)
  qed
qed

text \<open>The reports of an anomaly, typed or through the sink, with the event each of them announces.\<close>

fun act_report :: "fdir_act \<Rightarrow> (migris_fdir_anomaly_t \<times> u32 \<times> migris_fdir_event_t) option" where
  "act_report (Anomaly a now detail) =
    (case anomaly_event a detail of None \<Rightarrow> None
     | Some (severity, event_id, aux) \<Rightarrow> Some (a, now, fd_event now severity event_id aux))"
| "act_report (SinkEvent now severity event_id aux) =
    (if MIGRIS_FDIR_EVENT_AUX_MAX < length aux then None
     else case act_anomaly (SinkEvent now severity event_id aux) of None \<Rightarrow> None
          | Some a \<Rightarrow> Some (a, now, fd_event now severity event_id aux))"
| "act_report act = None"

lemma act_report_effect:
  assumes inv: "fd_inv ctx" "mm_inv mgr" and rep: "act_report act = Some (a, now, ev)"
  defines "st \<equiv> fdir_do act (ctx, mgr)"
  shows "fd_queue (fst st) = enq (fd_queue ctx) (ev # fd_reaction (ctx, mgr) a now)"
    and "snd st = (if fd_fires ctx a \<and> mode_edge mgr (mm_current mgr) (fd_safe_mode ctx) then mm_moved mgr (fd_safe_mode ctx) else mgr)"
    and "anom_index a < MIGRIS_FDIR_ANOMALY_COUNT"
proof -
  obtain sev eid aux where e: "st = fdir_observe fdir_sink_report (snd (fdir_enqueue ctx now sev eid aux), mgr) a now"
    "ev = fd_event now sev eid aux" "length aux \<le> MIGRIS_FDIR_EVENT_AUX_MAX" "anom_index a < MIGRIS_FDIR_ANOMALY_COUNT"
  proof (cases act)
    case (Anomaly b t detail)
    with rep obtain sev eid aux where ae: "anomaly_event b detail = Some (sev, eid, aux)" and eq: "b = a" "t = now" "ev = fd_event now sev eid aux"
      by (auto split: option.splits)
    from report_as_observe [OF ae] that [of sev eid aux] show thesis by (simp add: st_def Anomaly eq)
  next
    case (SinkEvent t sev eid aux)
    with rep have eq: "t = now" "ev = fd_event now sev eid aux" "fdir_event_anomaly eid = Some a" "length aux \<le> MIGRIS_FDIR_EVENT_AUX_MAX"
      by (auto split: option.splits if_splits)
    from that [of sev eid aux] event_anomaly_index [OF eq(3)] eq show thesis by (simp add: st_def SinkEvent sink_report_anomaly)
  qed (use rep in simp_all)
  note o = anomaly_then_observe [OF inv e(4,3), of now sev eid, folded e(1,2)]
  show "fd_queue (fst st) = enq (fd_queue ctx) (ev # fd_reaction (ctx, mgr) a now)" by (rule o(1))
  show "snd st = (if fd_fires ctx a \<and> mode_edge mgr (mm_current mgr) (fd_safe_mode ctx) then mm_moved mgr (fd_safe_mode ctx) else mgr)"
    by (rule o(2))
  show "anom_index a < MIGRIS_FDIR_ANOMALY_COUNT" by (rule e(4))
qed

lemma fires_on_threshold:
  assumes tr: "fdir_trace (ctx, mgr) acts queued (ctx', mgr')" "fd_armed ctx" "fd_recovery_enabled ctx" "mm_inv mgr"
    and a: "anom_index a < MIGRIS_FDIR_ANOMALY_COUNT"
  shows "fd_fires ctx' a \<longleftrightarrow> reports_of a acts + 1 = unat (fd_thresholds ctx ! anom_index a) \<and> commissioned acts \<and> fd_mode ctx"
    and "fd_fires ctx' a \<Longrightarrow> recovery_event ctx' a now = fd_event now SEV_HIGH MIGRIS_PUS5_EVT_FDIR_RECOVERY
      ([of_nat (anom_index a), fd_safe_mode ctx] @ be16 (of_nat (reports_of a acts + 1)))"
proof -
  let ?T = "fd_thresholds ctx ! anom_index a" and ?n = "reports_of a acts"
  have arm: "fd_armed (fst (ctx, mgr))" "mm_inv (snd (ctx, mgr))" using assms by simp_all
  note L = latch_count [OF tr(1) arm a, unfolded fst_conv]
  have pol: "fd_thresholds ctx' = fd_thresholds ctx" "fd_mode ctx' = fd_mode ctx" "fd_safe_mode ctx' = fd_safe_mode ctx"
    "fd_recovery_enabled ctx' = commissioned acts"
    using trace_invariants [OF tr(1)] arm tr(3) by (simp_all add: fd_armed_def)
  have occ: "sat_inc (fd_occurrences ctx' ! anom_index a) = of_nat (min (Suc ?n) 65535)" using L by (simp add: sat_inc_of_nat)
  have lt: "fd_latches ctx' a \<longleftrightarrow> \<not> (?T \<noteq> 0 \<and> unat ?T \<le> ?n) \<and> ?T \<noteq> 0 \<and> unat ?T \<le> Suc ?n"
    using L unfolding fd_latches_def Let_def pol occ threshold_reached by blast
  have "?T \<noteq> 0 \<longleftrightarrow> 0 < unat ?T" by (simp add: unat_gt_0)
  then have "fd_latches ctx' a \<longleftrightarrow> ?n + 1 = unat ?T" unfolding lt by arith
  then show f: "fd_fires ctx' a \<longleftrightarrow> ?n + 1 = unat ?T \<and> commissioned acts \<and> fd_mode ctx" by (auto simp: fd_fires_def pol)
  assume "fd_fires ctx' a"
  with f have "Suc ?n = unat ?T" by simp
  moreover have "unat ?T < 2 ^ LENGTH(16)" by (rule unsigned_less)
  ultimately have "min (Suc ?n) 65535 = ?n + 1" by simp
  then show "recovery_event ctx' a now = fd_event now SEV_HIGH MIGRIS_PUS5_EVT_FDIR_RECOVERY
      ([of_nat (anom_index a), fd_safe_mode ctx] @ be16 (of_nat (?n + 1)))"
    unfolding recovery_event_def occ pol by simp
qed

section \<open>Draining\<close>

lemma fdir_drain_spec:
  assumes inv: "fd_inv ctx" and p: "apid \<le> 0x7FF" "seq \<le> 0x3FFF" "52 \<le> cap"
  shows "fd_queue ctx = [] \<Longrightarrow> migris_fdir_drain ctx apid seq p5 cap = (Inr [], ctx, p5, seq)"
    and "fd_queue ctx = ev # evs \<Longrightarrow> \<exists>pkt ctx'. migris_fdir_drain ctx apid seq p5 cap =
        (Inr pkt, ctx', p5\<lparr>p5_msg_counter := bump (p5_msg_counter p5) (unat (ev_severity ev))\<rparr>, next_seq seq)
      \<and> fd_queue ctx' = evs \<and> fd_inv ctx' \<and> fd_same_policy ctx ctx'
      \<and> tm_burst apid seq pkt [tm_view_of apid seq 5 (of_nat (unat (ev_severity ev) + 1))
          (p5_msg_counter p5 ! unat (ev_severity ev)) 0 (ev_t_seconds ev)
          (be16 (ev_event_id ev) @ take (unat (ev_aux_len ev)) (ev_aux ev))] (next_seq seq)
      \<and> length pkt \<le> 28"
proof -
  have ef: "ef_inv (fd_fifo ctx)" using inv by (simp add: fd_inv_def)
  show "fd_queue ctx = [] \<Longrightarrow> migris_fdir_drain ctx apid seq p5 cap = (Inr [], ctx, p5, seq)"
    using ef_pop_spec(1) [OF ef] p by (simp add: migris_fdir_drain_def fd_queue_def fsw_const)
  assume q: "fd_queue ctx = ev # evs"
  then obtain fifo where pop: "migris_event_fifo_pop (fd_fifo ctx) = (Some ev, fifo)" "ef_list fifo = evs"
    using ef_pop_spec(2) [OF ef, of ev evs] by (cases "migris_event_fifo_pop (fd_fifo ctx)") (simp add: fd_queue_def)
  have fi: "ef_inv fifo" using ef_pop_spec(3) [OF ef] pop by simp
  have ev: "unat (ev_severity ev) \<le> 3" "length (ev_aux ev) = 8" using inv q by (simp_all add: fd_inv_def fsw_const)
  have "ef_ok ev" using ef q by (simp add: ef_inv_def fd_queue_def)
  then have al: "unat (ev_aux_len ev) \<le> 8" by (simp add: ef_ok_def fsw_const)
  let ?n = "unat (ev_aux_len ev)"
  have lt: "length (take ?n (ev_aux ev)) = ?n" using al ev by simp
  have "migris_pus5_build_event_report p5 apid seq now s eid (Some (ev_aux ev)) ?n d cap =
      migris_pus5_build_event_report p5 apid seq now s eid (Some (take ?n (ev_aux ev))) (length (take ?n (ev_aux ev))) d cap" for now s eid d
    unfolding lt by (simp add: migris_pus5_build_event_report_def Let_def)
  note same = this
  have l3: "length (take ?n (ev_aux ev)) \<le> 32" "20 + length (take ?n (ev_aux ev)) \<le> cap" using al p unfolding lt by simp_all
  obtain pkt where pkt: "migris_pus5_build_event_report p5 apid seq (ev_t_seconds ev) (unat (ev_severity ev)) (ev_event_id ev)
        (Some (ev_aux ev)) ?n 0 cap = (Inr pkt, p5\<lparr>p5_msg_counter := bump (p5_msg_counter p5) (unat (ev_severity ev))\<rparr>, next_seq seq)"
    and burst: "tm_burst apid seq pkt [tm_view_of apid seq 5 (of_nat (unat (ev_severity ev) + 1))
          (p5_msg_counter p5 ! unat (ev_severity ev)) 0 (ev_t_seconds ev) (be16 (ev_event_id ev) @ take ?n (ev_aux ev))] (next_seq seq)"
    and len: "length pkt = 20 + ?n"
    using build_event_report_ok [OF p(1,2) ev(1) l3, of p5 "ev_t_seconds ev" "ev_event_id ev" 0] unfolding same lt by blast
  have "migris_fdir_drain ctx apid seq p5 cap =
      (Inr pkt, ctx\<lparr>fd_fifo := fifo\<rparr>, p5\<lparr>p5_msg_counter := bump (p5_msg_counter p5) (unat (ev_severity ev))\<rparr>, next_seq seq)"
    using p pkt by (simp add: migris_fdir_drain_def pop fsw_const)
  moreover have "fd_queue (ctx\<lparr>fd_fifo := fifo\<rparr>) = evs" by (simp add: fd_queue_def pop)
  moreover have "fd_inv (ctx\<lparr>fd_fifo := fifo\<rparr>)"
    by (rule fifo_only_inv [OF inv fi]) (use q pop in auto)
  moreover have "fd_same_policy ctx (ctx\<lparr>fd_fifo := fifo\<rparr>)" by (simp add: fd_same_policy_def)
  moreover have len28: "length pkt \<le> 28" using len al by simp
  ultimately show "\<exists>pkt ctx'. migris_fdir_drain ctx apid seq p5 cap =
        (Inr pkt, ctx', p5\<lparr>p5_msg_counter := bump (p5_msg_counter p5) (unat (ev_severity ev))\<rparr>, next_seq seq)
      \<and> fd_queue ctx' = evs \<and> fd_inv ctx' \<and> fd_same_policy ctx ctx'
      \<and> tm_burst apid seq pkt [tm_view_of apid seq 5 (of_nat (unat (ev_severity ev) + 1))
          (p5_msg_counter p5 ! unat (ev_severity ev)) 0 (ev_t_seconds ev)
          (be16 (ev_event_id ev) @ take ?n (ev_aux ev))] (next_seq seq)
      \<and> length pkt \<le> 28"
    using burst len28 by (intro exI conjI)
qed

section \<open>Properties\<close>

definition mode_example :: "migris_mode_manager_t" where
  "mode_example = \<lparr>mm_defs = [\<lparr>md_id = 1, md_allowed_targets = 4\<rparr>, \<lparr>md_id = 2, md_allowed_targets = 2\<rparr>]
       @ replicate 6 \<lparr>md_id = 0, md_allowed_targets = 0\<rparr>,
     mm_count = 2, mm_current = 2, mm_sink = True, mm_generation = 0\<rparr>"

lemma mode_example_inv: "mm_inv mode_example"
proof -
  have "n < 32 \<Longrightarrow> bit ((2 :: u32) ^ n) t \<longleftrightarrow> t = n" for n t
    by (auto simp: bit_exp_iff)
  from this [of 2] this [of 1]
  have b: "bit (4 :: u32) t \<longleftrightarrow> t = 2" "bit (2 :: u32) t \<longleftrightarrow> t = 1" for t by simp_all
  show ?thesis by (simp add: mode_example_def mm_inv_def mm_declared_def fsw_const b del: bit_numeral_word_iff)
qed

definition fdir_example :: "migris_fdir_ctx_t" where
  "fdir_example = migris_fdir_init \<lparr>fd_fifo = ef_blank, fd_occurrences = [], fd_thresholds = [], fd_confirmed = [],
     fd_mode = False, fd_safe_mode = 0, fd_recovery_enabled = False\<rparr>"

lemma fdir_example_inv: "fd_inv fdir_example" "fd_queue fdir_example = []"
proof -
  have "migris_event_fifo_init ef_blank = ef_blank\<lparr>ef_dropped := 0\<rparr>"
    by (simp add: ef_blank_def migris_event_fifo_init_def)
  moreover have "ef_list (ef_blank\<lparr>ef_dropped := 0\<rparr>) = []" using ef_blank_inv(2) by (simp add: ef_list_def)
  moreover from this have "ef_inv (ef_blank\<lparr>ef_dropped := 0\<rparr>)" using ef_blank_inv(1) by (simp add: ef_inv_def)
  ultimately show "fd_inv fdir_example" "fd_queue fdir_example = []"
    by (simp_all add: fdir_example_def migris_fdir_init_def fd_inv_def fd_queue_def)
qed

lemma arm_armed:
  assumes "fd_inv ctx0" "migris_fdir_arm_recovery ctx0 mode safe confirms = (EVENT_FIFO_OK, ctx)"
  shows "fd_armed ctx" "fd_recovery_enabled ctx" "fd_mode ctx = mode" "fd_safe_mode ctx = safe"
proof -
  have len: "length (fold (\<lambda>c ts. ts[anom_index (cd_anomaly c) := cd_threshold c]) confirms ts) = length ts" for ts
    by (induction confirms arbitrary: ts) simp_all
  have "MIGRIS_FDIR_ANOMALY_COUNT = 2" by (simp add: fsw_const)
  then have "i < MIGRIS_FDIR_ANOMALY_COUNT \<Longrightarrow> i = 0 \<or> i = 1" for i by arith
  with assms show "fd_armed ctx"
    by (auto simp: migris_fdir_arm_recovery_def fd_armed_def fd_inv_def fd_queue_def len split: if_splits)
  show "fd_recovery_enabled ctx" "fd_mode ctx = mode" "fd_safe_mode ctx = safe"
    using assms(2) by (auto simp: migris_fdir_arm_recovery_def split: if_splits)
qed

text \<open>
  C22: after recovery is armed, and through any interleaving of anomaly reports (typed or through
  the sink), drains, commissioning switches and mode requests, the next report of an anomaly queues
  its own event and, exactly when it is the report that brings the count of that anomaly to the
  threshold while recovery is commissioned, also the recovery event, with the count, and the
  mode-change event of a declared transition to the safe mode, which the mode manager has then made;
  every other report queues nothing further and leaves the mode manager alone. So the whole run puts
  at most one recovery event of the anomaly in the queue (unless a client of the sink forges one):
  the latch cannot re-fire and the saturating counter cannot skip the threshold.
\<close>
theorem fdir_recovery_fires_once:
  assumes "migris_fdir_arm_recovery ctx0 mode safe confirms = (EVENT_FIFO_OK, ctx)" "fd_inv ctx0" "mm_inv mgr"
    and "fdir_trace (ctx, mgr) acts queued (ctx', mgr')"
    and "act_report act = Some (a, now, ev)"
  shows "let nth = reports_of a acts + 1; (ctx2, mgr2) = fdir_do act (ctx', mgr');
           fire = (nth = unat (fd_thresholds ctx ! anom_index a) \<and> commissioned acts \<and> mode);
           move = (fire \<and> mode_edge mgr' (mm_current mgr') safe)
    in fd_queue ctx2 = enq (fd_queue ctx') ([ev]
           @ (if fire then [fd_event now SEV_HIGH MIGRIS_PUS5_EVT_FDIR_RECOVERY
                              ([of_nat (anom_index a), safe] @ be16 (of_nat nth))] else [])
           @ (if move \<and> mm_sink mgr' then [mode_event mgr' safe now] else []))
       \<and> mgr2 = (if move then mm_moved mgr' safe else mgr')
       \<and> ((\<forall>t sev aux. SinkEvent t sev MIGRIS_PUS5_EVT_FDIR_RECOVERY aux \<notin> set acts) \<longrightarrow>
            length (filter (recovery_of a) queued) \<le> 1)"
proof -
  note arm = arm_armed [OF assms(2,1)]
  have i0: "fd_inv (fst (ctx, mgr))" "mm_inv (snd (ctx, mgr))" "fd_armed (fst (ctx, mgr))" using arm(1) assms(3) by (simp_all add: fd_armed_def)
  have inv: "fd_inv ctx'" "mm_inv mgr'" "fd_safe_mode ctx' = safe" using trace_invariants [OF assms(4) i0(1,2)] arm(4) by simp_all
  note e = act_report_effect [OF inv(1,2) assms(5)]
  note f = fires_on_threshold [OF assms(4) arm(1,2) assms(3) e(3), unfolded arm(3,4)]
  have once: "(\<forall>t sev aux. SinkEvent t sev MIGRIS_PUS5_EVT_FDIR_RECOVERY aux \<notin> set acts) \<longrightarrow> length (filter (recovery_of a) queued) \<le> 1"
    using latch_count [OF assms(4) i0(3,2) e(3)] by (auto intro: order_trans split: if_splits)
  let ?move = "fd_fires ctx' a \<and> mode_edge mgr' (mm_current mgr') safe"
  have "fd_reaction (ctx', mgr') a now = (if fd_fires ctx' a
        then [fd_event now SEV_HIGH MIGRIS_PUS5_EVT_FDIR_RECOVERY
                ([of_nat (anom_index a), safe] @ be16 (of_nat (reports_of a acts + 1)))] else [])
      @ (if ?move \<and> mm_sink mgr' then [mode_event mgr' safe now] else [])"
    using f(2) [of now] inv(3) unfolding fd_reaction_def by (cases "fd_fires ctx' a") simp_all
  note q = e(1) [unfolded this]
  show ?thesis
    unfolding Let_def case_prod_unfold f(1) [symmetric] using once q e(2) [unfolded inv(3)] by simp
qed

lemma fdir_recovery_fires_once_witness:
  "\<exists>ctx2. snd (migris_fdir_report_anomaly
      (snd (migris_fdir_arm_recovery fdir_example True 1 [\<lparr>cd_anomaly = ANOM_RX_OVERFLOW, cd_threshold = 1\<rparr>]), mode_example)
        ANOM_RX_OVERFLOW 7 3) = (ctx2, mm_moved mode_example 1)
    \<and> fd_queue ctx2 = [fd_event 7 SEV_MEDIUM MIGRIS_PUS5_EVT_RX_OVERFLOW [0, 0, 0, 3],
        fd_event 7 SEV_HIGH MIGRIS_PUS5_EVT_FDIR_RECOVERY [1, 1, 0, 1], mode_event mode_example 1 7]"
proof -
  let ?arm = "migris_fdir_arm_recovery fdir_example True 1 [\<lparr>cd_anomaly = ANOM_RX_OVERFLOW, cd_threshold = 1\<rparr>]"
  have ok: "?arm = (EVENT_FIFO_OK, snd ?arm)" by (simp add: migris_fdir_arm_recovery_def fsw_const)
  have rep: "act_report (Anomaly ANOM_RX_OVERFLOW 7 3)
      = Some (ANOM_RX_OVERFLOW, 7, fd_event 7 SEV_MEDIUM MIGRIS_PUS5_EVT_RX_OVERFLOW [0, 0, 0, 3])"
    by (simp add: be32_def)
  have edge: "mode_edge mode_example (mm_current mode_example) 1" "mm_sink mode_example"
    by (simp_all add: mode_edge_def mode_example_def mm_declared_def)
  have thr: "unat (fd_thresholds (snd ?arm) ! anom_index ANOM_RX_OVERFLOW) = 1" and q: "fd_queue (snd ?arm) = []"
    using fdir_example_inv(2) by (simp_all add: migris_fdir_arm_recovery_def fsw_const fd_queue_def)
  obtain ctx2 mgr2 where st: "fdir_do (Anomaly ANOM_RX_OVERFLOW 7 3) (snd ?arm, mode_example) = (ctx2, mgr2)" by force
  from fdir_recovery_fires_once [OF ok fdir_example_inv(1) mode_example_inv fdir_trace_start rep, unfolded st prod.case Let_def thr q]
  show ?thesis using st edge by (simp add: reports_of_def commissioned_def enq_def be16_def fsw_const)
qed

text \<open>
  C23: the effects of a reported anomaly, in order: its own event first, then, exactly when the
  report confirms it with recovery armed and commissioned, the recovery event and the mode-change
  event of a declared transition to the safe mode, each as far as the queue has room; the mode
  manager moves to the safe mode only along a declared edge, and the counts of the other
  anomalies and the policy are untouched.
\<close>
theorem fdir_anomaly_effects:
  assumes "fd_inv ctx" "mm_inv mgr" "anomaly_event a detail = Some (sev, eid, aux)"
  shows "\<exists>ctx' rc. migris_fdir_report_anomaly (ctx, mgr) a now detail =
      (rc, ctx', if fd_fires ctx a \<and> mode_edge mgr (mm_current mgr) (fd_safe_mode ctx)
                 then mm_moved mgr (fd_safe_mode ctx) else mgr)
    \<and> fd_queue ctx' = enq (fd_queue ctx) (fd_event now sev eid aux # fd_reaction (ctx, mgr) a now)
    \<and> fd_occurrences ctx' = (fd_occurrences ctx)[anom_index a := sat_inc (fd_occurrences ctx ! anom_index a)]
    \<and> fd_inv ctx' \<and> fd_same_policy ctx ctx'"
proof -
  note r = report_as_observe [OF assms(3)]
  note o = anomaly_then_observe [OF assms(1,2) r(3,2), of now sev eid]
  obtain rc ctx' mgr' where e: "migris_fdir_report_anomaly (ctx, mgr) a now detail = (rc, ctx', mgr')"
    by (cases "migris_fdir_report_anomaly (ctx, mgr) a now detail") auto
  then have st: "(ctx', mgr') = fdir_observe fdir_sink_report (snd (fdir_enqueue ctx now sev eid aux), mgr) a now"
    using r(1) [of "(ctx, mgr)" now] by simp
  note o' = o [folded st, unfolded fst_conv snd_conv]
  show ?thesis using e o'(1,3-5) unfolding o'(2) by blast
qed

lemma fdir_anomaly_effects_witness:
  "\<exists>ctx'. snd (migris_fdir_report_anomaly (fdir_example, mode_example) ANOM_RX_OVERFLOW 7 3) = (ctx', mode_example)
     \<and> fd_queue ctx' = [fd_event 7 SEV_MEDIUM MIGRIS_PUS5_EVT_RX_OVERFLOW [0, 0, 0, 3]]"
proof -
  have ev: "anomaly_event ANOM_RX_OVERFLOW 3 = Some (SEV_MEDIUM, MIGRIS_PUS5_EVT_RX_OVERFLOW, [0, 0, 0, 3])"
    by (simp add: be32_def)
  have q: "\<not> fd_fires fdir_example ANOM_RX_OVERFLOW"
    by (simp add: fdir_example_def migris_fdir_init_def fd_fires_def fd_latches_def fsw_const)
  obtain ctx' rc where "migris_fdir_report_anomaly (fdir_example, mode_example) ANOM_RX_OVERFLOW 7 3 = (rc, ctx', mode_example)"
    and "fd_queue ctx' = enq (fd_queue fdir_example) (fd_event 7 SEV_MEDIUM MIGRIS_PUS5_EVT_RX_OVERFLOW [0, 0, 0, 3]
        # fd_reaction (fdir_example, mode_example) ANOM_RX_OVERFLOW 7)"
    using fdir_anomaly_effects [OF fdir_example_inv(1) mode_example_inv ev, of 7] by (auto simp: q)
  moreover have "fd_reaction (fdir_example, mode_example) ANOM_RX_OVERFLOW 7 = []" by (simp add: fd_reaction_def q)
  ultimately show ?thesis by (simp add: fdir_example_inv(2) enq_def fsw_const)
qed

text \<open>
  C24: from a successful initialisation, through any run of anomaly reports, sink events, drains,
  commissioning switches, requests and recoveries, the mode manager keeps its declared table, its
  current mode is declared, and without a restore of a saved image the mode has moved only along
  declared transitions.
\<close>
theorem modes_follow_declared_edges:
  assumes "length (mm_defs mgr0) = MIGRIS_MODE_CAPACITY" "migris_mode_init mgr0 defs initial sink = (MODE_OK, mgr)"
    and "fd_inv ctx" "fdir_trace (ctx, mgr) acts queued (ctx', mgr')"
  shows "mm_declared mgr' = defs \<and> mm_current mgr' \<in> md_id ` set defs
    \<and> ((\<forall>img. ModeRestore img \<notin> set acts)
         \<longrightarrow> (initial, mm_current mgr') \<in> {(x, y). \<exists>d \<in> set defs. md_id d = x \<and> bit (md_allowed_targets d) (unat y)}\<^sup>*)"
proof -
  note ini = mode_init_inv [OF assms(1,2)]
  have inv: "fd_inv (fst (ctx, mgr))" "mm_inv (snd (ctx, mgr))" using assms(3) ini(1) by simp_all
  note tr = trace_invariants [OF assms(4) inv]
  let ?R = "{(x, y). mode_edge mgr x y}"
  have edge: "mode_edge m = mode_edge mgr" if "mm_declared m = mm_declared mgr" for m
    using that by (simp add: mode_edge_def fun_eq_iff)
  have path: "fdir_trace st0 acts queued st \<Longrightarrow> st0 = (ctx, mgr) \<Longrightarrow> \<forall>img. ModeRestore img \<notin> set acts
      \<Longrightarrow> (mm_current mgr, mm_current (snd st)) \<in> ?R\<^sup>*" for st0 acts queued st
  proof (induction rule: fdir_trace.induct)
    case (fdir_trace_step st0 acts queued st act)
    obtain c m where st: "st = (c, m)" by force
    from trace_invariants [OF fdir_trace_step(1)] fdir_trace_step inv
    have i: "fd_inv c" "mm_inv m" "mm_declared m = mm_declared mgr" by (simp_all add: st)
    have "(mm_current m, mm_current (snd (fdir_do act st))) \<in> ?R\<^sup>*"
      using fdir_step_effect(7) [OF i(1,2), of act] fdir_trace_step.prems(2) unfolding edge [OF i(3)] st by auto
    moreover have "(mm_current mgr, mm_current m) \<in> ?R\<^sup>*" using fdir_trace_step by (simp add: st)
    ultimately show ?case by (simp add: st)
  qed simp
  have "mm_declared mgr' = defs" "mm_inv mgr'" using tr ini(2) by simp_all
  moreover have "(\<forall>img. ModeRestore img \<notin> set acts) \<longrightarrow> (initial, mm_current mgr') \<in> ?R\<^sup>*"
    using path [OF assms(4) refl] ini(3) by simp
  moreover have "?R = {(x, y). \<exists>d \<in> set defs. md_id d = x \<and> bit (md_allowed_targets d) (unat y)}"
    by (simp add: mode_edge_def ini(2))
  ultimately show ?thesis by (simp add: mm_inv_def)
qed

lemma modes_follow_declared_edges_witness:
  "mm_current (snd (migris_mode_init (mode_example\<lparr>mm_current := 0\<rparr>) [\<lparr>md_id = 3, md_allowed_targets = 0\<rparr>] 3 False)) = 3"
proof -
  let ?blank = "mode_example\<lparr>mm_current := 0\<rparr>" and ?defs = "[\<lparr>md_id = 3, md_allowed_targets = 0\<rparr>]"
  let ?mgr = "snd (migris_mode_init ?blank ?defs 3 False)"
  have len: "length (mm_defs ?blank) = MIGRIS_MODE_CAPACITY" by (simp add: mode_example_def fsw_const)
  have ok: "migris_mode_init ?blank ?defs 3 False = (MODE_OK, ?mgr)"
    by (simp add: migris_mode_init_def mode_validate_def mode_targets_declared_def mode_index_of_def fsw_const shift_and_1 list_all_iff)
  show ?thesis
    using modes_follow_declared_edges [OF len ok fdir_example_inv(1) fdir_trace_start] by auto
qed

text \<open>
  C26: draining sends the oldest queued event, once, as one well-formed event report [5,1..4] with
  the event's own severity, identifier, auxiliary data and time stamp, the next sequence count and
  its severity's message counter, and keeps the other events in order; an empty queue sends nothing.
\<close>
theorem fdir_drain_reports_oldest:
  assumes "fd_inv ctx" "apid \<le> 0x7FF" "seq \<le> 0x3FFF" "MIGRIS_PUS5_TM_MAX_PACKET_SIZE \<le> cap"
  shows "case fd_queue ctx of
      [] \<Rightarrow> migris_fdir_drain ctx apid seq p5 cap = (Inr [], ctx, p5, seq)
    | ev # evs \<Rightarrow> \<exists>pkt ctx'. migris_fdir_drain ctx apid seq p5 cap =
          (Inr pkt, ctx', p5\<lparr>p5_msg_counter := bump (p5_msg_counter p5) (unat (ev_severity ev))\<rparr>, next_seq seq)
        \<and> fd_queue ctx' = evs
        \<and> tm_burst apid seq pkt [tm_view_of apid seq 5 (of_nat (unat (ev_severity ev) + 1))
            (p5_msg_counter p5 ! unat (ev_severity ev)) 0 (ev_t_seconds ev)
            (be16 (ev_event_id ev) @ take (unat (ev_aux_len ev)) (ev_aux ev))] (next_seq seq)"
proof -
  have cap: "52 \<le> cap" using assms(4) by (simp add: fsw_const)
  show ?thesis
  proof (cases "fd_queue ctx")
    case Nil
    show ?thesis using fdir_drain_spec(1) [OF assms(1-3) cap Nil] by (simp add: Nil)
  next
    case (Cons ev evs)
    show ?thesis using fdir_drain_spec(2) [OF assms(1-3) cap Cons, of p5] unfolding Cons list.case by blast
  qed
qed

lemma fdir_drain_reports_oldest_witness:
  "migris_fdir_drain fdir_example 5 0 \<lparr>p5_msg_counter = [0, 0, 0, 0]\<rparr> 60
     = (Inr [], fdir_example, \<lparr>p5_msg_counter = [0, 0, 0, 0]\<rparr>, 0)"
  using fdir_drain_reports_oldest [OF fdir_example_inv(1), of 5 0 60 "\<lparr>p5_msg_counter = [0, 0, 0, 0]\<rparr>"]
  by (simp add: fdir_example_inv(2) fsw_const)

section \<open>The recursion through the sink\<close>

text \<open>
  One call of the sink with the calls below it answered by \<open>report\<close>, and the sink with its calls to
  itself unrolled \<open>n\<close> levels deep, everything below that level left to \<open>beyond\<close>.
\<close>

definition sink_body :: "fdir_state event_sink \<Rightarrow> fdir_state event_sink" where
  "sink_body report st now_seconds severity event_id aux =
    (let (rc, ctx) = fdir_enqueue (fst st) now_seconds severity event_id aux; st = (ctx, snd st)
     in case fdir_event_anomaly event_id of
          None \<Rightarrow> (rc = EVENT_FIFO_OK, st)
        | Some anomaly \<Rightarrow> (rc = EVENT_FIFO_OK, fdir_observe report st anomaly now_seconds))"

definition sink_nested :: "fdir_state event_sink \<Rightarrow> nat \<Rightarrow> fdir_state event_sink" where
  "sink_nested beyond n = (sink_body ^^ n) beyond"

lemma sink_nested_quiet:
  "fdir_event_anomaly event_id = None \<Longrightarrow> sink_nested beyond (Suc n) st now sev event_id aux = fdir_sink_report st now sev event_id aux"
  by (simp add: sink_nested_def sink_body_def sink_report_quiet split: prod.split)

lemma observe_nested: "fdir_observe (sink_nested beyond (Suc n)) st a now = fdir_observe fdir_sink_report st a now"
  by (rule fdir_observe_cong) (simp_all add: sink_nested_quiet mode_changed_quiet)

text \<open>
  C25: the recursion report, observe, mode request, report of FDIR's own sink ends: whatever the sink
  did below, a report never nests deeper than two calls of the sink, and an observation or a mode
  request no deeper than one, because the event a recovery reports is no anomaly.
\<close>
theorem sink_recursion_ends:
  "sink_nested beyond (Suc (Suc n)) st now sev event_id aux = fdir_sink_report st now sev event_id aux
   \<and> fdir_observe (sink_nested beyond (Suc n)) st a now = fdir_observe fdir_sink_report st a now
   \<and> migris_mode_request (sink_nested beyond (Suc n)) st target now = migris_mode_request fdir_sink_report st target now"
proof (intro conjI)
  have "sink_nested beyond (Suc (Suc n)) = sink_body (sink_nested beyond (Suc n))" by (simp add: sink_nested_def)
  then show "sink_nested beyond (Suc (Suc n)) st now sev event_id aux = fdir_sink_report st now sev event_id aux"
    by (simp add: sink_body_def observe_nested fdir_sink_report.simps [of st] Let_def split: prod.split option.split)
  show "migris_mode_request (sink_nested beyond (Suc n)) st target now = migris_mode_request fdir_sink_report st target now"
    by (rule migris_mode_request_cong) (simp_all add: sink_nested_quiet mode_changed_quiet)
qed (rule observe_nested)

end
