(* ===== verification/Tc_Router.thy ===== *)
theory Tc_Router
  imports Pus1 Pus3 Pus5 Pus11 Pus15 Pus17 Pus20 Mode
begin

text \<open>
  lib/pus/src/tc_router.c: telecommand acceptance, routing and verification. The context's
  borrowed pointers to the datapool, the schedule, the packet store and the housekeeping store are
  the optional values they point at, \<open>None\<close> for NULL. The event sink is the flag \<open>rt_sink\<close> (the pointer is
  set) with the report operation and its state as arguments of the dispatch, as in Mode. A handler's
  return value 0 is the empty byte list, its \<open>exec_fc\<close> output the second component.
\<close>

section \<open>Data\<close>

definition MIGRIS_TC_ROUTER_MAX_TM :: nat where
  [fsw_const]: "MIGRIS_TC_ROUTER_MAX_TM = 128"

definition MIGRIS_TC_ROUTER_MIN_TC :: nat where
  [fsw_const]: "MIGRIS_TC_ROUTER_MIN_TC = MIGRIS_CCSDS_PRIMARY_HEADER_SIZE + MIGRIS_PUS_TC_SECONDARY_HEADER_SIZE + 2"

datatype migris_tc_router_status_t = TC_ROUTER_OK | TC_ROUTER_ERR_BUF_TOO_SMALL

record migris_tc_router_ctx_t =
  rt_apid :: u16
  rt_tm_seq_count :: u16
  rt_pus1 :: migris_pus1_ctx_t
  rt_pus17 :: migris_pus17_ctx_t
  rt_pus3 :: migris_pus3_ctx_t
  rt_pus5 :: migris_pus5_ctx_t
  rt_pus20 :: migris_pus20_ctx_t
  rt_pus11 :: migris_pus11_ctx_t
  rt_pus15 :: migris_pus15_ctx_t
  rt_tc_accepted_count :: u32
  rt_tc_rejected_count :: u32
  rt_rx_ring_overflow_drops :: u32
  rt_sink :: bool
  rt_datapool :: "migris_datapool_t option"
  rt_schedule :: "migris_schedule_t option"
  rt_store :: "migris_pktstore_t option"
  rt_hkstore :: "migris_hkstore_t option"

record migris_tc_accept_result_t =
  av_addressed :: bool
  av_fc :: migris_pus1_failure_code_t
  av_ack_flags :: u8
  av_source_id :: u16
  av_service_type :: u8
  av_service_subtype :: u8

section \<open>Acceptance\<close>

definition migris_tc_accept :: "bytes \<Rightarrow> u16 \<Rightarrow> migris_tc_accept_result_t" where
  "migris_tc_accept tc expected_apid =
    (let out = \<lparr>av_addressed = False, av_fc = FC_NONE, av_ack_flags = 0, av_source_id = 0,
                av_service_type = 0, av_service_subtype = 0\<rparr>
     in case migris_ccsds_primary_unpack tc of
          Inl _ \<Rightarrow> out
        | Inr primary \<Rightarrow>
            if ph_version primary \<noteq> 0 \<or> ph_type primary \<noteq> MIGRIS_CCSDS_PACKET_TYPE_TC
               \<or> ph_sec_hdr_flag primary \<noteq> 1 \<or> ph_seq_flags primary \<noteq> MIGRIS_CCSDS_SEQ_FLAGS_UNSEGMENTED then out
            else if ph_apid primary \<noteq> expected_apid then out
            else
              let out = out\<lparr>av_addressed := True\<rparr>; expected_total = migris_ccsds_packet_total_size (ph_data_length primary)
              in if length tc < MIGRIS_TC_ROUTER_MIN_TC \<or> length tc \<noteq> expected_total
                 then out\<lparr>av_fc := FC_LENGTH_ERROR\<rparr>
                 else case migris_pus_tc_secondary_unpack (drop MIGRIS_CCSDS_PRIMARY_HEADER_SIZE tc) of
                   Inl _ \<Rightarrow> out\<lparr>av_fc := FC_LENGTH_ERROR\<rparr>
                 | Inr sec \<Rightarrow>
                     let out = out\<lparr>av_ack_flags := tc_ack_flags sec, av_source_id := tc_source_id sec,
                                    av_service_type := tc_service_type sec, av_service_subtype := tc_service_subtype sec\<rparr>;
                         crc_offset = length tc - 2;
                         computed = migris_crc16_ccitt_false (take crc_offset tc);
                         on_wire = rd16_at tc crc_offset
                     in if computed \<noteq> on_wire then out\<lparr>av_fc := FC_CRC_FAILURE\<rparr>
                        else if tc_pus_version sec \<noteq> MIGRIS_PUS_VERSION_C then out\<lparr>av_fc := FC_BAD_PUS_VERSION\<rparr>
                        else if tc_service_type sec \<noteq> 17 \<and> tc_service_type sec \<noteq> 3 \<and> tc_service_type sec \<noteq> 20
                                \<and> tc_service_type sec \<noteq> 11 \<and> tc_service_type sec \<noteq> 15
                        then out\<lparr>av_fc := FC_UNKNOWN_SERVICE\<rparr>
                        else out\<lparr>av_fc := FC_NONE\<rparr>)"

section \<open>Handlers\<close>

type_synonym router_reply = "bytes \<times> migris_pus1_failure_code_t \<times> migris_tc_router_ctx_t"

text \<open>The application data of a telecommand: behind both headers, before the CRC.\<close>

definition router_app_data :: "bytes \<Rightarrow> bytes" where
  "router_app_data tc =
    (let app_off = MIGRIS_CCSDS_PRIMARY_HEADER_SIZE + MIGRIS_PUS_TC_SECONDARY_HEADER_SIZE
     in take (length tc - app_off - 2) (drop app_off tc))"

definition router_pus3_poll_framework ::
  "migris_tc_router_ctx_t \<Rightarrow> migris_tc_accept_result_t \<Rightarrow> u32 \<Rightarrow> nat \<Rightarrow> router_reply" where
  "router_pus3_poll_framework ctx v now_seconds out_cap =
    (let p = \<lparr>hp_pus1_msg_counter = map (\<lambda>i. p1_msg_counter (rt_pus1 ctx) ! i) [0..<4],
              hp_pus5_msg_counter = map (\<lambda>i. p5_msg_counter (rt_pus5 ctx) ! i) [0..<4],
              hp_pus17_tm_msg_counter = p17_tm_msg_counter (rt_pus17 ctx),
              hp_tc_accepted_count = rt_tc_accepted_count ctx,
              hp_tc_rejected_count = rt_tc_rejected_count ctx,
              hp_rx_ring_overflow_drops = rt_rx_ring_overflow_drops ctx\<rparr>;
         (r, pus3, seq) = migris_pus3_build_hk_report (rt_pus3 ctx) (rt_apid ctx) (rt_tm_seq_count ctx) now_seconds
                            MIGRIS_PUS3_SID_FRAMEWORK_DIAG p (av_source_id v) out_cap;
         ctx = ctx\<lparr>rt_pus3 := pus3, rt_tm_seq_count := seq\<rparr>
     in case r of Inr out \<Rightarrow> (out, FC_NONE, ctx) | Inl _ \<Rightarrow> ([], FC_EXEC_FAILURE, ctx))"

definition router_pus3_poll_dynamic ::
  "migris_tc_router_ctx_t \<Rightarrow> migris_tc_accept_result_t \<Rightarrow> u32 \<Rightarrow> u16 \<Rightarrow> nat \<Rightarrow> router_reply" where
  "router_pus3_poll_dynamic ctx v now_seconds sid out_cap =
    (case rt_hkstore ctx of
       None \<Rightarrow> ([], FC_UNKNOWN_SUBTYPE, ctx)
     | Some hkstore \<Rightarrow>
        (case migris_hkstore_find hkstore sid of
           None \<Rightarrow> ([], FC_UNKNOWN_SUBTYPE, ctx)
         | Some s \<Rightarrow>
            (case rt_datapool ctx of
               None \<Rightarrow> ([], FC_EXEC_FAILURE, ctx)
             | Some datapool \<Rightarrow>
                (let (r, pus3, seq) = migris_pus3_build_dynamic_hk_report (rt_pus3 ctx) datapool s (rt_apid ctx)
                                        (rt_tm_seq_count ctx) now_seconds (av_source_id v) out_cap;
                     ctx = ctx\<lparr>rt_pus3 := pus3, rt_tm_seq_count := seq\<rparr>
                 in case r of Inr out \<Rightarrow> (out, FC_NONE, ctx) | Inl _ \<Rightarrow> ([], FC_EXEC_FAILURE, ctx)))))"

definition router_pus3_poll ::
  "migris_tc_router_ctx_t \<Rightarrow> migris_tc_accept_result_t \<Rightarrow> u32 \<Rightarrow> bytes \<Rightarrow> nat \<Rightarrow> router_reply" where
  "router_pus3_poll ctx v now_seconds app out_cap =
    (if length app \<noteq> 2 then ([], FC_UNKNOWN_SUBTYPE, ctx)
     else let sid = rd16_at app 0
          in if sid = MIGRIS_PUS3_SID_FRAMEWORK_DIAG then router_pus3_poll_framework ctx v now_seconds out_cap
             else router_pus3_poll_dynamic ctx v now_seconds sid out_cap)"

definition router_pus3_manage ::
  "migris_tc_router_ctx_t \<Rightarrow> migris_tc_accept_result_t \<Rightarrow> bytes \<Rightarrow> router_reply" where
  "router_pus3_manage ctx v app =
    (case rt_hkstore ctx of
       None \<Rightarrow> ([], FC_EXEC_FAILURE, ctx)
     | Some hkstore \<Rightarrow>
        (let (rc, hkstore) = migris_pus3_execute hkstore (av_service_subtype v) app
         in ([], if rc \<noteq> PUS3_OK then FC_EXEC_FAILURE else FC_NONE, ctx\<lparr>rt_hkstore := Some hkstore\<rparr>)))"

definition router_pus3 ::
  "migris_tc_router_ctx_t \<Rightarrow> migris_tc_accept_result_t \<Rightarrow> u32 \<Rightarrow> bytes \<Rightarrow> nat \<Rightarrow> router_reply" where
  "router_pus3 ctx v now_seconds tc out_cap =
    (let app = router_app_data tc
     in if av_service_subtype v = 27 then router_pus3_poll ctx v now_seconds app out_cap
        else if av_service_subtype v = 1 \<or> av_service_subtype v = 2 \<or> av_service_subtype v = 5 \<or> av_service_subtype v = 6
        then router_pus3_manage ctx v app
        else ([], FC_UNKNOWN_SUBTYPE, ctx))"

definition router_pus17 ::
  "migris_tc_router_ctx_t \<Rightarrow> migris_tc_accept_result_t \<Rightarrow> u32 \<Rightarrow> bytes \<Rightarrow> nat \<Rightarrow> router_reply" where
  "router_pus17 ctx v now_seconds tc out_cap =
    (let (r, pus17, seq) = migris_pus17_execute (rt_pus17 ctx) (rt_apid ctx) (rt_tm_seq_count ctx) now_seconds
                             (av_service_subtype v) (av_source_id v) out_cap;
         ctx = ctx\<lparr>rt_pus17 := pus17, rt_tm_seq_count := seq\<rparr>
     in case r of
          Inr out \<Rightarrow> (out, FC_NONE, ctx)
        | Inl rc \<Rightarrow> ([], if rc = PUS17_ERR_NOT_PUS17_TC then FC_UNKNOWN_SUBTYPE else FC_EXEC_FAILURE, ctx))"

definition router_pus20 ::
  "migris_tc_router_ctx_t \<Rightarrow> migris_tc_accept_result_t \<Rightarrow> u32 \<Rightarrow> bytes \<Rightarrow> nat \<Rightarrow> router_reply" where
  "router_pus20 ctx v now_seconds tc out_cap =
    (case rt_datapool ctx of
       None \<Rightarrow> ([], FC_EXEC_FAILURE, ctx)
     | Some datapool \<Rightarrow>
        (let (r, (pus20, datapool), seq) =
               migris_pus20_execute (rt_pus20 ctx) datapool (rt_apid ctx) (rt_tm_seq_count ctx) now_seconds
                 (av_service_subtype v) (av_source_id v) (router_app_data tc) out_cap;
             ctx = ctx\<lparr>rt_pus20 := pus20, rt_datapool := Some datapool, rt_tm_seq_count := seq\<rparr>
         in case r of
              Inr out \<Rightarrow> (out, FC_NONE, ctx)
            | Inl rc \<Rightarrow> ([], if rc = PUS20_ERR_BAD_SUBTYPE then FC_UNKNOWN_SUBTYPE else FC_EXEC_FAILURE, ctx)))"

definition router_pus11 ::
  "migris_tc_router_ctx_t \<Rightarrow> migris_tc_accept_result_t \<Rightarrow> u32 \<Rightarrow> bytes \<Rightarrow> nat \<Rightarrow> router_reply" where
  "router_pus11 ctx v now_seconds tc out_cap =
    (case rt_schedule ctx of
       None \<Rightarrow> ([], FC_EXEC_FAILURE, ctx)
     | Some schedule \<Rightarrow>
        (let (r, (pus11, schedule), seq) =
               migris_pus11_execute (rt_pus11 ctx) schedule (rt_apid ctx) (rt_tm_seq_count ctx) now_seconds
                 (av_service_subtype v) (av_source_id v) (router_app_data tc) out_cap;
             ctx = ctx\<lparr>rt_pus11 := pus11, rt_schedule := Some schedule, rt_tm_seq_count := seq\<rparr>
         in case r of
              Inr out \<Rightarrow> (out, FC_NONE, ctx)
            | Inl rc \<Rightarrow> ([], if rc = PUS11_ERR_BAD_SUBTYPE then FC_UNKNOWN_SUBTYPE else FC_EXEC_FAILURE, ctx)))"

definition router_pus15 ::
  "migris_tc_router_ctx_t \<Rightarrow> migris_tc_accept_result_t \<Rightarrow> u32 \<Rightarrow> bytes \<Rightarrow> nat \<Rightarrow> router_reply" where
  "router_pus15 ctx v now_seconds tc out_cap =
    (case rt_store ctx of
       None \<Rightarrow> ([], FC_EXEC_FAILURE, ctx)
     | Some store \<Rightarrow>
        (let (r, (pus15, store), seq) =
               migris_pus15_execute (rt_pus15 ctx) store (rt_apid ctx) (rt_tm_seq_count ctx) now_seconds
                 (av_service_subtype v) (av_source_id v) (router_app_data tc) out_cap;
             ctx = ctx\<lparr>rt_pus15 := pus15, rt_store := Some store, rt_tm_seq_count := seq\<rparr>
         in case r of
              Inr out \<Rightarrow> (out, FC_NONE, ctx)
            | Inl rc \<Rightarrow> ([], if rc = PUS15_ERR_BAD_SUBTYPE then FC_UNKNOWN_SUBTYPE else FC_EXEC_FAILURE, ctx)))"

definition router_dispatch_table ::
  "(u8 \<times> (migris_tc_router_ctx_t \<Rightarrow> migris_tc_accept_result_t \<Rightarrow> u32 \<Rightarrow> bytes \<Rightarrow> nat \<Rightarrow> router_reply)) list" where
  "router_dispatch_table = [(17, router_pus17), (3, router_pus3), (20, router_pus20), (11, router_pus11), (15, router_pus15)]"

definition router_route ::
  "migris_tc_router_ctx_t \<Rightarrow> migris_tc_accept_result_t \<Rightarrow> u32 \<Rightarrow> bytes \<Rightarrow> nat \<Rightarrow> router_reply" where
  "router_route ctx v now_seconds tc out_cap =
    (case find (\<lambda>e. fst e = av_service_type v) router_dispatch_table of
       Some e \<Rightarrow> snd e ctx v now_seconds tc out_cap
     | None \<Rightarrow> ([], FC_EXEC_FAILURE, ctx))"

section \<open>Dispatch\<close>

definition router_report_rejection ::
  "'s event_sink \<Rightarrow> migris_tc_router_ctx_t \<Rightarrow> 's \<Rightarrow> u32 \<Rightarrow> migris_tc_accept_result_t \<Rightarrow> 's" where
  "router_report_rejection report ctx st now_seconds v =
    (if \<not> rt_sink ctx then st
     else snd (report st now_seconds SEV_LOW MIGRIS_PUS5_EVT_TC_REJECTED
                 [pus1_fc_code (av_fc v), av_service_type v, av_service_subtype v]))"

text \<open>
  A verification report of the dispatch: the builder's packet behind the bytes already written, and
  the context with what the builder did to it (nothing on an error).
\<close>

definition router_acceptance ::
  "migris_tc_router_ctx_t \<Rightarrow> u32 \<Rightarrow> bytes \<Rightarrow> u16 \<Rightarrow> migris_pus1_failure_code_t \<Rightarrow> bytes \<Rightarrow> nat \<Rightarrow> bytes \<times> migris_tc_router_ctx_t" where
  "router_acceptance ctx now_seconds request_id dest fc out out_cap =
    (let (r, pus1, seq) = migris_pus1_build_acceptance (rt_pus1 ctx) (rt_apid ctx) (rt_tm_seq_count ctx) now_seconds
                            request_id dest fc (out_cap - length out)
     in (out @ emitted r, ctx\<lparr>rt_pus1 := pus1, rt_tm_seq_count := seq\<rparr>))"

definition router_completion ::
  "migris_tc_router_ctx_t \<Rightarrow> u32 \<Rightarrow> bytes \<Rightarrow> u16 \<Rightarrow> migris_pus1_failure_code_t \<Rightarrow> bytes \<Rightarrow> nat \<Rightarrow> bytes \<times> migris_tc_router_ctx_t" where
  "router_completion ctx now_seconds request_id dest fc out out_cap =
    (let (r, pus1, seq) = migris_pus1_build_completion (rt_pus1 ctx) (rt_apid ctx) (rt_tm_seq_count ctx) now_seconds
                            request_id dest fc (out_cap - length out)
     in (out @ emitted r, ctx\<lparr>rt_pus1 := pus1, rt_tm_seq_count := seq\<rparr>))"

definition migris_tc_router_dispatch ::
  "'s event_sink \<Rightarrow> migris_tc_router_ctx_t \<Rightarrow> 's \<Rightarrow> u32 \<Rightarrow> bytes \<Rightarrow> nat
     \<Rightarrow> (migris_tc_router_status_t + bytes) \<times> migris_tc_router_ctx_t \<times> 's" where
  "migris_tc_router_dispatch report ctx st now_seconds tc out_cap =
    (if out_cap < MIGRIS_TC_ROUTER_MAX_TM then (Inl TC_ROUTER_ERR_BUF_TOO_SMALL, ctx, st)
     else
       let v = migris_tc_accept tc (rt_apid ctx)
       in if \<not> av_addressed v then (Inr [], ctx, st)
          else
            let request_id = map (\<lambda>i. tc ! i) [0..<MIGRIS_PUS1_REQUEST_ID_SIZE];
                ctx = (if av_fc v \<noteq> FC_NONE then ctx\<lparr>rt_tc_rejected_count := rt_tc_rejected_count ctx + 1\<rparr>
                       else ctx\<lparr>rt_tc_accepted_count := rt_tc_accepted_count ctx + 1\<rparr>)
            in if av_fc v = FC_LENGTH_ERROR then
                 let st = router_report_rejection report ctx st now_seconds v;
                     (out, ctx) = router_acceptance ctx now_seconds request_id 0 FC_LENGTH_ERROR [] out_cap
                 in (Inr out, ctx, st)
               else if av_fc v \<noteq> FC_NONE then
                 let st = router_report_rejection report ctx st now_seconds v;
                     (out, ctx) = (if av_ack_flags v AND MIGRIS_PUS_TC_ACK_ACCEPTANCE \<noteq> 0
                                   then router_acceptance ctx now_seconds request_id (av_source_id v) (av_fc v) [] out_cap
                                   else ([], ctx))
                 in (Inr out, ctx, st)
               else
                 let (out, ctx) = (if av_ack_flags v AND MIGRIS_PUS_TC_ACK_ACCEPTANCE \<noteq> 0
                                   then router_acceptance ctx now_seconds request_id (av_source_id v) FC_NONE [] out_cap
                                   else ([], ctx));
                     (reply, exec_fc, ctx) = router_route ctx v now_seconds tc (out_cap - length out);
                     out = out @ reply;
                     (out, ctx) = (if av_ack_flags v AND MIGRIS_PUS_TC_ACK_COMPLETION \<noteq> 0
                                   then router_completion ctx now_seconds request_id (av_source_id v) exec_fc out out_cap
                                   else (out, ctx))
                 in (Inr out, ctx, st))"

section \<open>What the ground sends\<close>

text \<open>
  A telecommand as docs/wire/pus-1.md and pus-17.md have the ground build it: primary header of type
  TC, PUS-C secondary header, application data, CRC of everything before it.
\<close>

definition tc_packet :: "u16 \<Rightarrow> u16 \<Rightarrow> u8 \<Rightarrow> u8 \<Rightarrow> u8 \<Rightarrow> u16 \<Rightarrow> bytes \<Rightarrow> bytes option" where
  "tc_packet apid seq_count ack service subtype source app =
    (case migris_ccsds_primary_pack
        \<lparr>ph_version = 0, ph_type = 1, ph_sec_hdr_flag = 1, ph_apid = apid, ph_seq_flags = 3,
         ph_seq_count = seq_count, ph_data_length = of_nat (length app + 6)\<rparr> 6 of
       Inl _ \<Rightarrow> None
     | Inr primary \<Rightarrow>
        (case migris_pus_tc_secondary_pack
            \<lparr>tc_pus_version = 2, tc_ack_flags = ack, tc_service_type = service, tc_service_subtype = subtype,
             tc_source_id = source\<rparr> 5 of
           Inl _ \<Rightarrow> None
         | Inr sec \<Rightarrow> let body = primary @ sec @ app in Some (body @ be16 (migris_crc16_ccitt_false body))))"

abbreviation accepted_as :: "u8 \<Rightarrow> u16 \<Rightarrow> u8 \<Rightarrow> u8 \<Rightarrow> migris_tc_accept_result_t" where
  "accepted_as ack source service subtype \<equiv> \<lparr>av_addressed = True, av_fc = FC_NONE, av_ack_flags = ack,
     av_source_id = source, av_service_type = service, av_service_subtype = subtype\<rparr>"

lemma tc_secondary_pack_Inr:
  "migris_pus_tc_secondary_pack h 5 = Inr bs \<Longrightarrow> length bs = 5 \<and> tc_pus_version h \<le> 0xF \<and> tc_ack_flags h \<le> 0xF"
  by (auto simp: migris_pus_tc_secondary_pack_def not_less split: if_splits)

lemma tc_packet_shape:
  assumes "tc_packet apid c ack st sst src app = Some tc"
  obtains p s where
    "migris_ccsds_primary_pack \<lparr>ph_version = 0, ph_type = 1, ph_sec_hdr_flag = 1, ph_apid = apid, ph_seq_flags = 3,
         ph_seq_count = c, ph_data_length = of_nat (length app + 6)\<rparr> 6 = Inr p"
    "migris_pus_tc_secondary_pack \<lparr>tc_pus_version = 2, tc_ack_flags = ack, tc_service_type = st, tc_service_subtype = sst,
             tc_source_id = src\<rparr> 5 = Inr s"
    "tc = (p @ s @ app) @ be16 (migris_crc16_ccitt_false (p @ s @ app))" "length p = 6" "length s = 5"
  using assms by (auto simp: tc_packet_def Let_def split: sum.splits dest: length_primary_pack tc_secondary_pack_Inr)

lemma tc_packet_Some:
  "apid \<le> 0x7FF \<Longrightarrow> c \<le> 0x3FFF \<Longrightarrow> ack \<le> 0xF \<Longrightarrow> \<exists>tc. tc_packet apid c ack st sst src app = Some tc"
  by (auto simp: tc_packet_def Let_def migris_ccsds_primary_pack_def migris_pus_tc_secondary_pack_def fsw_const)

lemma length_tc_packet: "tc_packet apid c ack st sst src app = Some tc \<Longrightarrow> length tc = length app + 13"
  by (erule tc_packet_shape) simp

lemma router_app_data_packet: "tc_packet apid c ack st sst src app = Some tc \<Longrightarrow> router_app_data tc = app"
  by (erule tc_packet_shape) (simp add: router_app_data_def fsw_const)

lemma accept_packet:
  assumes tc: "tc_packet apid c ack st sst src app = Some tc" and len: "length app \<le> 65529"
    and st: "st \<in> {3, 11, 15, 17, 20}"
  shows "migris_tc_accept tc apid = accepted_as ack src st sst"
proof -
  from tc obtain p s where
    p: "migris_ccsds_primary_pack \<lparr>ph_version = 0, ph_type = 1, ph_sec_hdr_flag = 1, ph_apid = apid, ph_seq_flags = 3,
         ph_seq_count = c, ph_data_length = of_nat (length app + 6)\<rparr> 6 = Inr p"
    and s: "migris_pus_tc_secondary_pack \<lparr>tc_pus_version = 2, tc_ack_flags = ack, tc_service_type = st, tc_service_subtype = sst,
             tc_source_id = src\<rparr> 5 = Inr s"
    and body: "tc = (p @ s @ app) @ be16 (migris_crc16_ccitt_false (p @ s @ app))" and l: "length p = 6" "length s = 5"
    by (rule tc_packet_shape)
  have up: "migris_ccsds_primary_unpack tc = Inr \<lparr>ph_version = 0, ph_type = 1, ph_sec_hdr_flag = 1, ph_apid = apid,
      ph_seq_flags = 3, ph_seq_count = c, ph_data_length = of_nat (length app + 6)\<rparr>"
    unfolding body append_assoc by (rule primary_unpack_pack [OF p])
  have us: "migris_pus_tc_secondary_unpack (drop 6 tc) = Inr \<lparr>tc_pus_version = 2, tc_ack_flags = ack, tc_service_type = st,
      tc_service_subtype = sst, tc_source_id = src\<rparr>"
    using tc_secondary_unpack_pack [OF s] by (simp add: body l)
  have n: "length tc = length app + 13" by (rule length_tc_packet [OF tc])
  then have "\<not> length tc < 13" by simp
  have tot: "migris_ccsds_packet_total_size (of_nat (length app + 6)) = length tc"
    using len n by (simp add: migris_ccsds_packet_total_size_def unat_of_nat_u16 del: of_nat_add)
  have take: "take (length tc - 2) tc = p @ s @ app" using n l by (simp add: body)
  have crc: "rd16_at tc (length tc - 2) = migris_crc16_ccitt_false (p @ s @ app)"
    using rd16_at_append [of "p @ s @ app" "length tc - 2" "be16 (migris_crc16_ccitt_false (p @ s @ app))"]
      rd16_at_be16 [of "migris_crc16_ccitt_false (p @ s @ app)" "[]"] n l unfolding body [symmetric] by simp
  show ?thesis
    using st \<open>\<not> length tc < 13\<close> by (auto simp: migris_tc_accept_def Let_def up us tot take crc fsw_const simp del: of_nat_add)
qed

lemma accept_sound:
  assumes "migris_tc_accept tc apid = accepted_as ack src st sst"
  shows "\<exists>c. tc_packet apid c ack st sst src (router_app_data tc) = Some tc"
    and "length (router_app_data tc) \<le> 65529" "st \<in> {3, 11, 15, 17, 20}"
proof -
  from assms obtain h where h: "migris_ccsds_primary_unpack tc = Inr h"
    by (auto simp: migris_tc_accept_def Let_def split: sum.splits)
  from assms h have hf: "ph_version h = 0" "ph_type h = 1" "ph_sec_hdr_flag h = 1" "ph_seq_flags h = 3" "ph_apid h = apid"
    and len: "13 \<le> length tc" "length tc = migris_ccsds_packet_total_size (ph_data_length h)"
    by (auto simp: migris_tc_accept_def Let_def fsw_const split: if_splits)
  from assms h hf len obtain s where s: "migris_pus_tc_secondary_unpack (drop 6 tc) = Inr s"
    by (auto simp: migris_tc_accept_def Let_def fsw_const split: sum.splits)
  from assms h hf len s have sf: "tc_ack_flags s = ack" "tc_source_id s = src" "tc_service_type s = st"
      "tc_service_subtype s = sst" "tc_pus_version s = 2"
    and crc: "migris_crc16_ccitt_false (take (length tc - 2) tc) = rd16_at tc (length tc - 2)"
    and st: "st \<in> {3, 11, 15, 17, 20}"
    by (auto simp: migris_tc_accept_def Let_def fsw_const split: if_splits)
  show "st \<in> {3, 11, 15, 17, 20}" by (rule st)
  let ?app = "router_app_data tc"
  have app: "?app = take (length tc - 13) (drop 11 tc)" by (simp add: router_app_data_def fsw_const)
  have la: "length ?app = length tc - 13" using len(1) by (simp add: app)
  have "unat (ph_data_length h) < 65536" using unsigned_less [of "ph_data_length h"] by simp
  then show "length ?app \<le> 65529" using len(2) la by (simp add: migris_ccsds_packet_total_size_def)
  have "unat (ph_data_length h) = length ?app + 6" using len la by (simp add: migris_ccsds_packet_total_size_def)
  from arg_cong [OF this, of "of_nat :: nat \<Rightarrow> u16"] have dl: "ph_data_length h = of_nat (length ?app + 6)"
    by (simp del: of_nat_add)
  have hdr: "h = \<lparr>ph_version = 0, ph_type = 1, ph_sec_hdr_flag = 1, ph_apid = apid, ph_seq_flags = 3,
      ph_seq_count = ph_seq_count h, ph_data_length = of_nat (length ?app + 6)\<rparr>"
    using hf dl by (cases h) simp
  have sec: "s = \<lparr>tc_pus_version = 2, tc_ack_flags = ack, tc_service_type = st, tc_service_subtype = sst, tc_source_id = src\<rparr>"
    using sf by (cases s) simp
  have p: "migris_ccsds_primary_pack h 6 = Inr (take 6 tc)" by (rule primary_pack_unpack [OF h]) simp
  have ps: "migris_pus_tc_secondary_pack s 5 = Inr (take 5 (drop 6 tc))" by (rule tc_secondary_pack_unpack [OF s]) simp
  have "take 6 tc @ take 5 (drop 6 tc) @ ?app = take (6 + (5 + (length tc - 13))) tc"
    unfolding app take_add drop_drop by simp
  then have body: "take 6 tc @ take 5 (drop 6 tc) @ ?app = take (length tc - 2) tc" using len(1) by simp
  have "be16 (migris_crc16_ccitt_false (take (length tc - 2) tc)) = take 2 (drop (length tc - 2) tc)"
    unfolding crc by (rule be16_rd16_at) (use len(1) in simp)
  then have "take (length tc - 2) tc @ be16 (migris_crc16_ccitt_false (take (length tc - 2) tc)) = tc" by simp
  then have "tc_packet apid (ph_seq_count h) ack st sst src ?app = Some tc"
    using p [unfolded arg_cong [OF hdr, of "\<lambda>h. migris_ccsds_primary_pack h 6"]] ps [unfolded sec] body
    by (simp only: tc_packet_def sum.case Let_def)
  then show "\<exists>c. tc_packet apid c ack st sst src ?app = Some tc" by blast
qed

lemma accepted_residue:
  assumes "migris_tc_accept tc apid = accepted_as ack src st sst"
  shows "migris_crc16_ccitt_false tc = 0"
proof -
  from accept_sound(1) [OF assms] obtain c where "tc_packet apid c ack st sst src (router_app_data tc) = Some tc" by blast
  then obtain b where "tc = b @ be16 (migris_crc16_ccitt_false b)" by (rule tc_packet_shape)
  then show ?thesis by (metis be16_def crc_residue rd16_be16)
qed

section \<open>Handlers keep the router's contract\<close>

definition router_inv :: "migris_tc_router_ctx_t \<Rightarrow> bool" where
  "router_inv ctx \<longleftrightarrow> rt_apid ctx \<le> 0x7FF \<and> rt_tm_seq_count ctx \<le> 0x3FFF
     \<and> pred_option dp_inv (rt_datapool ctx) \<and> pred_option sch_inv (rt_schedule ctx)
     \<and> pred_option pks_inv (rt_store ctx) \<and> pred_option hks_inv (rt_hkstore ctx)"

text \<open>The fields only the dispatch itself, or the application, writes.\<close>

definition stored_packets :: "migris_pktstore_t option \<Rightarrow> migris_pktstore_entry_t set" where
  "stored_packets store = (case store of None \<Rightarrow> {} | Some s \<Rightarrow> set (pks_list s))"

lemma rel_keeps_same [simp]: "rel_option dp_keeps x x"
  by (cases x) (simp_all add: dp_keeps_refl)

lemma rel_keeps_trans: "rel_option dp_keeps x y \<Longrightarrow> rel_option dp_keeps y z \<Longrightarrow> rel_option dp_keeps x z"
  by (cases x; cases y; cases z) (auto intro: dp_keeps_trans)

definition router_kept :: "migris_tc_router_ctx_t \<Rightarrow> migris_tc_router_ctx_t \<Rightarrow> bool" where
  "router_kept ctx ctx' \<longleftrightarrow> rt_apid ctx' = rt_apid ctx \<and> rt_sink ctx' = rt_sink ctx
     \<and> rel_option dp_keeps (rt_datapool ctx) (rt_datapool ctx') \<and> (rt_schedule ctx' = None \<longleftrightarrow> rt_schedule ctx = None)
     \<and> (rt_store ctx' = None \<longleftrightarrow> rt_store ctx = None) \<and> (rt_hkstore ctx' = None \<longleftrightarrow> rt_hkstore ctx = None)
     \<and> stored_packets (rt_store ctx') \<subseteq> stored_packets (rt_store ctx)"

definition router_same :: "migris_tc_router_ctx_t \<Rightarrow> migris_tc_router_ctx_t \<Rightarrow> bool" where
  "router_same ctx ctx' \<longleftrightarrow> rt_apid ctx' = rt_apid ctx \<and> rt_pus1 ctx' = rt_pus1 ctx \<and> rt_pus5 ctx' = rt_pus5 ctx
     \<and> rt_tc_accepted_count ctx' = rt_tc_accepted_count ctx \<and> rt_tc_rejected_count ctx' = rt_tc_rejected_count ctx
     \<and> rt_rx_ring_overflow_drops ctx' = rt_rx_ring_overflow_drops ctx \<and> rt_sink ctx' = rt_sink ctx \<and> router_kept ctx ctx'"

definition router_reply_ok :: "migris_tc_router_ctx_t \<Rightarrow> router_reply \<Rightarrow> bool" where
  "router_reply_ok ctx reply \<longleftrightarrow> (case reply of (b, fc, ctx') \<Rightarrow>
     length b \<le> 83 \<and> (\<exists>views. tm_burst (rt_apid ctx) (rt_tm_seq_count ctx) b views (rt_tm_seq_count ctx'))
     \<and> (fc \<noteq> FC_NONE \<longrightarrow> b = []) \<and> router_inv ctx' \<and> router_same ctx ctx')"

lemma router_same_refl: "router_same ctx ctx"
  by (simp add: router_same_def router_kept_def)

lemma reply_silent: "router_inv ctx' \<Longrightarrow> router_same ctx ctx' \<Longrightarrow> rt_tm_seq_count ctx' = rt_tm_seq_count ctx \<Longrightarrow>
    router_reply_ok ctx ([], fc, ctx')"
  by (auto simp: router_reply_ok_def intro!: exI [of _ "[]"])

lemma reply_refused: "router_inv ctx \<Longrightarrow> router_reply_ok ctx ([], fc, ctx)"
  by (simp add: reply_silent router_same_refl)

text \<open>The handlers' common end: a service result becomes a reply.\<close>

lemma reply_of_result:
  assumes "router_inv ctx" "tm_result (rt_apid ctx) (rt_tm_seq_count ctx) n r (rt_tm_seq_count ctx')" "n \<le> 83"
    and "router_same ctx ctx'" "pred_option dp_inv (rt_datapool ctx')" "pred_option sch_inv (rt_schedule ctx')"
      "pred_option pks_inv (rt_store ctx')" "pred_option hks_inv (rt_hkstore ctx')"
  shows "router_reply_ok ctx (case r of Inr out \<Rightarrow> (out, FC_NONE, ctx') | Inl rc \<Rightarrow> ([], f rc, ctx'))"
proof -
  have "rt_tm_seq_count ctx' \<le> 0x3FFF"
    by (rule tm_result_seq [OF assms(2)]) (use assms(1) in \<open>simp add: router_inv_def\<close>)
  then have "router_inv ctx'" using assms(1,4-) by (simp add: router_inv_def router_same_def)
  with assms(2-4) show ?thesis
    by (cases r) (auto simp: reply_silent, auto simp: router_reply_ok_def tm_result_def)
qed

locale router_handler =
  fixes handle :: "migris_tc_router_ctx_t \<Rightarrow> migris_tc_accept_result_t \<Rightarrow> u32 \<Rightarrow> bytes \<Rightarrow> nat \<Rightarrow> router_reply"
  assumes handle_reply: "router_inv ctx \<Longrightarrow> router_reply_ok ctx (handle ctx v now tc cap)"
begin

lemma handle_burst:
  assumes "router_inv ctx" "handle ctx v now tc cap = (b, fc, ctx')"
  shows "length b \<le> 83" "\<exists>views. tm_burst (rt_apid ctx) (rt_tm_seq_count ctx) b views (rt_tm_seq_count ctx')"
    "fc \<noteq> FC_NONE \<Longrightarrow> b = []" "router_inv ctx'" "router_same ctx ctx'"
  using handle_reply [OF assms(1), of v now tc cap] assms(2) by (simp_all add: router_reply_ok_def)

end

lemma pus17_result:
  assumes "apid \<le> 0x7FF" "seq \<le> 0x3FFF" "migris_pus17_execute c apid seq now st src cap = (r, c', seq')"
  shows "tm_result apid seq 18 r seq'"
  using assms(3) pus17_ok [OF assms(1,2), of cap c now src] pus17_refused [OF assms(1,2), where st = st and cap = cap and ctx = c]
  by (cases "cap < 18"; cases "st = 1") (auto intro: tm_resultI)

interpretation rt17: router_handler router_pus17
proof unfold_locales
  fix ctx and v :: migris_tc_accept_result_t and now tc cap assume inv: "router_inv ctx"
  obtain r c seq where e: "migris_pus17_execute (rt_pus17 ctx) (rt_apid ctx) (rt_tm_seq_count ctx) now
      (av_service_subtype v) (av_source_id v) cap = (r, c, seq)" by (metis prod.exhaust)
  have res: "tm_result (rt_apid ctx) (rt_tm_seq_count ctx) 18 r seq"
    by (rule pus17_result [OF _ _ e]) (use inv in \<open>simp_all add: router_inv_def\<close>)
  with res inv show "router_reply_ok ctx (router_pus17 ctx v now tc cap)"
    by (simp only: router_pus17_def e Let_def prod.case)
      (rule reply_of_result [where n = 18], auto simp: router_inv_def router_same_def router_kept_def)
qed

interpretation rt20: router_handler router_pus20
proof unfold_locales
  fix ctx and v :: migris_tc_accept_result_t and now tc cap assume inv: "router_inv ctx"
  show "router_reply_ok ctx (router_pus20 ctx v now tc cap)"
  proof (cases "rt_datapool ctx")
    case None
    with inv show ?thesis by (simp add: router_pus20_def reply_refused)
  next
    case (Some dp)
    obtain r c dp' seq where e: "migris_pus20_execute (rt_pus20 ctx) dp (rt_apid ctx) (rt_tm_seq_count ctx) now
        (av_service_subtype v) (av_source_id v) (router_app_data tc) cap = (r, (c, dp'), seq)" by (metis prod.exhaust)
    have res: "tm_result (rt_apid ctx) (rt_tm_seq_count ctx) 67 r seq \<and> dp_inv (snd (c, dp'))"
      by (rule pus20_result [where cs = "(rt_pus20 ctx, dp)"]) (use inv Some e in \<open>simp_all add: router_inv_def\<close>)
    have "dp_keeps dp dp'" by (rule pus20_keeps [OF _ e]) (use inv Some in \<open>simp add: router_inv_def\<close>)
    with res inv Some show ?thesis
      by (simp only: router_pus20_def e Let_def prod.case option.case)
        (rule reply_of_result [where n = 67], auto simp: router_inv_def router_same_def router_kept_def)
  qed
qed

interpretation rt11: router_handler router_pus11
proof unfold_locales
  fix ctx and v :: migris_tc_accept_result_t and now tc cap assume inv: "router_inv ctx"
  show "router_reply_ok ctx (router_pus11 ctx v now tc cap)"
  proof (cases "rt_schedule ctx")
    case None
    with inv show ?thesis by (simp add: router_pus11_def reply_refused)
  next
    case (Some s)
    obtain r c s' seq where e: "migris_pus11_execute (rt_pus11 ctx) s (rt_apid ctx) (rt_tm_seq_count ctx) now
        (av_service_subtype v) (av_source_id v) (router_app_data tc) cap = (r, (c, s'), seq)" by (metis prod.exhaust)
    have res: "tm_result (rt_apid ctx) (rt_tm_seq_count ctx) 83 r seq \<and> sch_inv (snd (c, s'))"
      by (rule pus11_result [where cs = "(rt_pus11 ctx, s)"]) (use inv Some e in \<open>simp_all add: router_inv_def\<close>)
    with res inv Some show ?thesis
      by (simp only: router_pus11_def e Let_def prod.case option.case)
        (rule reply_of_result [where n = 83], auto simp: router_inv_def router_same_def router_kept_def)
  qed
qed

interpretation rt15: router_handler router_pus15
proof unfold_locales
  fix ctx and v :: migris_tc_accept_result_t and now tc cap assume inv: "router_inv ctx"
  show "router_reply_ok ctx (router_pus15 ctx v now tc cap)"
  proof (cases "rt_store ctx")
    case None
    with inv show ?thesis by (simp add: router_pus15_def reply_refused)
  next
    case (Some s)
    obtain r c s' seq where e: "migris_pus15_execute (rt_pus15 ctx) s (rt_apid ctx) (rt_tm_seq_count ctx) now
        (av_service_subtype v) (av_source_id v) (router_app_data tc) cap = (r, (c, s'), seq)" by (metis prod.exhaust)
    have res: "tm_result (rt_apid ctx) (rt_tm_seq_count ctx) 29 r seq \<and> pks_inv (snd (c, s'))"
      by (rule pus15_result [where cs = "(rt_pus15 ctx, s)"]) (use inv Some e in \<open>simp_all add: router_inv_def\<close>)
    have "set (pks_list (snd (c, s'))) \<subseteq> set (pks_list s)"
      by (rule order_trans [OF pus15_keeps [where cs = "(rt_pus15 ctx, s)"]]) (use inv Some e in \<open>simp_all add: router_inv_def\<close>)
    with res inv Some show ?thesis
      by (simp only: router_pus15_def e Let_def prod.case option.case)
        (rule reply_of_result [where n = 29], auto simp: router_inv_def router_same_def router_kept_def stored_packets_def)
  qed
qed

lemma poll_framework_reply: "router_inv ctx \<Longrightarrow> router_reply_ok ctx (router_pus3_poll_framework ctx v now cap)"
proof -
  assume inv: "router_inv ctx"
  obtain r c seq where e: "migris_pus3_build_hk_report (rt_pus3 ctx) (rt_apid ctx) (rt_tm_seq_count ctx) now
      MIGRIS_PUS3_SID_FRAMEWORK_DIAG \<lparr>hp_pus1_msg_counter = map (\<lambda>i. p1_msg_counter (rt_pus1 ctx) ! i) [0..<4],
        hp_pus5_msg_counter = map (\<lambda>i. p5_msg_counter (rt_pus5 ctx) ! i) [0..<4],
        hp_pus17_tm_msg_counter = p17_tm_msg_counter (rt_pus17 ctx), hp_tc_accepted_count = rt_tc_accepted_count ctx,
        hp_tc_rejected_count = rt_tc_rejected_count ctx, hp_rx_ring_overflow_drops = rt_rx_ring_overflow_drops ctx\<rparr>
      (av_source_id v) cap = (r, c, seq)" by (metis prod.exhaust)
  have res: "tm_result (rt_apid ctx) (rt_tm_seq_count ctx) 47 r seq"
    by (rule hk_report_result [OF _ _ e]) (use inv in \<open>simp_all add: router_inv_def\<close>)
  with res inv show ?thesis
    by (simp only: router_pus3_poll_framework_def e Let_def prod.case)
      (rule reply_of_result [where n = 47], auto simp: router_inv_def router_same_def router_kept_def)
qed

lemma poll_dynamic_reply: "router_inv ctx \<Longrightarrow> router_reply_ok ctx (router_pus3_poll_dynamic ctx v now sid cap)"
proof -
  assume inv: "router_inv ctx"
  show ?thesis
  proof (cases "\<exists>hks x dp. rt_hkstore ctx = Some hks \<and> migris_hkstore_find hks sid = Some x \<and> rt_datapool ctx = Some dp")
    case False
    with inv show ?thesis by (auto simp: router_pus3_poll_dynamic_def reply_refused split: option.splits)
  next
    case True
    then obtain hks x dp where some: "rt_hkstore ctx = Some hks" "migris_hkstore_find hks sid = Some x" "rt_datapool ctx = Some dp"
      by blast
    obtain r c seq where e: "migris_pus3_build_dynamic_hk_report (rt_pus3 ctx) dp x (rt_apid ctx) (rt_tm_seq_count ctx) now
        (av_source_id v) cap = (r, c, seq)" by (metis prod.exhaust)
    have "hks_inv hks" using inv some by (simp add: router_inv_def)
    with some(2) have "length (hk_param_ids x) \<le> 8" by (auto simp: hks_find_iff hks_inv_def fsw_const)
    then have res: "tm_result (rt_apid ctx) (rt_tm_seq_count ctx) 52 r seq"
      by (rule dynamic_report_result [OF _ _ _ _ e, rotated]) (use inv some in \<open>simp_all add: router_inv_def\<close>)
    with res inv some show ?thesis
      by (simp only: router_pus3_poll_dynamic_def e Let_def prod.case option.case)
        (rule reply_of_result [where n = 52], auto simp: router_inv_def router_same_def router_kept_def)
  qed
qed

lemma manage_reply: "router_inv ctx \<Longrightarrow> router_reply_ok ctx (router_pus3_manage ctx v app)"
  by (auto simp: router_pus3_manage_def split_def Let_def reply_refused router_inv_def router_same_def router_kept_def
      execute_inv intro!: reply_silent split: option.splits)

interpretation rt3: router_handler router_pus3
  by unfold_locales (auto simp: router_pus3_def router_pus3_poll_def Let_def reply_refused poll_framework_reply
      poll_dynamic_reply manage_reply)

interpretation rt: router_handler router_route
  by unfold_locales (simp add: router_route_def router_dispatch_table_def reply_refused rt3.handle_reply
      rt11.handle_reply rt15.handle_reply rt17.handle_reply rt20.handle_reply)

section \<open>The dispatch, step by step\<close>

definition acceptance_view ::
  "migris_tc_router_ctx_t \<Rightarrow> u32 \<Rightarrow> bytes \<Rightarrow> u16 \<Rightarrow> migris_pus1_failure_code_t \<Rightarrow> tm_view" where
  "acceptance_view ctx now tc dest fc =
     tm_view_of (rt_apid ctx) (rt_tm_seq_count ctx) 1 (if fc = FC_NONE then 1 else 2)
       (p1_msg_counter (rt_pus1 ctx) ! (if fc = FC_NONE then 0 else 1)) dest now (pus1_source tc fc)"

definition completion_view ::
  "migris_tc_router_ctx_t \<Rightarrow> u32 \<Rightarrow> bytes \<Rightarrow> u16 \<Rightarrow> migris_pus1_failure_code_t \<Rightarrow> tm_view" where
  "completion_view ctx now tc dest fc =
     tm_view_of (rt_apid ctx) (rt_tm_seq_count ctx) 1 (if fc = FC_NONE then 7 else 8)
       (p1_msg_counter (rt_pus1 ctx) ! (if fc = FC_NONE then 2 else 3)) dest now (pus1_source tc fc)"

text \<open>The context after a verification report with message counter \<open>i\<close>, and after the count of a verdict.\<close>

definition router_verified :: "migris_tc_router_ctx_t \<Rightarrow> nat \<Rightarrow> migris_tc_router_ctx_t" where
  "router_verified ctx i = ctx\<lparr>rt_pus1 := (rt_pus1 ctx)\<lparr>p1_msg_counter := bump (p1_msg_counter (rt_pus1 ctx)) i\<rparr>,
     rt_tm_seq_count := next_seq (rt_tm_seq_count ctx)\<rparr>"

definition router_counted :: "migris_tc_router_ctx_t \<Rightarrow> bool \<Rightarrow> migris_tc_router_ctx_t" where
  "router_counted ctx accepted =
     (if accepted then ctx\<lparr>rt_tc_accepted_count := rt_tc_accepted_count ctx + 1\<rparr>
      else ctx\<lparr>rt_tc_rejected_count := rt_tc_rejected_count ctx + 1\<rparr>)"

abbreviation wants_acceptance :: "migris_tc_accept_result_t \<Rightarrow> bool" where
  "wants_acceptance v \<equiv> av_ack_flags v AND MIGRIS_PUS_TC_ACK_ACCEPTANCE \<noteq> 0"

abbreviation wants_completion :: "migris_tc_accept_result_t \<Rightarrow> bool" where
  "wants_completion v \<equiv> av_ack_flags v AND MIGRIS_PUS_TC_ACK_COMPLETION \<noteq> 0"

lemma router_verified_inv: "router_inv ctx \<Longrightarrow> router_inv (router_verified ctx i)"
  by (simp add: router_inv_def router_verified_def next_seq_le)

lemma router_counted_inv: "router_inv ctx \<Longrightarrow> router_inv (router_counted ctx a)"
  by (simp add: router_inv_def router_counted_def)

lemma router_counted_fields [simp]:
  "rt_apid (router_counted ctx a) = rt_apid ctx" "rt_tm_seq_count (router_counted ctx a) = rt_tm_seq_count ctx"
  "rt_pus1 (router_counted ctx a) = rt_pus1 ctx"
  by (simp_all add: router_counted_def)

lemma router_verified_fields [simp]:
  "rt_apid (router_verified ctx i) = rt_apid ctx" "rt_tm_seq_count (router_verified ctx i) = next_seq (rt_tm_seq_count ctx)"
  by (simp_all add: router_verified_def)

lemma addressed_length: "av_addressed (migris_tc_accept tc apid) \<Longrightarrow> 6 \<le> length tc"
  by (auto simp: migris_tc_accept_def Let_def migris_ccsds_primary_unpack_def fsw_const split: if_splits sum.splits)

lemma length_error_identity:
  "av_fc (migris_tc_accept tc apid) = FC_LENGTH_ERROR \<Longrightarrow> av_source_id (migris_tc_accept tc apid) = 0"
  by (auto simp: migris_tc_accept_def Let_def split: if_splits sum.splits)

lemma request_id_take: "6 \<le> length tc \<Longrightarrow> map (\<lambda>i. tc ! i) [0..<MIGRIS_PUS1_REQUEST_ID_SIZE] = take 4 tc"
  by (simp add: fsw_const list_eq_iff_nth_eq)

lemma acceptance_step:
  assumes "router_inv ctx" "6 \<le> length tc" "23 \<le> cap - length out"
  shows "\<exists>pkt. router_acceptance ctx now (take 4 tc) dest fc out cap = (out @ pkt, router_verified ctx (if fc = FC_NONE then 0 else 1))
    \<and> tm_burst (rt_apid ctx) (rt_tm_seq_count ctx) pkt [acceptance_view ctx now tc dest fc] (next_seq (rt_tm_seq_count ctx))
    \<and> length pkt = (if fc = FC_NONE then 22 else 23)"
proof -
  have "4 \<le> length (take 4 tc)" using assms(2) by simp
  moreover have "pus1_source (take 4 tc) fc = pus1_source tc fc" by (simp add: pus1_source_def)
  moreover have "rt_apid ctx \<le> 0x7FF" "rt_tm_seq_count ctx \<le> 0x3FFF" using assms(1) by (simp_all add: router_inv_def)
  ultimately obtain pkt where "migris_pus1_build_acceptance (rt_pus1 ctx) (rt_apid ctx) (rt_tm_seq_count ctx) now (take 4 tc) dest fc
      (cap - length out) = (Inr pkt, (rt_pus1 ctx)\<lparr>p1_msg_counter := bump (p1_msg_counter (rt_pus1 ctx))
        (if fc = FC_NONE then 0 else 1)\<rparr>, next_seq (rt_tm_seq_count ctx))"
    "tm_burst (rt_apid ctx) (rt_tm_seq_count ctx) pkt [acceptance_view ctx now tc dest fc] (next_seq (rt_tm_seq_count ctx))"
    "length pkt = (if fc = FC_NONE then 22 else 23)"
    using build_acceptance_ok [OF _ _ assms(3), of "rt_apid ctx" "rt_tm_seq_count ctx" "take 4 tc" "rt_pus1 ctx" now dest fc]
    unfolding acceptance_view_def by metis
  then show ?thesis by (simp add: router_acceptance_def router_verified_def)
qed

lemma completion_step:
  assumes "router_inv ctx" "6 \<le> length tc" "23 \<le> cap - length out"
  shows "\<exists>pkt. router_completion ctx now (take 4 tc) dest fc out cap = (out @ pkt, router_verified ctx (if fc = FC_NONE then 2 else 3))
    \<and> tm_burst (rt_apid ctx) (rt_tm_seq_count ctx) pkt [completion_view ctx now tc dest fc] (next_seq (rt_tm_seq_count ctx))
    \<and> length pkt = (if fc = FC_NONE then 22 else 23)"
proof -
  have "4 \<le> length (take 4 tc)" using assms(2) by simp
  moreover have "pus1_source (take 4 tc) fc = pus1_source tc fc" by (simp add: pus1_source_def)
  moreover have "rt_apid ctx \<le> 0x7FF" "rt_tm_seq_count ctx \<le> 0x3FFF" using assms(1) by (simp_all add: router_inv_def)
  ultimately obtain pkt where "migris_pus1_build_completion (rt_pus1 ctx) (rt_apid ctx) (rt_tm_seq_count ctx) now (take 4 tc) dest fc
      (cap - length out) = (Inr pkt, (rt_pus1 ctx)\<lparr>p1_msg_counter := bump (p1_msg_counter (rt_pus1 ctx))
        (if fc = FC_NONE then 2 else 3)\<rparr>, next_seq (rt_tm_seq_count ctx))"
    "tm_burst (rt_apid ctx) (rt_tm_seq_count ctx) pkt [completion_view ctx now tc dest fc] (next_seq (rt_tm_seq_count ctx))"
    "length pkt = (if fc = FC_NONE then 22 else 23)"
    using build_completion_ok [OF _ _ assms(3), of "rt_apid ctx" "rt_tm_seq_count ctx" "take 4 tc" "rt_pus1 ctx" now dest fc]
    unfolding completion_view_def by metis
  then show ?thesis by (simp add: router_completion_def router_verified_def)
qed

lemma dispatch_rejected:
  assumes inv: "router_inv ctx" and cap: "128 \<le> cap" and verdict: "migris_tc_accept tc (rt_apid ctx) = v"
    and v: "av_addressed v" "av_fc v \<noteq> FC_NONE"
  defines "told \<equiv> av_fc v = FC_LENGTH_ERROR \<or> wants_acceptance v"
  shows "\<exists>out. migris_tc_router_dispatch report ctx st now tc cap =
      (Inr out, if told then router_verified (router_counted ctx False) 1 else router_counted ctx False,
       router_report_rejection report ctx st now v)
    \<and> tm_burst (rt_apid ctx) (rt_tm_seq_count ctx) out
        (if told then [acceptance_view ctx now tc (av_source_id v) (av_fc v)] else [])
        (if told then next_seq (rt_tm_seq_count ctx) else rt_tm_seq_count ctx)
    \<and> length out = (if told then 23 else 0)"
proof -
  let ?c = "router_counted ctx False"
  have len: "6 \<le> length tc" using v(1) unfolding verdict [symmetric] by (rule addressed_length)
  have "23 \<le> cap - length []" using cap by simp
  from acceptance_step [OF router_counted_inv [OF inv] len this, of False now "av_source_id v" "av_fc v"] v(2)
  obtain pkt where p: "router_acceptance ?c now (take 4 tc) (av_source_id v) (av_fc v) [] cap = (pkt, router_verified ?c 1)"
    "tm_burst (rt_apid ctx) (rt_tm_seq_count ctx) pkt [acceptance_view ctx now tc (av_source_id v) (av_fc v)]
       (next_seq (rt_tm_seq_count ctx))" "length pkt = 23"
    by (auto simp: acceptance_view_def)
  have src: "av_fc v = FC_LENGTH_ERROR \<Longrightarrow> av_source_id v = 0"
    using length_error_identity [of tc "rt_apid ctx"] by (simp add: verdict)
  have rep: "router_report_rejection report ?c st now v = router_report_rejection report ctx st now v"
    by (simp add: router_report_rejection_def router_counted_def)
  have c: "ctx\<lparr>rt_tc_rejected_count := rt_tc_rejected_count ctx + 1\<rparr> = ?c" by (simp add: router_counted_def)
  have e: "migris_tc_router_dispatch report ctx st now tc cap =
      (let (out, ctx') = (if told then router_acceptance ?c now (take 4 tc) (av_source_id v) (av_fc v) [] cap else ([], ?c))
       in (Inr out, ctx', router_report_rejection report ctx st now v))"
    using cap v src
    by (cases "av_fc v = FC_LENGTH_ERROR"; cases "wants_acceptance v")
      (simp_all add: migris_tc_router_dispatch_def MIGRIS_TC_ROUTER_MAX_TM_def Let_def request_id_take [OF len] told_def
        verdict c rep)
  show ?thesis unfolding e using p by simp
qed

lemma dispatch_accepted:
  assumes inv: "router_inv ctx" and cap: "128 \<le> cap" and verdict: "migris_tc_accept tc (rt_apid ctx) = v"
    and v: "av_addressed v" "av_fc v = FC_NONE"
  defines "ctx1 \<equiv> (if wants_acceptance v then router_verified (router_counted ctx True) 0 else router_counted ctx True)"
  assumes route: "router_route ctx1 v now tc (if wants_acceptance v then cap - 22 else cap) = (reply, fc, ctx2)"
  shows "\<exists>acc reply_views comp.
      migris_tc_router_dispatch report ctx st now tc cap =
        (Inr (acc @ reply @ comp), if wants_completion v then router_verified ctx2 (if fc = FC_NONE then 2 else 3) else ctx2, st)
    \<and> tm_burst (rt_apid ctx) (rt_tm_seq_count ctx) acc
        (if wants_acceptance v then [acceptance_view ctx now tc (av_source_id v) FC_NONE] else []) (rt_tm_seq_count ctx1)
    \<and> tm_burst (rt_apid ctx) (rt_tm_seq_count ctx1) reply reply_views (rt_tm_seq_count ctx2)
    \<and> tm_burst (rt_apid ctx) (rt_tm_seq_count ctx2) comp
        (if wants_completion v then [completion_view ctx2 now tc (av_source_id v) fc] else [])
        (if wants_completion v then next_seq (rt_tm_seq_count ctx2) else rt_tm_seq_count ctx2)
    \<and> length (acc @ reply @ comp) \<le> 127 \<and> router_inv ctx1 \<and> router_inv ctx2 \<and> router_same ctx1 ctx2 \<and> (fc \<noteq> FC_NONE \<longrightarrow> reply = [])"
proof -
  let ?c = "router_counted ctx True"
  have len: "6 \<le> length tc" using v(1) unfolding verdict [symmetric] by (rule addressed_length)
  have inv1: "router_inv ctx1" by (simp add: ctx1_def router_verified_inv router_counted_inv inv)
  note r = rt.handle_burst [OF inv1 route]
  have ap: "rt_apid ctx2 = rt_apid ctx" "rt_apid ctx1 = rt_apid ctx" using r(5) by (simp_all add: router_same_def ctx1_def)
  obtain views where views: "tm_burst (rt_apid ctx) (rt_tm_seq_count ctx1) reply views (rt_tm_seq_count ctx2)"
    using r(2) ap by auto
  have "23 \<le> cap - length []" using cap by simp
  from acceptance_step [OF router_counted_inv [OF inv] len this, of True now "av_source_id v" FC_NONE]
  obtain a where a: "router_acceptance ?c now (take 4 tc) (av_source_id v) FC_NONE [] cap = (a, router_verified ?c 0)"
    "tm_burst (rt_apid ctx) (rt_tm_seq_count ctx) a [acceptance_view ctx now tc (av_source_id v) FC_NONE]
       (next_seq (rt_tm_seq_count ctx))" "length a = 22"
    by (auto simp: acceptance_view_def)
  let ?a = "if wants_acceptance v then a else []"
  have "length ?a \<le> 22" using a(3) by simp
  then have l: "length (?a @ reply) \<le> 105" using r(1) by simp
  then have "23 \<le> cap - length (?a @ reply)" using cap by arith
  from completion_step [OF r(4) len this, of now "av_source_id v" fc] ap(1)
  obtain k where k: "router_completion ctx2 now (take 4 tc) (av_source_id v) fc (?a @ reply) cap =
      ((?a @ reply) @ k, router_verified ctx2 (if fc = FC_NONE then 2 else 3))"
    "tm_burst (rt_apid ctx) (rt_tm_seq_count ctx2) k [completion_view ctx2 now tc (av_source_id v) fc] (next_seq (rt_tm_seq_count ctx2))"
    "length k = (if fc = FC_NONE then 22 else 23)" by auto
  let ?k = "if wants_completion v then k else []"
  have c: "ctx\<lparr>rt_tc_accepted_count := rt_tc_accepted_count ctx + 1\<rparr> = ?c" by (simp add: router_counted_def)
  have "\<not> cap < 128" using cap by simp
  have one: "(if wants_acceptance v then router_acceptance ?c now (take 4 tc) (av_source_id v) FC_NONE [] cap else ([], ?c)) = (?a, ctx1)"
    by (simp add: a(1) ctx1_def)
  have two: "cap - length ?a = (if wants_acceptance v then cap - 22 else cap)" by (simp add: a(3))
  have three: "(if wants_completion v then router_completion ctx2 now (take 4 tc) (av_source_id v) fc (?a @ reply) cap else (?a @ reply, ctx2)) =
      ((?a @ reply) @ ?k, if wants_completion v then router_verified ctx2 (if fc = FC_NONE then 2 else 3) else ctx2)"
    using k(1) by simp
  have e: "migris_tc_router_dispatch report ctx st now tc cap =
      (Inr (?a @ reply @ ?k), if wants_completion v then router_verified ctx2 (if fc = FC_NONE then 2 else 3) else ctx2, st)"
    using v \<open>\<not> cap < 128\<close> by (simp only: migris_tc_router_dispatch_def MIGRIS_TC_ROUTER_MAX_TM_def Let_def
      request_id_take [OF len] verdict c one two three route prod.case if_True if_False not_True_eq_False
      migris_pus1_failure_code_t.distinct append_assoc simp_thms)
  have "length (?a @ reply @ ?k) \<le> 127"
    using l k(3) r(1,3) a(3) by (cases "fc = FC_NONE") auto
  moreover have "tm_burst (rt_apid ctx) (rt_tm_seq_count ctx) ?a
      (if wants_acceptance v then [acceptance_view ctx now tc (av_source_id v) FC_NONE] else []) (rt_tm_seq_count ctx1)"
    using a(2) by (simp add: ctx1_def)
  moreover have "tm_burst (rt_apid ctx) (rt_tm_seq_count ctx2) ?k
        (if wants_completion v then [completion_view ctx2 now tc (av_source_id v) fc] else [])
        (if wants_completion v then next_seq (rt_tm_seq_count ctx2) else rt_tm_seq_count ctx2)"
    using k(2) by simp
  ultimately show ?thesis using e views inv1 r(3-5) by blast
qed

section \<open>Properties\<close>

lemma accept_verdict_cases:
  "migris_tc_accept tc apid = v \<Longrightarrow> av_addressed v \<and> av_fc v = FC_NONE \<longleftrightarrow> (\<exists>ack src s ss. v = accepted_as ack src s ss)"
  by (cases v) auto

lemma rejection_keeps_stores:
  assumes "router_inv ctx" "migris_tc_accept tc (rt_apid ctx) = v" "\<not> (av_addressed v \<and> av_fc v = FC_NONE)"
    and "migris_tc_router_dispatch report ctx st now tc cap = (r, ctx', st')"
  shows "rt_datapool ctx' = rt_datapool ctx \<and> rt_schedule ctx' = rt_schedule ctx \<and> rt_store ctx' = rt_store ctx
    \<and> rt_hkstore ctx' = rt_hkstore ctx \<and> rt_tc_accepted_count ctx' = rt_tc_accepted_count ctx"
proof (cases "128 \<le> cap \<and> av_addressed v")
  case True
  with dispatch_rejected [OF assms(1) _ assms(2), of cap report st now] assms(3,4) show ?thesis
    by (auto simp: router_verified_def router_counted_def)
next
  case False
  then show ?thesis using assms(2,4) by (auto simp: migris_tc_router_dispatch_def Let_def fsw_const split: if_splits)
qed

lemma dispatch_quiet:
  "cap < 128 \<Longrightarrow> migris_tc_router_dispatch report ctx st now tc cap = (Inl TC_ROUTER_ERR_BUF_TOO_SMALL, ctx, st)"
  "128 \<le> cap \<Longrightarrow> \<not> av_addressed (migris_tc_accept tc (rt_apid ctx)) \<Longrightarrow>
     migris_tc_router_dispatch report ctx st now tc cap = (Inr [], ctx, st)"
  by (simp_all add: migris_tc_router_dispatch_def fsw_const)

text \<open>All a dispatch does to the sink's state is at most one report.\<close>

lemma dispatch_sink:
  assumes "migris_tc_router_dispatch report ctx st now tc cap = (r, ctx', st')"
  shows "st' = st \<or> (\<exists>sev eid aux. st' = snd (report st now sev eid aux))"
  using assms
  by (auto simp: migris_tc_router_dispatch_def router_report_rejection_def Let_def split: if_splits prod.splits)

text \<open>A dispatch unsets no pointer and adds nothing to the packet store.\<close>

lemma kept_basic:
  "router_kept ctx ctx" "router_kept ctx (router_counted ctx b)" "router_kept ctx c \<Longrightarrow> router_kept ctx (router_verified c k)"
  "router_kept ctx c \<Longrightarrow> router_kept c d \<Longrightarrow> router_kept ctx d"
  by (auto simp: router_kept_def router_verified_def router_counted_def intro: rel_keeps_trans)

lemma dispatch_kept:
  assumes "router_inv ctx" "migris_tc_router_dispatch report ctx st now tc cap = (r, ctx', st')"
  shows "router_kept ctx ctx'"
proof -
  let ?v = "migris_tc_accept tc (rt_apid ctx)"
  consider "cap < 128" | "128 \<le> cap" "\<not> av_addressed ?v" | "128 \<le> cap" "av_addressed ?v" "av_fc ?v \<noteq> FC_NONE"
    | "128 \<le> cap" "av_addressed ?v" "av_fc ?v = FC_NONE" by linarith
  then show ?thesis
  proof cases
    case 3
    from dispatch_rejected [OF assms(1) 3(1) refl 3(2,3), of report st now] assms(2)
    have "ctx' = router_counted ctx False \<or> ctx' = router_verified (router_counted ctx False) 1" by (auto split: if_splits)
    then show ?thesis by (auto intro: kept_basic)
  next
    case 4
    let ?c = "if wants_acceptance ?v then router_verified (router_counted ctx True) 0 else router_counted ctx True"
    obtain reply fc ctx2 where route: "router_route ?c ?v now tc (if wants_acceptance ?v then cap - 22 else cap) = (reply, fc, ctx2)"
      by (metis prod.exhaust)
    from dispatch_accepted [OF assms(1) 4(1) refl 4(2,3) route, of report st] assms(2)
    have c: "ctx' = (if wants_completion ?v then router_verified ctx2 (if fc = FC_NONE then 2 else 3) else ctx2)" "router_same ?c ctx2"
      by auto
    have "router_kept ctx ?c" by (auto intro: kept_basic)
    with c(2) have "router_kept ctx ctx2" by (auto simp: router_same_def intro: kept_basic(4))
    then show ?thesis by (simp add: c(1) kept_basic(3))
  next
    case 1
    with assms(2) dispatch_quiet(1) [OF 1, of report ctx st now tc] have "ctx' = ctx" by simp
    then show ?thesis by (simp add: kept_basic(1))
  next
    case 2
    with assms(2) dispatch_quiet(2) [OF 2, of report st now] have "ctx' = ctx" by simp
    then show ?thesis by (simp add: kept_basic(1))
  qed
qed

lemma dispatch_burst:
  assumes "router_inv ctx" and cap: "128 \<le> cap" and "migris_tc_router_dispatch report ctx st now tc cap = (r, ctx', st')"
  shows "\<exists>out views. r = Inr out \<and> length out \<le> 127 \<and> tm_burst (rt_apid ctx) (rt_tm_seq_count ctx) out views (rt_tm_seq_count ctx')
      \<and> router_inv ctx' \<and> rt_apid ctx' = rt_apid ctx"
proof -
  let ?v = "migris_tc_accept tc (rt_apid ctx)"
  consider "\<not> av_addressed ?v" | "av_addressed ?v" "av_fc ?v \<noteq> FC_NONE" | "av_addressed ?v" "av_fc ?v = FC_NONE" by blast
  then show ?thesis
  proof cases
    case 1
    then have "r = Inr []" "ctx' = ctx" using dispatch_quiet(2) [OF cap 1, of report st now] assms(3) by auto
    with assms(1) tm_burst_Nil [of "rt_apid ctx" "rt_tm_seq_count ctx"] show ?thesis
      by (intro exI [of _ "[]"]) simp
  next
    case 2
    let ?told = "av_fc ?v = FC_LENGTH_ERROR \<or> wants_acceptance ?v"
    from dispatch_rejected [OF assms(1) cap refl 2, of report st now] obtain out where
      "migris_tc_router_dispatch report ctx st now tc cap =
        (Inr out, if ?told then router_verified (router_counted ctx False) 1 else router_counted ctx False,
         router_report_rejection report ctx st now ?v)"
      and burst: "tm_burst (rt_apid ctx) (rt_tm_seq_count ctx) out
        (if ?told then [acceptance_view ctx now tc (av_source_id ?v) (av_fc ?v)] else [])
        (if ?told then next_seq (rt_tm_seq_count ctx) else rt_tm_seq_count ctx)"
      and len: "length out = (if ?told then 23 else 0)" by blast
    with assms(3) have r: "r = Inr out"
      and ctx': "ctx' = (if ?told then router_verified (router_counted ctx False) 1 else router_counted ctx False)" by auto
    have "(if ?told then next_seq (rt_tm_seq_count ctx) else rt_tm_seq_count ctx) = rt_tm_seq_count ctx'" by (simp add: ctx')
    note burst [unfolded this]
    moreover have "rt_apid ctx' = rt_apid ctx" "router_inv ctx'"
      using assms(1) by (simp_all add: ctx' router_verified_inv router_counted_inv)
    moreover have "length out \<le> 127" by (simp add: len)
    ultimately show ?thesis using r by blast
  next
    case 3
    let ?c = "if wants_acceptance ?v then router_verified (router_counted ctx True) 0 else router_counted ctx True"
    obtain reply fc ctx2 where route: "router_route ?c ?v now tc (if wants_acceptance ?v then cap - 22 else cap) = (reply, fc, ctx2)"
      by (metis prod.exhaust)
    from dispatch_accepted [OF assms(1) cap refl 3 route, of report st] obtain acc views comp where
      d: "migris_tc_router_dispatch report ctx st now tc cap =
        (Inr (acc @ reply @ comp), if wants_completion ?v then router_verified ctx2 (if fc = FC_NONE then 2 else 3) else ctx2, st)"
      and acc: "\<exists>va. tm_burst (rt_apid ctx) (rt_tm_seq_count ctx) acc va (rt_tm_seq_count ?c)"
      and rep: "tm_burst (rt_apid ctx) (rt_tm_seq_count ?c) reply views (rt_tm_seq_count ctx2)"
      and comp: "\<exists>vc. tm_burst (rt_apid ctx) (rt_tm_seq_count ctx2) comp vc
         (if wants_completion ?v then next_seq (rt_tm_seq_count ctx2) else rt_tm_seq_count ctx2)"
      and len: "length (acc @ reply @ comp) \<le> 127" and inv2: "router_inv ctx2" "router_same ?c ctx2" by blast
    have "\<exists>vs. tm_burst (rt_apid ctx) (rt_tm_seq_count ctx) (acc @ reply @ comp) vs
         (if wants_completion ?v then next_seq (rt_tm_seq_count ctx2) else rt_tm_seq_count ctx2)"
      using acc rep comp by (blast intro: tm_burst_append)
    moreover have "r = Inr (acc @ reply @ comp)" "rt_tm_seq_count ctx' =
        (if wants_completion ?v then next_seq (rt_tm_seq_count ctx2) else rt_tm_seq_count ctx2)" "router_inv ctx'"
      using d assms(3) inv2(1) by (auto simp: router_verified_inv)
    moreover have "rt_apid ctx2 = rt_apid ctx" using inv2(2) by (simp add: router_same_def split: if_splits)
    then have "rt_apid ctx' = rt_apid ctx" using d assms(3) by auto
    ultimately show ?thesis using len by auto
  qed
qed

definition router_example :: "migris_tc_router_ctx_t" where
  "router_example = \<lparr>rt_apid = 0x2A, rt_tm_seq_count = 0, rt_pus1 = \<lparr>p1_msg_counter = [0, 0, 0, 0]\<rparr>,
     rt_pus17 = \<lparr>p17_tm_msg_counter = 0\<rparr>, rt_pus3 = \<lparr>p3_msg_counter = [0]\<rparr>, rt_pus5 = \<lparr>p5_msg_counter = [0, 0, 0, 0]\<rparr>,
     rt_pus20 = \<lparr>p20_msg_counter = [0]\<rparr>, rt_pus11 = \<lparr>p11_msg_counter = [0]\<rparr>, rt_pus15 = \<lparr>p15_msg_counter = [0]\<rparr>,
     rt_tc_accepted_count = 0, rt_tc_rejected_count = 0, rt_rx_ring_overflow_drops = 0, rt_sink = False,
     rt_datapool = Some dp_example, rt_schedule = Some sched_example, rt_store = Some pks_blank, rt_hkstore = Some hks_example\<rparr>"

lemma router_example_inv: "router_inv router_example"
  by (simp add: router_inv_def router_example_def dp_example_ok sched_example_inv pks_blank_inv hks_example_inv)

text \<open>A [17,1] ping that asks for both verification reports.\<close>

definition ping_example :: bytes where
  "ping_example = [0x18, 0x2A, 0xC0, 0, 0, 6] @ [0x29, 17] @ [1, 0, 7, 0x69, 0xF6]"

lemma ping_example_accept: "migris_tc_accept ping_example 0x2A = accepted_as 9 7 17 1"
proof -
  have "tc_packet 0x2A 0 9 17 1 7 [] = Some ping_example"
    by (simp add: tc_packet_def ping_example_def migris_ccsds_primary_pack_def migris_pus_tc_secondary_pack_def be16_def
        crc_eval Let_def)
  then show ?thesis by (rule accept_packet) simp_all
qed

text \<open>
  C35: acceptance is exact. A packet is accepted, with this identity, exactly when it is a
  telecommand the ground could have built for this application process: the two headers, at most
  65529 bytes of application data, the CRC of all of it, and one of the five routable services.
\<close>
theorem router_accepts_ground_telecommands:
  "migris_tc_accept tc apid = \<lparr>av_addressed = True, av_fc = FC_NONE, av_ack_flags = ack, av_source_id = src,
       av_service_type = s, av_service_subtype = ss\<rparr>
     \<longleftrightarrow> (\<exists>c app. tc_packet apid c ack s ss src app = Some tc \<and> length app \<le> 65529 \<and> s \<in> {3, 11, 15, 17, 20})"
  using accept_sound [of tc apid ack src s ss] accept_packet [of apid _ ack s ss src _ tc] by blast

text \<open>
  C3: a telecommand corrupted in any two adjacent bytes commands nothing: no store is touched
  and it is not counted as accepted, wherever the window lies, headers and CRC included.
\<close>
theorem router_ignores_corrupted_commands:
  assumes "router_inv ctx"
    and "migris_tc_accept (before @ [a, b] @ behind) (rt_apid ctx) = accepted_as ack src s ss" "(a', b') \<noteq> (a, b)"
    and "migris_tc_router_dispatch report ctx st now (before @ [a', b'] @ behind) cap = (r, ctx', st')"
  shows "rt_datapool ctx' = rt_datapool ctx \<and> rt_schedule ctx' = rt_schedule ctx \<and> rt_store ctx' = rt_store ctx
    \<and> rt_hkstore ctx' = rt_hkstore ctx \<and> rt_tc_accepted_count ctx' = rt_tc_accepted_count ctx"
proof (rule rejection_keeps_stores [OF assms(1) refl _ assms(4)], rule notI)
  let ?v = "migris_tc_accept (before @ [a', b'] @ behind) (rt_apid ctx)"
  assume "av_addressed ?v \<and> av_fc ?v = FC_NONE"
  then obtain ack' src' s' ss' where "?v = accepted_as ack' src' s' ss'" unfolding accept_verdict_cases [OF refl] by blast
  from accepted_residue [OF this] accepted_residue [OF assms(2)] crc_window_inject [of before a b behind a' b'] assms(3)
  show False by simp
qed

lemma router_ignores_corrupted_commands_witness:
  "rt_tc_accepted_count (fst (snd (migris_tc_router_dispatch (\<lambda>st _ _ _ _. (True, st)) router_example () 9
      ([0x18, 0x2A, 0xC0, 0, 0, 6] @ [0x2B, 17] @ [1, 0, 7, 0x69, 0xF6]) 128))) = 0"
proof -
  obtain r ctx' st' where e: "migris_tc_router_dispatch (\<lambda>st _ _ _ _. (True, st)) router_example () 9
      ([0x18, 0x2A, 0xC0, 0, 0, 6] @ [0x2B, 17] @ [1, 0, 7, 0x69, 0xF6]) 128 = (r, ctx', st')" by (metis prod.exhaust)
  have "rt_tc_accepted_count ctx' = rt_tc_accepted_count router_example"
    using router_ignores_corrupted_commands [OF router_example_inv _ _ e, of "0x29" 17 9 7 17 1] ping_example_accept
    by (simp add: router_example_def ping_example_def)
  then show ?thesis unfolding e by (simp add: router_example_def)
qed

text \<open>
  C36: whatever arrives, the dispatch answers with at most 127 bytes (the router's buffer is
  128) that the ground's walk splits into packets which all parse, bear this APID and carry
  consecutive sequence counts from the shared one; with a smaller buffer it does nothing. The
  stores stay well-formed.
\<close>
theorem router_bursts_are_bounded:
  assumes "router_inv ctx" and "migris_tc_router_dispatch report ctx st now tc cap = (r, ctx', st')"
  shows "(cap < 128 \<longrightarrow> r = Inl TC_ROUTER_ERR_BUF_TOO_SMALL \<and> ctx' = ctx \<and> st' = st)
    \<and> (128 \<le> cap \<longrightarrow> (\<exists>out views. r = Inr out \<and> length out \<le> 127
        \<and> map tm_parse (burst_packets out) = map Some views \<and> concat (burst_packets out) = out
        \<and> (\<forall>i < length views. ph_apid (tv_primary (views ! i)) = rt_apid ctx
             \<and> ph_seq_count (tv_primary (views ! i)) = (next_seq ^^ i) (rt_tm_seq_count ctx))
        \<and> rt_tm_seq_count ctx' = (next_seq ^^ length views) (rt_tm_seq_count ctx)))
    \<and> router_inv ctx' \<and> rt_apid ctx' = rt_apid ctx"
proof (cases "128 \<le> cap")
  case False
  then show ?thesis using assms dispatch_quiet(1) [of cap report ctx st now tc] by auto
next
  case cap: True
  from dispatch_burst [OF assms(1) cap assms(2)] obtain out views where "r = Inr out" "length out \<le> 127" "router_inv ctx'" "rt_apid ctx' = rt_apid ctx"
    and b: "tm_burst (rt_apid ctx) (rt_tm_seq_count ctx) out views (rt_tm_seq_count ctx')" by blast
  with tm_burst_parse [OF b] tm_burst_stamps [OF b] tm_burst_seq [OF b] cap show ?thesis by auto
qed

lemma router_bursts_are_bounded_witness:
  "\<exists>r ctx' st'. migris_tc_router_dispatch (\<lambda>st _ _ _ _. (True, st)) router_example () 9 ping_example 128 = (r, ctx', st')
     \<and> router_inv ctx' \<and> (\<exists>out. r = Inr out \<and> length out \<le> 127)"
proof -
  obtain r ctx' st' where e: "migris_tc_router_dispatch (\<lambda>st _ _ _ _. (True, st)) router_example () 9 ping_example 128 = (r, ctx', st')"
    by (metis prod.exhaust)
  from router_bursts_are_bounded [OF router_example_inv e] e show ?thesis by auto
qed

text \<open>
  C37: every telecommand that is addressed here but fails acceptance is counted once, raised
  once as an FDIR anomaly (failure code, service, subtype) whether or not it asked for
  verification, and told to the ground by one [1,2] with the cause exactly when it asked for
  acceptance reports or its length is wrong. No store changes, and nothing else is sent.
\<close>
theorem router_rejects_and_reports:
  assumes "router_inv ctx" "128 \<le> cap" "migris_tc_accept tc (rt_apid ctx) = v" "av_addressed v" "av_fc v \<noteq> FC_NONE"
    and "migris_tc_router_dispatch report ctx st now tc cap = (r, ctx', st')"
  shows "st' = (if rt_sink ctx then snd (report st now SEV_LOW MIGRIS_PUS5_EVT_TC_REJECTED
                  [pus1_fc_code (av_fc v), av_service_type v, av_service_subtype v]) else st)
    \<and> rt_tc_rejected_count ctx' = rt_tc_rejected_count ctx + 1 \<and> rt_tc_accepted_count ctx' = rt_tc_accepted_count ctx
    \<and> rt_datapool ctx' = rt_datapool ctx \<and> rt_schedule ctx' = rt_schedule ctx \<and> rt_store ctx' = rt_store ctx
    \<and> rt_hkstore ctx' = rt_hkstore ctx
    \<and> (\<exists>out. r = Inr out \<and> tm_burst (rt_apid ctx) (rt_tm_seq_count ctx) out
         (if av_fc v = FC_LENGTH_ERROR \<or> av_ack_flags v AND 1 \<noteq> 0
          then [tm_view_of (rt_apid ctx) (rt_tm_seq_count ctx) 1 2 (p1_msg_counter (rt_pus1 ctx) ! 1) (av_source_id v) now
                  (take 4 tc @ [pus1_fc_code (av_fc v)])] else [])
         (rt_tm_seq_count ctx'))"
  using dispatch_rejected [OF assms(1-5), of report st now] assms(5,6)
  by (auto simp: router_report_rejection_def router_verified_def router_counted_def acceptance_view_def pus1_source_def
      MIGRIS_PUS_TC_ACK_ACCEPTANCE_def split: if_splits)

lemma router_rejects_and_reports_witness:
  "rt_tc_rejected_count (fst (snd (migris_tc_router_dispatch (\<lambda>st _ _ _ _. (True, st)) router_example () 9
      [0x18, 0x2A, 0xC0, 0, 0, 9, 0x29] 128))) = 1"
proof -
  have v: "migris_tc_accept [0x18, 0x2A, 0xC0, 0, 0, 9, 0x29] (rt_apid router_example) =
      \<lparr>av_addressed = True, av_fc = FC_LENGTH_ERROR, av_ack_flags = 0, av_source_id = 0, av_service_type = 0, av_service_subtype = 0\<rparr>"
    by (simp add: migris_tc_accept_def migris_ccsds_primary_unpack_def router_example_def Let_def fsw_const rd16_at_def rd16_def)
  obtain r ctx' st' where e: "migris_tc_router_dispatch (\<lambda>st _ _ _ _. (True, st)) router_example () 9
      [0x18, 0x2A, 0xC0, 0, 0, 9, 0x29] 128 = (r, ctx', st')" by (metis prod.exhaust)
  from router_rejects_and_reports [OF router_example_inv _ v _ _ e] e show ?thesis by (simp add: router_example_def)
qed

text \<open>
  C38: an accepted telecommand is counted once, raises no anomaly, and is answered by its
  acceptance report if it asked for one, the routed service's own packets, and its completion
  report if it asked for one, in this order: [1,7] when the service executed it, [1,8] with the
  service's cause when it did not, in which case the service sent nothing.
\<close>
theorem router_verifies_execution:
  assumes "router_inv ctx" "128 \<le> cap" "migris_tc_accept tc (rt_apid ctx) = v" "av_addressed v" "av_fc v = FC_NONE"
    and "migris_tc_router_dispatch report ctx st now tc cap = (r, ctx', st')"
  shows "st' = st \<and> rt_tc_accepted_count ctx' = rt_tc_accepted_count ctx + 1 \<and> rt_tc_rejected_count ctx' = rt_tc_rejected_count ctx
    \<and> (let ctx1 = (if wants_acceptance v then router_verified (router_counted ctx True) 0 else router_counted ctx True);
           (reply, fc, ctx2) = router_route ctx1 v now tc (if wants_acceptance v then cap - 22 else cap)
       in \<exists>out reply_views. r = Inr out
         \<and> tm_burst (rt_apid ctx) (rt_tm_seq_count ctx1) reply reply_views (rt_tm_seq_count ctx2)
         \<and> tm_burst (rt_apid ctx) (rt_tm_seq_count ctx) out
             ((if wants_acceptance v then [acceptance_view ctx now tc (av_source_id v) FC_NONE] else []) @ reply_views
              @ (if wants_completion v then [completion_view ctx2 now tc (av_source_id v) fc] else [])) (rt_tm_seq_count ctx')
         \<and> (fc \<noteq> FC_NONE \<longrightarrow> reply = [] \<and> reply_views = [])
         \<and> rt_datapool ctx' = rt_datapool ctx2 \<and> rt_schedule ctx' = rt_schedule ctx2 \<and> rt_store ctx' = rt_store ctx2
         \<and> rt_hkstore ctx' = rt_hkstore ctx2)"
proof -
  let ?c = "if wants_acceptance v then router_verified (router_counted ctx True) 0 else router_counted ctx True"
  obtain reply fc ctx2 where route: "router_route ?c v now tc (if wants_acceptance v then cap - 22 else cap) = (reply, fc, ctx2)"
    by (metis prod.exhaust)
  from dispatch_accepted [OF assms(1-5) route, of report st] obtain acc views comp where
    d: "migris_tc_router_dispatch report ctx st now tc cap =
      (Inr (acc @ reply @ comp), if wants_completion v then router_verified ctx2 (if fc = FC_NONE then 2 else 3) else ctx2, st)"
    and acc: "tm_burst (rt_apid ctx) (rt_tm_seq_count ctx) acc
        (if wants_acceptance v then [acceptance_view ctx now tc (av_source_id v) FC_NONE] else []) (rt_tm_seq_count ?c)"
    and rep: "tm_burst (rt_apid ctx) (rt_tm_seq_count ?c) reply views (rt_tm_seq_count ctx2)"
    and comp: "tm_burst (rt_apid ctx) (rt_tm_seq_count ctx2) comp
        (if wants_completion v then [completion_view ctx2 now tc (av_source_id v) fc] else [])
        (if wants_completion v then next_seq (rt_tm_seq_count ctx2) else rt_tm_seq_count ctx2)"
    and same: "router_same ?c ctx2" and nil: "fc \<noteq> FC_NONE \<longrightarrow> reply = []" by blast
  note burst = tm_burst_append [OF acc tm_burst_append [OF rep comp]]
  have ctx': "ctx' = (if wants_completion v then router_verified ctx2 (if fc = FC_NONE then 2 else 3) else ctx2)"
    "r = Inr (acc @ reply @ comp)" "st' = st" using d assms(6) by auto
  have "fc \<noteq> FC_NONE \<longrightarrow> views = []" using nil rep tm_burst_length [OF rep] by (cases views) auto
  moreover have "rt_tm_seq_count ctx' = (if wants_completion v then next_seq (rt_tm_seq_count ctx2) else rt_tm_seq_count ctx2)"
    by (simp add: ctx')
  moreover have "rt_tc_accepted_count ctx' = rt_tc_accepted_count ctx + 1" "rt_tc_rejected_count ctx' = rt_tc_rejected_count ctx"
    "rt_datapool ctx' = rt_datapool ctx2" "rt_schedule ctx' = rt_schedule ctx2" "rt_store ctx' = rt_store ctx2"
    "rt_hkstore ctx' = rt_hkstore ctx2"
    using same by (auto simp: ctx' router_same_def router_verified_def router_counted_def split: if_splits)
  ultimately show ?thesis
    using burst rep nil ctx'(2,3) unfolding Let_def route by (auto intro!: exI [of _ views])
qed

lemma router_verifies_execution_witness:
  "rt_tc_accepted_count (fst (snd (migris_tc_router_dispatch (\<lambda>st _ _ _ _. (True, st)) router_example () 9 ping_example 128))) = 1"
proof -
  have v: "migris_tc_accept ping_example (rt_apid router_example) = accepted_as 9 7 17 1"
    using ping_example_accept by (simp add: router_example_def)
  obtain r ctx' st' where e: "migris_tc_router_dispatch (\<lambda>st _ _ _ _. (True, st)) router_example () 9 ping_example 128 = (r, ctx', st')"
    by (metis prod.exhaust)
  from router_verifies_execution [OF router_example_inv _ v _ _ e] e show ?thesis by (simp add: router_example_def)
qed

end
