(* ===== verification/Nvstore.thy ===== *)
theory Nvstore
  imports Ccsds
begin

text \<open>
  lib/nvstore/src/nvstore.c and the flash seam samples/tc_uart/src/nv_flash_backend.c: typed
  records in a RAM payload, saved as one CRC-protected image that alternates between two flash
  sectors. A backend is the record of its three operations and its geometry over a flash state
  \<open>'f\<close>, which every operation takes and the writing ones return; a read that fails is \<open>None\<close>, a
  write or erase that fails is \<open>False\<close>. Byte offsets and the payload length, bounded by 1536, are naturals.
\<close>

section \<open>Data\<close>

definition MIGRIS_NVSTORE_PAYLOAD_MAX :: nat where
  [fsw_const]: "MIGRIS_NVSTORE_PAYLOAD_MAX = 1536"

definition MIGRIS_NVSTORE_FORMAT_VERSION :: u16 where
  [fsw_const]: "MIGRIS_NVSTORE_FORMAT_VERSION = 1"

definition MIGRIS_NVSTORE_HEADER_SIZE :: nat where
  [fsw_const]: "MIGRIS_NVSTORE_HEADER_SIZE = 12"

definition MIGRIS_NVSTORE_RECORD_OVERHEAD :: nat where
  [fsw_const]: "MIGRIS_NVSTORE_RECORD_OVERHEAD = 3"

definition NVSTORE_WRITE_BLOCK_MAX :: nat where
  [fsw_const]: "NVSTORE_WRITE_BLOCK_MAX = 64"

definition NVSTORE_IMAGE_MAX :: nat where
  [fsw_const]: "NVSTORE_IMAGE_MAX = MIGRIS_NVSTORE_HEADER_SIZE + MIGRIS_NVSTORE_PAYLOAD_MAX + 2 + NVSTORE_WRITE_BLOCK_MAX"

definition k_magic :: bytes where
  [fsw_const]: "k_magic = [0x4D, 0x4E, 0x56, 0x31]"

datatype migris_nvstore_record_type_t =
    NVSTORE_RECORD_DATAPOOL | NVSTORE_RECORD_SCHEDULE | NVSTORE_RECORD_HKSTORE | NVSTORE_RECORD_MODE

fun nv_record_code :: "migris_nvstore_record_type_t \<Rightarrow> u8" where
  "nv_record_code NVSTORE_RECORD_DATAPOOL = 1"
| "nv_record_code NVSTORE_RECORD_SCHEDULE = 2"
| "nv_record_code NVSTORE_RECORD_HKSTORE = 3"
| "nv_record_code NVSTORE_RECORD_MODE = 4"

datatype migris_nvstore_status_t =
    NVSTORE_OK | NVSTORE_ERR_BAD_ARG | NVSTORE_ERR_NOT_FOUND | NVSTORE_ERR_FULL | NVSTORE_ERR_BACKEND
  | NVSTORE_ERR_NO_VALID_IMAGE | NVSTORE_ERR_GEOMETRY

record 'f migris_nv_backend_t =
  nb_read :: "'f \<Rightarrow> nat \<Rightarrow> nat \<Rightarrow> nat \<Rightarrow> bytes option"
  nb_write :: "'f \<Rightarrow> nat \<Rightarrow> nat \<Rightarrow> bytes \<Rightarrow> bool \<times> 'f"
  nb_erase :: "'f \<Rightarrow> nat \<Rightarrow> bool \<times> 'f"
  nb_sector_size :: nat
  nb_sector_count :: nat
  nb_write_block :: nat

record 'f migris_nvstore_t =
  nv_backend :: "'f migris_nv_backend_t option"
  nv_payload :: bytes
  nv_payload_len :: nat
  nv_loaded_seq :: u32
  nv_loaded_sector :: nat
  nv_loaded :: bool

section \<open>Operations\<close>

definition magic_matches :: "bytes \<Rightarrow> bool" where
  "magic_matches p \<longleftrightarrow> p ! 0 = k_magic ! 0 \<and> p ! 1 = k_magic ! 1 \<and> p ! 2 = k_magic ! 2 \<and> p ! 3 = k_magic ! 3"

definition backend_ok :: "'f migris_nv_backend_t \<Rightarrow> bool" where
  "backend_ok b \<longleftrightarrow>
    \<not> (nb_sector_count b < 2 \<or> nb_write_block b = 0 \<or> NVSTORE_WRITE_BLOCK_MAX < nb_write_block b)
    \<and> (let image_max = MIGRIS_NVSTORE_HEADER_SIZE + MIGRIS_NVSTORE_PAYLOAD_MAX + 2 + nb_write_block b
       in \<not> nb_sector_size b < image_max)"

definition migris_nvstore_init :: "'f migris_nvstore_t \<Rightarrow> 'f migris_nv_backend_t option \<Rightarrow> 'f migris_nvstore_t" where
  "migris_nvstore_init store backend = store\<lparr>nv_backend := backend, nv_payload_len := 0, nv_loaded_seq := 0,
     nv_loaded_sector := 0, nv_loaded := False\<rparr>"

definition nvstore_try_load_sector ::
  "'f migris_nv_backend_t \<Rightarrow> 'f migris_nvstore_t \<Rightarrow> 'f \<Rightarrow> nat \<Rightarrow> (u32 \<times> nat) option \<times> 'f migris_nvstore_t" where
  "nvstore_try_load_sector b store fl sector =
    (case nb_read b fl sector 0 MIGRIS_NVSTORE_HEADER_SIZE of
       None \<Rightarrow> (None, store)
     | Some header \<Rightarrow>
         if \<not> magic_matches header then (None, store)
         else if rd16_at header 4 \<noteq> MIGRIS_NVSTORE_FORMAT_VERSION then (None, store)
         else
           let seq = rd32_at header 6; payload_len = unat (rd16_at header 10)
           in if MIGRIS_NVSTORE_PAYLOAD_MAX < payload_len then (None, store)
              else
                case (if 0 < payload_len then nb_read b fl sector MIGRIS_NVSTORE_HEADER_SIZE payload_len else Some []) of
                  None \<Rightarrow> (None, store)
                | Some data \<Rightarrow>
                    let store = store\<lparr>nv_payload := data @ drop payload_len (nv_payload store)\<rparr>
                    in case nb_read b fl sector (MIGRIS_NVSTORE_HEADER_SIZE + payload_len) 2 of
                         None \<Rightarrow> (None, store)
                       | Some crc_buf \<Rightarrow>
                           let combined = header @ take payload_len (nv_payload store);
                               crc = migris_crc16_ccitt_false combined; crc_on_flash = rd16_at crc_buf 0
                           in if crc \<noteq> crc_on_flash then (None, store) else (Some (seq, payload_len), store))"

text \<open>Pass 1 of the load: the sequence number of a sector whose header alone is in order.\<close>

definition nvstore_candidate :: "'f migris_nv_backend_t \<Rightarrow> 'f \<Rightarrow> nat \<Rightarrow> u32 option" where
  "nvstore_candidate b fl i =
    (case nb_read b fl i 0 MIGRIS_NVSTORE_HEADER_SIZE of
       None \<Rightarrow> None
     | Some header \<Rightarrow>
         if \<not> magic_matches header then None
         else if rd16_at header 4 \<noteq> MIGRIS_NVSTORE_FORMAT_VERSION then None
         else if MIGRIS_NVSTORE_PAYLOAD_MAX < unat (rd16_at header 10) then None
         else Some (rd32_at header 6))"

text \<open>Pass 2: the sectors in the order of attempts.\<close>

fun nvstore_attempt ::
  "'f migris_nv_backend_t \<Rightarrow> (nat \<Rightarrow> u32 option) \<Rightarrow> 'f migris_nvstore_t \<Rightarrow> 'f \<Rightarrow> nat list
     \<Rightarrow> migris_nvstore_status_t \<times> 'f migris_nvstore_t" where
  "nvstore_attempt b valid store fl [] =
     (NVSTORE_ERR_NO_VALID_IMAGE,
      store\<lparr>nv_payload_len := 0, nv_loaded_seq := 0, nv_loaded_sector := 0, nv_loaded := False\<rparr>)"
| "nvstore_attempt b valid store fl (sector # rest) =
     (if valid sector = None then nvstore_attempt b valid store fl rest
      else case nvstore_try_load_sector b store fl sector of
        (None, store) \<Rightarrow> nvstore_attempt b valid store fl rest
      | (Some (seq, payload_len), store) \<Rightarrow>
          (NVSTORE_OK, store\<lparr>nv_payload_len := payload_len, nv_loaded_seq := seq, nv_loaded_sector := sector,
             nv_loaded := True\<rparr>))"

definition migris_nvstore_load :: "'f migris_nvstore_t \<Rightarrow> 'f \<Rightarrow> migris_nvstore_status_t \<times> 'f migris_nvstore_t" where
  "migris_nvstore_load store fl =
    (case nv_backend store of
       None \<Rightarrow> (NVSTORE_ERR_BAD_ARG, store)
     | Some b \<Rightarrow>
         if \<not> backend_ok b then (NVSTORE_ERR_GEOMETRY, store)
         else
           let valid = (\<lambda>i. if i < 2 \<and> i < nb_sector_count b then nvstore_candidate b fl i else None);
               order = (case (valid 0, valid 1) of
                          (_, None) \<Rightarrow> [0, 1]
                        | (None, Some _) \<Rightarrow> [1, 0]
                        | (Some s0, Some s1) \<Rightarrow> if s1 > s0 then [1, 0] else [0, 1])
           in nvstore_attempt b valid store fl order)"

function nvstore_locate_from :: "bytes \<Rightarrow> nat \<Rightarrow> u8 \<Rightarrow> nat \<Rightarrow> (nat \<times> nat) option" where
  "nvstore_locate_from payload payload_len record_type off =
    (if off + MIGRIS_NVSTORE_RECORD_OVERHEAD \<le> payload_len then
       let type = payload ! off; len = unat (rd16_at payload (off + 1)); rec_total = MIGRIS_NVSTORE_RECORD_OVERHEAD + len
       in if payload_len < off + rec_total then None
          else if type = record_type then Some (off, rec_total)
          else nvstore_locate_from payload payload_len record_type (off + rec_total)
     else None)"
  by pat_completeness auto
termination
  by (relation "measure (\<lambda>(payload, payload_len, record_type, off). payload_len - off)") (auto simp: fsw_const)

declare nvstore_locate_from.simps [simp del]

definition nvstore_locate :: "'f migris_nvstore_t \<Rightarrow> u8 \<Rightarrow> (nat \<times> nat) option" where
  "nvstore_locate store record_type = nvstore_locate_from (nv_payload store) (nv_payload_len store) record_type 0"

definition migris_nvstore_get :: "'f migris_nvstore_t \<Rightarrow> u8 \<Rightarrow> migris_nvstore_status_t + bytes" where
  "migris_nvstore_get store record_type =
    (case nvstore_locate store record_type of
       None \<Rightarrow> Inl NVSTORE_ERR_NOT_FOUND
     | Some (off, rec_total) \<Rightarrow>
         Inr (take (rec_total - MIGRIS_NVSTORE_RECORD_OVERHEAD) (drop (off + MIGRIS_NVSTORE_RECORD_OVERHEAD) (nv_payload store))))"

definition nvstore_write_at :: "bytes \<Rightarrow> nat \<Rightarrow> bytes \<Rightarrow> bytes" where
  "nvstore_write_at buf off bs = take off buf @ bs @ drop (off + length bs) buf"

definition nvstore_drop_record :: "'f migris_nvstore_t \<Rightarrow> u8 \<Rightarrow> 'f migris_nvstore_t" where
  "nvstore_drop_record store record_type =
    (case nvstore_locate store record_type of
       None \<Rightarrow> store
     | Some (off, rec_total) \<Rightarrow>
         let tail = nv_payload_len store - off - rec_total
         in store\<lparr>nv_payload := nvstore_write_at (nv_payload store) off (take tail (drop (off + rec_total) (nv_payload store))),
                  nv_payload_len := nv_payload_len store - rec_total\<rparr>)"

definition migris_nvstore_put ::
  "'f migris_nvstore_t \<Rightarrow> u8 \<Rightarrow> bytes \<Rightarrow> migris_nvstore_status_t \<times> 'f migris_nvstore_t" where
  "migris_nvstore_put store record_type bs =
    (let store = nvstore_drop_record store record_type;
         new_total = nv_payload_len store + MIGRIS_NVSTORE_RECORD_OVERHEAD + length bs
     in if MIGRIS_NVSTORE_PAYLOAD_MAX < new_total then (NVSTORE_ERR_FULL, store)
        else (NVSTORE_OK,
              store\<lparr>nv_payload := nvstore_write_at (nv_payload store) (nv_payload_len store)
                                   ([record_type] @ be16 (of_nat (length bs)) @ bs),
                    nv_payload_len := new_total\<rparr>))"

definition nvstore_image :: "'f migris_nvstore_t \<Rightarrow> nat \<Rightarrow> u32 \<Rightarrow> bytes" where
  "nvstore_image store write_block new_seq =
    (let body = k_magic @ be16 MIGRIS_NVSTORE_FORMAT_VERSION @ be32 new_seq @ be16 (of_nat (nv_payload_len store))
                @ take (nv_payload_len store) (nv_payload store);
         raw_size = MIGRIS_NVSTORE_HEADER_SIZE + nv_payload_len store + 2;
         padded_size = ((raw_size + write_block - 1) div write_block) * write_block
     in body @ be16 (migris_crc16_ccitt_false body) @ replicate (padded_size - raw_size) 0xFF)"

definition migris_nvstore_save ::
  "'f migris_nvstore_t \<Rightarrow> 'f \<Rightarrow> migris_nvstore_status_t \<times> 'f migris_nvstore_t \<times> 'f" where
  "migris_nvstore_save store fl =
    (case nv_backend store of
       None \<Rightarrow> (NVSTORE_ERR_BAD_ARG, store, fl)
     | Some b \<Rightarrow>
         if \<not> backend_ok b then (NVSTORE_ERR_GEOMETRY, store, fl)
         else
           let target = (if nv_loaded store then (nv_loaded_sector store + 1) mod nb_sector_count b else 0);
               new_seq = nv_loaded_seq store + 1;
               image = nvstore_image store (nb_write_block b) new_seq;
               (erased, fl) = nb_erase b fl target
           in if \<not> erased then (NVSTORE_ERR_BACKEND, store, fl)
              else let (written, fl) = nb_write b fl target 0 image
                   in if \<not> written then (NVSTORE_ERR_BACKEND, store, fl)
                      else (NVSTORE_OK, store\<lparr>nv_loaded_seq := new_seq, nv_loaded_sector := target, nv_loaded := True\<rparr>, fl))"

section \<open>The Zephyr flash-area backend\<close>

text \<open>
  The flash map of the RTOS is not part of this repository: its operations on the storage
  partition are the record's fields, the boot-time answers of flash_area_open (did it succeed),
  flash_area_get_sectors (the sector sizes) and flash_area_align the last three. The static
  handle nv_flash_area is the argument \<open>opened\<close> of the three operations.
\<close>

record 'f flash_area =
  fa_read :: "'f \<Rightarrow> nat \<Rightarrow> nat \<Rightarrow> bytes option"
  fa_write :: "'f \<Rightarrow> nat \<Rightarrow> bytes \<Rightarrow> bool \<times> 'f"
  fa_erase :: "'f \<Rightarrow> nat \<Rightarrow> nat \<Rightarrow> bool \<times> 'f"
  fa_open :: bool
  fa_sectors :: "nat list option"
  fa_align :: nat

definition nv_flash_read :: "'f flash_area \<Rightarrow> bool \<Rightarrow> nat \<Rightarrow> 'f \<Rightarrow> nat \<Rightarrow> nat \<Rightarrow> nat \<Rightarrow> bytes option" where
  "nv_flash_read fa opened nv_flash_sector_size fl sector off len =
    (if \<not> opened then None
     else let partition_off = sector * nv_flash_sector_size + off in fa_read fa fl partition_off len)"

definition nv_flash_write :: "'f flash_area \<Rightarrow> bool \<Rightarrow> nat \<Rightarrow> 'f \<Rightarrow> nat \<Rightarrow> nat \<Rightarrow> bytes \<Rightarrow> bool \<times> 'f" where
  "nv_flash_write fa opened nv_flash_sector_size fl sector off src =
    (if \<not> opened then (False, fl)
     else let partition_off = sector * nv_flash_sector_size + off in fa_write fa fl partition_off src)"

definition nv_flash_erase :: "'f flash_area \<Rightarrow> bool \<Rightarrow> nat \<Rightarrow> 'f \<Rightarrow> nat \<Rightarrow> bool \<times> 'f" where
  "nv_flash_erase fa opened nv_flash_sector_size fl sector =
    (if \<not> opened then (False, fl)
     else let partition_off = sector * nv_flash_sector_size in fa_erase fa fl partition_off nv_flash_sector_size)"

definition migris_fsw_nv_flash_backend :: "'f flash_area \<Rightarrow> 'f migris_nv_backend_t" where
  "migris_fsw_nv_flash_backend fa =
    (let failed = \<lparr>nb_read = nv_flash_read fa False 0, nb_write = nv_flash_write fa False 0, nb_erase = nv_flash_erase fa False 0,
                   nb_sector_size = 0, nb_sector_count = 0, nb_write_block = 0\<rparr>
     in if \<not> fa_open fa then failed
        else case fa_sectors fa of
          None \<Rightarrow> failed
        | Some sectors \<Rightarrow>
            if length sectors < 2 then failed
            else let nv_flash_sector_size = sectors ! 0
                 in \<lparr>nb_read = nv_flash_read fa True nv_flash_sector_size, nb_write = nv_flash_write fa True nv_flash_sector_size,
                     nb_erase = nv_flash_erase fa True nv_flash_sector_size, nb_sector_size = nv_flash_sector_size,
                     nb_sector_count = 2, nb_write_block = fa_align fa\<rparr>)"

section \<open>The payload as a list of records\<close>

definition rec_bytes :: "u8 \<times> bytes \<Rightarrow> bytes" where
  "rec_bytes r = fst r # be16 (of_nat (length (snd r))) @ snd r"

definition recs_bytes :: "(u8 \<times> bytes) list \<Rightarrow> bytes" where
  "recs_bytes rs = concat (map rec_bytes rs)"

lemma length_rec_bytes [simp]: "length (rec_bytes r) = 3 + length (snd r)"
  by (simp add: rec_bytes_def)

lemma recs_bytes_simps [simp]:
  "recs_bytes [] = []" "recs_bytes (r # rs) = rec_bytes r @ recs_bytes rs" "recs_bytes (rs @ qs) = recs_bytes rs @ recs_bytes qs"
  by (simp_all add: recs_bytes_def)

definition nv_recs :: "'f migris_nvstore_t \<Rightarrow> (u8 \<times> bytes) list \<Rightarrow> bool" where
  "nv_recs s rs \<longleftrightarrow> length (nv_payload s) = MIGRIS_NVSTORE_PAYLOAD_MAX \<and> nv_payload_len s = length (recs_bytes rs)
     \<and> length (recs_bytes rs) \<le> MIGRIS_NVSTORE_PAYLOAD_MAX \<and> take (length (recs_bytes rs)) (nv_payload s) = recs_bytes rs
     \<and> distinct (map fst rs)"

definition nv_wf :: "'f migris_nvstore_t \<Rightarrow> bool" where
  "nv_wf s \<longleftrightarrow> (\<exists>rs. nv_recs s rs)"

lemma locate_end: "plen < off + 3 \<Longrightarrow> nvstore_locate_from payload plen t off = None"
  by (subst nvstore_locate_from.simps) (simp add: fsw_const)

lemma locate_step:
  assumes "length pre + 3 + length b \<le> plen" "length b \<le> 65535"
  shows "nvstore_locate_from (pre @ rec_bytes (k, b) @ suf) plen t (length pre) =
    (if k = t then Some (length pre, 3 + length b)
     else nvstore_locate_from (pre @ rec_bytes (k, b) @ suf) plen t (length (pre @ rec_bytes (k, b))))"
proof -
  let ?p = "pre @ rec_bytes (k, b) @ suf"
  have "?p ! length pre = k" by (simp add: rec_bytes_def)
  moreover have "rd16_at ?p (length pre + 1) = of_nat (length b)"
    using rd16_at_append [of "pre @ [k]" "length pre + 1" "be16 (of_nat (length b)) @ b @ suf"] by (simp add: rec_bytes_def)
  then have "unat (rd16_at ?p (length pre + 1)) = length b" using assms(2) by (simp add: unat_of_nat_u16)
  ultimately show ?thesis
    using assms(1) by (subst nvstore_locate_from.simps) (simp add: fsw_const Let_def add.assoc)
qed

lemma locate_records:
  assumes "length (pre @ recs_bytes rs) \<le> 1536"
  shows "t \<notin> fst ` set rs \<Longrightarrow> nvstore_locate_from (pre @ recs_bytes rs @ suf) (length (pre @ recs_bytes rs)) t (length pre) = None"
    and "rs = as @ (t, b) # bs \<Longrightarrow> t \<notin> fst ` set as \<Longrightarrow>
      nvstore_locate_from (pre @ recs_bytes rs @ suf) (length (pre @ recs_bytes rs)) t (length pre)
        = Some (length pre + length (recs_bytes as), 3 + length b)"
  using assms
proof (induction rs arbitrary: pre as)
  case Nil
  { case 1 then show ?case by (simp add: locate_end) }
  { case 2 then show ?case by simp }
next
  case (Cons r rs)
  obtain k d where r: "r = (k, d)" by (cases r)
  have step: "nvstore_locate_from (pre @ recs_bytes (r # rs) @ suf) (length (pre @ recs_bytes (r # rs))) t (length pre) =
      (if k = t then Some (length pre, 3 + length d)
       else nvstore_locate_from ((pre @ rec_bytes r) @ recs_bytes rs @ suf) (length ((pre @ rec_bytes r) @ recs_bytes rs)) t
              (length (pre @ rec_bytes r)))" if "length (pre @ recs_bytes (r # rs)) \<le> 1536" for pre
    using locate_step [of pre d "length (pre @ recs_bytes (r # rs))" k "recs_bytes rs @ suf" t] that by (simp add: r)
  { case 1
    then show ?case unfolding step [OF 1(2)] using Cons.IH(1) [of "pre @ rec_bytes r"] by (auto simp: r) }
  { case 2
    show ?case
    proof (cases as)
      case Nil
      with 2 r have "k = t" "d = b" by simp_all
      then show ?thesis unfolding step [OF 2(3)] using Nil by simp
    next
      case (Cons q as')
      with 2 r have kt: "k \<noteq> t" "rs = as' @ (t, b) # bs" "t \<notin> fst ` set as'" "q = r" by auto
      then show ?thesis unfolding step [OF 2(3)] using 2(3) Cons.IH(2) [of as' "pre @ rec_bytes r"] Cons by simp
    qed }
qed

lemma nv_recs_payload: "nv_recs s rs \<Longrightarrow> nv_payload s = recs_bytes rs @ drop (length (recs_bytes rs)) (nv_payload s)"
  by (metis append_take_drop_id nv_recs_def)

lemma locate_spec:
  assumes "nv_recs s rs"
  shows "t \<notin> fst ` set rs \<Longrightarrow> nvstore_locate s t = None"
    and "rs = as @ (t, b) # bs \<Longrightarrow> nvstore_locate s t = Some (length (recs_bytes as), 3 + length b)"
proof -
  have l: "length ([] @ recs_bytes rs) \<le> 1536" "nv_payload_len s = length ([] @ recs_bytes rs)" "distinct (map fst rs)"
    using assms by (simp_all add: nv_recs_def fsw_const)
  have p: "nv_payload s = [] @ recs_bytes rs @ drop (length (recs_bytes rs)) (nv_payload s)"
    using nv_recs_payload [OF assms] by simp
  have q: "nvstore_locate s t = nvstore_locate_from ([] @ recs_bytes rs @ drop (length (recs_bytes rs)) (nv_payload s))
      (length ([] @ recs_bytes rs)) t (length [])" for t
    unfolding nvstore_locate_def l(2) p [symmetric] by simp
  show "nvstore_locate s t = None" if "t \<notin> fst ` set rs"
    by (rule trans [OF q locate_records(1) [OF l(1) that]])
  show "nvstore_locate s t = Some (length (recs_bytes as), 3 + length b)" if "rs = as @ (t, b) # bs"
  proof -
    have "t \<notin> fst ` set as" using l(3) that by auto
    from trans [OF q locate_records(2) [OF l(1) that this]] show ?thesis by simp
  qed
qed

lemma get_spec:
  assumes "nv_recs s rs"
  shows "migris_nvstore_get s t = (case map_of rs t of None \<Rightarrow> Inl NVSTORE_ERR_NOT_FOUND | Some b \<Rightarrow> Inr b)"
proof (cases "map_of rs t")
  case None
  then have "t \<notin> fst ` set rs" by (simp add: map_of_eq_None_iff)
  with None locate_spec(1) [OF assms] show ?thesis by (simp add: migris_nvstore_get_def)
next
  case (Some b)
  then obtain as bs where rs: "rs = as @ (t, b) # bs" by (meson map_of_SomeD split_list)
  have "nv_payload s = (recs_bytes as @ [t] @ be16 (of_nat (length b))) @ b @ recs_bytes bs @ drop (length (recs_bytes rs)) (nv_payload s)"
    using nv_recs_payload [OF assms] by (simp add: rs rec_bytes_def)
  then have "take (length b) (drop (length (recs_bytes as) + 3) (nv_payload s)) = b"
    by (metis (no_types) append_eq_conv_conj length_append length_be16 One_nat_def list.size(3,4) numeral_3_eq_3
        add_Suc_right add_0_right One_nat_def Suc_1)
  with locate_spec(2) [OF assms rs] Some show ?thesis by (simp add: migris_nvstore_get_def fsw_const)
qed

lemma drop_record_spec:
  assumes "nv_recs s rs"
  shows "nv_recs (nvstore_drop_record s t) (filter (\<lambda>r. fst r \<noteq> t) rs)"
    and "nv_backend (nvstore_drop_record s t) = nv_backend s"
proof -
  show "nv_backend (nvstore_drop_record s t) = nv_backend s"
    by (simp add: nvstore_drop_record_def Let_def split: option.split)
  show "nv_recs (nvstore_drop_record s t) (filter (\<lambda>r. fst r \<noteq> t) rs)"
  proof (cases "t \<in> fst ` set rs")
    case False
    then have "filter (\<lambda>r. fst r \<noteq> t) rs = rs" by (auto simp: filter_id_conv image_iff)
    with assms locate_spec(1) [OF assms False] show ?thesis by (simp add: nvstore_drop_record_def)
  next
    case True
    then obtain as b bs where rs: "rs = as @ (t, b) # bs" by (metis imageE prod.collapse split_list)
    have d: "distinct (map fst rs)" and len: "length (nv_payload s) = 1536" "length (recs_bytes rs) \<le> 1536"
      "nv_payload_len s = length (recs_bytes rs)"
      using assms by (simp_all add: nv_recs_def fsw_const)
    have not_in: "t \<notin> fst ` set as" "t \<notin> fst ` set bs" using d by (simp_all add: rs)
    then have "filter (\<lambda>r. fst r \<noteq> t) as = as" "filter (\<lambda>r. fst r \<noteq> t) bs = bs" by (auto simp: filter_id_conv)
    then have f: "filter (\<lambda>r. fst r \<noteq> t) rs = as @ bs"
      by (simp add: rs)
    let ?tl = "drop (length (recs_bytes rs)) (nv_payload s)"
    have p: "nv_payload s = recs_bytes as @ rec_bytes (t, b) @ recs_bytes bs @ ?tl"
      using nv_recs_payload [OF assms] by (simp add: rs)
    have "drop (length (recs_bytes as) + (3 + length b)) (nv_payload s) = recs_bytes bs @ ?tl"
      by (subst p) simp
    then have tail: "take (nv_payload_len s - length (recs_bytes as) - (3 + length b))
        (drop (length (recs_bytes as) + (3 + length b)) (nv_payload s)) = recs_bytes bs"
      by (simp add: len(3) rs)
    have head: "take (length (recs_bytes as)) (nv_payload s) = recs_bytes as" by (subst p) simp
    have e: "nvstore_drop_record s t = s\<lparr>nv_payload := recs_bytes as @ recs_bytes bs @ drop (length (recs_bytes as) + length (recs_bytes bs)) (nv_payload s),
        nv_payload_len := nv_payload_len s - (3 + length b)\<rparr>"
      unfolding nvstore_drop_record_def locate_spec(2) [OF assms rs] option.case prod.case Let_def tail nvstore_write_at_def head ..
    show ?thesis
      unfolding f nv_recs_def e using len d by (simp add: rs fsw_const)
  qed
qed

lemma put_spec:
  fixes t :: u8
  assumes "nv_recs s rs"
  defines "kept \<equiv> filter (\<lambda>r. fst r \<noteq> t) rs"
  shows "length (recs_bytes kept) + 3 + length b \<le> 1536 \<Longrightarrow>
      \<exists>s'. migris_nvstore_put s t b = (NVSTORE_OK, s') \<and> nv_recs s' (kept @ [(t, b)]) \<and> nv_backend s' = nv_backend s"
    and "1536 < length (recs_bytes kept) + 3 + length b \<Longrightarrow>
      \<exists>s'. migris_nvstore_put s t b = (NVSTORE_ERR_FULL, s') \<and> nv_recs s' kept \<and> nv_backend s' = nv_backend s"
proof -
  let ?d = "nvstore_drop_record s t"
  note d = drop_record_spec [OF assms(1), of t, folded kept_def]
  have len: "nv_payload_len ?d = length (recs_bytes kept)" "length (nv_payload ?d) = 1536" "take (length (recs_bytes kept)) (nv_payload ?d) = recs_bytes kept"
    "distinct (map fst kept)"
    using d(1) by (simp_all add: nv_recs_def fsw_const)
  show "1536 < length (recs_bytes kept) + 3 + length b \<Longrightarrow>
      \<exists>s'. migris_nvstore_put s t b = (NVSTORE_ERR_FULL, s') \<and> nv_recs s' kept \<and> nv_backend s' = nv_backend s"
    using d len by (simp add: migris_nvstore_put_def Let_def fsw_const)
  assume fits: "length (recs_bytes kept) + 3 + length b \<le> 1536"
  have "t \<notin> fst ` set kept" by (auto simp: kept_def)
  moreover have r: "[t] @ be16 (of_nat (length b)) @ b = rec_bytes (t, b)" by (simp add: rec_bytes_def)
  ultimately show "\<exists>s'. migris_nvstore_put s t b = (NVSTORE_OK, s') \<and> nv_recs s' (kept @ [(t, b)]) \<and> nv_backend s' = nv_backend s"
    using d(2) len fits unfolding migris_nvstore_put_def r by (simp add: Let_def fsw_const nv_recs_def nvstore_write_at_def)
qed

section \<open>Images\<close>

text \<open>What a sector's content says: the sequence number and the payload of a valid image.\<close>

definition nv_header :: "bytes \<Rightarrow> u32 option" where
  "nv_header c = (if take 4 c = k_magic \<and> rd16_at c 4 = MIGRIS_NVSTORE_FORMAT_VERSION \<and> unat (rd16_at c 10) \<le> MIGRIS_NVSTORE_PAYLOAD_MAX
     then Some (rd32_at c 6) else None)"

definition nv_parse :: "bytes \<Rightarrow> (u32 \<times> bytes) option" where
  "nv_parse c = (case nv_header c of
       None \<Rightarrow> None
     | Some seq \<Rightarrow>
        (let len = unat (rd16_at c 10)
         in if migris_crc16_ccitt_false (take (12 + len) c) = rd16_at c (12 + len) then Some (seq, take len (drop 12 c)) else None))"

text \<open>The valid image a boot should use: the later one, the first sector's on a tie.\<close>

definition nv_newest :: "bytes \<Rightarrow> bytes \<Rightarrow> (nat \<times> u32 \<times> bytes) option" where
  "nv_newest c0 c1 =
    (case (nv_parse c0, nv_parse c1) of
       (None, None) \<Rightarrow> None
     | (Some (q, p), None) \<Rightarrow> Some (0, q, p)
     | (None, Some (q, p)) \<Rightarrow> Some (1, q, p)
     | (Some (q0, p0), Some (q1, p1)) \<Rightarrow> if q1 > q0 then Some (1, q1, p1) else Some (0, q0, p0))"

lemma nv_parse_header: "nv_parse c = Some (q, p) \<Longrightarrow> nv_header c = Some q"
  by (auto simp: nv_parse_def Let_def split: option.splits if_splits)

lemma nv_parse_length: "nv_parse c = Some (q, p) \<Longrightarrow> length p \<le> 1536"
  by (auto simp: nv_parse_def nv_header_def Let_def fsw_const split: option.splits if_splits)

lemma rd_take: "i + 2 \<le> n \<Longrightarrow> n \<le> length c \<Longrightarrow> rd16_at (take n c) i = rd16_at c i"
  "i + 4 \<le> n \<Longrightarrow> n \<le> length c \<Longrightarrow> rd32_at (take n c) i = rd32_at c i"
  by (simp_all add: rd16_at_def rd32_at_def)

lemma magic_take: "12 \<le> length c \<Longrightarrow> magic_matches (take 12 c) \<longleftrightarrow> take 4 c = k_magic"
  by (auto simp: magic_matches_def list_eq_iff_nth_eq k_magic_def less_Suc_eq numeral_eq_Suc)

definition nv_image_data :: "'f migris_nvstore_t \<Rightarrow> bytes" where
  "nv_image_data s = take (nv_payload_len s) (nv_payload s)"

lemma length_image:
  assumes "length (nv_payload s) = 1536" "nv_payload_len s \<le> 1536" "0 < wb" "wb \<le> 64"
  shows "wb dvd length (nvstore_image s wb q)" "length (nvstore_image s wb q) \<le> NVSTORE_IMAGE_MAX"
    "length (nvstore_image s wb q) \<le> 1550 + wb"
proof -
  let ?raw = "14 + nv_payload_len s"
  let ?pad = "((?raw + wb - 1) div wb) * wb"
  have m: "?pad + (?raw + wb - 1) mod wb = ?raw + wb - 1" by (simp add: div_mult_mod_eq)
  have "(?raw + wb - 1) mod wb < wb" using assms(3) by simp
  with m have le: "?raw \<le> ?pad" "?pad \<le> ?raw + wb" by linarith+
  have l: "length (nvstore_image s wb q) = ?pad"
    using assms(1,2) le(1) by (simp add: nvstore_image_def Let_def fsw_const eval_nat_numeral)
  show "wb dvd length (nvstore_image s wb q)" unfolding l by simp
  show "length (nvstore_image s wb q) \<le> 1550 + wb" unfolding l using le assms(2) by simp
  then show "length (nvstore_image s wb q) \<le> NVSTORE_IMAGE_MAX" using assms(4) by (simp add: fsw_const)
qed

lemma parse_image:
  assumes "length (nv_payload s) = 1536" "nv_payload_len s \<le> 1536"
  shows "nv_parse (nvstore_image s wb q @ rest) = Some (q, nv_image_data s)"
proof -
  let ?p = "nv_image_data s" and ?n = "nv_payload_len s"
  have lp: "length ?p = ?n" using assms by (simp add: nv_image_data_def)
  let ?h = "k_magic @ be16 1 @ be32 q @ be16 (of_nat ?n)"
  have lk: "length k_magic = 4" by (simp add: k_magic_def)
  have lh: "length ?h = 12" by (simp add: lk)
  let ?c = "nvstore_image s wb q @ rest"
  obtain tail where c: "?c = (?h @ ?p) @ be16 (migris_crc16_ccitt_false (?h @ ?p)) @ tail"
    by (simp add: nvstore_image_def Let_def nv_image_data_def MIGRIS_NVSTORE_FORMAT_VERSION_def)
  have rd: "rd16_at ?c 4 = 1" "rd32_at ?c 6 = q" "rd16_at ?c 10 = of_nat ?n"
    unfolding c append_assoc by (simp_all add: rd16_at_append rd32_at_append lk)
  have n: "unat (rd16_at ?c 10) = ?n" using assms(2) by (simp add: rd unat_of_nat_u16)
  have m: "take 4 ?c = k_magic" unfolding c append_assoc by (simp add: k_magic_def)
  have t: "take (12 + ?n) ?c = ?h @ ?p" unfolding c using lh lp by simp
  have k: "rd16_at ?c (12 + ?n) = migris_crc16_ccitt_false (?h @ ?p)"
    unfolding c using lh lp by (subst rd16_at_append) simp_all
  have d: "take ?n (drop 12 ?c) = ?p" unfolding c append_assoc using lh lp by (simp add: append_eq_conv_conj [symmetric] k_magic_def)
  have "nv_header ?c = Some q" using m rd n assms(2) by (simp add: nv_header_def fsw_const)
  then show ?thesis using t k d by (simp add: nv_parse_def n)
qed

section \<open>The flash contract\<close>

text \<open>
  What the store relies on in a backend, as nvstore.h documents it: a geometry the store
  accepts, reads that return the sector's content, an erase that clears it, a write on erased
  bytes that leaves what was written, and neither of the two touching another sector, whether it succeeds or fails.
\<close>

locale nv_flash =
  fixes b :: "'f migris_nv_backend_t" and cells :: "'f \<Rightarrow> nat \<Rightarrow> bytes" and ok :: "'f \<Rightarrow> bool"
  assumes usable: "backend_ok b"
    and cells_length: "ok fl \<Longrightarrow> s < nb_sector_count b \<Longrightarrow> length (cells fl s) = nb_sector_size b"
    and read: "ok fl \<Longrightarrow> s < nb_sector_count b \<Longrightarrow> off + len \<le> nb_sector_size b \<Longrightarrow>
      nb_read b fl s off len = Some (take len (drop off (cells fl s)))"
    and erased: "ok fl \<Longrightarrow> s < nb_sector_count b \<Longrightarrow> nb_erase b fl s = (True, fl') \<Longrightarrow> cells fl' s = replicate (nb_sector_size b) 0xFF"
    and erase_frame: "ok fl \<Longrightarrow> s < nb_sector_count b \<Longrightarrow> nb_erase b fl s = (r, fl') \<Longrightarrow>
      ok fl' \<and> (\<forall>k < nb_sector_count b. k \<noteq> s \<longrightarrow> cells fl' k = cells fl k)"
    and written: "ok fl \<Longrightarrow> s < nb_sector_count b \<Longrightarrow> off + length bs \<le> nb_sector_size b \<Longrightarrow>
      nb_write_block b dvd off \<Longrightarrow> nb_write_block b dvd length bs \<Longrightarrow>
      take (length bs) (drop off (cells fl s)) = replicate (length bs) 0xFF \<Longrightarrow>
      nb_write b fl s off bs = (True, fl') \<Longrightarrow> cells fl' s = nvstore_write_at (cells fl s) off bs"
    and write_frame: "ok fl \<Longrightarrow> s < nb_sector_count b \<Longrightarrow> off + length bs \<le> nb_sector_size b \<Longrightarrow>
      nb_write b fl s off bs = (r, fl') \<Longrightarrow> ok fl' \<and> (\<forall>k < nb_sector_count b. k \<noteq> s \<longrightarrow> cells fl' k = cells fl k)"
begin

lemma geometry: "2 \<le> nb_sector_count b" "0 < nb_write_block b" "nb_write_block b \<le> 64" "1550 + nb_write_block b \<le> nb_sector_size b"
  using usable by (auto simp: backend_ok_def Let_def fsw_const)

lemma candidate_eq: "ok fl \<Longrightarrow> s < nb_sector_count b \<Longrightarrow> nvstore_candidate b fl s = nv_header (cells fl s)"
  using read [of fl s 0 12] cells_length [of fl s] geometry(4)
  by (simp add: nvstore_candidate_def MIGRIS_NVSTORE_HEADER_SIZE_def magic_take rd_take nv_header_def not_less)

lemma try_load_eq:
  assumes "ok fl" "s < nb_sector_count b" "length (nv_payload st) = 1536"
  shows "nv_parse (cells fl s) = None \<Longrightarrow> \<exists>p. nvstore_try_load_sector b st fl s = (None, st\<lparr>nv_payload := p\<rparr>) \<and> length p = 1536"
    and "nv_parse (cells fl s) = Some (q, p) \<Longrightarrow>
      nvstore_try_load_sector b st fl s = (Some (q, length p), st\<lparr>nv_payload := p @ drop (length p) (nv_payload st)\<rparr>)"
proof -
  let ?c = "cells fl s"
  have lc: "1550 \<le> length ?c" using cells_length [OF assms(1,2)] geometry(4) by simp
  have r: "off + n \<le> 1550 \<Longrightarrow> nb_read b fl s off n = Some (take n (drop off ?c))" for off n
    using read [OF assms(1,2), of off n] geometry(4) by simp
  have hd: "magic_matches (take 12 ?c) \<longleftrightarrow> take 4 ?c = k_magic" "rd16_at (take 12 ?c) 4 = rd16_at ?c 4"
    "rd32_at (take 12 ?c) 6 = rd32_at ?c 6" "rd16_at (take 12 ?c) 10 = rd16_at ?c 10"
    using lc by (simp_all add: magic_take rd_take)
  have same: "st\<lparr>nv_payload := nv_payload st\<rparr> = st" by simp
  have none: "nv_header ?c = None \<Longrightarrow> nvstore_try_load_sector b st fl s = (None, st)"
    by (auto simp: nvstore_try_load_sector_def MIGRIS_NVSTORE_HEADER_SIZE_def r hd nv_header_def Let_def split: if_splits)
  let ?n = "unat (rd16_at ?c 10)"
  let ?p = "take ?n (drop 12 ?c)"
  have some: "nvstore_try_load_sector b st fl s =
      (if migris_crc16_ccitt_false (take (12 + ?n) ?c) = rd16_at ?c (12 + ?n) then Some (q, ?n) else None,
       st\<lparr>nv_payload := ?p @ drop ?n (nv_payload st)\<rparr>)" if h: "nv_header ?c = Some q" for q
  proof -
    from h have f: "take 4 ?c = k_magic" "rd16_at ?c 4 = MIGRIS_NVSTORE_FORMAT_VERSION" "?n \<le> 1536" "rd32_at ?c 6 = q"
      by (auto simp: nv_header_def fsw_const split: if_splits)
    have lp: "length ?p = ?n" using lc f(3) by simp
    have data: "(if 0 < ?n then nb_read b fl s 12 ?n else Some []) = Some ?p" using r [of 12 ?n] f(3) by simp
    have crc: "nb_read b fl s (12 + ?n) 2 = Some (take 2 (drop (12 + ?n) ?c))" using r [of "12 + ?n" 2] f(3) by simp
    have rd: "rd16_at (take 2 (drop (12 + ?n) ?c)) 0 = rd16_at ?c (12 + ?n)"
      using lc f(3) by (simp add: rd_take rd16_at_def)
    have comb: "take 12 ?c @ take ?n (?p @ drop ?n (nv_payload st)) = take (12 + ?n) ?c"
      using lp by (simp add: take_add)
    show ?thesis
      unfolding nvstore_try_load_sector_def MIGRIS_NVSTORE_HEADER_SIZE_def
      using f r [of 0 12] by (simp add: hd data crc rd comb Let_def fsw_const del: take_append)
  qed
  show "nv_parse ?c = None \<Longrightarrow> \<exists>p. nvstore_try_load_sector b st fl s = (None, st\<lparr>nv_payload := p\<rparr>) \<and> length p = 1536"
  proof (cases "nv_header ?c")
    case None
    then show ?thesis using none assms(3) by (intro exI [of _ "nv_payload st"]) simp
  next
    case (Some q)
    assume "nv_parse ?c = None"
    with Some have "\<not> migris_crc16_ccitt_false (take (12 + ?n) ?c) = rd16_at ?c (12 + ?n)" by (auto simp: nv_parse_def Let_def split: if_splits)
    moreover have "?n \<le> 1536" using Some by (auto simp: nv_header_def fsw_const split: if_splits)
    ultimately show ?thesis
      using some [OF Some] assms(3) lc by (intro exI [of _ "?p @ drop ?n (nv_payload st)"]) simp
  qed
  show "nv_parse ?c = Some (q, p) \<Longrightarrow>
      nvstore_try_load_sector b st fl s = (Some (q, length p), st\<lparr>nv_payload := p @ drop (length p) (nv_payload st)\<rparr>)"
  proof -
    assume a: "nv_parse ?c = Some (q, p)"
    then have h: "nv_header ?c = Some q" by (rule nv_parse_header)
    moreover have "?n \<le> 1536" using h by (auto simp: nv_header_def fsw_const split: if_splits)
    then have "length ?p = ?n" using lc by simp
    ultimately show ?thesis using a some [OF h] by (auto simp: nv_parse_def Let_def split: if_splits)
  qed
qed

end

text \<open>The state a load leaves when it found image \<open>found\<close> (sector, sequence number, payload).\<close>

definition nv_loaded_as :: "'f migris_nvstore_t \<Rightarrow> (nat \<times> u32 \<times> bytes) option \<Rightarrow> bool" where
  "nv_loaded_as s found \<longleftrightarrow> length (nv_payload s) = 1536 \<and>
    (case found of
       None \<Rightarrow> \<not> nv_loaded s \<and> nv_loaded_seq s = 0 \<and> nv_payload_len s = 0
     | Some (i, q, p) \<Rightarrow> nv_loaded s \<and> nv_loaded_sector s = i \<and> nv_loaded_seq s = q \<and> nv_image_data s = p
         \<and> nv_payload_len s = length p)"

text \<open>What the store knows of the flash between saves: where the last good image is.\<close>

definition nv_tracks :: "(nat \<Rightarrow> bytes) \<Rightarrow> 'f migris_nvstore_t \<Rightarrow> bool" where
  "nv_tracks cells s \<longleftrightarrow>
    (if nv_loaded s then nv_loaded_sector s < 2 \<and> (\<exists>d. nv_parse (cells (nv_loaded_sector s)) = Some (nv_loaded_seq s, d))
     else nv_loaded_seq s = 0 \<and> nv_parse (cells 1) = None)"

context nv_flash
begin

lemma attempt_skip:
  assumes "ok fl" "s < nb_sector_count b" "length (nv_payload st) = 1536" "nv_parse (cells fl s) = None"
  shows "\<exists>p. nvstore_attempt b valid st fl (s # rest) = nvstore_attempt b valid (st\<lparr>nv_payload := p\<rparr>) fl rest \<and> length p = 1536"
proof (cases "valid s")
  case None
  then show ?thesis using assms(3) by (intro exI [of _ "nv_payload st"]) simp
next
  case (Some q)
  obtain p where "nvstore_try_load_sector b st fl s = (None, st\<lparr>nv_payload := p\<rparr>)" "length p = 1536"
    using try_load_eq(1) [OF assms] by blast
  with Some show ?thesis by (intro exI [of _ p]) simp
qed

lemma attempt_hit:
  assumes "ok fl" "s < nb_sector_count b" "length (nv_payload st) = 1536" "nv_parse (cells fl s) = Some (q, p)" "valid s \<noteq> None"
  shows "\<exists>st'. nvstore_attempt b valid st fl (s # rest) = (NVSTORE_OK, st') \<and> nv_loaded_as st' (Some (s, q, p)) \<and> nv_backend st' = nv_backend st"
  using try_load_eq(2) [OF assms(1-4)] assms(3,5) nv_parse_length [OF assms(4)]
  by (auto simp: nv_loaded_as_def nv_image_data_def)

lemma load_spec:
  assumes "ok fl" "nv_backend s = Some b" "length (nv_payload s) = 1536"
  defines "found \<equiv> nv_newest (cells fl 0) (cells fl 1)"
  shows "\<exists>s'. migris_nvstore_load s fl = (if found = None then NVSTORE_ERR_NO_VALID_IMAGE else NVSTORE_OK, s')
    \<and> nv_loaded_as s' found \<and> nv_backend s' = Some b"
proof -
  let ?c0 = "cells fl 0" and ?c1 = "cells fl 1"
  have n: "0 < nb_sector_count b" "1 < nb_sector_count b" using geometry(1) by simp_all
  let ?v = "\<lambda>i. if i < 2 \<and> i < nb_sector_count b then nvstore_candidate b fl i else None"
  let ?order = "case (?v 0, ?v 1) of (_, None) \<Rightarrow> [0, 1] | (None, Some _) \<Rightarrow> [1, 0]
      | (Some s0, Some s1) \<Rightarrow> if s1 > s0 then [1, 0] else [0, 1]"
  have load: "migris_nvstore_load s fl = nvstore_attempt b ?v s fl ?order"
    by (simp only: migris_nvstore_load_def assms(2) option.case Let_def usable not_True_eq_False if_False)
  have v: "?v 0 = nv_header ?c0" "?v 1 = nv_header ?c1" using candidate_eq [OF assms(1)] n by simp_all
  have h: "nv_parse (cells fl i) = Some (q, p) \<Longrightarrow> nv_header (cells fl i) = Some q" for i q p by (rule nv_parse_header)
  have cases: "(\<exists>i j. ?order = [i, j] \<and> {i, j} = {0, 1} \<and>
     (found = None \<and> nv_parse (cells fl i) = None \<and> nv_parse (cells fl j) = None
      \<or> (\<exists>q p. found = Some (i, q, p) \<and> nv_parse (cells fl i) = Some (q, p) \<and> ?v i \<noteq> None)
      \<or> (\<exists>q p. found = Some (j, q, p) \<and> nv_parse (cells fl i) = None \<and> nv_parse (cells fl j) = Some (q, p) \<and> ?v j \<noteq> None)))"
    unfolding v found_def nv_newest_def using h [of 0] h [of 1] n candidate_eq [OF assms(1)]
    by (cases "nv_parse ?c0"; cases "nv_parse ?c1"; cases "nv_header ?c0"; cases "nv_header ?c1") (auto simp: v)
  then obtain i j where ij: "?order = [i, j]" "{i, j} = {0, 1}" and
    found: "found = None \<and> nv_parse (cells fl i) = None \<and> nv_parse (cells fl j) = None
      \<or> (\<exists>q p. found = Some (i, q, p) \<and> nv_parse (cells fl i) = Some (q, p) \<and> ?v i \<noteq> None)
      \<or> (\<exists>q p. found = Some (j, q, p) \<and> nv_parse (cells fl i) = None \<and> nv_parse (cells fl j) = Some (q, p) \<and> ?v j \<noteq> None)" by blast
  have lt: "i < nb_sector_count b" "j < nb_sector_count b" using ij(2) n by (auto simp: doubleton_eq_iff)
  note load' = load [unfolded ij(1)]
  from found show ?thesis
  proof (elim disjE conjE exE)
    assume f: "found = None" "nv_parse (cells fl i) = None" "nv_parse (cells fl j) = None"
    obtain p where p: "nvstore_attempt b ?v s fl [i, j] = nvstore_attempt b ?v (s\<lparr>nv_payload := p\<rparr>) fl [j]" "length p = 1536"
      using attempt_skip [OF assms(1) lt(1) assms(3) f(2)] by blast
    obtain p' where "nvstore_attempt b ?v (s\<lparr>nv_payload := p\<rparr>) fl [j] = nvstore_attempt b ?v (s\<lparr>nv_payload := p\<rparr>\<lparr>nv_payload := p'\<rparr>) fl []"
      "length p' = 1536"
      using attempt_skip [OF assms(1) lt(2) _ f(3), of "s\<lparr>nv_payload := p\<rparr>" ?v "[]"] p(2) by auto
    with p load' f(1) assms(2) show ?thesis by (simp add: nv_loaded_as_def)
  next
    fix q p assume f: "found = Some (i, q, p)" "nv_parse (cells fl i) = Some (q, p)" "?v i \<noteq> None"
    from attempt_hit [where valid = ?v and rest = "[j]", OF assms(1) lt(1) assms(3) f(2,3)] f(1) load' assms(2) show ?thesis by simp
  next
    fix q p assume f: "found = Some (j, q, p)" "nv_parse (cells fl i) = None" "nv_parse (cells fl j) = Some (q, p)" "?v j \<noteq> None"
    obtain p' where p: "nvstore_attempt b ?v s fl [i, j] = nvstore_attempt b ?v (s\<lparr>nv_payload := p'\<rparr>) fl [j]" "length p' = 1536"
      using attempt_skip [OF assms(1) lt(1) assms(3) f(2)] by blast
    from attempt_hit [where valid = ?v and rest = "[]" and st = "s\<lparr>nv_payload := p'\<rparr>", OF assms(1) lt(2) _ f(3,4)] p f(1) load' assms(2) show ?thesis by simp
  qed
qed

lemma save_spec:
  assumes "ok fl" "nv_backend s = Some b" "length (nv_payload s) = 1536" "nv_payload_len s \<le> 1536"
    and "migris_nvstore_save s fl = (rc, s', fl')"
  defines "target \<equiv> if nv_loaded s then (nv_loaded_sector s + 1) mod nb_sector_count b else 0"
  shows "ok fl'" "\<forall>k < nb_sector_count b. k \<noteq> target \<longrightarrow> cells fl' k = cells fl k"
    and "rc = NVSTORE_OK \<and> s' = s\<lparr>nv_loaded_seq := nv_loaded_seq s + 1, nv_loaded_sector := target, nv_loaded := True\<rparr>
        \<and> nv_parse (cells fl' target) = Some (nv_loaded_seq s + 1, nv_image_data s)
      \<or> rc = NVSTORE_ERR_BACKEND \<and> s' = s"
proof -
  have t: "target < nb_sector_count b" using geometry(1) by (simp add: target_def)
  let ?img = "nvstore_image s (nb_write_block b) (nv_loaded_seq s + 1)"
  obtain e fl1 where e: "nb_erase b fl target = (e, fl1)" by fastforce
  note e' = erase_frame [OF assms(1) t e]
  have len: "length ?img \<le> nb_sector_size b" "nb_write_block b dvd length ?img"
    using length_image [OF assms(3,4) geometry(2,3), of "nv_loaded_seq s + 1"] geometry(4) by simp_all
  obtain w fl2 where w: "nb_write b fl1 target 0 ?img = (w, fl2)" by fastforce
  note w' = write_frame [OF _ t _ w]
  have s: "migris_nvstore_save s fl = (if \<not> e then (NVSTORE_ERR_BACKEND, s, fl1)
      else if \<not> w then (NVSTORE_ERR_BACKEND, s, fl2)
      else (NVSTORE_OK, s\<lparr>nv_loaded_seq := nv_loaded_seq s + 1, nv_loaded_sector := target, nv_loaded := True\<rparr>, fl2))"
    unfolding target_def using assms(2) usable e w by (simp add: migris_nvstore_save_def Let_def target_def)
  show "ok fl'" "\<forall>k < nb_sector_count b. k \<noteq> target \<longrightarrow> cells fl' k = cells fl k"
    using s assms(5) e' w' len(1) by (auto split: if_splits)
  show "rc = NVSTORE_OK \<and> s' = s\<lparr>nv_loaded_seq := nv_loaded_seq s + 1, nv_loaded_sector := target, nv_loaded := True\<rparr>
        \<and> nv_parse (cells fl' target) = Some (nv_loaded_seq s + 1, nv_image_data s)
      \<or> rc = NVSTORE_ERR_BACKEND \<and> s' = s"
  proof (cases "e \<and> w")
    case False
    then show ?thesis using s assms(5) by (auto split: if_splits)
  next
    case True
    have c: "cells fl1 target = replicate (nb_sector_size b) 0xFF" using erased [OF assms(1) t] e True by simp
    have "cells fl2 target = nvstore_write_at (cells fl1 target) 0 ?img"
      by (rule written [OF _ t]) (use e' len c w True in auto)
    then have "nv_parse (cells fl2 target) = Some (nv_loaded_seq s + 1, nv_image_data s)"
      using parse_image [OF assms(3,4), of "nb_write_block b" "nv_loaded_seq s + 1" "drop (length ?img) (cells fl1 target)"]
      by (simp add: nvstore_write_at_def)
    then show ?thesis using s assms(5) True by auto
  qed
qed

lemma loaded_tracks: "nv_loaded_as s (nv_newest (cells fl 0) (cells fl 1)) \<Longrightarrow> nv_tracks (cells fl) s"
  by (auto simp: nv_loaded_as_def nv_tracks_def nv_newest_def split: option.splits if_splits)

lemma save_tracks:
  assumes "nb_sector_count b = 2" "ok fl" "nv_backend s = Some b" "nv_payload_len s \<le> 1536" "length (nv_payload s) = 1536"
    and "nv_tracks (cells fl) s" "migris_nvstore_save s fl = (rc, s', fl')"
  shows "nv_tracks (cells fl') s'"
proof -
  note sv = save_spec [OF assms(2,3,5,4,7), unfolded assms(1)]
  let ?t = "if nv_loaded s then (nv_loaded_sector s + 1) mod 2 else 0"
  from sv(3) show ?thesis
  proof (elim disjE conjE)
    assume "s' = s\<lparr>nv_loaded_seq := nv_loaded_seq s + 1, nv_loaded_sector := ?t, nv_loaded := True\<rparr>"
      "nv_parse (cells fl' ?t) = Some (nv_loaded_seq s + 1, nv_image_data s)"
    then show ?thesis by (auto simp: nv_tracks_def)
  next
    assume s': "s' = s"
    have "nv_loaded s \<Longrightarrow> nv_loaded_sector s \<noteq> ?t" using assms(6) by (auto simp: nv_tracks_def less_2_cases_iff)
    with sv(2) assms(6) show ?thesis by (auto simp: s' nv_tracks_def)
  qed
qed

lemma newest_after_save:
  assumes "nb_sector_count b = 2" "ok fl" "nv_backend s = Some b" "nv_payload_len s \<le> 1536" "length (nv_payload s) = 1536"
    and "nv_tracks (cells fl) s" "nv_loaded_seq s \<noteq> 0xFFFFFFFF"
    and "migris_nvstore_save s fl = (NVSTORE_OK, s', fl')"
  shows "nv_newest (cells fl' 0) (cells fl' 1) = Some (nv_loaded_sector s', nv_loaded_seq s + 1, nv_image_data s)"
proof -
  let ?t = "if nv_loaded s then (nv_loaded_sector s + 1) mod 2 else 0"
  note sv = save_spec [OF assms(2,3,5,4,8), unfolded assms(1)]
  have "(- 1 :: u32) = 0xFFFFFFFF" by simp
  then have "nv_loaded_seq s + 1 \<noteq> 0" using assms(7) eq_neg_iff_add_eq_0 [of "nv_loaded_seq s" 1] by metis
  then have up: "nv_loaded_seq s < nv_loaded_seq s + 1"
    using unatSuc [of "nv_loaded_seq s"] by (simp add: word_less_nat_alt add.commute)
  have s': "nv_loaded_sector s' = ?t" and new: "nv_parse (cells fl' ?t) = Some (nv_loaded_seq s + 1, nv_image_data s)"
    using sv(3) by auto
  consider (none) "\<not> nv_loaded s" | (zero) "nv_loaded s" "nv_loaded_sector s = 0" | (one) "nv_loaded s" "nv_loaded_sector s = 1"
    using assms(6) by (cases "nv_loaded s") (auto simp: nv_tracks_def less_2_cases_iff)
  then show ?thesis
  proof cases
    case none
    then have "cells fl' 1 = cells fl 1" "nv_parse (cells fl 1) = None" using sv(2) assms(6) by (simp_all add: nv_tracks_def)
    then show ?thesis using new s' none by (simp add: nv_newest_def)
  next
    case zero
    then obtain d where "nv_parse (cells fl 0) = Some (nv_loaded_seq s, d)" using assms(6) by (auto simp: nv_tracks_def)
    moreover have "cells fl' 0 = cells fl 0" using sv(2) zero by simp
    ultimately show ?thesis using new s' zero up by (simp add: nv_newest_def)
  next
    case one
    then obtain d where "nv_parse (cells fl 1) = Some (nv_loaded_seq s, d)" using assms(6) by (auto simp: nv_tracks_def)
    moreover have "cells fl' 1 = cells fl 1" using sv(2) one by simp
    ultimately show ?thesis using new s' one up by (auto simp: nv_newest_def)
  qed
qed

end

section \<open>The flash-area backend meets the contract\<close>

text \<open>
  The documented behaviour of the RTOS flash map on a partition of two equal sectors: reads and
  writes at partition offsets, an erase of one sector, nothing outside the range touched.
\<close>

locale flash_map =
  fixes fa :: "'f flash_area" and img :: "'f \<Rightarrow> bytes" and ssize :: nat and ok :: "'f \<Rightarrow> bool"
  assumes opens: "fa_open fa" "fa_sectors fa = Some [ssize, ssize]" "0 < fa_align fa" "fa_align fa \<le> 64" "1550 + fa_align fa \<le> ssize"
    and img_length: "ok fl \<Longrightarrow> length (img fl) = 2 * ssize"
    and fa_read: "ok fl \<Longrightarrow> off + len \<le> 2 * ssize \<Longrightarrow> fa_read fa fl off len = Some (take len (drop off (img fl)))"
    and fa_erase: "ok fl \<Longrightarrow> off + len \<le> 2 * ssize \<Longrightarrow> fa_erase fa fl off len = (r, fl') \<Longrightarrow>
      ok fl' \<and> take off (img fl') = take off (img fl) \<and> drop (off + len) (img fl') = drop (off + len) (img fl)
      \<and> (r \<longrightarrow> take len (drop off (img fl')) = replicate len 0xFF)"
    and fa_write: "ok fl \<Longrightarrow> off + length bs \<le> 2 * ssize \<Longrightarrow> fa_write fa fl off bs = (r, fl') \<Longrightarrow>
      ok fl' \<and> take off (img fl') = take off (img fl) \<and> drop (off + length bs) (img fl') = drop (off + length bs) (img fl)
      \<and> (r \<and> take (length bs) (drop off (img fl)) = replicate (length bs) 0xFF \<longrightarrow> take (length bs) (drop off (img fl')) = bs)"

definition fa_cells :: "('f \<Rightarrow> bytes) \<Rightarrow> nat \<Rightarrow> 'f \<Rightarrow> nat \<Rightarrow> bytes" where
  "fa_cells img ssize fl s = take ssize (drop (s * ssize) (img fl))"

text \<open>A change confined to a range, seen from the two sectors.\<close>

lemma window_write:
  assumes "i + n \<le> m" "take i ys = take i xs" "drop (i + n) ys = drop (i + n) xs" "length (take n (drop i ys)) = n"
  shows "take m ys = nvstore_write_at (take m xs) i (take n (drop i ys))"
proof -
  obtain k where m: "m = (i + n) + k" using assms(1) le_Suc_ex by blast
  have "take m ys = take i ys @ take n (drop i ys) @ take k (drop (i + n) ys)"
    by (simp only: m take_add [of "i + n" k] take_add [of i n] append_assoc)
  then show ?thesis
    using assms(2-4) by (simp add: nvstore_write_at_def m drop_take min_def del: length_take)
qed

lemma cells_frame:
  assumes "length xs = 2 * ssize" "length ys = 2 * ssize" "take off ys = take off xs" "drop (off + n) ys = drop (off + n) xs"
    and "off = s * ssize + i" "i + n \<le> ssize" "s < 2" "k < 2"
  shows "k \<noteq> s \<Longrightarrow> take ssize (drop (k * ssize) ys) = take ssize (drop (k * ssize) xs)"
    and "take ssize (drop (s * ssize) ys) = nvstore_write_at (take ssize (drop (s * ssize) xs)) i (take n (drop off ys))"
proof -
  show "k \<noteq> s \<Longrightarrow> take ssize (drop (k * ssize) ys) = take ssize (drop (k * ssize) xs)"
  proof -
    assume "k \<noteq> s"
    then consider "k = 0" "s = 1" | "k = 1" "s = 0" using assms(7,8) by linarith
    then show ?thesis
    proof cases
      case 1
      then have "take ssize (take off ys) = take ssize (take off xs)" using assms(3) by simp
      with 1 assms(5) show ?thesis by (simp add: take_take min_def split: if_splits)
    next
      case 2
      then have "drop (ssize - (off + n)) (drop (off + n) ys) = drop (ssize - (off + n)) (drop (off + n) xs)" using assms(4) by simp
      with 2 assms(5,6) show ?thesis by simp
    qed
  qed
  have "take i (drop (s * ssize) ys) = take i (drop (s * ssize) xs)"
    using arg_cong [OF assms(3), of "drop (s * ssize)"] by (simp add: assms(5) drop_take)
  moreover have "drop (i + n) (drop (s * ssize) ys) = drop (i + n) (drop (s * ssize) xs)"
    using assms(4) by (simp add: assms(5) ac_simps)
  moreover have "take n (drop i (drop (s * ssize) ys)) = take n (drop off ys)" by (simp add: assms(5) ac_simps)
  moreover have "length (take n (drop off ys)) = n"
    using assms(2,5-7) by (auto simp: less_2_cases_iff)
  ultimately show "take ssize (drop (s * ssize) ys) = nvstore_write_at (take ssize (drop (s * ssize) xs)) i (take n (drop off ys))"
    using window_write [OF assms(6), of "drop (s * ssize) ys" "drop (s * ssize) xs"] by simp
qed

sublocale flash_map \<subseteq> nv: nv_flash "migris_fsw_nv_flash_backend fa" "fa_cells img ssize" ok
proof -
  let ?b = "migris_fsw_nv_flash_backend fa"
  have b: "nb_sector_size ?b = ssize" "nb_sector_count ?b = 2" "nb_write_block ?b = fa_align fa"
    "nb_read ?b = (\<lambda>fl s off. fa_read fa fl (s * ssize + off))" "nb_write ?b = (\<lambda>fl s off. fa_write fa fl (s * ssize + off))"
    "nb_erase ?b = (\<lambda>fl s. fa_erase fa fl (s * ssize) ssize)"
    using opens by (simp_all add: migris_fsw_nv_flash_backend_def nv_flash_read_def nv_flash_write_def nv_flash_erase_def Let_def fun_eq_iff)
  have range: "s * ssize + n \<le> 2 * ssize" if "s < 2" "n \<le> ssize" for s n
    using that by (auto simp: less_2_cases_iff)
  show "nv_flash ?b (fa_cells img ssize) ok"
  proof (unfold_locales, unfold b)
    show "backend_ok ?b" using opens by (simp add: backend_ok_def b fsw_const)
  next
    fix fl s assume "ok fl" "s < (2::nat)"
    then show "length (fa_cells img ssize fl s) = ssize" using img_length by (auto simp: fa_cells_def less_2_cases_iff)
  next
    fix fl s off len assume a: "ok fl" "s < (2::nat)" "off + len \<le> ssize"
    then have "s * ssize + off + len \<le> 2 * ssize" using range [of s "off + len"] by simp
    from fa_read [OF a(1) this] a show "fa_read fa fl (s * ssize + off) len = Some (take len (drop off (fa_cells img ssize fl s)))"
      by (simp add: fa_cells_def drop_take min_def add.commute)
  next
    fix fl s fl' assume a: "ok fl" "s < (2::nat)" "fa_erase fa fl (s * ssize) ssize = (True, fl')"
    from fa_erase [OF a(1) range [OF a(2)] a(3)] show "fa_cells img ssize fl' s = replicate ssize 0xFF" by (simp add: fa_cells_def)
  next
    fix fl s r fl' assume a: "ok fl" "s < (2::nat)" "fa_erase fa fl (s * ssize) ssize = (r, fl')"
    note e = fa_erase [OF a(1) range [OF a(2)] a(3), simplified]
    show "ok fl' \<and> (\<forall>k < 2. k \<noteq> s \<longrightarrow> fa_cells img ssize fl' k = fa_cells img ssize fl k)"
      using cells_frame(1) [of "img fl" ssize "img fl'" "s * ssize" ssize s 0] img_length a(1,2) e by (auto simp: fa_cells_def)
  next
    fix fl s off bs fl' assume a: "ok fl" "s < (2::nat)" "off + length bs \<le> ssize"
      "take (length bs) (drop off (fa_cells img ssize fl s)) = replicate (length bs) 0xFF"
      "fa_write fa fl (s * ssize + off) bs = (True, fl')"
    have "s * ssize + off + length bs \<le> 2 * ssize" using range [of s "off + length bs"] a by simp
    note w = fa_write [OF a(1) this a(5)]
    have "take (length bs) (drop (s * ssize + off) (img fl)) = replicate (length bs) 0xFF"
      using a(3,4) by (simp add: fa_cells_def drop_take min_def add.commute split: if_splits)
    with w have "take (length bs) (drop (s * ssize + off) (img fl')) = bs" by simp
    then show "fa_cells img ssize fl' s = nvstore_write_at (fa_cells img ssize fl s) off bs"
      using cells_frame(2) [of "img fl" ssize "img fl'" "s * ssize + off" "length bs" s off] img_length a(1-3) w
      by (simp add: fa_cells_def)
  next
    fix fl s off bs r fl' assume a: "ok fl" "s < (2::nat)" "off + length bs \<le> ssize" "fa_write fa fl (s * ssize + off) bs = (r, fl')"
    have "s * ssize + off + length bs \<le> 2 * ssize" using range [of s "off + length bs"] a by simp
    note w = fa_write [OF a(1) this a(4)]
    show "ok fl' \<and> (\<forall>k < 2. k \<noteq> s \<longrightarrow> fa_cells img ssize fl' k = fa_cells img ssize fl k)"
      using cells_frame(1) [of "img fl" ssize "img fl'" "s * ssize + off" "length bs" s off] img_length a(1-3) w
      by (auto simp: fa_cells_def)
  qed
qed

text \<open>
  A RAM flash map, after the RAM backend of tests/nvstore_test.cpp: two sectors of 2048 bytes,
  a write block of 32.
\<close>

definition ram_area :: "bytes flash_area" where
  "ram_area = \<lparr>fa_read = (\<lambda>fl off len. Some (take len (drop off fl))),
     fa_write = (\<lambda>fl off bs. (True, nvstore_write_at fl off bs)),
     fa_erase = (\<lambda>fl off len. (True, nvstore_write_at fl off (replicate len 0xFF))),
     fa_open = True, fa_sectors = Some [2048, 2048], fa_align = 32\<rparr>"

lemma write_at_facts:
  assumes "off + length bs \<le> length fl"
  shows "length (nvstore_write_at fl off bs) = length fl" "take off (nvstore_write_at fl off bs) = take off fl"
    "drop (off + length bs) (nvstore_write_at fl off bs) = drop (off + length bs) fl"
    "take (length bs) (drop off (nvstore_write_at fl off bs)) = bs"
  using assms by (simp_all add: nvstore_write_at_def)

interpretation ram: flash_map ram_area "\<lambda>fl. fl" 2048 "\<lambda>fl. length fl = 4096"
proof unfold_locales
  fix fl fl' :: bytes and off len r
  assume a: "length fl = 4096" "off + len \<le> 2 * 2048" "fa_erase ram_area fl off len = (r, fl')"
  then show "length fl' = 4096 \<and> take off fl' = take off fl \<and> drop (off + len) fl' = drop (off + len) fl
      \<and> (r \<longrightarrow> take len (drop off fl') = replicate len 0xFF)"
    using write_at_facts [of off "replicate len 0xFF" fl] by (auto simp: ram_area_def)
next
  fix fl fl' bs :: bytes and off r
  assume a: "length fl = 4096" "off + length bs \<le> 2 * 2048" "fa_write ram_area fl off bs = (r, fl')"
  then show "length fl' = 4096 \<and> take off fl' = take off fl \<and> drop (off + length bs) fl' = drop (off + length bs) fl
      \<and> (r \<and> take (length bs) (drop off fl) = replicate (length bs) 0xFF \<longrightarrow> take (length bs) (drop off fl') = bs)"
    using write_at_facts [of off bs fl] by (auto simp: ram_area_def)
qed (simp_all add: ram_area_def)

section \<open>Properties\<close>

lemma same_records:
  assumes "nv_recs s rs" "nv_image_data s' = nv_image_data s" "nv_payload_len s' = nv_payload_len s" "length (nv_payload s') = 1536"
  shows "nv_recs s' rs" "migris_nvstore_get s' k = migris_nvstore_get s k"
proof -
  show "nv_recs s' rs" using assms by (simp add: nv_recs_def nv_image_data_def fsw_const)
  from get_spec [OF this] get_spec [OF assms(1)] show "migris_nvstore_get s' k = migris_nvstore_get s k" by simp
qed

lemma image_data_length: "length (nv_payload s) = 1536 \<Longrightarrow> nv_payload_len s \<le> 1536 \<Longrightarrow> length (nv_image_data s) = nv_payload_len s"
  by (simp add: nv_image_data_def)

text \<open>An image sent to a third sector is never looked at again: the load tries sectors 0 and 1 only.\<close>

lemma third_sector_not_loaded:
  assumes "nv_flash b cells ok" "nb_sector_count b = 3" "ok fl" "nv_backend s = Some b" "length (nv_payload s) = 1536"
    and "nv_payload_len s \<le> 1536" "nv_loaded s" "nv_loaded_sector s = 1"
    and "migris_nvstore_save s fl = (NVSTORE_OK, s', fl')" "nv_backend s2 = Some b" "length (nv_payload s2) = 1536"
  shows "\<exists>rc a c. migris_nvstore_load s2 fl = (rc, a) \<and> migris_nvstore_load s2 fl' = (rc, c) \<and> nv_image_data c = nv_image_data a"
proof -
  note sv = nv_flash.save_spec [OF assms(1,3-6,9)]
  have "cells fl' 0 = cells fl 0" "cells fl' 1 = cells fl 1" using sv(2) assms(2,7,8) by auto
  with nv_flash.load_spec [OF assms(1,3,10,11)] nv_flash.load_spec [OF assms(1) sv(1) assms(10,11)]
  show ?thesis by (auto simp: nv_loaded_as_def nv_image_data_def split: option.splits)
qed

definition nv_empty :: "'f migris_nv_backend_t \<Rightarrow> 'f migris_nvstore_t" where
  "nv_empty b = \<lparr>nv_backend = Some b, nv_payload = replicate 1536 0, nv_payload_len = 0, nv_loaded_seq = 0,
     nv_loaded_sector = 0, nv_loaded = False\<rparr>"

lemma nv_empty_facts: "nv_recs (nv_empty b) []" "nv_backend (nv_empty b) = Some b" "length (nv_payload (nv_empty b)) = 1536"
  by (simp_all add: nv_empty_def nv_recs_def fsw_const)

text \<open>
  C39: the payload is a map from record types to byte strings. A get returns the bytes last put
  under the type; a put replaces the record of its type, leaves every other one, and is
  refused as FULL exactly when the other records and this one exceed 1536 bytes, in which case the
  previous record of the type is gone.
\<close>
theorem nvstore_keeps_latest_records:
  assumes "nv_recs s rs" and "migris_nvstore_put s t b = (rc, s')"
  shows "nv_wf s' \<and> rc = (if length (recs_bytes (filter (\<lambda>r. fst r \<noteq> t) rs)) + 3 + length b \<le> 1536 then NVSTORE_OK else NVSTORE_ERR_FULL)
    \<and> (\<forall>k. migris_nvstore_get s k = (case map_of rs k of None \<Rightarrow> Inl NVSTORE_ERR_NOT_FOUND | Some x \<Rightarrow> Inr x))
    \<and> (\<forall>k. migris_nvstore_get s' k =
         (if k = t then (if rc = NVSTORE_OK then Inr b else Inl NVSTORE_ERR_NOT_FOUND) else migris_nvstore_get s k))"
proof -
  let ?kept = "filter (\<lambda>r. fst r \<noteq> t) rs"
  have kept: "map_of ?kept k = (if k = t then None else map_of rs k)" for k
    by (induction rs) auto
  consider (fits) "length (recs_bytes ?kept) + 3 + length b \<le> 1536" "rc = NVSTORE_OK" "nv_recs s' (?kept @ [(t, b)])"
    | (full) "1536 < length (recs_bytes ?kept) + 3 + length b" "rc = NVSTORE_ERR_FULL" "nv_recs s' ?kept"
    using put_spec [OF assms(1), of t b] assms(2) by fastforce
  then show ?thesis
  proof cases
    case fits
    then show ?thesis using get_spec [OF fits(3)] get_spec [OF assms(1)]
      by (auto simp: nv_wf_def map_add_def kept split: option.split)
  next
    case full
    then show ?thesis using get_spec [OF full(3)] get_spec [OF assms(1)] by (auto simp: nv_wf_def kept)
  qed
qed

lemma nvstore_keeps_latest_records_witness:
  "migris_nvstore_get (snd (migris_nvstore_put (nv_empty (migris_fsw_nv_flash_backend ram_area)) 2 [7, 8])) 2 = Inr [7, 8]"
  using nvstore_keeps_latest_records [OF nv_empty_facts(1) surjective_pairing, of "migris_fsw_nv_flash_backend ram_area" 2 "[7, 8]"]
  by simp

text \<open>
  C40: the image of a save fits the stack buffer it is built in and the sector it is written
  to, in whole write blocks, whatever the payload and any geometry the store accepts.
\<close>
theorem nvstore_image_fits:
  assumes "backend_ok b" "length (nv_payload s) = 1536" "nv_payload_len s \<le> 1536"
  shows "length (nvstore_image s (nb_write_block b) q) \<le> NVSTORE_IMAGE_MAX
    \<and> length (nvstore_image s (nb_write_block b) q) \<le> nb_sector_size b
    \<and> nb_write_block b dvd length (nvstore_image s (nb_write_block b) q)"
proof -
  from assms(1) have g: "0 < nb_write_block b" "nb_write_block b \<le> 64" "1550 + nb_write_block b \<le> nb_sector_size b"
    by (auto simp: backend_ok_def Let_def fsw_const)
  from length_image [OF assms(2,3) g(1,2), of q] g(3) show ?thesis by simp
qed

lemma nvstore_image_fits_witness:
  "length (nvstore_image (nv_empty (migris_fsw_nv_flash_backend ram_area)) 32 7) \<le> NVSTORE_IMAGE_MAX"
proof -
  have "nb_write_block (migris_fsw_nv_flash_backend ram_area) = 32" by (simp add: migris_fsw_nv_flash_backend_def ram_area_def)
  with nvstore_image_fits [OF ram.nv.usable, of "nv_empty (migris_fsw_nv_flash_backend ram_area)" 7] nv_empty_facts
  show ?thesis by (simp add: nv_empty_def)
qed

text \<open>A save that reports success, then a load into a fresh store.\<close>

lemma load_after_save:
  assumes "nv_flash b cells ok" "nb_sector_count b = 2" "ok fl" "nv_backend s = Some b" "nv_recs s rs"
    and "nv_tracks (cells fl) s" "nv_loaded_seq s \<noteq> 0xFFFFFFFF" "migris_nvstore_save s fl = (NVSTORE_OK, s', fl')"
    and "nv_backend s2 = Some b" "length (nv_payload s2) = 1536"
  shows "\<exists>s3. migris_nvstore_load s2 fl' = (NVSTORE_OK, s3) \<and> nv_recs s3 rs \<and> nv_loaded_seq s3 = nv_loaded_seq s + 1
    \<and> nv_backend s3 = Some b \<and> (\<forall>k. migris_nvstore_get s3 k = migris_nvstore_get s k)"
proof -
  have len: "length (nv_payload s) = 1536" "nv_payload_len s \<le> 1536" using assms(5) by (simp_all add: nv_recs_def fsw_const)
  have new: "nv_newest (cells fl' 0) (cells fl' 1) = Some (nv_loaded_sector s', nv_loaded_seq s + 1, nv_image_data s)"
    by (rule nv_flash.newest_after_save [OF assms(1-4) len(2,1) assms(6-8)])
  have ok': "ok fl'" by (rule nv_flash.save_spec(1) [OF assms(1,3,4) len assms(8)])
  from nv_flash.load_spec [OF assms(1) ok' assms(9,10)] new obtain s3 where s3: "migris_nvstore_load s2 fl' = (NVSTORE_OK, s3)"
    "nv_loaded_as s3 (Some (nv_loaded_sector s', nv_loaded_seq s + 1, nv_image_data s))" "nv_backend s3 = Some b" by auto
  then have "nv_image_data s3 = nv_image_data s" "nv_payload_len s3 = nv_payload_len s" "length (nv_payload s3) = 1536"
    using image_data_length [OF len] by (simp_all add: nv_loaded_as_def)
  note r = same_records [OF assms(5) this]
  show ?thesis using s3 r by (auto simp: nv_loaded_as_def)
qed

text \<open>
  The RAM copy keeps its size whatever the payload holds, records or not: a put on the content
  of a foreign image stays inside the buffer.
\<close>

lemma locate_bounds:
  "nvstore_locate_from payload plen t off = Some (o', n) \<Longrightarrow> o' + n \<le> plen"
  by (induction payload plen t off rule: nvstore_locate_from.induct)
    (subst (asm) (2) nvstore_locate_from.simps, auto simp: Let_def split: if_splits)

lemma put_sized:
  assumes "length (nv_payload s) = 1536" "nv_payload_len s \<le> 1536" "migris_nvstore_put s t bs = (rc, s')"
  shows "length (nv_payload s') = 1536 \<and> nv_payload_len s' \<le> 1536 \<and> nv_backend s' = nv_backend s
    \<and> nv_loaded s' = nv_loaded s \<and> nv_loaded_seq s' = nv_loaded_seq s \<and> nv_loaded_sector s' = nv_loaded_sector s"
proof -
  let ?d = "nvstore_drop_record s t"
  have d: "length (nv_payload ?d) = 1536 \<and> nv_payload_len ?d \<le> 1536 \<and> nv_backend ?d = nv_backend s
    \<and> nv_loaded ?d = nv_loaded s \<and> nv_loaded_seq ?d = nv_loaded_seq s \<and> nv_loaded_sector ?d = nv_loaded_sector s"
    using assms(1,2) locate_bounds [of "nv_payload s" "nv_payload_len s" t 0]
    by (auto simp: nvstore_drop_record_def nvstore_locate_def nvstore_write_at_def Let_def min_def split: option.split)
  with assms(3) show ?thesis
    by (auto simp: migris_nvstore_put_def Let_def nvstore_write_at_def fsw_const split: if_splits)
qed

text \<open>
  What a save wrote is what the next boot loads. After a load of this flash, any puts,
  and a save that reports success, a fresh store loads the saved records, every one of them,
  with the next sequence number, whatever else the other sector holds.
\<close>
theorem nvstore_save_survives_reboot:
  assumes "nv_flash b cells ok" "nb_sector_count b = 2" "ok fl"
    and "nv_backend s0 = Some b" "length (nv_payload s0) = 1536" "migris_nvstore_load s0 fl = (rc0, s1)"
    and "s = s1\<lparr>nv_payload := p, nv_payload_len := n\<rparr>" "nv_wf s" "nv_loaded_seq s \<noteq> 0xFFFFFFFF"
    and "migris_nvstore_save s fl = (NVSTORE_OK, s', fl')"
    and "nv_backend s2 = Some b" "length (nv_payload s2) = 1536"
  shows "\<exists>s3. migris_nvstore_load s2 fl' = (NVSTORE_OK, s3) \<and> nv_wf s3 \<and> nv_loaded_seq s3 = nv_loaded_seq s + 1
    \<and> (\<forall>k. migris_nvstore_get s3 k = migris_nvstore_get s k)"
proof -
  obtain rs where rs: "nv_recs s rs" using assms(8) by (auto simp: nv_wf_def)
  from nv_flash.load_spec [OF assms(1,3-5)] assms(6) have s1: "nv_loaded_as s1 (nv_newest (cells fl 0) (cells fl 1))" "nv_backend s1 = Some b"
    by auto
  have "nv_tracks (cells fl) s" "nv_backend s = Some b"
    using nv_flash.loaded_tracks [OF assms(1) s1(1)] s1(2) by (simp_all add: assms(7) nv_tracks_def del: One_nat_def)
  from load_after_save [OF assms(1-3) this(2) rs this(1) assms(9-12)] show ?thesis by (auto simp: nv_wf_def)
qed

lemma ram_erased_newest:
  "nv_newest (fa_cells (\<lambda>fl. fl) 2048 (replicate 4096 0xFF) 0) (fa_cells (\<lambda>fl. fl) 2048 (replicate 4096 0xFF) 1) = None"
proof -
  have "fa_cells (\<lambda>fl. fl) 2048 (replicate 4096 0xFF) i = (replicate 2048 0xFF :: bytes)" if "i < 2" for i
    using that by (auto simp: fa_cells_def less_2_cases_iff)
  moreover have four: "replicate 4 x = [x, x, x, x]" for x :: u8 by (simp add: eval_nat_numeral)
  have "take 4 (replicate 2048 0xFF :: bytes) \<noteq> k_magic"
    by (simp add: k_magic_def four)
  ultimately show ?thesis by (simp add: nv_newest_def nv_parse_def nv_header_def)
qed

lemma nvstore_save_survives_reboot_witness:
  "\<exists>rc s1 s' fl' s3. migris_nvstore_load (nv_empty (migris_fsw_nv_flash_backend ram_area)) (replicate 4096 0xFF) = (rc, s1)
     \<and> migris_nvstore_save s1 (replicate 4096 0xFF) = (NVSTORE_OK, s', fl')
     \<and> migris_nvstore_load (nv_empty (migris_fsw_nv_flash_backend ram_area)) fl' = (NVSTORE_OK, s3) \<and> nv_loaded_seq s3 = 1"
proof -
  let ?b = "migris_fsw_nv_flash_backend ram_area"
  let ?s0 = "nv_empty ?b"
  obtain fl :: bytes where fl: "fl = replicate 4096 0xFF" by blast
  then have ok: "length fl = 4096" by (simp only: length_replicate)
  note e = nv_empty_facts [of ?b]
  obtain rc s1 where l: "migris_nvstore_load ?s0 fl = (rc, s1)" "nv_loaded_as s1 None" "nv_backend s1 = Some ?b"
    using ram.nv.load_spec [OF ok e(2,3)] ram_erased_newest [folded fl] by auto
  have r: "nv_recs s1 []" using l(2) by (simp add: nv_loaded_as_def nv_recs_def fsw_const)
  have u: "s1 = s1\<lparr>nv_payload := nv_payload s1, nv_payload_len := nv_payload_len s1\<rparr>" by simp
  obtain rc' s' fl' where s: "migris_nvstore_save s1 fl = (rc', s', fl')" by (metis prod.exhaust)
  have b: "nb_sector_count ?b = 2" "nb_erase ?b = (\<lambda>fl s. (True, nvstore_write_at fl (s * 2048) (replicate 2048 0xFF)))"
    "nb_write ?b = (\<lambda>fl s off bs. (True, nvstore_write_at fl (s * 2048 + off) bs))"
    by (simp_all add: migris_fsw_nv_flash_backend_def ram_area_def nv_flash_erase_def nv_flash_write_def Let_def fun_eq_iff)
  have "rc' = NVSTORE_OK" using s l(3) ram.nv.usable by (auto simp: migris_nvstore_save_def Let_def b split: if_splits)
  with s have s': "migris_nvstore_save s1 fl = (NVSTORE_OK, s', fl')" by simp
  have q: "nv_loaded_seq s1 = 0" using l(2) by (simp add: nv_loaded_as_def)
  have wf: "nv_wf s1" using r by (auto simp: nv_wf_def)
  from q have "nv_loaded_seq s1 \<noteq> 0xFFFFFFFF" by simp
  from nvstore_save_survives_reboot [OF ram.nv.nv_flash_axioms b(1) ok e(2,3) l(1) u wf this s' e(2,3)] q
  obtain s3 where "migris_nvstore_load ?s0 fl' = (NVSTORE_OK, s3)" "nv_loaded_seq s3 = 1" by auto
  with l(1) s' show ?thesis unfolding fl [symmetric] by blast
qed

section \<open>What a save does to the flash, step by step\<close>

text \<open>
  The save is run on an instrumented backend: it answers as the given one does and writes down,
  after every erase and every write, the sector addressed and the flash state left. A save's flash
  states are the one it starts from and those its own operations leave.
\<close>

definition traced_backend :: "'f migris_nv_backend_t \<Rightarrow> ('f \<times> (nat \<times> 'f) list) migris_nv_backend_t" where
  "traced_backend b =
    \<lparr>nb_read = (\<lambda>(fl, ops). nb_read b fl),
     nb_write = (\<lambda>(fl, ops) sector off bs. let (r, fl) = nb_write b fl sector off bs in (r, fl, ops @ [(sector, fl)])),
     nb_erase = (\<lambda>(fl, ops) sector. let (r, fl) = nb_erase b fl sector in (r, fl, ops @ [(sector, fl)])),
     nb_sector_size = nb_sector_size b, nb_sector_count = nb_sector_count b, nb_write_block = nb_write_block b\<rparr>"

definition traced_store :: "'f migris_nv_backend_t \<Rightarrow> 'f migris_nvstore_t \<Rightarrow> ('f \<times> (nat \<times> 'f) list) migris_nvstore_t" where
  "traced_store b s = \<lparr>nv_backend = Some (traced_backend b), nv_payload = nv_payload s, nv_payload_len = nv_payload_len s,
     nv_loaded_seq = nv_loaded_seq s, nv_loaded_sector = nv_loaded_sector s, nv_loaded = nv_loaded s\<rparr>"

definition nv_save_trace :: "'f migris_nv_backend_t \<Rightarrow> 'f migris_nvstore_t \<Rightarrow> 'f \<Rightarrow> (nat \<times> 'f) list" where
  "nv_save_trace b s fl = (let (rc, s', fl', ops) = migris_nvstore_save (traced_store b s) (fl, []) in ops)"

definition nv_save_states :: "'f migris_nv_backend_t \<Rightarrow> 'f migris_nvstore_t \<Rightarrow> 'f \<Rightarrow> 'f list" where
  "nv_save_states b s fl = fl # map snd (nv_save_trace b s fl)"

lemma save_trace_eq:
  fixes s :: "'f migris_nvstore_t"
  assumes "backend_ok b"
  defines "t \<equiv> if nv_loaded s then (nv_loaded_sector s + 1) mod nb_sector_count b else 0"
  shows "nv_save_trace b s fl =
    (let (e, fl1) = nb_erase b fl t;
         (w, fl2) = nb_write b fl1 t 0 (nvstore_image s (nb_write_block b) (nv_loaded_seq s + 1))
     in if e then [(t, fl1), (t, fl2)] else [(t, fl1)])"
proof -
  obtain e fl1 where e: "nb_erase b fl t = (e, fl1)" by fastforce
  obtain w fl2 where w: "nb_write b fl1 t 0 (nvstore_image s (nb_write_block b) (nv_loaded_seq s + 1)) = (w, fl2)" by fastforce
  have tr: "backend_ok (traced_backend b)" "nb_sector_count (traced_backend b) = nb_sector_count b"
    "nb_write_block (traced_backend b) = nb_write_block b"
    using assms(1) by (simp_all add: backend_ok_def traced_backend_def)
  have img: "nvstore_image (traced_store b s) blk q = nvstore_image s blk q" for blk q
    by (simp add: nvstore_image_def traced_store_def)
  have ops: "nb_erase (traced_backend b) (fl, []) t = (e, fl1, [(t, fl1)])"
    "nb_write (traced_backend b) (fl1, [(t, fl1)]) t 0 (nvstore_image s (nb_write_block b) (nv_loaded_seq s + 1))
       = (w, fl2, [(t, fl1), (t, fl2)])"
    by (simp_all add: traced_backend_def e w)
  have st: "nv_backend (traced_store b s) = Some (traced_backend b)" "nv_loaded (traced_store b s) = nv_loaded s"
    "nv_loaded_sector (traced_store b s) = nv_loaded_sector s" "nv_loaded_seq (traced_store b s) = nv_loaded_seq s"
    by (simp_all add: traced_store_def)
  have "migris_nvstore_save (traced_store b s) (fl, []) =
     (if \<not> e then (NVSTORE_ERR_BACKEND, traced_store b s, fl1, [(t, fl1)])
      else if \<not> w then (NVSTORE_ERR_BACKEND, traced_store b s, fl2, [(t, fl1), (t, fl2)])
      else (NVSTORE_OK, (traced_store b s)\<lparr>nv_loaded_seq := nv_loaded_seq s + 1, nv_loaded_sector := t, nv_loaded := True\<rparr>,
            fl2, [(t, fl1), (t, fl2)]))"
    using tr(1) unfolding migris_nvstore_save_def st option.case Let_def tr(2,3) img
    unfolding t_def [symmetric] by (simp add: ops)
  then show ?thesis by (simp add: nv_save_trace_def Let_def e w)
qed

lemma save_states_eq:
  assumes "backend_ok b"
  shows "nv_save_states b s fl =
    (let target = (if nv_loaded s then (nv_loaded_sector s + 1) mod nb_sector_count b else 0);
         (e, fl1) = nb_erase b fl target;
         (w, fl2) = nb_write b fl1 target 0 (nvstore_image s (nb_write_block b) (nv_loaded_seq s + 1))
     in if e then [fl, fl1, fl2] else [fl, fl1])"
  by (simp add: nv_save_states_def save_trace_eq [OF assms] Let_def split: prod.split)

text \<open>The instrumented run is the run: it ends in the flash state the save itself leaves.\<close>

lemma save_states_last:
  assumes "backend_ok b" "nv_backend s = Some b"
  shows "last (nv_save_states b s fl) = snd (snd (migris_nvstore_save s fl))"
  using assms by (simp add: save_states_eq migris_nvstore_save_def Let_def split: prod.split)

lemma save_trace_spec:
  assumes "nv_flash b cells ok" "nb_sector_count b = 2" "ok fl" "length (nv_payload s) = 1536" "nv_payload_len s \<le> 1536"
    and "nv_loaded s" "nv_loaded_sector s < 2" "(k, f) \<in> set (nv_save_trace b s fl)"
  shows "k \<noteq> nv_loaded_sector s \<and> ok f \<and> cells f (nv_loaded_sector s) = cells fl (nv_loaded_sector s)"
proof -
  let ?t = "(nv_loaded_sector s + 1) mod 2"
  let ?img = "nvstore_image s (nb_write_block b) (nv_loaded_seq s + 1)"
  have t: "?t < nb_sector_count b" "nv_loaded_sector s \<noteq> ?t" "nv_loaded_sector s < nb_sector_count b"
    using assms(2,7) by (auto simp: less_2_cases_iff)
  obtain e fl1 where e: "nb_erase b fl ?t = (e, fl1)" by fastforce
  obtain w fl2 where w: "nb_write b fl1 ?t 0 ?img = (w, fl2)" by fastforce
  have e': "ok fl1" "cells fl1 (nv_loaded_sector s) = cells fl (nv_loaded_sector s)"
    using nv_flash.erase_frame [OF assms(1,3) t(1) e] t by auto
  have "0 + length ?img \<le> nb_sector_size b"
    using length_image [OF assms(4,5) nv_flash.geometry(2,3) [OF assms(1)], of "nv_loaded_seq s + 1"] nv_flash.geometry(4) [OF assms(1)] by simp
  from nv_flash.write_frame [OF assms(1) e'(1) t(1) this w] t e'
  have w': "ok fl2" "cells fl2 (nv_loaded_sector s) = cells fl (nv_loaded_sector s)" by auto
  have "nv_save_trace b s fl = (if e then [(?t, fl1), (?t, fl2)] else [(?t, fl1)])"
    using assms(6) by (simp only: save_trace_eq [OF nv_flash.usable [OF assms(1)]] assms(2) if_True Let_def e prod.case w)
  with assms(8) have "k = ?t" "f = fl1 \<or> f = fl2" by (auto split: if_splits)
  with e' w' t(2) show ?thesis by auto
qed

lemma save_states_spec:
  assumes "nv_flash b cells ok" "nb_sector_count b = 2" "ok fl" "length (nv_payload s) = 1536" "nv_payload_len s \<le> 1536"
    and "nv_loaded s" "nv_loaded_sector s < 2" "f \<in> set (nv_save_states b s fl)"
  shows "ok f \<and> cells f (nv_loaded_sector s) = cells fl (nv_loaded_sector s)"
  using assms(3,8) save_trace_spec [OF assms(1-7)] by (auto simp: nv_save_states_def)

text \<open>
  C8: power may fail at any point of a save. Every flash operation the save performs addresses
  another sector than the one the store was loaded from, which therefore keeps its contents in every
  flash state the save passes through. From any flash in which that sector is intact, however the
  other one was left half erased or half written, the next boot loads an image: the previous one, or
  the valid image it finds in the other sector. And once a save has reported success, the next boot
  loads exactly what was saved (below the last 32-bit sequence number).
\<close>
theorem nvstore_power_loss_safe:
  assumes "nv_flash b cells ok" "nb_sector_count b = 2" "ok fl"
    and "nv_backend s0 = Some b" "length (nv_payload s0) = 1536" "migris_nvstore_load s0 fl = (NVSTORE_OK, s1)"
    and "s = s1\<lparr>nv_payload := p, nv_payload_len := n\<rparr>" "nv_wf s"
    and "nv_backend s2 = Some b" "length (nv_payload s2) = 1536"
  shows "(\<forall>(sector, f) \<in> set (nv_save_trace b s fl). sector \<noteq> nv_loaded_sector s1
        \<and> ok f \<and> cells f (nv_loaded_sector s1) = cells fl (nv_loaded_sector s1))
    \<and> last (nv_save_states b s fl) = snd (snd (migris_nvstore_save s fl))
    \<and> (\<forall>f. ok f \<and> cells f (nv_loaded_sector s1) = cells fl (nv_loaded_sector s1) \<longrightarrow>
        (\<exists>s3. migris_nvstore_load s2 f = (NVSTORE_OK, s3)
           \<and> (nv_image_data s3 = nv_image_data s1
              \<or> nv_parse (cells f (1 - nv_loaded_sector s1)) = Some (nv_loaded_seq s3, nv_image_data s3))))
    \<and> (\<forall>s' fl'. migris_nvstore_save s fl = (NVSTORE_OK, s', fl') \<and> nv_loaded_seq s \<noteq> 0xFFFFFFFF \<longrightarrow>
        (\<exists>s3. migris_nvstore_load s2 fl' = (NVSTORE_OK, s3) \<and> nv_image_data s3 = nv_image_data s))"
proof (intro conjI)
  have len: "length (nv_payload s) = 1536" "nv_payload_len s \<le> 1536" using assms(8) by (auto simp: nv_wf_def nv_recs_def fsw_const)
  note ld = nv_flash.load_spec [OF assms(1,3-5)]
  from ld assms(6) obtain i q d where
    new: "nv_newest (cells fl 0) (cells fl 1) = Some (i, q, d)" and s1: "nv_loaded_as s1 (Some (i, q, d))"
    by (auto split: if_splits)
  have i: "i < 2" "nv_parse (cells fl i) = Some (q, d)"
    using new by (auto simp: nv_newest_def split: option.splits if_splits)
  have f: "nv_loaded s" "nv_loaded_sector s = i" "nv_loaded_sector s1 = i" "nv_image_data s1 = d"
    using s1 by (simp_all add: assms(7) nv_loaded_as_def)
  have b: "nv_backend s = Some b" using ld assms(6) by (auto simp: assms(7) split: if_splits)
  show "\<forall>(sector, f) \<in> set (nv_save_trace b s fl). sector \<noteq> nv_loaded_sector s1
      \<and> ok f \<and> cells f (nv_loaded_sector s1) = cells fl (nv_loaded_sector s1)"
    using save_trace_spec [OF assms(1-3) len f(1)] i(1) by (auto simp: f)
  show "last (nv_save_states b s fl) = snd (snd (migris_nvstore_save s fl))"
    by (rule save_states_last [OF nv_flash.usable [OF assms(1)] b])
  have "\<exists>s3. migris_nvstore_load s2 g = (NVSTORE_OK, s3)
      \<and> (nv_image_data s3 = d \<or> nv_parse (cells g (1 - i)) = Some (nv_loaded_seq s3, nv_image_data s3))"
    if g: "ok g" "cells g i = cells fl i" for g
  proof -
    have "\<exists>j q' d'. nv_newest (cells g 0) (cells g 1) = Some (j, q', d') \<and> (d' = d \<or> nv_parse (cells g (1 - i)) = Some (q', d'))"
      using i g(2) by (cases "i = 0"; cases "nv_parse (cells g (1 - i))") (auto simp: nv_newest_def less_2_cases_iff)
    with nv_flash.load_spec [OF assms(1) g(1) assms(9,10)] show ?thesis by (auto simp: nv_loaded_as_def)
  qed
  then show "\<forall>f. ok f \<and> cells f (nv_loaded_sector s1) = cells fl (nv_loaded_sector s1) \<longrightarrow>
      (\<exists>s3. migris_nvstore_load s2 f = (NVSTORE_OK, s3)
         \<and> (nv_image_data s3 = nv_image_data s1
            \<or> nv_parse (cells f (1 - nv_loaded_sector s1)) = Some (nv_loaded_seq s3, nv_image_data s3)))"
    by (simp add: f)
  have "nv_tracks (cells fl) s1" by (rule nv_flash.loaded_tracks [OF assms(1)]) (use s1 new in simp)
  then have tr: "nv_tracks (cells fl) s" using f(1) by (simp add: nv_tracks_def assms(7))
  show "\<forall>s' fl'. migris_nvstore_save s fl = (NVSTORE_OK, s', fl') \<and> nv_loaded_seq s \<noteq> 0xFFFFFFFF \<longrightarrow>
      (\<exists>s3. migris_nvstore_load s2 fl' = (NVSTORE_OK, s3) \<and> nv_image_data s3 = nv_image_data s)"
  proof (intro allI impI, elim conjE)
    fix s' fl' assume sv: "migris_nvstore_save s fl = (NVSTORE_OK, s', fl')" "nv_loaded_seq s \<noteq> 0xFFFFFFFF"
    note n = nv_flash.newest_after_save [OF assms(1-3) b len(2,1) tr sv(2,1)]
    have "ok fl'" by (rule nv_flash.save_spec(1) [OF assms(1,3) b len sv(1)])
    from nv_flash.load_spec [OF assms(1) this assms(9,10)] n
    show "\<exists>s3. migris_nvstore_load s2 fl' = (NVSTORE_OK, s3) \<and> nv_image_data s3 = nv_image_data s"
      by (auto simp: nv_loaded_as_def)
  qed
qed

lemma nvstore_power_loss_safe_witness:
  "\<exists>fl s1. migris_nvstore_load (nv_empty (migris_fsw_nv_flash_backend ram_area)) fl = (NVSTORE_OK, s1) \<and> nv_loaded_sector s1 = 0
     \<and> nv_save_trace (migris_fsw_nv_flash_backend ram_area) s1 fl \<noteq> []
     \<and> (\<forall>(sector, f) \<in> set (nv_save_trace (migris_fsw_nv_flash_backend ram_area) s1 fl).
          sector \<noteq> 0 \<and> take 2048 f = take 2048 fl)"
proof -
  let ?b = "migris_fsw_nv_flash_backend ram_area"
  let ?s0 = "nv_empty ?b"
  let ?img = "nvstore_image ?s0 32 1"
  note e = nv_empty_facts [of ?b]
  have "length ?img \<le> 1582" using length_image(3) [of ?s0 32 1] e by (simp add: nv_empty_def)
  then obtain fl :: bytes where fl: "fl = ?img @ replicate (2048 - length ?img) 0xFF @ replicate 2048 0xFF" "length fl = 4096" by auto
  have c: "fa_cells (\<lambda>fl. fl) 2048 fl 0 = ?img @ replicate (2048 - length ?img) 0xFF" "fa_cells (\<lambda>fl. fl) 2048 fl 1 = replicate 2048 0xFF"
    using \<open>length ?img \<le> 1582\<close> by (simp_all add: fa_cells_def fl(1))
  have "nv_parse (fa_cells (\<lambda>fl. fl) 2048 fl 0) = Some (1, [])"
    unfolding c using parse_image [of ?s0 32 1] by (simp add: nv_empty_def nv_image_data_def)
  moreover have four: "replicate 4 x = [x, x, x, x]" for x :: u8 by (simp add: eval_nat_numeral)
  then have "nv_parse (fa_cells (\<lambda>fl. fl) 2048 fl 1) = None"
    unfolding c by (simp add: nv_parse_def nv_header_def k_magic_def)
  ultimately have "nv_newest (fa_cells (\<lambda>fl. fl) 2048 fl 0) (fa_cells (\<lambda>fl. fl) 2048 fl 1) = Some (0, 1, [])"
    by (simp add: nv_newest_def)
  with ram.nv.load_spec [OF fl(2) e(2,3)] obtain s1 where
    l: "migris_nvstore_load ?s0 fl = (NVSTORE_OK, s1)" "nv_loaded_as s1 (Some (0, 1, []))" by auto
  have b: "nb_sector_count ?b = 2" by (simp add: migris_fsw_nv_flash_backend_def ram_area_def)
  have u: "s1 = s1\<lparr>nv_payload := nv_payload s1, nv_payload_len := nv_payload_len s1\<rparr>" by simp
  have wf: "nv_wf s1" using l(2) by (auto simp: nv_wf_def nv_recs_def nv_loaded_as_def fsw_const intro!: exI [of _ "[]"])
  have ls: "nv_loaded_sector s1 = 0" using l(2) by (simp add: nv_loaded_as_def)
  have "nv_save_trace ?b s1 fl \<noteq> []" by (simp add: save_trace_eq [OF ram.nv.usable] Let_def split: prod.split)
  moreover from nvstore_power_loss_safe [OF ram.nv.nv_flash_axioms b fl(2) e(2,3) l(1) u wf e(2,3)]
  have "\<forall>(sector, f) \<in> set (nv_save_trace ?b s1 fl). sector \<noteq> 0 \<and> take 2048 f = take 2048 fl"
    by (auto simp: ls fa_cells_def)
  ultimately show ?thesis using l(1) ls by blast
qed

end
