(* ===== verification/Restore.thy ===== *)
theory Restore
  imports Schedule Hkstore
begin

text \<open>
  What lib/schedule and lib/hkstore leave after a restore from bytes nobody vouches for: the flash
  image is only protected by its CRC. The housekeeping store is always well formed; the schedule is
  up to one thing the code does not check, that no two activities have the same identifier.
\<close>

section \<open>Schedule\<close>

definition sch_sized :: "migris_schedule_t \<Rightarrow> bool" where
  "sch_sized s \<longleftrightarrow> length (sch_activities s) = MIGRIS_SCHEDULE_CAPACITY \<and> sch_count s \<le> MIGRIS_SCHEDULE_CAPACITY
     \<and> (\<forall>a \<in> set (sch_live s). 4 \<le> length (act_tc a) \<and> length (act_tc a) \<le> MIGRIS_SCHEDULE_TC_MAX)"

lemma sch_inv_sized: "sch_inv s \<longleftrightarrow> sch_sized s \<and> distinct (map act_id (sch_live s))"
  by (auto simp: sch_inv_def sch_sized_def)

lemma deserialize_activities_sized:
  assumes "sched_deserialize_activities n inp s = (st, s')" "sch_sized s" "sch_count s + n \<le> MIGRIS_SCHEDULE_CAPACITY"
  shows "sch_sized s' \<and> sch_generation s' = sch_generation s \<and> sch_enabled s' = sch_enabled s"
  using assms
proof (induction n arbitrary: inp s)
  case (Suc n)
  let ?len = "unat (rd16_at inp 4)"
  let ?a = "\<lparr>act_release_time = rd32_at inp 0, act_tc = take ?len (drop 6 inp)\<rparr>"
  let ?s = "s\<lparr>sch_activities := (sch_activities s)[sch_count s := ?a], sch_count := Suc (sch_count s)\<rparr>"
  show ?case
  proof (cases "length inp < 6 \<or> MIGRIS_SCHEDULE_TC_MAX < ?len \<or> ?len < MIGRIS_SCHEDULE_REQUEST_ID_SIZE \<or> length (drop 6 inp) < ?len")
    case True
    with Suc.prems have "s' = s\<lparr>sch_count := 0\<rparr>" by (auto simp: Let_def split: if_splits)
    with Suc.prems(2) show ?thesis by (simp add: sch_sized_def)
  next
    case False
    with Suc.prems(1) have step: "sched_deserialize_activities n (drop ?len (drop 6 inp)) ?s = (st, s')"
      by (auto simp: Let_def split: if_splits)
    have "sch_live ?s = sch_live s @ [?a]"
      by (rule sch_live_append) (use Suc.prems(2,3) in \<open>simp add: sch_sized_def\<close>)
    moreover have "4 \<le> length (act_tc ?a)" "length (act_tc ?a) \<le> MIGRIS_SCHEDULE_TC_MAX"
      using False by (simp_all add: fsw_const not_less)
    ultimately have "sch_sized ?s" using Suc.prems(2,3) by (simp add: sch_sized_def)
    from Suc.IH [OF step this] Suc.prems(3) show ?thesis by simp
  qed
qed simp

lemma schedule_restore_any:
  assumes "length (sch_activities s) = MIGRIS_SCHEDULE_CAPACITY" "migris_schedule_deserialize s inp = (st, s')"
  shows "sch_sized s' \<and> sch_generation s' = sch_generation s"
proof -
  let ?s = "s\<lparr>sch_count := 0, sch_enabled := False\<rparr>"
  have z: "sch_sized ?s" using assms(1) by (simp add: sch_sized_def sch_live_def)
  obtain rc s1 where e: "sched_deserialize_activities (unat (rd16_at inp 0)) (drop 3 inp) ?s = (rc, s1)" by force
  show ?thesis
    using assms(2) z deserialize_activities_sized [OF e z] e
    by (auto simp: migris_schedule_deserialize_def Let_def not_less sch_sized_def split: if_splits)
qed

lemma schedule_init_sized: "length (sch_activities s) = MIGRIS_SCHEDULE_CAPACITY \<Longrightarrow>
    sch_sized (migris_schedule_init s) \<and> sch_live (migris_schedule_init s) = [] \<and> sch_generation (migris_schedule_init s) = 0"
  by (simp add: migris_schedule_init_def sch_sized_def sch_live_def)

section \<open>Housekeeping store\<close>

lemma hkstore_init_inv: "length (hks_structures s) = MIGRIS_HKSTORE_CAPACITY \<Longrightarrow>
    hks_inv (migris_hkstore_init s) \<and> hks_live (migris_hkstore_init s) = [] \<and> hks_generation (migris_hkstore_init s) = 0
    \<and> length (hks_structures (migris_hkstore_init s)) = MIGRIS_HKSTORE_CAPACITY"
  by (simp add: migris_hkstore_init_def hks_inv_def hks_live_def filter_map o_def)

text \<open>The low slots restored so far, the others cleared.\<close>

definition hks_filled :: "nat \<Rightarrow> migris_hkstore_t \<Rightarrow> bool" where
  "hks_filled i s \<longleftrightarrow> hks_inv s \<and> i \<le> MIGRIS_HKSTORE_CAPACITY \<and> hks_live s = take i (hks_structures s)"

lemma read_struct_Inr:
  "hkstore_read_struct inp = Inr (n, x) \<Longrightarrow> hk_in_use x \<and> MIGRIS_HKSTORE_SID_MIN \<le> hk_sid x
     \<and> length (hk_param_ids x) \<le> MIGRIS_HKSTORE_MAX_PARAMS"
  by (auto simp: hkstore_read_struct_def Let_def rd16s_def not_less split: if_splits)

lemma filled_step:
  assumes "hks_filled i s" "i < MIGRIS_HKSTORE_CAPACITY" "hk_in_use x" "MIGRIS_HKSTORE_SID_MIN \<le> hk_sid x"
    "length (hk_param_ids x) \<le> MIGRIS_HKSTORE_MAX_PARAMS" "\<forall>y \<in> set (take i (hks_structures s)). hk_sid y \<noteq> hk_sid x"
  shows "hks_filled (Suc i) (s\<lparr>hks_structures := (hks_structures s)[i := x], hks_count := hks_count s + 1\<rparr>)"
proof -
  let ?xs = "hks_structures s"
  from assms(1,2) have i: "i < length ?xs" by (simp add: hks_filled_def hks_inv_def)
  have "filter hk_in_use (take i ?xs) @ filter hk_in_use (drop i ?xs) = hks_live s"
    by (simp add: hks_live_def flip: filter_append)
  moreover have "hks_live s = take i ?xs" using assms(1) by (simp add: hks_filled_def)
  moreover have "filter hk_in_use (hks_live s) = hks_live s" by (simp add: hks_live_def)
  ultimately have f: "filter hk_in_use (take i ?xs) = take i ?xs" "filter hk_in_use (drop i ?xs) = []" by simp_all
  then have "filter hk_in_use (drop (Suc i) ?xs) = []"
    using i by (metis Cons_nth_drop_Suc filter_empty_conv set_subset_Cons subsetD)
  then have "filter hk_in_use (?xs[i := x]) = take i ?xs @ [x]"
    using i f(1) assms(3) by (simp add: filter_update(1))
  moreover have "take (Suc i) (?xs[i := x]) = take i ?xs @ [x]" using i by (simp add: take_Suc_conv_app_nth)
  moreover have inv: "hks_inv s" using assms(1) by (simp add: hks_filled_def)
  then have "\<forall>y \<in> set (hks_live s). MIGRIS_HKSTORE_SID_MIN \<le> hk_sid y \<and> length (hk_param_ids y) \<le> MIGRIS_HKSTORE_MAX_PARAMS"
    "distinct (map hk_sid (hks_live s))" "hks_count s = length (hks_live s)" "length ?xs = MIGRIS_HKSTORE_CAPACITY"
    by (simp_all add: hks_inv_def)
  note this [unfolded \<open>hks_live s = take i ?xs\<close>]
  ultimately show ?thesis
    using assms(2-6) i unfolding hks_filled_def hks_inv_def hks_live_def by auto
qed

lemma deserialize_slots_filled:
  assumes "hkstore_deserialize_slots i n inp s = (st, s')" "hks_filled i s" "i + n \<le> MIGRIS_HKSTORE_CAPACITY" "hks_generation s = 0"
  shows "hks_inv s' \<and> hks_generation s' = 0"
  using assms
proof (induction n arbitrary: i inp s)
  case 0
  then show ?case by (simp add: hks_filled_def)
next
  case (Suc n)
  have len: "length (hks_structures s) = MIGRIS_HKSTORE_CAPACITY" using Suc.prems(2) by (simp add: hks_filled_def hks_inv_def)
  show ?case
  proof (cases "hkstore_read_struct inp")
    case (Inl e)
    with Suc.prems hkstore_init_inv [OF len] show ?thesis by auto
  next
    case (Inr p)
    obtain m x where p: "p = (m, x)" by force
    note x = read_struct_Inr [OF Inr [unfolded p]]
    let ?s = "s\<lparr>hks_structures := (hks_structures s)[i := x]\<rparr>"
    have tk: "take i ((hks_structures s)[i := x]) = take i (hks_structures s)" by simp
    show ?thesis
    proof (cases "\<exists>y \<in> set (take i (hks_structures s)). hk_sid y = hk_sid x")
      case True
      have "length (hks_structures ?s) = MIGRIS_HKSTORE_CAPACITY" using len by simp
      from hkstore_init_inv [OF this] Suc.prems(1) True show ?thesis by (auto simp: Inr p Let_def)
    next
      case False
      with Suc.prems(1) have step: "hkstore_deserialize_slots (Suc i) n (drop m inp) (?s\<lparr>hks_count := hks_count s + 1\<rparr>) = (st, s')"
        by (auto simp: Inr p Let_def)
      have "hks_filled (Suc i) (?s\<lparr>hks_count := hks_count s + 1\<rparr>)"
        using filled_step [OF Suc.prems(2), of x] x False Suc.prems(3) by simp
      from Suc.IH [OF step this] Suc.prems(3,4) show ?thesis by simp
    qed
  qed
qed

lemma hkstore_restore_any:
  assumes "length (hks_structures s) = MIGRIS_HKSTORE_CAPACITY" "migris_hkstore_deserialize s inp = (st, s')"
  shows "hks_inv s' \<and> hks_generation s' = 0"
proof -
  note i = hkstore_init_inv [OF assms(1)]
  have f: "hks_filled 0 (migris_hkstore_init s)" using i by (simp add: hks_filled_def)
  obtain rc s1 where e: "hkstore_deserialize_slots 0 (unat (rd16_at inp 0)) (drop 2 inp) (migris_hkstore_init s) = (rc, s1)" by force
  show ?thesis
    using assms(2) i deserialize_slots_filled [OF e f] e
    by (auto simp: migris_hkstore_deserialize_def Let_def not_less split: if_splits)
qed

end
