(* ===== verification/App.thy ===== *)
theory App
  imports Tc_Router Fdir Largedata Nvstore
begin

text \<open>
  samples/tc_uart/src/main.c: the application that composes every library. The main loop is one
  function per tick, in the order of the loop, on an explicit state; the answers of the RTOS in one
  iteration (the clock, the three reads of the volatile drop counter, the byte \<open>ring_buf_get\<close>
  returns) are its inputs, what goes to the UART is appended to a log: \<open>Live_tm\<close> and \<open>Replayed_tm\<close> are
  the calls of uart_tx_blocking. The third entry of the log, \<open>Tc_received\<close>, is no output of the code: the
  model adds it at the call that hands a received telecommand to the router, to make that call visible. The file-scope stores and
  the datapool of main are reachable through the router context's pointers only and live there;
  before boot has set a pointer it is \<open>None\<close>. The build switches are a record.
\<close>

section \<open>Constants and data\<close>

definition MIGRIS_FSW_APID :: u16 where
  [fsw_const]: "MIGRIS_FSW_APID = 0x100"

definition MIGRIS_FSW_PARAM_HK_PERIOD_SEC :: u16 where
  [fsw_const]: "MIGRIS_FSW_PARAM_HK_PERIOD_SEC = 0x0001"

definition MIGRIS_FSW_PARAM_FW_VERSION :: u16 where
  [fsw_const]: "MIGRIS_FSW_PARAM_FW_VERSION = 0x0002"

definition MIGRIS_FSW_PARAM_FW_BUILD_ID :: u16 where
  [fsw_const]: "MIGRIS_FSW_PARAM_FW_BUILD_ID = 0x0003"

definition MIGRIS_FSW_FW_VERSION :: u16 where
  [fsw_const]: "MIGRIS_FSW_FW_VERSION = 0x0001"

definition MIGRIS_FSW_FW_BUILD_ID :: u32 where
  [fsw_const]: "MIGRIS_FSW_FW_BUILD_ID = 0x20260522"

definition TC_BUF_SIZE :: nat where
  [fsw_const]: "TC_BUF_SIZE = 192"

definition LARGEDATA_DEMO_UNIT_LEN :: nat where
  [fsw_const]: "LARGEDATA_DEMO_UNIT_LEN = 200"

definition LARGEDATA_DEMO_TRANSACTION_ID :: u16 where
  [fsw_const]: "LARGEDATA_DEMO_TRANSACTION_ID = 0x0001"

definition FSW_MODE_BOOT :: u8 where
  [fsw_const]: "FSW_MODE_BOOT = 0"

definition FSW_MODE_NOMINAL :: u8 where
  [fsw_const]: "FSW_MODE_NOMINAL = 1"

definition FSW_MODE_SAFE :: u8 where
  [fsw_const]: "FSW_MODE_SAFE = 2"

record fsw_config =
  CONFIG_FSW_PUS3_HK_PERIOD_SEC :: u32
  CONFIG_FSW_MODE_DEMO :: bool
  CONFIG_FSW_FDIR_RECOVERY_DEMO :: bool
  CONFIG_FSW_FDIR_TC_REJECTED_THRESHOLD :: u16
  CONFIG_FSW_LARGEDATA_DEMO :: bool

text \<open>What the RAM holds when main starts: nothing of it but the array sizes is relied on.\<close>

record 'f fsw_memory =
  mem_fdir :: migris_fdir_ctx_t
  mem_datapool :: migris_datapool_t
  mem_schedule :: migris_schedule_t
  mem_store :: migris_pktstore_t
  mem_hkstore :: migris_hkstore_t
  mem_nvstore :: "'f migris_nvstore_t"
  mem_largedata :: migris_largedata_session_t
  mem_mode_mgr :: migris_mode_manager_t

text \<open>
  What the application does to the outside, in order: a live burst and a replayed packet sent to
  the UART, and a telecommand received whole and handed to the router.
\<close>

datatype fsw_action = Live_tm bytes | Replayed_tm bytes | Tc_received bytes

record 'f fsw_state =
  fs_ctx :: migris_tc_router_ctx_t
  fs_fdir :: migris_fdir_ctx_t
  fs_mode_mgr :: migris_mode_manager_t
  fs_nvstore :: "'f migris_nvstore_t"
  fs_flash :: 'f
  fs_largedata :: migris_largedata_session_t
  fs_pus3_ctx :: migris_pus3_ctx_t
  fs_last_hk_emit_sec :: u32
  fs_last_reported_rx_drops :: u32
  fs_last_saved_gen_dp :: u32
  fs_last_saved_gen_sched :: u32
  fs_last_saved_gen_hk :: u32
  fs_last_saved_gen_mode :: u32
  fs_tc :: bytes
  fs_want :: nat
  fs_log :: "fsw_action list"

record loop_input =
  in_uptime_ms :: nat
  in_drops_hk :: u32
  in_drops_overflow :: u32
  in_drops_tc :: u32
  in_byte :: "u8 option"

definition now_of :: "nat \<Rightarrow> u32" where
  "now_of uptime_ms = of_nat (uptime_ms div 1000)"

section \<open>Reception\<close>

text \<open>
  The RX interrupt: one answer of the driver per pass of its loop (\<open>None\<close> when the FIFO read returns
  no byte), the ring buffer's put as a parameter that says how many bytes it took.
\<close>

fun uart_isr_loop :: "('r \<Rightarrow> u8 \<Rightarrow> nat \<times> 'r) \<Rightarrow> u8 option list \<Rightarrow> 'r \<Rightarrow> u32 \<Rightarrow> 'r \<times> u32" where
  "uart_isr_loop ring_buf_put [] ring drops = (ring, drops)"
| "uart_isr_loop ring_buf_put (None # reads) ring drops = (ring, drops)"
| "uart_isr_loop ring_buf_put (Some b # reads) ring drops =
    (let (n, ring) = ring_buf_put ring b
     in uart_isr_loop ring_buf_put reads ring (if n \<noteq> 1 then drops + 1 else drops))"

definition uart_isr :: "('r \<Rightarrow> u8 \<Rightarrow> nat \<times> 'r) \<Rightarrow> bool \<Rightarrow> u8 option list \<Rightarrow> 'r \<Rightarrow> u32 \<Rightarrow> 'r \<times> u32" where
  "uart_isr ring_buf_put irq_update reads ring rx_ring_overflow_drops =
    (if \<not> irq_update then (ring, rx_ring_overflow_drops)
     else uart_isr_loop ring_buf_put reads ring rx_ring_overflow_drops)"

section \<open>Transmission\<close>

function tap_packets :: "bytes \<Rightarrow> nat \<Rightarrow> u32 \<Rightarrow> migris_pktstore_t \<Rightarrow> migris_pktstore_t" where
  "tap_packets burst pos store_time store =
    (if pos + MIGRIS_CCSDS_PRIMARY_HEADER_SIZE \<le> length burst then
       let data_length = rd16_at burst (pos + 4); pkt_size = migris_ccsds_packet_total_size data_length
       in if length burst < pos + pkt_size then store
          else tap_packets burst (pos + pkt_size) store_time
                 (snd (migris_pktstore_store store (take pkt_size (drop pos burst)) store_time))
     else store)"
  by pat_completeness auto
termination
  by (relation "measure (\<lambda>(burst, pos, _). length burst - pos)") (auto simp: migris_ccsds_packet_total_size_def)

declare tap_packets.simps [simp del]

definition transmit_tm :: "u32 \<Rightarrow> bytes \<Rightarrow> 'f fsw_state \<Rightarrow> 'f fsw_state" where
  "transmit_tm store_time burst s =
    s\<lparr>fs_log := fs_log s @ [Live_tm burst],
      fs_ctx := (fs_ctx s)\<lparr>rt_store := map_option (tap_packets burst 0 store_time) (rt_store (fs_ctx s))\<rparr>\<rparr>"

text \<open>Every tick transmits a builder's result only if it is a positive length.\<close>

definition transmit_result :: "u32 \<Rightarrow> 'e + bytes \<Rightarrow> 'f fsw_state \<Rightarrow> 'f fsw_state" where
  "transmit_result store_time r s =
    (case r of Inl _ \<Rightarrow> s | Inr out \<Rightarrow> if 0 < length out then transmit_tm store_time out s else s)"

definition fill_hk_params :: "migris_tc_router_ctx_t \<Rightarrow> migris_pus3_hk_params_t" where
  "fill_hk_params router =
    \<lparr>hp_pus1_msg_counter = map (\<lambda>i. p1_msg_counter (rt_pus1 router) ! i) [0..<4],
     hp_pus5_msg_counter = map (\<lambda>i. p5_msg_counter (rt_pus5 router) ! i) [0..<4],
     hp_pus17_tm_msg_counter = p17_tm_msg_counter (rt_pus17 router),
     hp_tc_accepted_count = rt_tc_accepted_count router,
     hp_tc_rejected_count = rt_tc_rejected_count router,
     hp_rx_ring_overflow_drops = rt_rx_ring_overflow_drops router\<rparr>"

section \<open>The ticks of the main loop\<close>

text \<open>
  Persistence: the record of one subsystem if its generation moved. The results are whether the
  image became dirty, the generation now saved, and the store.
\<close>

definition nv_autosave_tick ::
  "u8 \<Rightarrow> ('o \<Rightarrow> nat \<Rightarrow> 'e + bytes) \<Rightarrow> 'o \<Rightarrow> u32 \<Rightarrow> u32 \<Rightarrow> nat \<Rightarrow> 'f migris_nvstore_t
     \<Rightarrow> bool \<times> u32 \<times> 'f migris_nvstore_t" where
  "nv_autosave_tick record_type serialize obj cur_gen last_saved_gen buf_cap nvstore =
    (if cur_gen = last_saved_gen then (False, last_saved_gen, nvstore)
     else case serialize obj buf_cap of
       Inl _ \<Rightarrow> (False, last_saved_gen, nvstore)
     | Inr bs \<Rightarrow>
         if length bs \<le> 0 then (False, last_saved_gen, nvstore)
         else let (rc, nvstore) = migris_nvstore_put nvstore record_type bs
              in if rc \<noteq> NVSTORE_OK then (False, last_saved_gen, nvstore) else (True, cur_gen, nvstore))"

definition fsw_save_tick :: "fsw_config \<Rightarrow> 'f fsw_state \<Rightarrow> 'f fsw_state" where
  "fsw_save_tick cfg s =
    (case (rt_datapool (fs_ctx s), rt_schedule (fs_ctx s), rt_hkstore (fs_ctx s)) of
       (Some datapool, Some schedule, Some hkstore) \<Rightarrow>
         (let (dirty_dp, gen_dp, nv) =
                nv_autosave_tick (nv_record_code NVSTORE_RECORD_DATAPOOL) migris_datapool_serialize datapool
                  (migris_datapool_generation datapool) (fs_last_saved_gen_dp s) 64 (fs_nvstore s);
              (dirty_sched, gen_sched, nv) =
                nv_autosave_tick (nv_record_code NVSTORE_RECORD_SCHEDULE) migris_schedule_serialize schedule
                  (migris_schedule_generation schedule) (fs_last_saved_gen_sched s) 1200 nv;
              (dirty_hk, gen_hk, nv) =
                nv_autosave_tick (nv_record_code NVSTORE_RECORD_HKSTORE) migris_hkstore_serialize hkstore
                  (migris_hkstore_generation hkstore) (fs_last_saved_gen_hk s) 256 nv;
              (dirty_mode, gen_mode, nv) =
                (if CONFIG_FSW_MODE_DEMO cfg
                 then nv_autosave_tick (nv_record_code NVSTORE_RECORD_MODE) migris_mode_serialize (fs_mode_mgr s)
                        (migris_mode_generation (fs_mode_mgr s)) (fs_last_saved_gen_mode s) 8 nv
                 else (False, fs_last_saved_gen_mode s, nv));
              (nv, flash) =
                (if dirty_dp \<or> dirty_sched \<or> dirty_hk \<or> dirty_mode then snd (migris_nvstore_save nv (fs_flash s))
                 else (nv, fs_flash s))
          in s\<lparr>fs_nvstore := nv, fs_flash := flash, fs_last_saved_gen_dp := gen_dp, fs_last_saved_gen_sched := gen_sched,
               fs_last_saved_gen_hk := gen_hk, fs_last_saved_gen_mode := gen_mode\<rparr>)
     | _ \<Rightarrow> s)"

text \<open>The housekeeping period as the loop reads it: 0 when the parameter is absent or not a u32.\<close>

definition hk_period_of :: "migris_tc_router_ctx_t \<Rightarrow> u32" where
  "hk_period_of ctx =
    (case rt_datapool ctx of
       None \<Rightarrow> 0
     | Some datapool \<Rightarrow>
        (case migris_datapool_get datapool MIGRIS_FSW_PARAM_HK_PERIOD_SEC of
           Inl _ \<Rightarrow> 0
         | Inr hk_period \<Rightarrow> if dpv_type hk_period = DP_TYPE_U32 then migris_dp_as_u32 hk_period else 0))"

definition fsw_hk_tick :: "u32 \<Rightarrow> u32 \<Rightarrow> 'f fsw_state \<Rightarrow> 'f fsw_state" where
  "fsw_hk_tick now_sec rx_ring_overflow_drops s =
    (let hk_period_sec = hk_period_of (fs_ctx s)
     in if hk_period_sec \<noteq> 0 \<and> now_sec - fs_last_hk_emit_sec s \<ge> hk_period_sec then
          let ctx = (fs_ctx s)\<lparr>rt_rx_ring_overflow_drops := rx_ring_overflow_drops\<rparr>;
              (hk_n, pus3, seq) =
                migris_pus3_build_hk_report (fs_pus3_ctx s) (rt_apid ctx) (rt_tm_seq_count ctx) now_sec
                  MIGRIS_PUS3_SID_FRAMEWORK_DIAG (fill_hk_params ctx) 0 MIGRIS_TC_ROUTER_MAX_TM;
              s = s\<lparr>fs_ctx := ctx\<lparr>rt_tm_seq_count := seq\<rparr>, fs_pus3_ctx := pus3\<rparr>
          in (transmit_result now_sec hk_n s)\<lparr>fs_last_hk_emit_sec := now_sec\<rparr>
        else s)"

definition fsw_dynamic_hk_tick :: "u32 \<Rightarrow> 'f fsw_state \<Rightarrow> 'f fsw_state" where
  "fsw_dynamic_hk_tick now_sec s =
    (case (rt_hkstore (fs_ctx s), rt_datapool (fs_ctx s)) of
       (Some hkstore, Some datapool) \<Rightarrow>
         (let (due_struct, hkstore) = migris_hkstore_due hkstore now_sec;
              ctx = (fs_ctx s)\<lparr>rt_hkstore := Some hkstore\<rparr>
          in case due_struct of
               None \<Rightarrow> s\<lparr>fs_ctx := ctx\<rparr>
             | Some structure \<Rightarrow>
                 let (dyn_n, pus3, seq) =
                       migris_pus3_build_dynamic_hk_report (fs_pus3_ctx s) datapool structure (rt_apid ctx)
                         (rt_tm_seq_count ctx) now_sec 0 MIGRIS_TC_ROUTER_MAX_TM
                 in transmit_result now_sec dyn_n (s\<lparr>fs_ctx := ctx\<lparr>rt_tm_seq_count := seq\<rparr>, fs_pus3_ctx := pus3\<rparr>))
     | _ \<Rightarrow> s)"

definition fsw_overflow_tick :: "u32 \<Rightarrow> u32 \<Rightarrow> 'f fsw_state \<Rightarrow> 'f fsw_state" where
  "fsw_overflow_tick now_sec rx_drops s =
    (if rx_drops \<noteq> fs_last_reported_rx_drops s then
       let (rc, fdir, mode_mgr) =
             migris_fdir_report_anomaly (fs_fdir s, fs_mode_mgr s) ANOM_RX_OVERFLOW now_sec
               (rx_drops - fs_last_reported_rx_drops s)
       in s\<lparr>fs_fdir := fdir, fs_mode_mgr := mode_mgr, fs_last_reported_rx_drops := rx_drops\<rparr>
     else s)"

definition fsw_drain_tick :: "u32 \<Rightarrow> 'f fsw_state \<Rightarrow> 'f fsw_state" where
  "fsw_drain_tick now_sec s =
    (let ctx = fs_ctx s;
         (fdir_n, fdir, pus5, seq) =
           migris_fdir_drain (fs_fdir s) (rt_apid ctx) (rt_tm_seq_count ctx) (rt_pus5 ctx) MIGRIS_TC_ROUTER_MAX_TM
     in transmit_result now_sec fdir_n
          (s\<lparr>fs_fdir := fdir, fs_ctx := ctx\<lparr>rt_pus5 := pus5, rt_tm_seq_count := seq\<rparr>\<rparr>))"

text \<open>A telecommand through the router, rejections reported to the FDIR sink, its telemetry transmitted.\<close>

definition fsw_dispatch :: "u32 \<Rightarrow> bytes \<Rightarrow> 'f fsw_state \<Rightarrow> 'f fsw_state" where
  "fsw_dispatch now_sec tc s =
    (let (rc, ctx, fdir, mode_mgr) =
           migris_tc_router_dispatch fdir_sink_report (fs_ctx s) (fs_fdir s, fs_mode_mgr s) now_sec tc MIGRIS_TC_ROUTER_MAX_TM
     in transmit_result now_sec rc (s\<lparr>fs_ctx := ctx, fs_fdir := fdir, fs_mode_mgr := mode_mgr\<rparr>))"

definition fsw_release_tick :: "u32 \<Rightarrow> 'f fsw_state \<Rightarrow> 'f fsw_state" where
  "fsw_release_tick now_sec s =
    (case rt_schedule (fs_ctx s) of
       None \<Rightarrow> s
     | Some schedule \<Rightarrow>
        (let (released, schedule) = migris_schedule_pop_due schedule now_sec MIGRIS_SCHEDULE_TC_MAX;
             s = s\<lparr>fs_ctx := (fs_ctx s)\<lparr>rt_schedule := Some schedule\<rparr>\<rparr>
         in case released of Inr (Some tc) \<Rightarrow> fsw_dispatch now_sec tc s | _ \<Rightarrow> s))"

definition fsw_replay_tick :: "'f fsw_state \<Rightarrow> 'f fsw_state" where
  "fsw_replay_tick s =
    (case rt_store (fs_ctx s) of
       None \<Rightarrow> s
     | Some store \<Rightarrow>
        (let (r, store) = migris_pktstore_retrieve_next store MIGRIS_TC_ROUTER_MAX_TM;
             s = s\<lparr>fs_ctx := (fs_ctx s)\<lparr>rt_store := Some store\<rparr>\<rparr>
         in case r of Inr (Some packet) \<Rightarrow> s\<lparr>fs_log := fs_log s @ [Replayed_tm packet]\<rparr> | _ \<Rightarrow> s))"

definition fsw_largedata_tick :: "fsw_config \<Rightarrow> u32 \<Rightarrow> 'f fsw_state \<Rightarrow> 'f fsw_state" where
  "fsw_largedata_tick cfg now_sec s =
    (if \<not> CONFIG_FSW_LARGEDATA_DEMO cfg then s
     else let ctx = fs_ctx s;
              (part_n, largedata, seq) =
                migris_largedata_next_part (fs_largedata s) (rt_apid ctx) (rt_tm_seq_count ctx) now_sec 0 MIGRIS_TC_ROUTER_MAX_TM
          in transmit_result now_sec part_n (s\<lparr>fs_largedata := largedata, fs_ctx := ctx\<lparr>rt_tm_seq_count := seq\<rparr>\<rparr>))"

text \<open>Framing: the buffer holds the bytes since the last packet boundary, its length is \<open>have\<close>.\<close>

definition fsw_complete :: "u32 \<Rightarrow> u32 \<Rightarrow> 'f fsw_state \<Rightarrow> 'f fsw_state" where
  "fsw_complete now_sec rx_ring_overflow_drops s =
    (if fs_want s \<noteq> 0 \<and> length (fs_tc s) = fs_want s then
       let tc = fs_tc s;
           s = s\<lparr>fs_ctx := (fs_ctx s)\<lparr>rt_rx_ring_overflow_drops := rx_ring_overflow_drops\<rparr>,
                 fs_log := fs_log s @ [Tc_received tc]\<rparr>
       in (fsw_dispatch now_sec tc s)\<lparr>fs_tc := [], fs_want := 0\<rparr>
     else s)"

definition fsw_rx_tick :: "u32 \<Rightarrow> u32 \<Rightarrow> u8 option \<Rightarrow> 'f fsw_state \<Rightarrow> 'f fsw_state" where
  "fsw_rx_tick now_sec rx_ring_overflow_drops got s =
    (case got of
       None \<Rightarrow> s
     | Some b \<Rightarrow>
        (let s = s\<lparr>fs_tc := fs_tc s @ [b]\<rparr>
         in if length (fs_tc s) = MIGRIS_CCSDS_PRIMARY_HEADER_SIZE then
              let want = migris_ccsds_packet_total_size (rd16_at (fs_tc s) 4)
              in if TC_BUF_SIZE < want then s\<lparr>fs_tc := [], fs_want := 0\<rparr>
                 else fsw_complete now_sec rx_ring_overflow_drops (s\<lparr>fs_want := want\<rparr>)
            else fsw_complete now_sec rx_ring_overflow_drops s))"

definition fsw_iteration :: "fsw_config \<Rightarrow> loop_input \<Rightarrow> 'f fsw_state \<Rightarrow> 'f fsw_state" where
  "fsw_iteration cfg inp s =
    (let now_sec = now_of (in_uptime_ms inp);
         s = fsw_save_tick cfg s;
         s = fsw_hk_tick now_sec (in_drops_hk inp) s;
         s = fsw_dynamic_hk_tick now_sec s;
         s = fsw_overflow_tick now_sec (in_drops_overflow inp) s;
         s = fsw_drain_tick now_sec s;
         s = fsw_release_tick now_sec s;
         s = fsw_replay_tick s;
         s = fsw_largedata_tick cfg now_sec s
     in fsw_rx_tick now_sec (in_drops_tc inp) (in_byte inp) s)"

section \<open>Boot\<close>

definition dp_params_of :: "fsw_config \<Rightarrow> migris_dp_param_t list" where
  "dp_params_of cfg =
    [\<lparr>dpp_id = MIGRIS_FSW_PARAM_HK_PERIOD_SEC, dpp_access = DP_ACCESS_READ_WRITE,
      dpp_value = migris_dp_u32 (CONFIG_FSW_PUS3_HK_PERIOD_SEC cfg)\<rparr>,
     \<lparr>dpp_id = MIGRIS_FSW_PARAM_FW_VERSION, dpp_access = DP_ACCESS_READ_ONLY,
      dpp_value = migris_dp_u16 MIGRIS_FSW_FW_VERSION\<rparr>,
     \<lparr>dpp_id = MIGRIS_FSW_PARAM_FW_BUILD_ID, dpp_access = DP_ACCESS_READ_ONLY,
      dpp_value = migris_dp_u32 MIGRIS_FSW_FW_BUILD_ID\<rparr>]"

definition mode_defs :: "migris_mode_def_t list" where
  "mode_defs =
    [\<lparr>md_id = FSW_MODE_BOOT,
      md_allowed_targets = push_bit (unat FSW_MODE_NOMINAL) 1 OR push_bit (unat FSW_MODE_SAFE) 1\<rparr>,
     \<lparr>md_id = FSW_MODE_NOMINAL, md_allowed_targets = push_bit (unat FSW_MODE_SAFE) 1\<rparr>,
     \<lparr>md_id = FSW_MODE_SAFE, md_allowed_targets = push_bit (unat FSW_MODE_NOMINAL) 1\<rparr>]"

definition fdir_confirms :: "fsw_config \<Rightarrow> migris_fdir_confirm_def_t list" where
  "fdir_confirms cfg =
    [\<lparr>cd_anomaly = ANOM_TC_REJECTED, cd_threshold = CONFIG_FSW_FDIR_TC_REJECTED_THRESHOLD cfg\<rparr>]"

definition largedata_demo_unit :: bytes where
  "largedata_demo_unit = map of_nat [0..<LARGEDATA_DEMO_UNIT_LEN]"

text \<open>The restore of one subsystem: its record of the loaded image, if there is one.\<close>

definition restored ::
  "migris_nvstore_status_t \<Rightarrow> 'f migris_nvstore_t \<Rightarrow> migris_nvstore_record_type_t \<Rightarrow> ('o \<Rightarrow> bytes \<Rightarrow> 'e \<times> 'o) \<Rightarrow> 'o \<Rightarrow> 'o" where
  "restored nv_load_rc nvstore record_type deserialize obj =
    (if nv_load_rc = NVSTORE_OK then
       case migris_nvstore_get nvstore (nv_record_code record_type) of
         Inr bs \<Rightarrow> snd (deserialize obj bs)
       | Inl _ \<Rightarrow> obj
     else obj)"

definition fsw_boot_ctx :: "migris_tc_router_ctx_t" where
  "fsw_boot_ctx = \<lparr>rt_apid = MIGRIS_FSW_APID, rt_tm_seq_count = 0, rt_pus1 = \<lparr>p1_msg_counter = [0, 0, 0, 0]\<rparr>,
     rt_pus17 = \<lparr>p17_tm_msg_counter = 0\<rparr>, rt_pus3 = \<lparr>p3_msg_counter = [0]\<rparr>, rt_pus5 = \<lparr>p5_msg_counter = [0, 0, 0, 0]\<rparr>,
     rt_pus20 = \<lparr>p20_msg_counter = [0]\<rparr>, rt_pus11 = \<lparr>p11_msg_counter = [0]\<rparr>, rt_pus15 = \<lparr>p15_msg_counter = [0]\<rparr>,
     rt_tc_accepted_count = 0, rt_tc_rejected_count = 0, rt_rx_ring_overflow_drops = 0, rt_sink = True,
     rt_datapool = None, rt_schedule = None, rt_store = None, rt_hkstore = None\<rparr>"

text \<open>main up to the boot event: every component initialised, then restored from flash.\<close>

definition fsw_init :: "fsw_config \<Rightarrow> 'f flash_area \<Rightarrow> 'f fsw_memory \<Rightarrow> 'f \<Rightarrow> 'f fsw_state" where
  "fsw_init cfg fa mem flash =
    (let fdir = migris_fdir_init (mem_fdir mem);
         datapool = snd (migris_datapool_init (mem_datapool mem) (dp_params_of cfg));
         nvstore = migris_nvstore_init (mem_nvstore mem) (Some (migris_fsw_nv_flash_backend fa));
         (nv_load_rc, nvstore) = migris_nvstore_load nvstore flash;
         datapool = restored nv_load_rc nvstore NVSTORE_RECORD_DATAPOOL migris_datapool_deserialize datapool;
         schedule = restored nv_load_rc nvstore NVSTORE_RECORD_SCHEDULE migris_schedule_deserialize
                      (migris_schedule_init (mem_schedule mem));
         store = migris_pktstore_init (mem_store mem);
         hkstore = restored nv_load_rc nvstore NVSTORE_RECORD_HKSTORE migris_hkstore_deserialize
                     (migris_hkstore_init (mem_hkstore mem));
         largedata = (if CONFIG_FSW_LARGEDATA_DEMO cfg
                      then snd (migris_largedata_start (migris_largedata_init (mem_largedata mem))
                             LARGEDATA_DEMO_TRANSACTION_ID largedata_demo_unit)
                      else mem_largedata mem);
         mode_mgr = (if CONFIG_FSW_MODE_DEMO cfg
                     then restored nv_load_rc nvstore NVSTORE_RECORD_MODE migris_mode_deserialize_current
                            (snd (migris_mode_init (mem_mode_mgr mem) mode_defs FSW_MODE_BOOT True))
                     else mem_mode_mgr mem);
         fdir = (if CONFIG_FSW_FDIR_RECOVERY_DEMO cfg
                 then snd (migris_fdir_arm_recovery fdir True FSW_MODE_SAFE (fdir_confirms cfg)) else fdir)
     in \<lparr>fs_ctx = fsw_boot_ctx\<lparr>rt_datapool := Some datapool, rt_schedule := Some schedule, rt_store := Some store,
           rt_hkstore := Some hkstore\<rparr>,
         fs_fdir = fdir, fs_mode_mgr = mode_mgr, fs_nvstore = nvstore, fs_flash = flash, fs_largedata = largedata,
         fs_pus3_ctx = \<lparr>p3_msg_counter = [0]\<rparr>, fs_last_hk_emit_sec = 0, fs_last_reported_rx_drops = 0,
         fs_last_saved_gen_dp = 0, fs_last_saved_gen_sched = 0, fs_last_saved_gen_hk = 0, fs_last_saved_gen_mode = 0,
         fs_tc = [], fs_want = 0, fs_log = []\<rparr>)"

text \<open>The boot event, the boot mode transition, and the state the loop starts with.\<close>

definition fsw_boot_event :: "u32 \<Rightarrow> 'f fsw_state \<Rightarrow> 'f fsw_state" where
  "fsw_boot_event boot_sec s =
    (let ctx = fs_ctx s;
         (boot_n, pus5, seq) =
           migris_pus5_build_event_report (rt_pus5 ctx) (rt_apid ctx) (rt_tm_seq_count ctx) boot_sec
             (sev_value SEV_INFO) MIGRIS_PUS5_EVT_FSW_BOOT None 0 0 MIGRIS_TC_ROUTER_MAX_TM
     in transmit_result boot_sec boot_n (s\<lparr>fs_ctx := ctx\<lparr>rt_pus5 := pus5, rt_tm_seq_count := seq\<rparr>\<rparr>))"

definition fsw_boot_mode :: "fsw_config \<Rightarrow> u32 \<Rightarrow> 'f fsw_state \<Rightarrow> 'f fsw_state" where
  "fsw_boot_mode cfg boot_sec s =
    (if CONFIG_FSW_MODE_DEMO cfg \<and> migris_mode_current (fs_mode_mgr s) = FSW_MODE_BOOT then
       let (rc, fdir, mode_mgr) =
             migris_mode_request fdir_sink_report (fs_fdir s, fs_mode_mgr s) FSW_MODE_NOMINAL boot_sec
       in s\<lparr>fs_fdir := fdir, fs_mode_mgr := mode_mgr\<rparr>
     else s)"

definition fsw_boot :: "fsw_config \<Rightarrow> 'f flash_area \<Rightarrow> 'f fsw_memory \<Rightarrow> 'f \<Rightarrow> nat \<Rightarrow> 'f fsw_state" where
  "fsw_boot cfg fa mem flash boot_ms =
    (let boot_sec = now_of boot_ms
     in (fsw_boot_mode cfg boot_sec (fsw_boot_event boot_sec (fsw_init cfg fa mem flash)))
          \<lparr>fs_last_hk_emit_sec := boot_sec\<rparr>)"

text \<open>main: nothing at all without the UART, otherwise the boot and the iterations so far.\<close>

definition fsw_run :: "fsw_config \<Rightarrow> loop_input list \<Rightarrow> 'f fsw_state \<Rightarrow> 'f fsw_state" where
  "fsw_run cfg inputs s = fold (fsw_iteration cfg) inputs s"

definition fsw_main ::
  "fsw_config \<Rightarrow> 'f flash_area \<Rightarrow> bool \<Rightarrow> 'f fsw_memory \<Rightarrow> 'f \<Rightarrow> nat \<Rightarrow> loop_input list \<Rightarrow> 'f fsw_state option" where
  "fsw_main cfg fa uart_ready mem flash boot_ms inputs =
    (if \<not> uart_ready then None else Some (fsw_run cfg inputs (fsw_boot cfg fa mem flash boot_ms)))"

end
