(* ===== verification/App_Invariant.thy ===== *)
theory App_Invariant
  imports App Restore
begin

text \<open>
  The invariant of the main loop of samples/tc_uart. It collects the components' invariants, the
  framing of the reception buffer and the history of the telemetry; each tick keeps it, so every
  sequence of iterations does.
\<close>

lemma fsw_apid_le [simp]: "MIGRIS_FSW_APID \<le> 0x7FF"
  by (simp add: MIGRIS_FSW_APID_def)

section \<open>Capture of live telemetry\<close>

lemma store_any:
  fixes p :: bytes
  assumes "pks_inv s" "\<forall>e \<in> set (pks_list s). pke_storage_time e \<le> t"
  defines "s' \<equiv> snd (migris_pktstore_store s p t)"
  shows "pks_inv s' \<and> set (pks_list s') \<subseteq> insert \<lparr>pke_storage_time = t, pke_packet = p\<rparr> (set (pks_list s))"
proof (cases "p \<noteq> [] \<and> length p \<le> MIGRIS_PKTSTORE_PACKET_MAX \<and> pks_enabled s \<and> \<not> pks_retrieval_active s")
  case True
  then have c: "pks_enabled s" "\<not> pks_retrieval_active s" "p \<noteq> []" "length p \<le> MIGRIS_PKTSTORE_PACKET_MAX" by auto
  from store_step(2,3) [OF assms(1) c assms(2)] show ?thesis
    unfolding s'_def using set_newest [of MIGRIS_PKTSTORE_CAPACITY "pks_list s @ [\<lparr>pke_storage_time = t, pke_packet = p\<rparr>]"] by auto
next
  case False
  then have "s' = s" by (auto simp: s'_def migris_pktstore_store_def)
  with assms(1) show ?thesis by auto
qed

text \<open>The tap stores the packets the burst splits into, one after the other.\<close>

lemma tap_packets_fold:
  "tap_packets burst pos t s = fold (\<lambda>p s. snd (migris_pktstore_store s p t)) (burst_packets (drop pos burst)) s"
proof (induction burst pos t s rule: tap_packets.induct)
  case (1 burst pos t s)
  let ?n = "migris_ccsds_packet_total_size (rd16_at burst (pos + 4))"
  show ?case
  proof (cases "pos + MIGRIS_CCSDS_PRIMARY_HEADER_SIZE \<le> length burst")
    case True
    then have "rd16_at (drop pos burst) 4 = rd16_at burst (pos + 4)" by (simp add: rd16_at_def fsw_const add_ac)
    then have b: "burst_packets (drop pos burst) =
        (if length burst < pos + ?n then [] else take ?n (drop pos burst) # burst_packets (drop (pos + ?n) burst))"
      using True by (subst burst_packets.simps) (auto simp: Let_def add.commute fsw_const)
    show ?thesis
      using 1 [OF True refl refl] True unfolding b by (subst tap_packets.simps) (simp add: Let_def)
  next
    case False
    then show ?thesis by (subst tap_packets.simps, subst burst_packets.simps) (auto simp: fsw_const)
  qed
qed

lemma captured:
  assumes "pks_inv s" "\<forall>e \<in> set (pks_list s). pke_storage_time e \<le> t"
  shows "pks_inv (fold (\<lambda>p s. snd (migris_pktstore_store s p t)) ps s)
    \<and> set (pks_list (fold (\<lambda>p s. snd (migris_pktstore_store s p t)) ps s))
      \<subseteq> (\<lambda>p. \<lparr>pke_storage_time = t, pke_packet = p\<rparr>) ` set ps \<union> set (pks_list s)"
  using assms
proof (induction ps arbitrary: s)
  case (Cons p ps)
  note one = store_any [OF Cons.prems, of p]
  let ?s = "snd (migris_pktstore_store s p t)"
  have "\<forall>e \<in> set (pks_list ?s). pke_storage_time e \<le> t" using one Cons.prems(2) by auto
  with Cons.IH [of ?s] one show ?case by auto
qed simp

section \<open>The history of the telemetry\<close>

definition live_bytes :: "fsw_action list \<Rightarrow> bytes" where
  "live_bytes log = concat (map (\<lambda>a. case a of Live_tm b \<Rightarrow> b | _ \<Rightarrow> []) log)"

definition sent_packets :: "fsw_action list \<Rightarrow> bytes list" where
  "sent_packets log = concat (map (\<lambda>a. case a of Live_tm b \<Rightarrow> burst_packets b | _ \<Rightarrow> []) log)"

definition received_tcs :: "fsw_action list \<Rightarrow> bytes list" where
  "received_tcs log = concat (map (\<lambda>a. case a of Tc_received tc \<Rightarrow> [tc] | _ \<Rightarrow> []) log)"

definition replays_sent :: "fsw_action list \<Rightarrow> bool" where
  "replays_sent log \<longleftrightarrow> (\<forall>i < length log. case log ! i of Replayed_tm p \<Rightarrow> p \<in> set (sent_packets (take i log)) | _ \<Rightarrow> True)"

lemma log_snoc [simp]:
  "live_bytes (log @ [Live_tm b]) = live_bytes log @ b" "live_bytes (log @ [Replayed_tm p]) = live_bytes log"
  "live_bytes (log @ [Tc_received tc]) = live_bytes log"
  "sent_packets (log @ [Live_tm b]) = sent_packets log @ burst_packets b" "sent_packets (log @ [Replayed_tm p]) = sent_packets log"
  "sent_packets (log @ [Tc_received tc]) = sent_packets log"
  "received_tcs (log @ [Live_tm b]) = received_tcs log" "received_tcs (log @ [Replayed_tm p]) = received_tcs log"
  "received_tcs (log @ [Tc_received tc]) = received_tcs log @ [tc]"
  by (simp_all add: live_bytes_def sent_packets_def received_tcs_def)

lemma log_Nil [simp]: "live_bytes [] = []" "sent_packets [] = []" "received_tcs [] = []" "replays_sent []"
  by (simp_all add: live_bytes_def sent_packets_def received_tcs_def replays_sent_def)

lemma replays_snoc [simp]:
  "replays_sent (log @ [a]) \<longleftrightarrow> replays_sent log \<and> (case a of Replayed_tm p \<Rightarrow> p \<in> set (sent_packets log) | _ \<Rightarrow> True)"
  by (cases a) (auto simp: replays_sent_def All_less_Suc nth_append split: fsw_action.splits)

text \<open>The packets of the single bursts are the packets of all live telemetry read in one go.\<close>

definition sent_whole :: "fsw_action list \<Rightarrow> bool" where
  "sent_whole log \<longleftrightarrow> sent_packets log = burst_packets (live_bytes log)"

lemma sent_whole_other [simp]: "sent_whole []" "sent_whole (log @ [Replayed_tm p]) \<longleftrightarrow> sent_whole log"
  "sent_whole (log @ [Tc_received tc]) \<longleftrightarrow> sent_whole log"
  by (simp_all add: sent_whole_def)

lemma sent_snoc:
  "tm_burst apid q (live_bytes log) views q' \<Longrightarrow> sent_whole log \<Longrightarrow> sent_whole (log @ [Live_tm out])"
  by (simp add: sent_whole_def tm_burst_walk)

section \<open>FDIR with and without the mode manager\<close>

text \<open>Without the mode demo nothing but the placeholder stands in the mode manager's place.\<close>

definition fdir_ok :: "fsw_config \<Rightarrow> fdir_state \<Rightarrow> bool" where
  "fdir_ok cfg st \<longleftrightarrow> fd_inv (fst st) \<and> (fd_mode (fst st) \<longrightarrow> CONFIG_FSW_MODE_DEMO cfg)
     \<and> (CONFIG_FSW_MODE_DEMO cfg \<longrightarrow> mm_inv (snd st) \<and> mm_declared (snd st) = mode_defs)"

lemma observe_off:
  "\<not> fd_mode ctx \<Longrightarrow> fdir_observe report (ctx, mgr) a now = (fst (fdir_observe report (ctx, mgr') a now), mgr)
     \<and> \<not> fd_mode (fst (fdir_observe report (ctx, mgr') a now))"
  by (auto simp: fdir_observe_def Let_def)

lemma enqueue_mode: "fd_mode (snd (fdir_enqueue ctx now sev eid aux)) = fd_mode ctx"
  by (simp add: fdir_enqueue_def Let_def split: prod.split)

lemma sink_off:
  "\<not> fd_mode ctx \<Longrightarrow> snd (fdir_sink_report (ctx, mgr) now sev eid aux) = (fst (snd (fdir_sink_report (ctx, mgr') now sev eid aux)), mgr)
     \<and> \<not> fd_mode (fst (snd (fdir_sink_report (ctx, mgr') now sev eid aux)))"
  using observe_off [of "snd (fdir_enqueue ctx now sev eid aux)" fdir_sink_report mgr _ now mgr']
  by (cases "fdir_event_anomaly eid") (auto simp: sink_report_quiet sink_report_anomaly enqueue_mode)

lemma anomaly_off:
  "\<not> fd_mode ctx \<Longrightarrow> snd (migris_fdir_report_anomaly (ctx, mgr) a now d) = (fst (snd (migris_fdir_report_anomaly (ctx, mgr') a now d)), mgr)
     \<and> \<not> fd_mode (fst (snd (migris_fdir_report_anomaly (ctx, mgr') a now d)))"
proof (cases "anomaly_event a d")
  case (Some x)
  assume off: "\<not> fd_mode ctx"
  obtain sev eid aux where x: "x = (sev, eid, aux)" by (metis prod_cases3)
  obtain rc c where e: "fdir_enqueue ctx now sev eid aux = (rc, c)" by force
  then have "\<not> fd_mode c" using off enqueue_mode [of ctx now sev eid aux] by simp
  from observe_off [OF this, of fdir_sink_report mgr a now mgr'] show ?thesis
    by (simp add: migris_fdir_report_anomaly_def Some x e)
qed (simp add: migris_fdir_report_anomaly_def)

lemma fdir_ok_event:
  assumes "fdir_ok cfg st" "act = SinkEvent now sev eid aux \<or> act = Anomaly a now d"
  shows "fdir_ok cfg (fdir_do act st)"
proof -
  obtain ctx mgr where st: "st = (ctx, mgr)" by force
  have inv: "fd_inv ctx" using assms(1) by (simp add: fdir_ok_def st)
  show ?thesis
  proof (cases "CONFIG_FSW_MODE_DEMO cfg")
    case True
    with assms(1) have m: "mm_inv mgr" "mm_declared mgr = mode_defs" by (simp_all add: fdir_ok_def st)
    from fdir_step_effect(1,2,4) [OF inv m(1), of act] m(2) True show ?thesis by (simp add: fdir_ok_def st)
  next
    case False
    with assms(1) have off: "\<not> fd_mode ctx" by (simp add: fdir_ok_def st)
    have "fdir_do act (ctx, mgr) = (fst (fdir_do act (ctx, mode_example)), mgr) \<and> \<not> fd_mode (fst (fdir_do act (ctx, mode_example)))"
      using assms(2) sink_off [OF off, of mgr now sev eid aux mode_example] anomaly_off [OF off, of mgr a now d mode_example] by auto
    with fdir_step_effect(1) [OF inv mode_example_inv, of act] False show ?thesis by (auto simp: fdir_ok_def st)
  qed
qed

lemma fdir_ok_report: "fdir_ok cfg st \<Longrightarrow> fdir_ok cfg (snd (fdir_sink_report st now sev eid aux))"
  using fdir_ok_event [OF _ disjI1 [OF refl], of cfg st now sev eid aux] by simp

lemma fdir_ok_anomaly: "fdir_ok cfg st \<Longrightarrow> fdir_ok cfg (snd (migris_fdir_report_anomaly st a now d))"
  using fdir_ok_event [OF _ disjI2 [OF refl], of cfg st a now d] by simp

lemma fdir_ok_request:
  assumes "fdir_ok cfg st" "CONFIG_FSW_MODE_DEMO cfg"
  shows "fdir_ok cfg (snd (migris_mode_request fdir_sink_report st target now))"
proof -
  obtain ctx mgr where st: "st = (ctx, mgr)" by force
  from assms have inv: "fd_inv ctx" "mm_inv mgr" "mm_declared mgr = mode_defs" by (simp_all add: fdir_ok_def st)
  from fdir_step_effect(1,2,4) [OF inv(1,2), of "ModeRequest target now"] inv(3) assms(2) show ?thesis by (simp add: fdir_ok_def st)
qed

lemma fdir_ok_drain:
  assumes "fdir_ok cfg (ctx, mgr)" "apid \<le> 0x7FF" "seq \<le> 0x3FFF" "migris_fdir_drain ctx apid seq p5 128 = (r, ctx', p5', seq')"
  shows "fdir_ok cfg (ctx', mgr) \<and> tm_result apid seq 28 r seq'"
proof -
  have inv: "fd_inv ctx" and cap: "(52 :: nat) \<le> 128" using assms(1) by (simp_all add: fdir_ok_def)
  note d = fdir_drain_spec [OF inv assms(2,3) cap, where ?p5.0 = p5]
  show ?thesis
  proof (cases "fd_queue ctx")
    case Nil
    from d(1) [OF Nil] assms(1,4) show ?thesis by auto
  next
    case (Cons ev evs)
    from d(2) [OF Cons] assms(1,4) show ?thesis by (auto simp: fdir_ok_def fd_same_policy_def intro: tm_resultI)
  qed
qed

section \<open>The invariant of the application\<close>

text \<open>
  The reception buffer: less than a primary header, or a header that announced at most 192 bytes
  of which some are missing.
\<close>

definition framing_ok :: "'f fsw_state \<Rightarrow> bool" where
  "framing_ok s \<longleftrightarrow> fs_want s = 0 \<and> length (fs_tc s) < MIGRIS_CCSDS_PRIMARY_HEADER_SIZE
     \<or> MIGRIS_CCSDS_PRIMARY_HEADER_SIZE \<le> length (fs_tc s) \<and> length (fs_tc s) < fs_want s \<and> fs_want s \<le> TC_BUF_SIZE
       \<and> fs_want s = migris_ccsds_packet_total_size (rd16_at (fs_tc s) 4)"

text \<open>
  Well-formedness up to the telemetry sequence: every component's invariant, all pointers set, the
  stored packets and the replays taken from what was sent live, no packet stamped later than \<open>t\<close>.
\<close>

definition fs_wf :: "fsw_config \<Rightarrow> u32 \<Rightarrow> 'f fsw_state \<Rightarrow> bool" where
  "fs_wf cfg t s \<longleftrightarrow>
     router_inv (fs_ctx s) \<and> rt_apid (fs_ctx s) = MIGRIS_FSW_APID \<and> rt_sink (fs_ctx s)
     \<and> (\<exists>dp. rt_datapool (fs_ctx s) = Some dp \<and> dp_values_ok dp \<and> map dp_decl (dp_live dp) = map dp_decl (dp_params_of cfg))
     \<and> rt_schedule (fs_ctx s) \<noteq> None \<and> rt_store (fs_ctx s) \<noteq> None \<and> rt_hkstore (fs_ctx s) \<noteq> None
     \<and> (\<forall>e \<in> stored_packets (rt_store (fs_ctx s)). pke_storage_time e \<le> t \<and> pke_packet e \<in> set (sent_packets (fs_log s)))
     \<and> replays_sent (fs_log s)
     \<and> fdir_ok cfg (fs_fdir s, fs_mode_mgr s)
     \<and> (CONFIG_FSW_LARGEDATA_DEMO cfg \<longrightarrow> ld_inv (fs_largedata s))
     \<and> length (nv_payload (fs_nvstore s)) = MIGRIS_NVSTORE_PAYLOAD_MAX \<and> nv_payload_len (fs_nvstore s) \<le> MIGRIS_NVSTORE_PAYLOAD_MAX
     \<and> framing_ok s"

definition fs_inv :: "fsw_config \<Rightarrow> u32 \<Rightarrow> 'f fsw_state \<Rightarrow> bool" where
  "fs_inv cfg t s \<longleftrightarrow> fs_wf cfg t s
     \<and> sent_whole (fs_log s)
     \<and> (\<exists>views. tm_burst MIGRIS_FSW_APID 0 (live_bytes (fs_log s)) views (rt_tm_seq_count (fs_ctx s)))"

lemma fs_inv_later: "fs_inv cfg t s \<Longrightarrow> t \<le> t' \<Longrightarrow> fs_inv cfg t' s"
  unfolding fs_inv_def fs_wf_def by (meson order_trans)

lemma transmit_tm_wf:
  assumes "fs_wf cfg t s"
  shows "fs_wf cfg t (transmit_tm t burst s)"
proof -
  obtain st where st: "rt_store (fs_ctx s) = Some st" using assms by (auto simp: fs_wf_def)
  have inv: "pks_inv st" using assms by (simp add: fs_wf_def router_inv_def st)
  have old: "\<forall>e \<in> set (pks_list st). pke_storage_time e \<le> t \<and> pke_packet e \<in> set (sent_packets (fs_log s))"
    using assms by (simp add: fs_wf_def stored_packets_def st)
  let ?st = "tap_packets burst 0 t st"
  have new: "pks_inv ?st \<and> set (pks_list ?st) \<subseteq> (\<lambda>p. \<lparr>pke_storage_time = t, pke_packet = p\<rparr>) ` set (burst_packets burst) \<union> set (pks_list st)"
    using captured [OF inv, of t "burst_packets burst"] old by (simp add: tap_packets_fold)
  then have "\<forall>e \<in> set (pks_list ?st). pke_storage_time e \<le> t \<and> pke_packet e \<in> set (sent_packets (fs_log s) @ burst_packets burst)"
    using old by auto
  with assms new show ?thesis
    by (simp add: fs_wf_def transmit_tm_def st stored_packets_def router_inv_def framing_ok_def)
qed

lemma tm_burst_nothing: "tm_burst apid q [] views q' \<Longrightarrow> q' = q"
  using tm_burst_parse [of apid q "[]" views q'] tm_burst_seq [of apid q "[]" views q'] by simp

text \<open>
  A tick that ran a builder on the sequence count and put the new count back keeps the invariant
  by transmitting the result.
\<close>

lemma transmit_result_inv:
  assumes "fs_wf cfg t s" "sent_whole (fs_log s)"
    and "tm_burst MIGRIS_FSW_APID 0 (live_bytes (fs_log s)) views q"
    and "tm_result MIGRIS_FSW_APID q n r (rt_tm_seq_count (fs_ctx s))"
  shows "fs_inv cfg t (transmit_result t r s)"
proof (cases "\<exists>out. r = Inr out \<and> 0 < length out")
  case True
  then obtain out where out: "r = Inr out" "0 < length out" by blast
  with assms(4) obtain vs where "tm_burst MIGRIS_FSW_APID q out vs (rt_tm_seq_count (fs_ctx s))" by (auto simp: tm_result_def)
  from tm_burst_append [OF assms(3) this] transmit_tm_wf [OF assms(1), of out] show ?thesis
    using out sent_snoc [OF assms(3,2), of out] by (auto simp: fs_inv_def transmit_result_def transmit_tm_def)
next
  case False
  then have "transmit_result t r s = s" by (auto simp: transmit_result_def split: sum.split)
  moreover have "q = rt_tm_seq_count (fs_ctx s)" using False assms(4) by (auto simp: tm_result_def dest: tm_burst_nothing split: sum.splits)
  ultimately show ?thesis using assms(1-3) by (auto simp: fs_inv_def)
qed

section \<open>The ticks keep it\<close>

definition nv_sized :: "'f migris_nvstore_t \<Rightarrow> bool" where
  "nv_sized nv \<longleftrightarrow> length (nv_payload nv) = MIGRIS_NVSTORE_PAYLOAD_MAX \<and> nv_payload_len nv \<le> MIGRIS_NVSTORE_PAYLOAD_MAX"

lemma autosave_sized:
  assumes "nv_sized nv" "nv_autosave_tick rt ser obj cur saved cap nv = (dirty, gen, nv')"
  shows "nv_sized nv'"
  using assms put_sized [of nv rt]
  by (fastforce simp: nv_autosave_tick_def nv_sized_def fsw_const split: if_splits sum.splits prod.splits)

lemma save_sized: "nv_sized nv \<Longrightarrow> nv_sized (fst (snd (migris_nvstore_save nv fl)))"
  by (auto simp: migris_nvstore_save_def nv_sized_def Let_def split: option.splits prod.splits)

lemma save_tick_steps:
  assumes "rt_datapool (fs_ctx s) = Some d" "rt_schedule (fs_ctx s) = Some c" "rt_hkstore (fs_ctx s) = Some h"
  obtains b1 g1 nv1 b2 g2 nv2 b3 g3 nv3 b4 g4 nv4 nv5 fl5 where
    "nv_autosave_tick 1 migris_datapool_serialize d (dp_generation d) (fs_last_saved_gen_dp s) 64 (fs_nvstore s) = (b1, g1, nv1)"
    "nv_autosave_tick 2 migris_schedule_serialize c (sch_generation c) (fs_last_saved_gen_sched s) 1200 nv1 = (b2, g2, nv2)"
    "nv_autosave_tick 3 migris_hkstore_serialize h (hks_generation h) (fs_last_saved_gen_hk s) 256 nv2 = (b3, g3, nv3)"
    "(if CONFIG_FSW_MODE_DEMO cfg
      then nv_autosave_tick 4 migris_mode_serialize (fs_mode_mgr s) (mm_generation (fs_mode_mgr s)) (fs_last_saved_gen_mode s) 8 nv3
      else (False, fs_last_saved_gen_mode s, nv3)) = (b4, g4, nv4)"
    "(if b1 \<or> b2 \<or> b3 \<or> b4 then snd (migris_nvstore_save nv4 (fs_flash s)) else (nv4, fs_flash s)) = (nv5, fl5)"
    "fsw_save_tick cfg s = s\<lparr>fs_nvstore := nv5, fs_flash := fl5, fs_last_saved_gen_dp := g1, fs_last_saved_gen_sched := g2,
       fs_last_saved_gen_hk := g3, fs_last_saved_gen_mode := g4\<rparr>"
proof -
  obtain b1 g1 nv1 where e1: "nv_autosave_tick 1 migris_datapool_serialize d (dp_generation d) (fs_last_saved_gen_dp s) 64
      (fs_nvstore s) = (b1, g1, nv1)" by (metis prod_cases3)
  obtain b2 g2 nv2 where e2: "nv_autosave_tick 2 migris_schedule_serialize c (sch_generation c) (fs_last_saved_gen_sched s) 1200
      nv1 = (b2, g2, nv2)" by (metis prod_cases3)
  obtain b3 g3 nv3 where e3: "nv_autosave_tick 3 migris_hkstore_serialize h (hks_generation h) (fs_last_saved_gen_hk s) 256
      nv2 = (b3, g3, nv3)" by (metis prod_cases3)
  obtain b4 g4 nv4 where e4: "(if CONFIG_FSW_MODE_DEMO cfg
      then nv_autosave_tick 4 migris_mode_serialize (fs_mode_mgr s) (mm_generation (fs_mode_mgr s)) (fs_last_saved_gen_mode s) 8 nv3
      else (False, fs_last_saved_gen_mode s, nv3)) = (b4, g4, nv4)" by (metis prod_cases3)
  obtain nv5 fl5 where e5: "(if b1 \<or> b2 \<or> b3 \<or> b4 then snd (migris_nvstore_save nv4 (fs_flash s)) else (nv4, fs_flash s)) = (nv5, fl5)"
    by force
  have "fsw_save_tick cfg s = s\<lparr>fs_nvstore := nv5, fs_flash := fl5, fs_last_saved_gen_dp := g1, fs_last_saved_gen_sched := g2,
       fs_last_saved_gen_hk := g3, fs_last_saved_gen_mode := g4\<rparr>"
    by (simp only: fsw_save_tick_def assms prod.case option.case Let_def nv_record_code.simps migris_datapool_generation_def
        migris_schedule_generation_def migris_hkstore_generation_def migris_mode_generation_def e1 e2 e3 e4 e5)
  with e1 e2 e3 e4 e5 show ?thesis by (rule that)
qed

lemma save_tick_inv:
  assumes "fs_inv cfg t s"
  shows "fs_inv cfg t (fsw_save_tick cfg s)"
proof -
  from assms obtain d c h where p: "rt_datapool (fs_ctx s) = Some d" "rt_schedule (fs_ctx s) = Some c" "rt_hkstore (fs_ctx s) = Some h"
    by (auto simp: fs_inv_def fs_wf_def)
  obtain b1 g1 nv1 b2 g2 nv2 b3 g3 nv3 b4 g4 nv4 nv5 fl5 where
    e1: "nv_autosave_tick 1 migris_datapool_serialize d (dp_generation d) (fs_last_saved_gen_dp s) 64 (fs_nvstore s) = (b1, g1, nv1)"
    and e2: "nv_autosave_tick 2 migris_schedule_serialize c (sch_generation c) (fs_last_saved_gen_sched s) 1200 nv1 = (b2, g2, nv2)"
    and e3: "nv_autosave_tick 3 migris_hkstore_serialize h (hks_generation h) (fs_last_saved_gen_hk s) 256 nv2 = (b3, g3, nv3)"
    and e4: "(if CONFIG_FSW_MODE_DEMO cfg
      then nv_autosave_tick 4 migris_mode_serialize (fs_mode_mgr s) (mm_generation (fs_mode_mgr s)) (fs_last_saved_gen_mode s) 8 nv3
      else (False, fs_last_saved_gen_mode s, nv3)) = (b4, g4, nv4)"
    and e5: "(if b1 \<or> b2 \<or> b3 \<or> b4 then snd (migris_nvstore_save nv4 (fs_flash s)) else (nv4, fs_flash s)) = (nv5, fl5)"
    and s': "fsw_save_tick cfg s = s\<lparr>fs_nvstore := nv5, fs_flash := fl5, fs_last_saved_gen_dp := g1, fs_last_saved_gen_sched := g2,
       fs_last_saved_gen_hk := g3, fs_last_saved_gen_mode := g4\<rparr>"
    by (rule save_tick_steps [OF p])
  have "nv_sized (fs_nvstore s)" using assms by (simp add: fs_inv_def fs_wf_def nv_sized_def)
  from autosave_sized [OF this e1] have "nv_sized nv1" .
  from autosave_sized [OF this e2] have "nv_sized nv2" .
  from autosave_sized [OF this e3] have n3: "nv_sized nv3" .
  have "nv_sized nv4" using e4 n3 autosave_sized [OF n3] by (auto split: if_splits)
  then have "nv_sized nv5" using e5 save_sized [of nv4 "fs_flash s"] by (auto split: if_splits)
  then show ?thesis
    using assms by (simp add: s' fs_inv_def fs_wf_def nv_sized_def framing_ok_def)
qed

lemma fs_sent: "fs_inv cfg t s \<Longrightarrow> sent_whole (fs_log s)"
  by (simp add: fs_inv_def)

lemma hk_tick_inv:
  assumes "fs_inv cfg t s"
  shows "fs_inv cfg t (fsw_hk_tick t drops s)"
proof (cases "hk_period_of (fs_ctx s) \<noteq> 0 \<and> t - fs_last_hk_emit_sec s \<ge> hk_period_of (fs_ctx s)")
  case True
  let ?ctx = "(fs_ctx s)\<lparr>rt_rx_ring_overflow_drops := drops\<rparr>"
  obtain r p3 seq where e: "migris_pus3_build_hk_report (fs_pus3_ctx s) (rt_apid ?ctx) (rt_tm_seq_count ?ctx) t
      MIGRIS_PUS3_SID_FRAMEWORK_DIAG (fill_hk_params ?ctx) 0 MIGRIS_TC_ROUTER_MAX_TM = (r, p3, seq)" by (metis prod_cases3)
  have w: "router_inv (fs_ctx s)" "rt_apid (fs_ctx s) = MIGRIS_FSW_APID" using assms by (simp_all add: fs_inv_def fs_wf_def)
  from hk_report_result [OF _ _ e] w have res: "tm_result MIGRIS_FSW_APID (rt_tm_seq_count (fs_ctx s)) 47 r seq"
    by (simp add: router_inv_def)
  then have "seq \<le> 0x3FFF" by (rule tm_result_seq) (use w in \<open>simp add: router_inv_def\<close>)
  then have "fs_wf cfg t (s\<lparr>fs_ctx := ?ctx\<lparr>rt_tm_seq_count := seq\<rparr>, fs_pus3_ctx := p3\<rparr>)"
    using assms by (simp add: fs_inv_def fs_wf_def router_inv_def framing_ok_def)
  moreover obtain views where "tm_burst MIGRIS_FSW_APID 0 (live_bytes (fs_log s)) views (rt_tm_seq_count (fs_ctx s))"
    using assms by (auto simp: fs_inv_def)
  ultimately have "fs_inv cfg t (transmit_result t r (s\<lparr>fs_ctx := ?ctx\<lparr>rt_tm_seq_count := seq\<rparr>, fs_pus3_ctx := p3\<rparr>))"
    using res fs_sent [OF assms] by (intro transmit_result_inv) simp_all
  then show ?thesis
    using True by (simp add: fsw_hk_tick_def e [simplified] fs_inv_def fs_wf_def framing_ok_def)
next
  case False
  then have "fsw_hk_tick t drops s = s" by (auto simp: fsw_hk_tick_def Let_def)
  with assms show ?thesis by simp
qed

lemma fs_wf_router: "fs_inv cfg t s \<Longrightarrow> rt_apid (fs_ctx s) = MIGRIS_FSW_APID \<and> router_inv (fs_ctx s)
    \<and> rt_apid (fs_ctx s) \<le> 0x7FF \<and> rt_tm_seq_count (fs_ctx s) \<le> 0x3FFF \<and> fdir_ok cfg (fs_fdir s, fs_mode_mgr s)"
  by (simp add: fs_inv_def fs_wf_def router_inv_def)

lemma fs_seq: "fs_inv cfg t s \<Longrightarrow> \<exists>views. tm_burst MIGRIS_FSW_APID 0 (live_bytes (fs_log s)) views (rt_tm_seq_count (fs_ctx s))"
  by (simp add: fs_inv_def)

lemma dynamic_hk_tick_inv:
  assumes "fs_inv cfg t s"
  shows "fs_inv cfg t (fsw_dynamic_hk_tick t s)"
proof -
  from assms obtain d h where p: "rt_datapool (fs_ctx s) = Some d" "rt_hkstore (fs_ctx s) = Some h"
    by (auto simp: fs_inv_def fs_wf_def)
  note w = fs_wf_router [OF assms]
  then have inv: "hks_inv h" "dp_inv d" by (simp_all add: router_inv_def p)
  from inv(1) show ?thesis
  proof (cases rule: due_cases [of h t])
    case none
    with assms show ?thesis by (simp add: fsw_dynamic_hk_tick_def p fs_inv_def fs_wf_def router_inv_def framing_ok_def)
  next
    case (due x h')
    let ?x = "x\<lparr>hk_last_emit_sec := t\<rparr>"
    let ?ctx = "(fs_ctx s)\<lparr>rt_hkstore := Some h'\<rparr>"
    obtain r p3 seq where e: "migris_pus3_build_dynamic_hk_report (fs_pus3_ctx s) d ?x (rt_apid (fs_ctx s))
        (rt_tm_seq_count (fs_ctx s)) t 0 MIGRIS_TC_ROUTER_MAX_TM = (r, p3, seq)" by (metis prod_cases3)
    have "length (hk_param_ids ?x) \<le> 8" using inv(1) due(2) by (simp add: hks_inv_def fsw_const)
    from dynamic_report_result [OF inv(2) this _ _ e] w have res: "tm_result MIGRIS_FSW_APID (rt_tm_seq_count (fs_ctx s)) 52 r seq"
      by simp
    then have "seq \<le> 0x3FFF" by (rule tm_result_seq) (use w in simp)
    then have "fs_wf cfg t (s\<lparr>fs_ctx := ?ctx\<lparr>rt_tm_seq_count := seq\<rparr>, fs_pus3_ctx := p3\<rparr>)"
      using assms due(6) by (simp add: fs_inv_def fs_wf_def router_inv_def framing_ok_def)
    moreover obtain views where "tm_burst MIGRIS_FSW_APID 0 (live_bytes (fs_log s)) views (rt_tm_seq_count (fs_ctx s))"
      using fs_seq [OF assms] by blast
    ultimately have "fs_inv cfg t (transmit_result t r (s\<lparr>fs_ctx := ?ctx\<lparr>rt_tm_seq_count := seq\<rparr>, fs_pus3_ctx := p3\<rparr>))"
      using res fs_sent [OF assms] by (intro transmit_result_inv) simp_all
    then show ?thesis by (simp add: fsw_dynamic_hk_tick_def p due(1) e)
  qed
qed

lemma overflow_tick_inv:
  assumes "fs_inv cfg t s"
  shows "fs_inv cfg t (fsw_overflow_tick now drops s)"
proof -
  have "fdir_ok cfg (snd (migris_fdir_report_anomaly (fs_fdir s, fs_mode_mgr s) ANOM_RX_OVERFLOW now (drops - fs_last_reported_rx_drops s)))"
    using fs_wf_router [OF assms] by (intro fdir_ok_anomaly) simp
  with assms show ?thesis by (auto simp: fsw_overflow_tick_def fs_inv_def fs_wf_def framing_ok_def split: prod.splits)
qed

lemma drain_tick_inv:
  assumes "fs_inv cfg t s"
  shows "fs_inv cfg t (fsw_drain_tick t s)"
proof -
  let ?ctx = "fs_ctx s"
  obtain r fdir p5 seq where e: "migris_fdir_drain (fs_fdir s) (rt_apid ?ctx) (rt_tm_seq_count ?ctx) (rt_pus5 ?ctx) 128
      = (r, fdir, p5, seq)" by (metis prod_cases4)
  note w = fs_wf_router [OF assms]
  from fdir_ok_drain [OF _ _ _ e, of cfg "fs_mode_mgr s"] w have d: "fdir_ok cfg (fdir, fs_mode_mgr s)"
    and res: "tm_result MIGRIS_FSW_APID (rt_tm_seq_count ?ctx) 28 r seq" by simp_all
  from res have "seq \<le> 0x3FFF" by (rule tm_result_seq) (use w in simp)
  then have "fs_wf cfg t (s\<lparr>fs_fdir := fdir, fs_ctx := ?ctx\<lparr>rt_pus5 := p5, rt_tm_seq_count := seq\<rparr>\<rparr>)"
    using assms d by (simp add: fs_inv_def fs_wf_def router_inv_def framing_ok_def)
  moreover obtain views where "tm_burst MIGRIS_FSW_APID 0 (live_bytes (fs_log s)) views (rt_tm_seq_count ?ctx)"
    using fs_seq [OF assms] by blast
  ultimately have "fs_inv cfg t (transmit_result t r (s\<lparr>fs_fdir := fdir, fs_ctx := ?ctx\<lparr>rt_pus5 := p5, rt_tm_seq_count := seq\<rparr>\<rparr>))"
    using res fs_sent [OF assms] by (intro transmit_result_inv) simp_all
  then show ?thesis by (simp add: fsw_drain_tick_def fsw_const e)
qed

text \<open>The dispatch, on any telecommand: one the ground sent or one the schedule released.\<close>

lemma dispatch_inv:
  assumes "fs_inv cfg t s"
  shows "fs_inv cfg t (fsw_dispatch t tc s)"
proof -
  obtain r ctx fdir mgr where e: "migris_tc_router_dispatch fdir_sink_report (fs_ctx s) (fs_fdir s, fs_mode_mgr s) t tc 128
      = (r, ctx, fdir, mgr)" by (metis prod_cases4)
  note w = fs_wf_router [OF assms]
  then have inv: "router_inv (fs_ctx s)" and cap: "(128 :: nat) \<le> 128" by simp_all
  from dispatch_burst [OF inv cap e] obtain out views' where r: "r = Inr out" "length out \<le> 127"
    and b: "tm_burst MIGRIS_FSW_APID (rt_tm_seq_count (fs_ctx s)) out views' (rt_tm_seq_count ctx)"
    and inv': "router_inv ctx" using w by auto
  have k: "router_kept (fs_ctx s) ctx" by (rule dispatch_kept [OF inv e])
  have "fdir_ok cfg (fdir, mgr)" using dispatch_sink [OF e] w fdir_ok_report [of cfg "(fs_fdir s, fs_mode_mgr s)" t] by metis
  moreover obtain d d' where "rt_datapool (fs_ctx s) = Some d" "rt_datapool ctx = Some d'" "dp_keeps d d'"
    "dp_values_ok d" "map dp_decl (dp_live d) = map dp_decl (dp_params_of cfg)"
    using k assms by (auto simp: router_kept_def fs_inv_def fs_wf_def option_rel_Some1)
  ultimately have "fs_wf cfg t (s\<lparr>fs_ctx := ctx, fs_fdir := fdir, fs_mode_mgr := mgr\<rparr>)"
    using assms k inv' by (auto simp: fs_inv_def fs_wf_def router_kept_def framing_ok_def dp_keeps_def)
  moreover obtain views where "tm_burst MIGRIS_FSW_APID 0 (live_bytes (fs_log s)) views (rt_tm_seq_count (fs_ctx s))"
    using fs_seq [OF assms] by blast
  moreover have "tm_result MIGRIS_FSW_APID (rt_tm_seq_count (fs_ctx s)) 127 r (rt_tm_seq_count ctx)"
    using b r by (auto intro: tm_resultI)
  ultimately have "fs_inv cfg t (transmit_result t r (s\<lparr>fs_ctx := ctx, fs_fdir := fdir, fs_mode_mgr := mgr\<rparr>))"
    using fs_sent [OF assms] by (intro transmit_result_inv) simp_all
  then show ?thesis by (simp add: fsw_dispatch_def fsw_const e)
qed

lemma release_tick_inv:
  assumes "fs_inv cfg t s"
  shows "fs_inv cfg t (fsw_release_tick t s)"
proof -
  from assms obtain c where c: "rt_schedule (fs_ctx s) = Some c" by (auto simp: fs_inv_def fs_wf_def)
  then have inv: "sch_inv c" using fs_wf_router [OF assms] by (simp add: router_inv_def)
  obtain r c' where e: "migris_schedule_pop_due c t MIGRIS_SCHEDULE_TC_MAX = (r, c')" by force
  then have "sch_inv c'" using pop_due_inv [OF inv, of t MIGRIS_SCHEDULE_TC_MAX] by simp
  then have s': "fs_inv cfg t (s\<lparr>fs_ctx := (fs_ctx s)\<lparr>rt_schedule := Some c'\<rparr>\<rparr>)"
    using assms by (auto simp: fs_inv_def fs_wf_def router_inv_def framing_ok_def)
  then show ?thesis
    using dispatch_inv [OF s'] by (auto simp: fsw_release_tick_def c e Let_def split: sum.split option.split)
qed

lemma retrieved:
  assumes "pks_inv s" "migris_pktstore_retrieve_next s cap = (r, s')"
  shows "pks_inv s' \<and> pks_list s' = pks_list s \<and> (\<forall>p. r = Inr (Some p) \<longrightarrow> (\<exists>e \<in> set (pks_list s). pke_packet e = p))"
proof -
  have "pks_list s ! pks_retrieval_cursor s \<in> set (pks_list s)" if "pks_retrieval_cursor s < pks_count s"
    using that by simp
  with assms pks_nth [OF assms(1), of "pks_retrieval_cursor s"] show ?thesis
    by (auto simp: migris_pktstore_retrieve_next_def Let_def not_le pks_inv_def split: if_splits)
qed

lemma replay_tick_inv:
  assumes "fs_inv cfg t s"
  shows "fs_inv cfg t (fsw_replay_tick s)"
proof -
  from assms obtain st where st: "rt_store (fs_ctx s) = Some st" by (auto simp: fs_inv_def fs_wf_def)
  then have inv: "pks_inv st" using fs_wf_router [OF assms] by (simp add: router_inv_def)
  obtain r st' where e: "migris_pktstore_retrieve_next st MIGRIS_TC_ROUTER_MAX_TM = (r, st')" by force
  note k = retrieved [OF inv e]
  have hist: "\<forall>e \<in> set (pks_list st). pke_packet e \<in> set (sent_packets (fs_log s))"
    using assms by (simp add: fs_inv_def fs_wf_def st stored_packets_def)
  have s': "fs_inv cfg t (s\<lparr>fs_ctx := (fs_ctx s)\<lparr>rt_store := Some st'\<rparr>\<rparr>)"
    using assms k by (simp add: fs_inv_def fs_wf_def router_inv_def framing_ok_def st stored_packets_def)
  have "fs_inv cfg t (s\<lparr>fs_ctx := (fs_ctx s)\<lparr>rt_store := Some st'\<rparr>, fs_log := fs_log s @ [Replayed_tm p]\<rparr>)" if "r = Inr (Some p)" for p
  proof -
    have "p \<in> set (sent_packets (fs_log s))" using k hist that by blast
    with s' show ?thesis by (simp add: fs_inv_def fs_wf_def framing_ok_def)
  qed
  with s' show ?thesis by (simp add: fsw_replay_tick_def st e Let_def split: sum.split option.split)
qed

lemma largedata_tick_inv:
  assumes "fs_inv cfg t s"
  shows "fs_inv cfg t (fsw_largedata_tick cfg t s)"
proof (cases "CONFIG_FSW_LARGEDATA_DEMO cfg")
  case True
  let ?ctx = "fs_ctx s"
  obtain r ld seq where e: "migris_largedata_next_part (fs_largedata s) (rt_apid ?ctx) (rt_tm_seq_count ?ctx) t 0 128
      = (r, ld, seq)" by (metis prod_cases3)
  note w = fs_wf_router [OF assms]
  have "ld_inv (fs_largedata s)" using assms True by (simp add: fs_inv_def fs_wf_def)
  from next_part_result [OF this _ _ e] w have d: "ld_inv ld"
    and res: "tm_result MIGRIS_FSW_APID (rt_tm_seq_count ?ctx) 88 r seq" by simp_all
  from res have "seq \<le> 0x3FFF" by (rule tm_result_seq) (use w in simp)
  then have "fs_wf cfg t (s\<lparr>fs_largedata := ld, fs_ctx := ?ctx\<lparr>rt_tm_seq_count := seq\<rparr>\<rparr>)"
    using assms d by (simp add: fs_inv_def fs_wf_def router_inv_def framing_ok_def)
  moreover obtain views where "tm_burst MIGRIS_FSW_APID 0 (live_bytes (fs_log s)) views (rt_tm_seq_count ?ctx)"
    using fs_seq [OF assms] by blast
  ultimately have "fs_inv cfg t (transmit_result t r (s\<lparr>fs_largedata := ld, fs_ctx := ?ctx\<lparr>rt_tm_seq_count := seq\<rparr>\<rparr>))"
    using res fs_sent [OF assms] by (intro transmit_result_inv) simp_all
  then show ?thesis using True by (simp add: fsw_largedata_tick_def fsw_const e)
qed (simp add: fsw_largedata_tick_def assms)

text \<open>
  The reception tick alone breaks the framing for a moment, between the byte written and the packet
  completed: the invariant without it, for any buffer.
\<close>

lemma fs_inv_buffer:
  "fs_inv cfg t s \<Longrightarrow> framing_ok (s\<lparr>fs_tc := tc, fs_want := w\<rparr>) \<Longrightarrow> fs_inv cfg t (s\<lparr>fs_tc := tc, fs_want := w\<rparr>)"
  by (simp add: fs_inv_def fs_wf_def)

lemma transmit_buffer [simp]:
  "fs_tc (transmit_result t r s) = fs_tc s" "fs_want (transmit_result t r s) = fs_want s"
  "transmit_result t r (s\<lparr>fs_tc := tc, fs_want := w\<rparr>) = (transmit_result t r s)\<lparr>fs_tc := tc, fs_want := w\<rparr>"
  by (simp_all add: transmit_result_def transmit_tm_def split: sum.split)

lemma dispatch_buffer [simp]:
  "fs_tc (fsw_dispatch t tc s) = fs_tc s" "fs_want (fsw_dispatch t tc s) = fs_want s"
  "fsw_dispatch t tc (s\<lparr>fs_tc := buf, fs_want := w\<rparr>) = (fsw_dispatch t tc s)\<lparr>fs_tc := buf, fs_want := w\<rparr>"
proof -
  show "fs_tc (fsw_dispatch t tc s) = fs_tc s" "fs_want (fsw_dispatch t tc s) = fs_want s"
    by (simp_all add: fsw_dispatch_def split: prod.split)
  obtain r c f m where e: "migris_tc_router_dispatch fdir_sink_report (fs_ctx s) (fs_fdir s, fs_mode_mgr s) t tc
      MIGRIS_TC_ROUTER_MAX_TM = (r, c, f, m)" by (metis prod_cases4)
  have "s\<lparr>fs_tc := buf, fs_want := w, fs_ctx := c, fs_fdir := f, fs_mode_mgr := m\<rparr>
      = (s\<lparr>fs_ctx := c, fs_fdir := f, fs_mode_mgr := m\<rparr>)\<lparr>fs_tc := buf, fs_want := w\<rparr>" by simp
  note arg_cong [OF this, of "transmit_result t r", unfolded transmit_buffer(3)]
  then show "fsw_dispatch t tc (s\<lparr>fs_tc := buf, fs_want := w\<rparr>) = (fsw_dispatch t tc s)\<lparr>fs_tc := buf, fs_want := w\<rparr>"
    by (simp add: fsw_dispatch_def e)
qed

text \<open>
  What a received byte does to the buffer, on its own: the new buffer and announced length, and the
  packet if this byte completes one.
\<close>

definition frame_byte :: "bytes \<times> nat \<Rightarrow> u8 \<Rightarrow> (bytes \<times> nat) \<times> bytes option" where
  "frame_byte f b =
    (let buf = fst f @ [b]
     in if length buf = MIGRIS_CCSDS_PRIMARY_HEADER_SIZE then
          let want = migris_ccsds_packet_total_size (rd16_at buf 4)
          in if TC_BUF_SIZE < want then (([], 0), None) else ((buf, want), None)
        else if snd f \<noteq> 0 \<and> length buf = snd f then (([], 0), Some buf)
        else ((buf, snd f), None))"

definition received_from :: "u32 \<Rightarrow> u32 \<Rightarrow> bytes \<Rightarrow> 'f fsw_state \<Rightarrow> 'f fsw_state" where
  "received_from t drops tc s = fsw_dispatch t tc
     (s\<lparr>fs_ctx := (fs_ctx s)\<lparr>rt_rx_ring_overflow_drops := drops\<rparr>, fs_log := fs_log s @ [Tc_received tc]\<rparr>)"

lemma total_size_header: "migris_ccsds_packet_total_size n \<noteq> MIGRIS_CCSDS_PRIMARY_HEADER_SIZE" "migris_ccsds_packet_total_size n \<noteq> 0"
  by (simp_all add: migris_ccsds_packet_total_size_def)

lemma rx_tick_frame:
  "fsw_rx_tick t drops (Some b) s =
    (case frame_byte (fs_tc s, fs_want s) b of
       ((buf, w), None) \<Rightarrow> s\<lparr>fs_tc := buf, fs_want := w\<rparr>
     | ((buf, w), Some tc) \<Rightarrow> (received_from t drops tc s)\<lparr>fs_tc := buf, fs_want := w\<rparr>)"
proof -
  let ?buf = "fs_tc s @ [b]"
  have "(s\<lparr>fs_tc := ?buf, fs_ctx := c, fs_log := l\<rparr>) = (s\<lparr>fs_ctx := c, fs_log := l\<rparr>)\<lparr>fs_tc := ?buf, fs_want := fs_want s\<rparr>" for c l
    by simp
  note d = arg_cong [OF this, of "fsw_dispatch t ?buf", unfolded dispatch_buffer(3)]
  have "fsw_complete t drops (s\<lparr>fs_tc := ?buf\<rparr>) =
    (if fs_want s \<noteq> 0 \<and> length ?buf = fs_want s then (received_from t drops ?buf s)\<lparr>fs_tc := [], fs_want := 0\<rparr>
     else s\<lparr>fs_tc := ?buf\<rparr>)"
    using d by (simp add: fsw_complete_def received_from_def Let_def)
  moreover have "fsw_complete t drops (s\<lparr>fs_tc := ?buf, fs_want := migris_ccsds_packet_total_size n\<rparr>)
      = s\<lparr>fs_tc := ?buf, fs_want := migris_ccsds_packet_total_size n\<rparr>" if "length ?buf = MIGRIS_CCSDS_PRIMARY_HEADER_SIZE" for n
    using that total_size_header(1) [of n] by (simp add: fsw_complete_def)
  moreover have "s\<lparr>fs_tc := ?buf, fs_want := fs_want s\<rparr> = s\<lparr>fs_tc := ?buf\<rparr>" by simp
  ultimately show ?thesis by (simp add: fsw_rx_tick_def frame_byte_def Let_def)
qed

lemma frame_byte_ok:
  assumes "framing_ok s" "frame_byte (fs_tc s, fs_want s) b = ((buf, w), r)"
  shows "framing_ok (s'\<lparr>fs_tc := buf, fs_want := w\<rparr>)"
    and "r = Some tc \<Longrightarrow> tc = fs_tc s @ [b] \<and> length tc = fs_want s \<and> buf = [] \<and> w = 0"
proof -
  have rd: "MIGRIS_CCSDS_PRIMARY_HEADER_SIZE \<le> length (fs_tc s) \<Longrightarrow> rd16_at (fs_tc s @ [b]) 4 = rd16_at (fs_tc s) 4"
    by (simp add: rd16_at_def fsw_const nth_append)
  show "framing_ok (s'\<lparr>fs_tc := buf, fs_want := w\<rparr>)"
    using assms rd total_size_header(1) [of "rd16_at (fs_tc s @ [b]) 4"]
    by (auto simp: frame_byte_def framing_ok_def Let_def migris_ccsds_packet_total_size_def fsw_const split: if_splits)
  show "r = Some tc \<Longrightarrow> tc = fs_tc s @ [b] \<and> length tc = fs_want s \<and> buf = [] \<and> w = 0"
    using assms(2) by (auto simp: frame_byte_def Let_def split: if_splits)
qed

lemma received_from_inv:
  assumes "fs_inv cfg t s"
  shows "fs_inv cfg t (received_from t drops tc s)"
  unfolding received_from_def
  by (rule dispatch_inv) (use assms in \<open>simp add: fs_inv_def fs_wf_def router_inv_def framing_ok_def\<close>)

lemma rx_tick_inv:
  assumes "fs_inv cfg t s"
  shows "fs_inv cfg t (fsw_rx_tick t drops got s)"
proof (cases got)
  case None
  with assms show ?thesis by (simp add: fsw_rx_tick_def)
next
  case (Some b)
  obtain buf w r where f: "frame_byte (fs_tc s, fs_want s) b = ((buf, w), r)" by (metis prod.exhaust)
  have ok: "framing_ok s" using assms by (simp add: fs_inv_def fs_wf_def)
  show ?thesis
    using fs_inv_buffer [OF assms frame_byte_ok(1) [OF ok f]]
      fs_inv_buffer [OF received_from_inv [OF assms, of drops] frame_byte_ok(1) [OF ok f]]
    by (simp add: Some rx_tick_frame f split: option.split)
qed

lemma iteration_inv:
  assumes "fs_inv cfg t s" "t \<le> now_of (in_uptime_ms inp)"
  shows "fs_inv cfg (now_of (in_uptime_ms inp)) (fsw_iteration cfg inp s)"
  unfolding fsw_iteration_def Let_def
  by (intro rx_tick_inv largedata_tick_inv replay_tick_inv release_tick_inv drain_tick_inv overflow_tick_inv
      dynamic_hk_tick_inv hk_tick_inv save_tick_inv fs_inv_later [OF assms])

text \<open>The clock of a mission: it never goes back, and the count of seconds stays below 2^32.\<close>

definition clock_ok :: "nat \<Rightarrow> loop_input list \<Rightarrow> bool" where
  "clock_ok boot_ms inputs \<longleftrightarrow> sorted (boot_ms # map in_uptime_ms inputs)
     \<and> (\<forall>ms \<in> set (boot_ms # map in_uptime_ms inputs). ms < 4294967296000)"

lemma now_of_mono: "a \<le> b \<Longrightarrow> b < 4294967296000 \<Longrightarrow> now_of a \<le> now_of b"
proof -
  assume ab: "a \<le> b" "b < 4294967296000"
  have "a div 1000 \<le> b div 1000" using ab(1) by (rule div_le_mono)
  moreover have "b div 1000 < 2 ^ 32" using ab(2) by (simp add: div_less_iff_less_mult)
  ultimately show ?thesis
    by (simp add: now_of_def word_le_nat_alt unat_of_nat take_bit_eq_mod)
qed

lemma run_inv:
  assumes "fs_inv cfg (now_of ms) s" "clock_ok ms inputs"
  shows "fs_inv cfg (now_of (last (ms # map in_uptime_ms inputs))) (fsw_run cfg inputs s)"
  using assms
proof (induction inputs arbitrary: ms s)
  case (Cons inp inputs)
  then have "now_of ms \<le> now_of (in_uptime_ms inp)" by (intro now_of_mono) (auto simp: clock_ok_def)
  from iteration_inv [OF Cons.prems(1) this] have "fs_inv cfg (now_of (in_uptime_ms inp)) (fsw_iteration cfg inp s)" .
  from Cons.IH [OF this] Cons.prems(2) show ?case by (simp add: clock_ok_def fsw_run_def)
qed (simp add: fsw_run_def)

end
