(* ===== verification/Mission.thy ===== *)
theory Mission
  imports App_Invariant
begin

text \<open>
  What holds of a whole mission of samples/tc_uart: from boot on any RAM content and any flash whose
  restored schedule repeats no request identifier, over every sequence of loop iterations whose clock
  does not go back, and across a reboot.
\<close>

section \<open>Boot\<close>

context flash_map
begin

lemma nv_contract: "nv_flash (migris_fsw_nv_flash_backend fa) (fa_cells img ssize) ok"
  by (rule nv.nv_flash_axioms)

lemma nv_geometry: "nb_sector_count (migris_fsw_nv_flash_backend fa) = 2"
  using opens by (simp add: migris_fsw_nv_flash_backend_def Let_def)

end

text \<open>All that is relied on in the RAM at boot: the C arrays have their declared sizes.\<close>

definition mem_ok :: "'f fsw_memory \<Rightarrow> bool" where
  "mem_ok mem \<longleftrightarrow> length (ef_slots (fd_fifo (mem_fdir mem))) = MIGRIS_FDIR_EVENT_FIFO_CAPACITY
     \<and> length (dp_params (mem_datapool mem)) = MIGRIS_DATAPOOL_CAPACITY
     \<and> length (sch_activities (mem_schedule mem)) = MIGRIS_SCHEDULE_CAPACITY
     \<and> length (pks_entries (mem_store mem)) = MIGRIS_PKTSTORE_CAPACITY
     \<and> length (hks_structures (mem_hkstore mem)) = MIGRIS_HKSTORE_CAPACITY
     \<and> length (nv_payload (mem_nvstore mem)) = MIGRIS_NVSTORE_PAYLOAD_MAX
     \<and> length (mm_defs (mem_mode_mgr mem)) = MIGRIS_MODE_CAPACITY"

text \<open>What Kconfig guarantees: FSW_FDIR_RECOVERY_DEMO depends on FSW_MODE_DEMO.\<close>

definition cfg_ok :: "fsw_config \<Rightarrow> bool" where
  "cfg_ok cfg \<longleftrightarrow> (CONFIG_FSW_FDIR_RECOVERY_DEMO cfg \<longrightarrow> CONFIG_FSW_MODE_DEMO cfg)"

lemma fdir_init_inv:
  "length (ef_slots (fd_fifo c)) = MIGRIS_FDIR_EVENT_FIFO_CAPACITY \<Longrightarrow>
     fd_inv (migris_fdir_init c) \<and> fd_queue (migris_fdir_init c) = [] \<and> \<not> fd_mode (migris_fdir_init c)"
  by (simp add: migris_fdir_init_def fd_inv_def fd_queue_def ef_inv_def ef_list_def migris_event_fifo_init_def ring_list_def fsw_const)

lemma arm_inv: "fd_inv c \<Longrightarrow> fd_inv (snd (migris_fdir_arm_recovery c m sm (fdir_confirms cfg)))
    \<and> fd_queue (snd (migris_fdir_arm_recovery c m sm (fdir_confirms cfg))) = fd_queue c"
  by (simp add: migris_fdir_arm_recovery_def fdir_confirms_def fd_inv_def fd_queue_def)

lemma app_datapool_init:
  assumes "length (dp_params d) = MIGRIS_DATAPOOL_CAPACITY" "migris_datapool_init d (dp_params_of cfg) = (st, d')"
  shows "st = DATAPOOL_OK \<and> dp_inv d' \<and> dp_live d' = dp_params_of cfg \<and> dp_values_ok d' \<and> dp_generation d' = 0"
proof -
  have st: "st = DATAPOOL_OK"
    unfolding init_result(5) [OF assms]
    by (simp add: dp_params_of_def fsw_const migris_dp_u32_def migris_dp_u16_def)
  from init_result(2) [OF assms st] show ?thesis
    using st init_result(1,4) [OF assms] by (simp add: dp_values_ok_def dp_params_of_def dp_constructors_ok)
qed

lemma mode_target_bits: "bit (6 :: u32) t \<longleftrightarrow> t = 1 \<or> t = 2" "bit (4 :: u32) t \<longleftrightarrow> t = 2" "bit (2 :: u32) t \<longleftrightarrow> t = 1"
proof -
  have e: "bit ((2 :: u32) ^ n) t \<longleftrightarrow> t = n" if "n < 32" for n
    using that by (auto simp: bit_exp_iff)
  have "(6 :: u32) = 2 ^ 1 OR 2 ^ 2" by simp
  then show "bit (6 :: u32) t \<longleftrightarrow> t = 1 \<or> t = 2" using e [of 1] e [of 2] by (simp only: bit_or_iff)
  show "bit (4 :: u32) t \<longleftrightarrow> t = 2" "bit (2 :: u32) t \<longleftrightarrow> t = 1" using e [of 2] e [of 1] by simp_all
qed

lemma mode_defs_eq: "mode_defs = [\<lparr>md_id = 0, md_allowed_targets = 6\<rparr>, \<lparr>md_id = 1, md_allowed_targets = 4\<rparr>,
    \<lparr>md_id = 2, md_allowed_targets = 2\<rparr>]"
  by (simp add: mode_defs_def FSW_MODE_BOOT_def FSW_MODE_NOMINAL_def FSW_MODE_SAFE_def push_bit_eq_mult)

lemma app_mode_init:
  assumes "length (mm_defs m) = MIGRIS_MODE_CAPACITY"
  shows "\<exists>m'. migris_mode_init m mode_defs FSW_MODE_BOOT True = (MODE_OK, m') \<and> mm_inv m' \<and> mm_declared m' = mode_defs
    \<and> mm_current m' = FSW_MODE_BOOT \<and> mm_sink m' \<and> mm_generation m' = 0"
proof -
  have len: "length mode_defs = 3" by (simp add: mode_defs_def)
  have "mode_validate_ids mode_defs 0 3 = MODE_OK"
    by (simp add: numeral_3_eq_3 mode_defs_eq mode_index_of_def fsw_const)
  moreover have "mode_targets_declared mode_defs 3 i" if "i < 3" for i
  proof -
    have "of_nat t \<in> md_id ` set mode_defs" if "bit (md_allowed_targets (mode_defs ! i)) t" for t
      using that \<open>i < 3\<close> unfolding mode_defs_eq
      by (auto simp: less_Suc_eq numeral_3_eq_3 mode_target_bits simp del: bit_numeral_word_iff)
    then show ?thesis using targets_declared_iff [of mode_defs i] by (simp add: len)
  qed
  moreover have "mode_index_of mode_defs 3 FSW_MODE_BOOT \<noteq> None"
    by (simp add: mode_index_of_def mode_defs_eq fsw_const)
  ultimately obtain m' where e: "migris_mode_init m mode_defs FSW_MODE_BOOT True = (MODE_OK, m')"
    by (auto simp: migris_mode_init_def mode_validate_def len list_all_iff Let_def fsw_const)
  have "mm_generation m' = 0" using e by (auto simp: migris_mode_init_def Let_def split: if_splits)
  with e mode_init_inv [OF assms e] show ?thesis by blast
qed

text \<open>A restore changes an object in one call of its deserialiser, or not at all.\<close>

lemma restored_cases:
  "restored rc nv k de obj = obj \<or> (\<exists>bs st. rc = NVSTORE_OK \<and> migris_nvstore_get nv (nv_record_code k) = Inr bs
     \<and> de obj bs = (st, restored rc nv k de obj))"
  by (cases "migris_nvstore_get nv (nv_record_code k)") (auto simp: restored_def intro: prod.collapse [symmetric])

definition boot_schedule :: "'f fsw_state \<Rightarrow> migris_schedule_activity_t list" where
  "boot_schedule s = (case rt_schedule (fs_ctx s) of None \<Rightarrow> [] | Some c \<Rightarrow> sch_live c)"

lemma init_fields:
  fixes cfg :: fsw_config
  assumes "migris_nvstore_load (migris_nvstore_init (mem_nvstore mem) (Some (migris_fsw_nv_flash_backend fa))) flash = (rc, nv)"
  defines "s \<equiv> fsw_init cfg fa mem flash"
  shows "rt_datapool (fs_ctx s) = Some (restored rc nv NVSTORE_RECORD_DATAPOOL migris_datapool_deserialize
      (snd (migris_datapool_init (mem_datapool mem) (dp_params_of cfg))))"
    and "rt_schedule (fs_ctx s) = Some (restored rc nv NVSTORE_RECORD_SCHEDULE migris_schedule_deserialize
      (migris_schedule_init (mem_schedule mem)))"
    and "rt_store (fs_ctx s) = Some (migris_pktstore_init (mem_store mem))"
    and "rt_hkstore (fs_ctx s) = Some (restored rc nv NVSTORE_RECORD_HKSTORE migris_hkstore_deserialize
      (migris_hkstore_init (mem_hkstore mem)))"
    and "CONFIG_FSW_MODE_DEMO cfg \<Longrightarrow> fs_mode_mgr s = restored rc nv NVSTORE_RECORD_MODE migris_mode_deserialize_current
      (snd (migris_mode_init (mem_mode_mgr mem) mode_defs FSW_MODE_BOOT True))"
    and "fs_fdir s = (if CONFIG_FSW_FDIR_RECOVERY_DEMO cfg
      then snd (migris_fdir_arm_recovery (migris_fdir_init (mem_fdir mem)) True FSW_MODE_SAFE (fdir_confirms cfg))
      else migris_fdir_init (mem_fdir mem))"
    and "CONFIG_FSW_LARGEDATA_DEMO cfg \<Longrightarrow> fs_largedata s = snd (migris_largedata_start (migris_largedata_init (mem_largedata mem))
      LARGEDATA_DEMO_TRANSACTION_ID largedata_demo_unit)"
    and "fs_nvstore s = nv" "fs_flash s = flash" "fs_log s = []" "fs_tc s = []" "fs_want s = 0"
    and "rt_apid (fs_ctx s) = MIGRIS_FSW_APID" "rt_sink (fs_ctx s)" "rt_tm_seq_count (fs_ctx s) = 0"
      "rt_pus5 (fs_ctx s) = \<lparr>p5_msg_counter = [0, 0, 0, 0]\<rparr>" "rt_pus1 (fs_ctx s) = \<lparr>p1_msg_counter = [0, 0, 0, 0]\<rparr>"
  by (simp_all add: s_def fsw_init_def Let_def assms(1) fsw_boot_ctx_def)

lemma largedata_demo_started:
  "ld_inv (snd (migris_largedata_start (migris_largedata_init l) LARGEDATA_DEMO_TRANSACTION_ID largedata_demo_unit))"
proof -
  have "ld_state (migris_largedata_init l) = LARGEDATA_IDLE" by (simp add: migris_largedata_init_def)
  moreover have "largedata_demo_unit \<noteq> []" "length largedata_demo_unit \<le> 4096" by (simp_all add: largedata_demo_unit_def fsw_const)
  ultimately show ?thesis
    using start_sent [of "migris_largedata_init l" largedata_demo_unit LARGEDATA_DEMO_TRANSACTION_ID] sent_inv by fastforce
qed

text \<open>
  The state main reaches before the boot event is well formed, whatever is in RAM and flash, unless
  the flash holds a schedule in which two activities share an identifier.
\<close>

lemma init_inv:
  assumes "flash_map fa img ssize ok" "ok flash" "mem_ok mem" "cfg_ok cfg"
    and "distinct (map act_id (boot_schedule (fsw_init cfg fa mem flash)))"
  shows "fs_inv cfg t (fsw_init cfg fa mem flash)"
proof -
  let ?s = "fsw_init cfg fa mem flash"
  obtain rc nv where load: "migris_nvstore_load (migris_nvstore_init (mem_nvstore mem) (Some (migris_fsw_nv_flash_backend fa))) flash = (rc, nv)"
    by force
  note f = init_fields [OF load, of cfg]
  note m = assms(3) [unfolded mem_ok_def]
  let ?nv0 = "migris_nvstore_init (mem_nvstore mem) (Some (migris_fsw_nv_flash_backend fa))"
  have "length (nv_payload ?nv0) = 1536" "nv_backend ?nv0 = Some (migris_fsw_nv_flash_backend fa)"
    using m by (simp_all add: migris_nvstore_init_def fsw_const)
  from nv_flash.load_spec [OF flash_map.nv_contract [OF assms(1)] assms(2) this(2,1)] load
  have "nv_loaded_as nv (nv_newest (fa_cells img ssize flash 0) (fa_cells img ssize flash 1))" by auto
  then have nv: "length (nv_payload nv) = MIGRIS_NVSTORE_PAYLOAD_MAX" "nv_payload_len nv \<le> MIGRIS_NVSTORE_PAYLOAD_MAX"
    using length_take [of "nv_payload_len nv" "nv_payload nv"]
    by (auto simp: nv_loaded_as_def nv_image_data_def fsw_const split: option.splits)
  obtain st0 d0 where d0: "migris_datapool_init (mem_datapool mem) (dp_params_of cfg) = (st0, d0)" by force
  have d0': "dp_inv d0" "dp_live d0 = dp_params_of cfg" "dp_values_ok d0" using app_datapool_init [OF _ d0] m by simp_all
  obtain d where d: "rt_datapool (fs_ctx ?s) = Some d" "d = restored rc nv NVSTORE_RECORD_DATAPOOL migris_datapool_deserialize d0"
    using f(1) d0 by simp
  have "dp_inv d \<and> dp_keeps d0 d"
    using restored_cases [of rc nv NVSTORE_RECORD_DATAPOOL migris_datapool_deserialize d0] deserialize_any [OF d0'(1)] d0'(1)
    unfolding d(2) [symmetric] by auto
  then have dp: "dp_inv d" "dp_values_ok d" "map dp_decl (dp_live d) = map dp_decl (dp_params_of cfg)"
    using d0' by (simp_all add: dp_keeps_def)
  obtain c where c: "rt_schedule (fs_ctx ?s) = Some c"
    "c = restored rc nv NVSTORE_RECORD_SCHEDULE migris_schedule_deserialize (migris_schedule_init (mem_schedule mem))"
    using f(2) by simp
  have "length (sch_activities (migris_schedule_init (mem_schedule mem))) = MIGRIS_SCHEDULE_CAPACITY"
    using m by (simp add: migris_schedule_init_def)
  then have "sch_sized c"
    using restored_cases [of rc nv NVSTORE_RECORD_SCHEDULE migris_schedule_deserialize "migris_schedule_init (mem_schedule mem)"]
      schedule_restore_any schedule_init_sized [of "mem_schedule mem"] m unfolding c(2) [symmetric] by metis
  then have sch: "sch_inv c" using assms(5) by (simp add: sch_inv_sized boot_schedule_def c(1))
  obtain h where h: "rt_hkstore (fs_ctx ?s) = Some h"
    "h = restored rc nv NVSTORE_RECORD_HKSTORE migris_hkstore_deserialize (migris_hkstore_init (mem_hkstore mem))"
    using f(4) by simp
  have "hks_inv h"
    using restored_cases [of rc nv NVSTORE_RECORD_HKSTORE migris_hkstore_deserialize "migris_hkstore_init (mem_hkstore mem)"]
      hkstore_restore_any hkstore_init_inv [of "mem_hkstore mem"] m unfolding h(2) [symmetric] by metis
  moreover have "pks_inv (migris_pktstore_init (mem_store mem))" "pks_list (migris_pktstore_init (mem_store mem)) = []"
    using m by (simp_all add: migris_pktstore_init_def pks_inv_def pks_list_def ring_list_def fsw_const)
  moreover have "fdir_ok cfg (fs_fdir ?s, fs_mode_mgr ?s)"
  proof -
    have "mm_inv (fs_mode_mgr ?s) \<and> mm_declared (fs_mode_mgr ?s) = mode_defs" if on: "CONFIG_FSW_MODE_DEMO cfg"
      using app_mode_init [of "mem_mode_mgr mem"] m mode_restore
        restored_cases [of rc nv NVSTORE_RECORD_MODE migris_mode_deserialize_current
          "snd (migris_mode_init (mem_mode_mgr mem) mode_defs FSW_MODE_BOOT True)"]
      unfolding f(5) [OF on] by (metis snd_conv)
    moreover have "fd_inv (fs_fdir ?s) \<and> (fd_mode (fs_fdir ?s) \<longrightarrow> CONFIG_FSW_FDIR_RECOVERY_DEMO cfg)"
      using fdir_init_inv [of "mem_fdir mem"] arm_inv [of "migris_fdir_init (mem_fdir mem)"] m unfolding f(6) by simp
    ultimately show ?thesis using assms(4) by (simp add: fdir_ok_def cfg_ok_def)
  qed
  moreover have "CONFIG_FSW_LARGEDATA_DEMO cfg \<longrightarrow> ld_inv (fs_largedata ?s)" using f(7) largedata_demo_started by simp
  ultimately show ?thesis
    using nv dp sch d(1) c(1) h(1) f(3,8-) exI [of "\<lambda>views. tm_burst MIGRIS_FSW_APID 0 [] views 0" "[]"]
    by (auto simp: fs_inv_def fs_wf_def router_inv_def framing_ok_def stored_packets_def fsw_const)
qed

text \<open>The boot event and the boot transition keep what the main loop keeps.\<close>

lemma boot_event_inv:
  assumes "fs_inv cfg t s"
  shows "fs_inv cfg t (fsw_boot_event t s)"
proof -
  let ?ctx = "fs_ctx s"
  note w = fs_wf_router [OF assms]
  then have a: "rt_apid ?ctx \<le> 0x7FF" "rt_tm_seq_count ?ctx \<le> 0x3FFF" by simp_all
  have none: "migris_pus5_build_event_report c apid seq now sev eid None 0 d cap =
      migris_pus5_build_event_report c apid seq now sev eid (Some []) (length ([] :: bytes)) d cap" for c apid seq now sev eid d cap
    by (simp add: migris_pus5_build_event_report_def Let_def)
  from build_event_report_ok [OF a, of 0 "[]" 128 "rt_pus5 ?ctx" t MIGRIS_PUS5_EVT_FSW_BOOT 0]
  obtain pkt v where e: "migris_pus5_build_event_report (rt_pus5 ?ctx) (rt_apid ?ctx) (rt_tm_seq_count ?ctx) t
      (sev_value SEV_INFO) MIGRIS_PUS5_EVT_FSW_BOOT None 0 0 MIGRIS_TC_ROUTER_MAX_TM
        = (Inr pkt, (rt_pus5 ?ctx)\<lparr>p5_msg_counter := bump (p5_msg_counter (rt_pus5 ?ctx)) 0\<rparr>, next_seq (rt_tm_seq_count ?ctx))"
    and b: "tm_burst MIGRIS_FSW_APID (rt_tm_seq_count ?ctx) pkt [v] (next_seq (rt_tm_seq_count ?ctx))" "length pkt \<le> 20"
    using w unfolding none by (auto simp: MIGRIS_TC_ROUTER_MAX_TM_def)
  let ?s = "s\<lparr>fs_ctx := ?ctx\<lparr>rt_pus5 := (rt_pus5 ?ctx)\<lparr>p5_msg_counter := bump (p5_msg_counter (rt_pus5 ?ctx)) 0\<rparr>,
      rt_tm_seq_count := next_seq (rt_tm_seq_count ?ctx)\<rparr>\<rparr>"
  have "fs_wf cfg t ?s" using assms by (simp add: fs_inv_def fs_wf_def router_inv_def framing_ok_def next_seq_le)
  moreover obtain views where "tm_burst MIGRIS_FSW_APID 0 (live_bytes (fs_log s)) views (rt_tm_seq_count ?ctx)"
    using fs_seq [OF assms] by blast
  moreover have "tm_result MIGRIS_FSW_APID (rt_tm_seq_count ?ctx) 20 (Inr pkt :: migris_pus5_status_t + bytes) (next_seq (rt_tm_seq_count ?ctx))"
    using b by (rule tm_resultI)
  ultimately have "fs_inv cfg t (transmit_result t (Inr pkt :: migris_pus5_status_t + bytes) ?s)"
    using fs_sent [OF assms] by (intro transmit_result_inv) simp_all
  then show ?thesis by (simp only: fsw_boot_event_def Let_def e prod.case)
qed

lemma boot_mode_inv:
  assumes "fs_inv cfg t s"
  shows "fs_inv cfg t (fsw_boot_mode cfg now s)"
proof (cases "CONFIG_FSW_MODE_DEMO cfg")
  case True
  then have "fdir_ok cfg (snd (migris_mode_request fdir_sink_report (fs_fdir s, fs_mode_mgr s) FSW_MODE_NOMINAL now))"
    using fs_wf_router [OF assms] by (intro fdir_ok_request) simp_all
  with assms show ?thesis by (auto simp: fsw_boot_mode_def fs_inv_def fs_wf_def framing_ok_def split: prod.splits)
qed (simp add: fsw_boot_mode_def assms)

lemma boot_inv:
  assumes "flash_map fa img ssize ok" "ok flash" "mem_ok mem" "cfg_ok cfg"
    and "distinct (map act_id (boot_schedule (fsw_init cfg fa mem flash)))"
  shows "fs_inv cfg (now_of boot_ms) (fsw_boot cfg fa mem flash boot_ms)"
  using boot_mode_inv [OF boot_event_inv [OF init_inv [OF assms]]]
  by (simp add: fsw_boot_def Let_def fs_inv_def fs_wf_def framing_ok_def)

lemma main_inv:
  assumes "flash_map fa img ssize ok" "ok flash" "mem_ok mem" "cfg_ok cfg"
    and "distinct (map act_id (boot_schedule (fsw_init cfg fa mem flash)))"
    and "clock_ok boot_ms inputs" "fsw_main cfg fa uart_ready mem flash boot_ms inputs = Some s"
  shows "fs_inv cfg (now_of (last (boot_ms # map in_uptime_ms inputs))) s"
  using run_inv [OF boot_inv [OF assms(1-5)] assms(6)] assms(7) by (simp add: fsw_main_def split: if_splits)

text \<open>A blank flash: nothing is restored, and the time-based schedule starts empty.\<close>

lemma boot_schedule_blank:
  assumes "flash_map fa img ssize ok" "ok flash" "mem_ok mem"
    and "nv_newest (fa_cells img ssize flash 0) (fa_cells img ssize flash 1) = None"
  shows "boot_schedule (fsw_init cfg fa mem flash) = []"
proof -
  obtain rc nv where load: "migris_nvstore_load (migris_nvstore_init (mem_nvstore mem) (Some (migris_fsw_nv_flash_backend fa))) flash = (rc, nv)"
    by force
  let ?nv0 = "migris_nvstore_init (mem_nvstore mem) (Some (migris_fsw_nv_flash_backend fa))"
  have "length (nv_payload ?nv0) = 1536" "nv_backend ?nv0 = Some (migris_fsw_nv_flash_backend fa)"
    using assms(3) by (simp_all add: mem_ok_def migris_nvstore_init_def fsw_const)
  from nv_flash.load_spec [OF flash_map.nv_contract [OF assms(1)] assms(2) this(2,1)] load assms(4)
  have "rc = NVSTORE_ERR_NO_VALID_IMAGE" by auto
  then show ?thesis
    unfolding boot_schedule_def init_fields(2) [OF load]
    by (simp add: restored_def migris_schedule_init_def sch_live_def)
qed

section \<open>A mission on a simulated flash\<close>

text \<open>RAM with leftovers of an earlier run in it, and a configuration with every demo switched on.\<close>

definition memory_example :: "bytes fsw_memory" where
  "memory_example = \<lparr>mem_fdir = fdir_example, mem_datapool = dp_example, mem_schedule = sched_example, mem_store = pks_blank,
     mem_hkstore = hks_example, mem_nvstore = nv_empty (migris_fsw_nv_flash_backend ram_area), mem_largedata = ld_blank,
     mem_mode_mgr = mode_example\<rparr>"

definition config_example :: fsw_config where
  "config_example = \<lparr>CONFIG_FSW_PUS3_HK_PERIOD_SEC = 10, CONFIG_FSW_MODE_DEMO = True, CONFIG_FSW_FDIR_RECOVERY_DEMO = True,
     CONFIG_FSW_FDIR_TC_REJECTED_THRESHOLD = 3, CONFIG_FSW_LARGEDATA_DEMO = True\<rparr>"

lemma memory_example_ok: "mem_ok memory_example"
  by (simp add: mem_ok_def memory_example_def fdir_example_def ef_blank_def migris_event_fifo_init_def migris_fdir_init_def dp_example_def
      dp_pad_def sched_example_def pks_blank_def migris_pktstore_init_def hks_example_def nv_empty_def mode_example_def fsw_const)

lemma config_example_ok: "cfg_ok config_example"
  by (simp add: cfg_ok_def config_example_def)

definition idle_input :: "nat \<Rightarrow> u8 option \<Rightarrow> loop_input" where
  "idle_input ms b = \<lparr>in_uptime_ms = ms, in_drops_hk = 0, in_drops_overflow = 0, in_drops_tc = 0, in_byte = b\<rparr>"

text \<open>The ping of the router's example, byte by byte, on the application's APID (its CRC does not match then).\<close>

definition inputs_example :: "loop_input list" where
  "inputs_example = map (\<lambda>b. idle_input 1500 (Some b)) (ping_example @ ping_example @ take 3 ping_example)"

lemma inputs_example_clock: "clock_ok 1200 inputs_example"
  by (simp add: clock_ok_def inputs_example_def idle_input_def ping_example_def)

lemma erased_mission:
  "(\<lambda>fl. length fl = 4096) (replicate 4096 (0xFF :: u8))"
  "distinct (map act_id (boot_schedule (fsw_init cfg ram_area memory_example (replicate 4096 0xFF))))"
  by (simp, simp add: boot_schedule_blank [OF ram.flash_map_axioms _ memory_example_ok ram_erased_newest])

section \<open>The properties of a mission\<close>

text \<open>
  C11: from boot on any RAM content and any flash whose restored schedule repeats no request identifier
  (the restore of the schedule, alone, does not check that), over any sequence of inputs whose clock does
  not go back and whose seconds fit 32 bits, the whole application stays well formed: every component's
  invariant holds, the stores stay attached, the datapool keeps its declared table, no more than 192 bytes
  are ever buffered, the telemetry sequence count is the one the bytes already sent imply, and every packet
  in the store was sent live before. Of the flash driver only the documented behaviour of a flash is assumed.
\<close>
theorem mission_stays_well_formed:
  assumes "flash_map fa img ssize ok" "ok flash" "mem_ok mem" "cfg_ok cfg"
    and "distinct (map act_id (boot_schedule (fsw_init cfg fa mem flash)))"
    and "clock_ok boot_ms inputs" "fsw_main cfg fa uart_ready mem flash boot_ms inputs = Some s"
  shows "fs_inv cfg (now_of (last (boot_ms # map in_uptime_ms inputs))) s"
  by (rule main_inv [OF assms])

lemma mission_stays_well_formed_witness:
  "\<exists>s. fsw_main config_example ram_area True memory_example (replicate 4096 0xFF) 1200 inputs_example = Some s
     \<and> fs_inv config_example (now_of (last (1200 # map in_uptime_ms inputs_example))) s"
proof -
  obtain s where s: "fsw_main config_example ram_area True memory_example (replicate 4096 0xFF) 1200 inputs_example = Some s"
    by (simp add: fsw_main_def)
  with mission_stays_well_formed [OF ram.flash_map_axioms erased_mission(1) memory_example_ok config_example_ok erased_mission(2)
      inputs_example_clock s] show ?thesis by blast
qed

lemma next_seq_count: "(next_seq ^^ i) 0 = of_nat (i mod 16384)"
proof (induction i)
  case (Suc i)
  have "next_seq (of_nat (i mod 16384)) = (of_nat (Suc i mod 16384) :: u16)"
  proof -
    have "(0x3FFF :: u16) = mask 14" by (simp add: mask_eq_exp_minus_1)
    then have "next_seq (of_nat (i mod 16384)) = take_bit 14 (of_nat (Suc (i mod 16384)))"
      by (simp add: next_seq_def take_bit_eq_mask add.commute)
    also have "\<dots> = of_nat (Suc (i mod 16384) mod 16384)"
      by (simp only: take_bit_of_nat) (simp only: take_bit_eq_mod, simp)
    finally show ?thesis by (simp only: mod_Suc_eq)
  qed
  with Suc show ?case by simp
qed simp

text \<open>
  C7: whatever is received, everything sent live since boot is an unbroken run of telemetry packets.
  Each parses (declared length, CRC, version), carries the application's APID, and the
  sequence counts are 0, 1, 2, ... modulo 2^14 across all services and ticks, the replays of the
  packet store not counted.
\<close>
theorem live_telemetry_is_one_sequence:
  assumes "flash_map fa img ssize ok" "ok flash" "mem_ok mem" "cfg_ok cfg"
    and "distinct (map act_id (boot_schedule (fsw_init cfg fa mem flash)))"
    and "clock_ok boot_ms inputs" "fsw_main cfg fa uart_ready mem flash boot_ms inputs = Some s"
  shows "\<exists>views. map tm_parse (sent_packets (fs_log s)) = map Some views
    \<and> concat (sent_packets (fs_log s)) = live_bytes (fs_log s)
    \<and> map (\<lambda>v. (ph_apid (tv_primary v), ph_seq_count (tv_primary v))) views
        = map (\<lambda>i. (0x100, of_nat (i mod 16384))) [0..<length views]"
proof -
  note inv = main_inv [OF assms]
  from fs_seq [OF inv] obtain views where
    b: "tm_burst MIGRIS_FSW_APID 0 (live_bytes (fs_log s)) views (rt_tm_seq_count (fs_ctx s))" by blast
  have "map (\<lambda>v. (ph_apid (tv_primary v), ph_seq_count (tv_primary v))) views
        = map (\<lambda>i. (0x100, of_nat (i mod 16384))) [0..<length views]"
    using tm_burst_stamps [OF b] by (intro nth_equalityI) (simp_all add: next_seq_count MIGRIS_FSW_APID_def)
  then show ?thesis using tm_burst_parse [OF b] fs_sent [OF inv] by (auto simp: sent_whole_def)
qed

lemma live_telemetry_is_one_sequence_witness:
  "\<exists>s views. fsw_main config_example ram_area True memory_example (replicate 4096 0xFF) 1200 inputs_example = Some s
     \<and> map tm_parse (sent_packets (fs_log s)) = map Some views
     \<and> map (\<lambda>v. (ph_apid (tv_primary v), ph_seq_count (tv_primary v))) views
        = map (\<lambda>i. (0x100, of_nat (i mod 16384))) [0..<length views]"
proof -
  obtain s where s: "fsw_main config_example ram_area True memory_example (replicate 4096 0xFF) 1200 inputs_example = Some s"
    by (simp add: fsw_main_def)
  with live_telemetry_is_one_sequence [OF ram.flash_map_axioms erased_mission(1) memory_example_ok config_example_ok erased_mission(2)
      inputs_example_clock s] show ?thesis by blast
qed

text \<open>
  C10: a replay from the packet store sends nothing but copies: every packet the replay tick puts on
  the link is one packet of a burst that was sent live earlier, verbatim, so a
  retrieval never invents, merges or truncates telemetry.
\<close>
theorem replays_repeat_live_telemetry:
  assumes "flash_map fa img ssize ok" "ok flash" "mem_ok mem" "cfg_ok cfg"
    and "distinct (map act_id (boot_schedule (fsw_init cfg fa mem flash)))"
    and "clock_ok boot_ms inputs" "fsw_main cfg fa uart_ready mem flash boot_ms inputs = Some s"
  shows "\<forall>i p. i < length (fs_log s) \<and> fs_log s ! i = Replayed_tm p \<longrightarrow>
    (\<exists>j b. j < i \<and> fs_log s ! j = Live_tm b \<and> p \<in> set (burst_packets b))"
proof (intro allI impI)
  fix i p
  assume at: "i < length (fs_log s) \<and> fs_log s ! i = Replayed_tm p"
  have "replays_sent (fs_log s)" using main_inv [OF assms(1-7)] by (simp add: fs_inv_def fs_wf_def)
  with at have "p \<in> set (sent_packets (take i (fs_log s)))" by (auto simp: replays_sent_def)
  then obtain a where a: "a \<in> set (take i (fs_log s))" "p \<in> set (case a of Live_tm b \<Rightarrow> burst_packets b | _ \<Rightarrow> [])"
    by (auto simp: sent_packets_def)
  then obtain j where "j < i" "fs_log s ! j = a" using at by (auto simp: in_set_conv_nth)
  with a(2) show "\<exists>j b. j < i \<and> fs_log s ! j = Live_tm b \<and> p \<in> set (burst_packets b)" by (cases a) (simp_all, metis)
qed

lemma replays_repeat_live_telemetry_witness:
  "\<exists>s. fsw_main config_example ram_area True memory_example (replicate 4096 0xFF) 1200 inputs_example = Some s
     \<and> (\<forall>i p. i < length (fs_log s) \<and> fs_log s ! i = Replayed_tm p \<longrightarrow>
          (\<exists>j b. j < i \<and> fs_log s ! j = Live_tm b \<and> p \<in> set (burst_packets b)))"
proof -
  obtain s where s: "fsw_main config_example ram_area True memory_example (replicate 4096 0xFF) 1200 inputs_example = Some s"
    by (simp add: fsw_main_def)
  with replays_repeat_live_telemetry [OF ram.flash_map_axioms erased_mission(1) memory_example_ok config_example_ok erased_mission(2)
      inputs_example_clock s] show ?thesis by blast
qed

end
