(* ===== verification/Framing.thy ===== *)
theory Framing
  imports Mission
begin

text \<open>
  The framing of the received byte stream, over a whole run of the main loop of
  samples/tc_uart/src/main.c: only the reception tick touches the buffer, and a stream of
  well-formed packets is cut into exactly these packets.
\<close>

section \<open>What the loop does to the buffer\<close>

text \<open>The buffer, the announced length, and the telecommands received so far.\<close>

definition rx_view :: "'f fsw_state \<Rightarrow> (bytes \<times> nat) \<times> bytes list" where
  "rx_view s = ((fs_tc s, fs_want s), received_tcs (fs_log s))"

definition rx_step :: "u8 \<Rightarrow> (bytes \<times> nat) \<times> bytes list \<Rightarrow> (bytes \<times> nat) \<times> bytes list" where
  "rx_step b v = (case frame_byte (fst v) b of (f, None) \<Rightarrow> (f, snd v) | (f, Some tc) \<Rightarrow> (f, snd v @ [tc]))"

lemma rx_view_transmit [simp]: "rx_view (transmit_result t r s) = rx_view s"
  by (simp add: rx_view_def transmit_result_def transmit_tm_def split: sum.split)

lemma rx_view_other [simp]:
  "rx_view (s\<lparr>fs_ctx := c\<rparr>) = rx_view s" "rx_view (s\<lparr>fs_fdir := f\<rparr>) = rx_view s" "rx_view (s\<lparr>fs_mode_mgr := m\<rparr>) = rx_view s"
  "rx_view (s\<lparr>fs_nvstore := nv\<rparr>) = rx_view s" "rx_view (s\<lparr>fs_flash := fl\<rparr>) = rx_view s" "rx_view (s\<lparr>fs_largedata := ld\<rparr>) = rx_view s"
  "rx_view (s\<lparr>fs_pus3_ctx := p\<rparr>) = rx_view s" "rx_view (s\<lparr>fs_last_hk_emit_sec := n\<rparr>) = rx_view s"
  "rx_view (s\<lparr>fs_last_reported_rx_drops := n\<rparr>) = rx_view s" "rx_view (s\<lparr>fs_last_saved_gen_dp := n\<rparr>) = rx_view s"
  "rx_view (s\<lparr>fs_last_saved_gen_sched := n\<rparr>) = rx_view s" "rx_view (s\<lparr>fs_last_saved_gen_hk := n\<rparr>) = rx_view s"
  "rx_view (s\<lparr>fs_last_saved_gen_mode := n\<rparr>) = rx_view s"
  by (simp_all add: rx_view_def)

lemma rx_view_dispatch [simp]: "rx_view (fsw_dispatch t tc s) = rx_view s"
  by (simp add: fsw_dispatch_def split: prod.split)

lemma rx_view_ticks [simp]:
  "rx_view (fsw_save_tick cfg s) = rx_view s" "rx_view (fsw_hk_tick t drops s) = rx_view s"
  "rx_view (fsw_dynamic_hk_tick t s) = rx_view s" "rx_view (fsw_overflow_tick t drops s) = rx_view s"
  "rx_view (fsw_drain_tick t s) = rx_view s" "rx_view (fsw_release_tick t s) = rx_view s"
  "rx_view (fsw_largedata_tick cfg t s) = rx_view s"
  by (simp_all add: fsw_save_tick_def fsw_hk_tick_def fsw_dynamic_hk_tick_def fsw_overflow_tick_def fsw_drain_tick_def
      fsw_release_tick_def fsw_largedata_tick_def Let_def split: prod.split option.split sum.split)

lemma rx_view_replay [simp]: "rx_view (fsw_replay_tick s) = rx_view s"
  by (simp add: fsw_replay_tick_def rx_view_def Let_def split: prod.split option.split sum.split)

lemma rx_view_rx_tick:
  "rx_view (fsw_rx_tick t drops got s) = (case got of None \<Rightarrow> rx_view s | Some b \<Rightarrow> rx_step b (rx_view s))"
proof (cases got)
  case (Some b)
  have "received_tcs (fs_log (received_from t drops tc s)) = received_tcs (fs_log s) @ [tc]" for tc
    using rx_view_dispatch [of t tc "s\<lparr>fs_ctx := (fs_ctx s)\<lparr>rt_rx_ring_overflow_drops := drops\<rparr>, fs_log := fs_log s @ [Tc_received tc]\<rparr>"]
    by (simp add: received_from_def rx_view_def)
  then show ?thesis
    by (auto simp: Some rx_tick_frame rx_step_def rx_view_def split: prod.split option.split)
qed (simp add: fsw_rx_tick_def)

lemma rx_view_iteration:
  "rx_view (fsw_iteration cfg inp s) = (case in_byte inp of None \<Rightarrow> rx_view s | Some b \<Rightarrow> rx_step b (rx_view s))"
  by (simp add: fsw_iteration_def Let_def rx_view_rx_tick split: option.split)

text \<open>The bytes the iterations took from the ring buffer.\<close>

definition received_bytes :: "loop_input list \<Rightarrow> bytes" where
  "received_bytes inputs = List.map_filter in_byte inputs"

lemma rx_view_run: "rx_view (fsw_run cfg inputs s) = fold rx_step (received_bytes inputs) (rx_view s)"
proof (induction inputs arbitrary: s)
  case (Cons inp inputs)
  then show ?case
    by (simp add: fsw_run_def received_bytes_def map_filter_simps rx_view_iteration split: option.split)
qed (simp add: fsw_run_def received_bytes_def map_filter_simps)

lemma rx_view_boot: "rx_view (fsw_boot cfg fa mem flash boot_ms) = (([], 0), [])"
proof -
  have "rx_view (fsw_init cfg fa mem flash) = (([], 0), [])"
    by (simp add: fsw_init_def Let_def rx_view_def split: prod.split)
  then show ?thesis
    by (simp add: fsw_boot_def fsw_boot_mode_def fsw_boot_event_def Let_def split: prod.split)
qed

section \<open>Whole packets\<close>

text \<open>What the ground sends: a packet whose length is the one its header declares, and that fits the buffer.\<close>

definition tc_framed :: "bytes \<Rightarrow> bool" where
  "tc_framed tc \<longleftrightarrow> MIGRIS_CCSDS_PRIMARY_HEADER_SIZE \<le> length tc
     \<and> length tc = migris_ccsds_packet_total_size (rd16_at tc 4) \<and> length tc \<le> TC_BUF_SIZE"

lemma rx_prefix:
  assumes "tc_framed tc" "n < length tc"
  shows "fold rx_step (take n tc) (([], 0), acc)
    = ((take n tc, if n < MIGRIS_CCSDS_PRIMARY_HEADER_SIZE then 0 else length tc), acc)"
  using assms(2)
proof (induction n)
  case (Suc n)
  have t: "take (Suc n) tc = take n tc @ [tc ! n]" using Suc.prems by (simp add: take_Suc_conv_app_nth)
  have rd: "rd16_at (take (Suc n) tc) 4 = rd16_at tc 4" if "Suc n = MIGRIS_CCSDS_PRIMARY_HEADER_SIZE"
    using that by (simp add: rd16_at_def fsw_const)
  have l: "length (take n tc @ [tc ! n]) = Suc n" using Suc.prems by simp
  have ok: "6 \<le> length tc" "migris_ccsds_packet_total_size (rd16_at tc 4) = length tc" "length tc \<le> 192"
    using assms(1) by (simp_all add: tc_framed_def fsw_const)
  have "fold rx_step (take (Suc n) tc) (([], 0), acc)
      = rx_step (tc ! n) ((take n tc, if n < MIGRIS_CCSDS_PRIMARY_HEADER_SIZE then 0 else length tc), acc)"
    using Suc by (simp add: t)
  also have "\<dots> = ((take (Suc n) tc, if Suc n < MIGRIS_CCSDS_PRIMARY_HEADER_SIZE then 0 else length tc), acc)"
    using rd ok l Suc.prems unfolding t
    by (auto simp: rx_step_def frame_byte_def Let_def fsw_const)
  finally show ?case .
qed simp

lemma rx_packet:
  assumes "tc_framed tc"
  shows "fold rx_step tc (([], 0), acc) = (([], 0), acc @ [tc])"
proof -
  let ?n = "length tc - 1"
  have ok: "6 \<le> length tc" "6 < length tc" using assms by (auto simp: tc_framed_def migris_ccsds_packet_total_size_def fsw_const)
  then have n: "?n < length tc" "tc = take ?n tc @ [tc ! ?n]" by (simp_all add: take_Suc_conv_app_nth [symmetric])
  have late: "(?n < MIGRIS_CCSDS_PRIMARY_HEADER_SIZE) = False" using ok by (simp add: fsw_const)
  have "fold rx_step tc (([], 0), acc) = rx_step (tc ! ?n) (fold rx_step (take ?n tc) (([], 0), acc))"
    by (subst n(2)) simp
  also have "\<dots> = rx_step (tc ! ?n) ((take ?n tc, length tc), acc)"
    by (simp only: rx_prefix [OF assms n(1)] late if_False)
  also have "\<dots> = (([], 0), acc @ [tc])"
    using ok n(2) [symmetric] by (auto simp: rx_step_def frame_byte_def Let_def fsw_const)
  finally show ?thesis .
qed

lemma rx_packets: "\<forall>tc \<in> set tcs. tc_framed tc \<Longrightarrow> fold rx_step (concat tcs) (([], 0), acc) = (([], 0), acc @ tcs)"
  by (induction tcs arbitrary: acc) (simp_all add: rx_packet)

text \<open>
  C9: a stream of telecommands, sent back to back at any pace (iterations that receive nothing in
  between do not matter), each as long as its primary header declares and at most 192 bytes,
  reaches the router as exactly these telecommands, verbatim and in order; what is left in the
  buffer is the part of the next one that has arrived. Nothing the other ticks do, telemetry,
  schedule releases, replays or flash writes, disturbs the reception.
\<close>
theorem telecommand_stream_is_cut_exactly:
  assumes "fsw_main cfg fa True mem flash boot_ms inputs = Some s"
    and "received_bytes inputs = concat tcs @ take n next" "\<forall>tc \<in> set (next # tcs). tc_framed tc" "n < length next"
  shows "received_tcs (fs_log s) = tcs \<and> fs_tc s = take n next"
proof -
  have "rx_view s = fold rx_step (take n next) (fold rx_step (concat tcs) (([], 0), []))"
    using assms(1,2) rx_view_run [of cfg inputs "fsw_boot cfg fa mem flash boot_ms"] rx_view_boot [of cfg fa mem flash boot_ms]
    by (simp add: fsw_main_def)
  also have "\<dots> = ((take n next, if n < MIGRIS_CCSDS_PRIMARY_HEADER_SIZE then 0 else length next), tcs)"
    using assms(3,4) rx_packets [of tcs "[]"] rx_prefix [of "next" n tcs] by simp
  finally show ?thesis by (simp add: rx_view_def)
qed

lemma telecommand_stream_is_cut_exactly_witness:
  "\<exists>s. fsw_main config_example ram_area True memory_example (replicate 4096 0xFF) 1200 inputs_example = Some s
     \<and> received_tcs (fs_log s) = [ping_example, ping_example] \<and> fs_tc s = take 3 ping_example"
proof -
  obtain s where s: "fsw_main config_example ram_area True memory_example (replicate 4096 0xFF) 1200 inputs_example = Some s"
    by (simp add: fsw_main_def)
  have r: "received_bytes inputs_example = concat [ping_example, ping_example] @ take 3 ping_example"
    by (simp add: received_bytes_def inputs_example_def idle_input_def ping_example_def map_filter_simps)
  have "tc_framed ping_example"
    by (simp add: tc_framed_def ping_example_def rd16_at_def rd16_def migris_ccsds_packet_total_size_def fsw_const)
  with telecommand_stream_is_cut_exactly [OF s r] have "received_tcs (fs_log s) = [ping_example, ping_example] \<and> fs_tc s = take 3 ping_example"
    by (simp add: ping_example_def)
  with s show ?thesis by blast
qed

end
