(* ===== verification/Reboot.thy ===== *)
theory Reboot
  imports Mission
begin

text \<open>
  Persistence of the application of samples/tc_uart/src/main.c: what a save tick writes, and what a
  later boot on the same flash restores.
\<close>

section \<open>Only the save tick touches the persistent store\<close>

definition nv_view :: "'f fsw_state \<Rightarrow> 'f migris_nvstore_t \<times> 'f" where
  "nv_view s = (fs_nvstore s, fs_flash s)"

lemma nv_view_transmit [simp]: "nv_view (transmit_result t r s) = nv_view s"
  by (simp add: nv_view_def transmit_result_def transmit_tm_def split: sum.split)

lemma nv_view_other [simp]:
  "nv_view (s\<lparr>fs_ctx := c\<rparr>) = nv_view s" "nv_view (s\<lparr>fs_fdir := f\<rparr>) = nv_view s" "nv_view (s\<lparr>fs_mode_mgr := m\<rparr>) = nv_view s"
  "nv_view (s\<lparr>fs_largedata := ld\<rparr>) = nv_view s" "nv_view (s\<lparr>fs_pus3_ctx := p\<rparr>) = nv_view s"
  "nv_view (s\<lparr>fs_last_hk_emit_sec := n\<rparr>) = nv_view s" "nv_view (s\<lparr>fs_last_reported_rx_drops := n\<rparr>) = nv_view s"
  "nv_view (s\<lparr>fs_log := l\<rparr>) = nv_view s" "nv_view (s\<lparr>fs_tc := b\<rparr>) = nv_view s" "nv_view (s\<lparr>fs_want := w\<rparr>) = nv_view s"
  by (simp_all add: nv_view_def)

lemma nv_view_dispatch [simp]: "nv_view (fsw_dispatch t tc s) = nv_view s"
  by (simp add: fsw_dispatch_def split: prod.split)

lemma nv_view_ticks [simp]:
  "nv_view (fsw_hk_tick t drops s) = nv_view s" "nv_view (fsw_dynamic_hk_tick t s) = nv_view s"
  "nv_view (fsw_overflow_tick t drops s) = nv_view s" "nv_view (fsw_drain_tick t s) = nv_view s"
  "nv_view (fsw_release_tick t s) = nv_view s" "nv_view (fsw_replay_tick s) = nv_view s"
  "nv_view (fsw_largedata_tick cfg t s) = nv_view s" "nv_view (fsw_rx_tick t drops got s) = nv_view s"
  by (simp_all add: fsw_hk_tick_def fsw_dynamic_hk_tick_def fsw_overflow_tick_def fsw_drain_tick_def fsw_release_tick_def
      fsw_replay_tick_def fsw_largedata_tick_def fsw_rx_tick_def fsw_complete_def Let_def split: prod.split option.split sum.split)

lemma nv_view_iteration: "nv_view (fsw_iteration cfg inp s) = nv_view (fsw_save_tick cfg s)"
  by (simp add: fsw_iteration_def Let_def)

lemma nv_view_boot: "nv_view (fsw_boot cfg fa mem flash boot_ms) = nv_view (fsw_init cfg fa mem flash)"
  by (simp add: fsw_boot_def fsw_boot_mode_def fsw_boot_event_def Let_def split: prod.split)

section \<open>The store and the flash stay consistent\<close>

definition nv_good :: "('f \<Rightarrow> nat \<Rightarrow> bytes) \<Rightarrow> ('f \<Rightarrow> bool) \<Rightarrow> 'f migris_nv_backend_t \<Rightarrow> 'f migris_nvstore_t \<times> 'f \<Rightarrow> bool" where
  "nv_good cells ok b v \<longleftrightarrow> ok (snd v) \<and> nv_backend (fst v) = Some b \<and> nv_wf (fst v) \<and> nv_tracks (cells (snd v)) (fst v)"

lemma nv_wf_sized: "nv_wf nv \<Longrightarrow> length (nv_payload nv) = 1536 \<and> nv_payload_len nv \<le> 1536"
  by (auto simp: nv_wf_def nv_recs_def fsw_const)

text \<open>What the position of the images in the flash and the backend are taken from: a put leaves it alone.\<close>

definition nv_same_place :: "'f migris_nvstore_t \<Rightarrow> 'f migris_nvstore_t \<Rightarrow> bool" where
  "nv_same_place nv nv' \<longleftrightarrow> nv_backend nv' = nv_backend nv \<and> nv_loaded nv' = nv_loaded nv
     \<and> nv_loaded_seq nv' = nv_loaded_seq nv \<and> nv_loaded_sector nv' = nv_loaded_sector nv"

lemma same_place_simps: "nv_same_place nv nv"
  "nv_same_place nv nv1 \<Longrightarrow> nv_same_place nv1 nv2 \<Longrightarrow> nv_same_place nv nv2"
  by (simp_all add: nv_same_place_def)

lemma same_place_good: "nv_same_place nv nv' \<Longrightarrow> nv_wf nv' \<Longrightarrow> nv_good cells ok b (nv, fl) \<Longrightarrow> nv_good cells ok b (nv', fl)"
  by (simp add: nv_good_def nv_same_place_def nv_tracks_def del: One_nat_def)

lemma map_of_kept: "k \<noteq> t \<Longrightarrow> map_of (filter (\<lambda>r. fst r \<noteq> t) rs) k = map_of rs k"
  by (induction rs) auto

lemma map_of_dropped: "map_of (filter (\<lambda>r. fst r \<noteq> t) rs) t = None"
  by (induction rs) auto

lemma put_effect:
  assumes "nv_wf nv" "migris_nvstore_put nv t bs = (rc, nv')"
  shows "nv_wf nv' \<and> nv_same_place nv nv' \<and> (\<forall>k. k \<noteq> t \<longrightarrow> migris_nvstore_get nv' k = migris_nvstore_get nv k)
    \<and> (rc = NVSTORE_OK \<longrightarrow> migris_nvstore_get nv' t = Inr bs)"
proof -
  from assms(1) obtain rs where rs: "nv_recs nv rs" by (auto simp: nv_wf_def)
  let ?kept = "filter (\<lambda>r. fst r \<noteq> t) rs"
  have place: "nv_same_place nv nv'"
    using put_sized [OF _ _ assms(2)] nv_wf_sized [OF assms(1)] by (simp add: nv_same_place_def)
  consider "rc = NVSTORE_OK" "nv_recs nv' (?kept @ [(t, bs)])" | "rc = NVSTORE_ERR_FULL" "nv_recs nv' ?kept"
    using put_spec [OF rs, of t bs] assms(2) by (cases "length (recs_bytes ?kept) + 3 + length bs \<le> 1536") auto
  then show ?thesis
  proof cases
    case 1
    then show ?thesis using place
      by (auto simp: nv_wf_def get_spec [OF 1(2)] get_spec [OF rs] map_of_kept map_add_def map_of_dropped split: option.split)
  next
    case 2
    then show ?thesis using place
      by (auto simp: nv_wf_def get_spec [OF 2(2)] get_spec [OF rs] map_of_kept)
  qed
qed

text \<open>
  One subsystem's part of the save tick: the other records stay, and if the generation remembered as
  saved moves then the record is the serialised object.
\<close>

definition autosaved :: "u8 \<Rightarrow> 'e + bytes \<Rightarrow> u32 \<Rightarrow> 'f migris_nvstore_t \<Rightarrow> bool \<times> u32 \<times> 'f migris_nvstore_t \<Rightarrow> bool" where
  "autosaved t ser saved nv r \<longleftrightarrow> (case r of (dirty, gen, nv') \<Rightarrow>
     nv_wf nv' \<and> nv_same_place nv nv' \<and> (\<forall>k. k \<noteq> t \<longrightarrow> migris_nvstore_get nv' k = migris_nvstore_get nv k)
     \<and> (gen \<noteq> saved \<longrightarrow> dirty \<and> (\<exists>img. ser = Inr img \<and> migris_nvstore_get nv' t = Inr img)))"

lemma autosave_effect:
  assumes "nv_wf nv"
  shows "autosaved t (serialize obj cap) saved nv (nv_autosave_tick t serialize obj cur saved cap nv)"
proof -
  have "autosaved t (serialize obj cap) saved nv (False, saved, nv)"
    using assms by (simp add: autosaved_def same_place_simps)
  moreover have "autosaved t (serialize obj cap) saved nv (if rc \<noteq> NVSTORE_OK then (False, saved, nv') else (True, cur, nv'))"
    if "serialize obj cap = Inr bs" "migris_nvstore_put nv t bs = (rc, nv')" for bs rc nv'
    using put_effect [OF assms that(2)] that(1) by (auto simp: autosaved_def)
  ultimately show ?thesis
    by (auto simp: nv_autosave_tick_def Let_def split: sum.split prod.split)
qed

section \<open>The save tick and the boot after it\<close>

text \<open>
  What a save tick leaves in the store for a subsystem whose remembered generation it moved; the flash
  image it wrote carries the same records.
\<close>

lemma save_tick_puts:
  fixes cfg :: fsw_config
  assumes "rt_datapool (fs_ctx s) = Some d" "rt_schedule (fs_ctx s) = Some c" "rt_hkstore (fs_ctx s) = Some h" "nv_wf (fs_nvstore s)"
  defines "s' \<equiv> fsw_save_tick cfg s"
  obtains nv4 dirty where "nv_wf nv4" "nv_same_place (fs_nvstore s) nv4"
    "fs_last_saved_gen_dp s' \<noteq> fs_last_saved_gen_dp s \<longrightarrow>
      (\<exists>bs. migris_datapool_serialize d 64 = Inr bs \<and> migris_nvstore_get nv4 1 = Inr bs)"
    "fs_last_saved_gen_sched s' \<noteq> fs_last_saved_gen_sched s \<longrightarrow>
      (\<exists>bs. migris_schedule_serialize c 1200 = Inr bs \<and> migris_nvstore_get nv4 2 = Inr bs)"
    "fs_last_saved_gen_hk s' \<noteq> fs_last_saved_gen_hk s \<longrightarrow>
      (\<exists>bs. migris_hkstore_serialize h 256 = Inr bs \<and> migris_nvstore_get nv4 3 = Inr bs)"
    "fs_last_saved_gen_mode s' \<noteq> fs_last_saved_gen_mode s \<longrightarrow> CONFIG_FSW_MODE_DEMO cfg \<and>
      (\<exists>bs. migris_mode_serialize (fs_mode_mgr s) 8 = Inr bs \<and> migris_nvstore_get nv4 4 = Inr bs)"
    "(fs_nvstore s', fs_flash s') = (if dirty then snd (migris_nvstore_save nv4 (fs_flash s)) else (nv4, fs_flash s))"
proof -
  obtain b1 g1 nv1 b2 g2 nv2 b3 g3 nv3 b4 g4 nv4 nv5 fl5 where
    e1: "nv_autosave_tick 1 migris_datapool_serialize d (dp_generation d) (fs_last_saved_gen_dp s) 64 (fs_nvstore s) = (b1, g1, nv1)"
    and e2: "nv_autosave_tick 2 migris_schedule_serialize c (sch_generation c) (fs_last_saved_gen_sched s) 1200 nv1 = (b2, g2, nv2)"
    and e3: "nv_autosave_tick 3 migris_hkstore_serialize h (hks_generation h) (fs_last_saved_gen_hk s) 256 nv2 = (b3, g3, nv3)"
    and e4: "(if CONFIG_FSW_MODE_DEMO cfg
      then nv_autosave_tick 4 migris_mode_serialize (fs_mode_mgr s) (mm_generation (fs_mode_mgr s)) (fs_last_saved_gen_mode s) 8 nv3
      else (False, fs_last_saved_gen_mode s, nv3)) = (b4, g4, nv4)"
    and e5: "(if b1 \<or> b2 \<or> b3 \<or> b4 then snd (migris_nvstore_save nv4 (fs_flash s)) else (nv4, fs_flash s)) = (nv5, fl5)"
    and s': "s' = s\<lparr>fs_nvstore := nv5, fs_flash := fl5, fs_last_saved_gen_dp := g1, fs_last_saved_gen_sched := g2,
       fs_last_saved_gen_hk := g3, fs_last_saved_gen_mode := g4\<rparr>"
    unfolding s'_def by (rule save_tick_steps [OF assms(1-3)])
  have a1: "autosaved 1 (migris_datapool_serialize d 64) (fs_last_saved_gen_dp s) (fs_nvstore s) (b1, g1, nv1)"
    unfolding e1 [symmetric] by (rule autosave_effect [OF assms(4)])
  then have "nv_wf nv1" by (simp add: autosaved_def)
  then have a2: "autosaved 2 (migris_schedule_serialize c 1200) (fs_last_saved_gen_sched s) nv1 (b2, g2, nv2)"
    unfolding e2 [symmetric] by (rule autosave_effect)
  then have "nv_wf nv2" by (simp add: autosaved_def)
  then have a3: "autosaved 3 (migris_hkstore_serialize h 256) (fs_last_saved_gen_hk s) nv2 (b3, g3, nv3)"
    unfolding e3 [symmetric] by (rule autosave_effect)
  then have w3: "nv_wf nv3" by (simp add: autosaved_def)
  have a4: "autosaved 4 (migris_mode_serialize (fs_mode_mgr s) 8) (fs_last_saved_gen_mode s) nv3 (b4, g4, nv4)
      \<and> (g4 \<noteq> fs_last_saved_gen_mode s \<longrightarrow> CONFIG_FSW_MODE_DEMO cfg)"
    using autosave_effect [OF w3, of 4 migris_mode_serialize "fs_mode_mgr s" 8 "fs_last_saved_gen_mode s"
        "mm_generation (fs_mode_mgr s)"] w3 e4
    by (auto simp: autosaved_def same_place_simps split: if_splits)
  have "nv_wf nv4" using a4 by (simp add: autosaved_def)
  moreover have "nv_same_place (fs_nvstore s) nv4"
    using a1 a2 a3 a4 by (auto simp: autosaved_def intro: same_place_simps(2))
  moreover have "g1 \<noteq> fs_last_saved_gen_dp s \<longrightarrow> (\<exists>bs. migris_datapool_serialize d 64 = Inr bs \<and> migris_nvstore_get nv4 1 = Inr bs)"
    using a1 a2 a3 a4 by (simp add: autosaved_def)
  moreover have "g2 \<noteq> fs_last_saved_gen_sched s \<longrightarrow> (\<exists>bs. migris_schedule_serialize c 1200 = Inr bs \<and> migris_nvstore_get nv4 2 = Inr bs)"
    using a2 a3 a4 by (simp add: autosaved_def)
  moreover have "g3 \<noteq> fs_last_saved_gen_hk s \<longrightarrow> (\<exists>bs. migris_hkstore_serialize h 256 = Inr bs \<and> migris_nvstore_get nv4 3 = Inr bs)"
    using a3 a4 by (simp add: autosaved_def)
  moreover have "g4 \<noteq> fs_last_saved_gen_mode s \<longrightarrow> CONFIG_FSW_MODE_DEMO cfg \<and>
      (\<exists>bs. migris_mode_serialize (fs_mode_mgr s) 8 = Inr bs \<and> migris_nvstore_get nv4 4 = Inr bs)"
    using a4 by (simp add: autosaved_def)
  moreover have "(nv5, fl5) = (if b1 \<or> b2 \<or> b3 \<or> b4 then snd (migris_nvstore_save nv4 (fs_flash s)) else (nv4, fs_flash s))"
    by (simp only: e5)
  ultimately show ?thesis by (intro that) (simp_all add: s')
qed

text \<open>What the write to flash then does: nothing is lost if it fails, and the next boot finds it if it does not.\<close>

lemma save_step:
  assumes "flash_map fa img ssize ok" "nv_good (fa_cells img ssize) ok (migris_fsw_nv_flash_backend fa) (nv, fl)"
    and "migris_nvstore_save nv fl = (rc, nv', fl')"
  shows "nv_good (fa_cells img ssize) ok (migris_fsw_nv_flash_backend fa) (nv', fl')"
    and "\<forall>k. migris_nvstore_get nv' k = migris_nvstore_get nv k"
    and "nv_loaded_seq nv' \<noteq> nv_loaded_seq nv \<Longrightarrow> rc = NVSTORE_OK"
proof -
  note fl = flash_map.nv_contract [OF assms(1)]
  from assms(2) have g: "ok fl" "nv_backend nv = Some (migris_fsw_nv_flash_backend fa)" "nv_wf nv" "nv_tracks (fa_cells img ssize fl) nv"
    by (simp_all add: nv_good_def)
  note z = nv_wf_sized [OF g(3)]
  note sp = nv_flash.save_spec [OF fl g(1,2) z [THEN conjunct1] z [THEN conjunct2] assms(3)]
  have same: "nv_payload nv' = nv_payload nv" "nv_payload_len nv' = nv_payload_len nv" "nv_backend nv' = nv_backend nv"
    using sp(3) by auto
  then show "\<forall>k. migris_nvstore_get nv' k = migris_nvstore_get nv k" by (simp add: migris_nvstore_get_def nvstore_locate_def split: option.split)
  have "nv_wf nv'" using g(3) same by (simp add: nv_wf_def nv_recs_def)
  moreover have "nv_tracks (fa_cells img ssize fl') nv'"
    using nv_flash.save_tracks [OF fl flash_map.nv_geometry [OF assms(1)] g(1,2) z [THEN conjunct2] z [THEN conjunct1] g(4) assms(3)] .
  ultimately show "nv_good (fa_cells img ssize) ok (migris_fsw_nv_flash_backend fa) (nv', fl')"
    using sp(1) same(3) g(2) by (simp add: nv_good_def)
  show "nv_loaded_seq nv' \<noteq> nv_loaded_seq nv \<Longrightarrow> rc = NVSTORE_OK" using sp(3) by auto
qed

lemma save_tick_good:
  fixes cfg :: fsw_config
  assumes "flash_map fa img ssize ok" "nv_good (fa_cells img ssize) ok (migris_fsw_nv_flash_backend fa) (nv_view s)" "fs_inv cfg t s"
  shows "nv_good (fa_cells img ssize) ok (migris_fsw_nv_flash_backend fa) (nv_view (fsw_save_tick cfg s))"
proof -
  from assms(3) obtain d c h where p: "rt_datapool (fs_ctx s) = Some d" "rt_schedule (fs_ctx s) = Some c" "rt_hkstore (fs_ctx s) = Some h"
    by (auto simp: fs_inv_def fs_wf_def)
  have good: "nv_good (fa_cells img ssize) ok (migris_fsw_nv_flash_backend fa) (fs_nvstore s, fs_flash s)"
    using assms(2) by (simp add: nv_view_def)
  then have "nv_wf (fs_nvstore s)" by (simp add: nv_good_def)
  from save_tick_puts [OF p this, of cfg] obtain nv4 dirty where nv4: "nv_wf nv4" "nv_same_place (fs_nvstore s) nv4"
    and e: "(fs_nvstore (fsw_save_tick cfg s), fs_flash (fsw_save_tick cfg s))
      = (if dirty then snd (migris_nvstore_save nv4 (fs_flash s)) else (nv4, fs_flash s))" by metis
  have g4: "nv_good (fa_cells img ssize) ok (migris_fsw_nv_flash_backend fa) (nv4, fs_flash s)"
    by (rule same_place_good [OF nv4(2,1) good])
  obtain rc nv5 fl5 where sv: "migris_nvstore_save nv4 (fs_flash s) = (rc, nv5, fl5)" by (metis prod_cases3)
  show ?thesis
    using save_step(1) [OF assms(1) g4 sv] g4 e by (cases dirty) (simp_all add: nv_view_def sv)
qed

lemma run_good:
  assumes "flash_map fa img ssize ok" "nv_good (fa_cells img ssize) ok (migris_fsw_nv_flash_backend fa) (nv_view s)"
    and "fs_inv cfg (now_of ms) s" "clock_ok ms inputs"
  shows "nv_good (fa_cells img ssize) ok (migris_fsw_nv_flash_backend fa) (nv_view (fsw_run cfg inputs s))"
  using assms(2-4)
proof (induction inputs arbitrary: ms s)
  case (Cons inp inputs)
  then have "now_of ms \<le> now_of (in_uptime_ms inp)" by (intro now_of_mono) (auto simp: clock_ok_def)
  from iteration_inv [OF Cons.prems(2) this] have "fs_inv cfg (now_of (in_uptime_ms inp)) (fsw_iteration cfg inp s)" .
  from Cons.IH [OF _ this] save_tick_good [OF assms(1) Cons.prems(1,2)] Cons.prems(3) show ?case
    by (simp add: clock_ok_def fsw_run_def nv_view_iteration)
qed (simp add: fsw_run_def)

text \<open>
  The flash a mission may start from: no valid image at all, or a newest image that is a list of
  records of different types, as every image a save wrote is.
\<close>

definition image_wf :: "(nat \<Rightarrow> bytes) \<Rightarrow> bool" where
  "image_wf cells \<longleftrightarrow> (case nv_newest (cells 0) (cells 1) of None \<Rightarrow> True
     | Some (i, q, p) \<Rightarrow> \<exists>rs. p = recs_bytes rs \<and> distinct (map fst rs))"

lemma init_good:
  assumes "flash_map fa img ssize ok" "ok flash" "mem_ok mem" "image_wf (fa_cells img ssize flash)"
  shows "nv_good (fa_cells img ssize) ok (migris_fsw_nv_flash_backend fa) (nv_view (fsw_init cfg fa mem flash))"
proof -
  note fl = flash_map.nv_contract [OF assms(1)]
  let ?nv0 = "migris_nvstore_init (mem_nvstore mem) (Some (migris_fsw_nv_flash_backend fa))"
  have z: "length (nv_payload ?nv0) = 1536" "nv_backend ?nv0 = Some (migris_fsw_nv_flash_backend fa)"
    using assms(3) by (simp_all add: mem_ok_def migris_nvstore_init_def fsw_const)
  from nv_flash.load_spec [OF fl assms(2) z(2,1)] obtain rc nv where load: "migris_nvstore_load ?nv0 flash = (rc, nv)"
    and l: "nv_loaded_as nv (nv_newest (fa_cells img ssize flash 0) (fa_cells img ssize flash 1))"
      "nv_backend nv = Some (migris_fsw_nv_flash_backend fa)" by auto
  have "nv_wf nv"
  proof (cases "nv_newest (fa_cells img ssize flash 0) (fa_cells img ssize flash 1)")
    case None
    then have "nv_recs nv []" using l(1) by (simp add: nv_loaded_as_def nv_recs_def fsw_const)
    then show ?thesis by (auto simp: nv_wf_def)
  next
    case (Some x)
    obtain i q p where x: "x = (i, q, p)" by (metis prod_cases3)
    with assms(4) Some obtain rs where rs: "p = recs_bytes rs" "distinct (map fst rs)" by (auto simp: image_wf_def)
    have n: "length (nv_payload nv) = 1536" "nv_image_data nv = recs_bytes rs" "nv_payload_len nv = length (recs_bytes rs)"
      using l(1) by (simp_all add: nv_loaded_as_def Some x rs(1) del: One_nat_def)
    from arg_cong [OF n(2), of length] n(1,3) have "length (recs_bytes rs) \<le> 1536" by (simp add: nv_image_data_def)
    with n rs(2) have "nv_recs nv rs" by (simp add: nv_recs_def nv_image_data_def fsw_const)
    then show ?thesis by (auto simp: nv_wf_def)
  qed
  moreover have "nv_tracks (fa_cells img ssize flash) nv" by (rule nv_flash.loaded_tracks [OF fl l(1)])
  ultimately show ?thesis using assms(2) l(2) init_fields(8,9) [OF load, of cfg] by (simp add: nv_good_def nv_view_def)
qed

section \<open>What the boot restores\<close>

text \<open>What an operator sees of the four persistent objects.\<close>

definition app_params :: "'f fsw_state \<Rightarrow> migris_dp_param_t list" where
  "app_params s = (case rt_datapool (fs_ctx s) of None \<Rightarrow> [] | Some d \<Rightarrow> dp_live d)"

definition app_schedule :: "'f fsw_state \<Rightarrow> migris_schedule_activity_t list \<times> bool" where
  "app_schedule s = (case rt_schedule (fs_ctx s) of None \<Rightarrow> ([], False) | Some c \<Rightarrow> (sch_live c, sch_enabled c))"

definition app_structures :: "'f fsw_state \<Rightarrow> migris_hk_structure_t list" where
  "app_structures s = (case rt_hkstore (fs_ctx s) of None \<Rightarrow> [] | Some h \<Rightarrow> hks_live h)"

lemma find_live: "dp_inv a \<Longrightarrow> i < length (dp_live a) \<Longrightarrow> migris_datapool_find a (dpp_id (dp_live a ! i)) = Some (dp_live a ! i)"
  by (simp add: find_by_id dp_by_id_def dp_inv_def map_of_eq_Some_iff comp_def)

lemma dp_live_eqI:
  assumes "dp_inv a" "dp_inv b" "map dp_decl (dp_live a) = map dp_decl (dp_live b)"
    and "\<forall>k. migris_datapool_find a k = migris_datapool_find b k"
  shows "dp_live a = dp_live b"
proof (rule nth_equalityI)
  from arg_cong [OF assms(3), of length] show len: "length (dp_live a) = length (dp_live b)" by simp
  fix i assume i: "i < length (dp_live a)"
  from arg_cong [OF assms(3), of "\<lambda>xs. xs ! i"] i len have "dpp_id (dp_live a ! i) = dpp_id (dp_live b ! i)" by (simp add: dp_decl_def)
  moreover have "migris_datapool_find a (dpp_id (dp_live a ! i)) = Some (dp_live a ! i)"
    "migris_datapool_find b (dpp_id (dp_live b ! i)) = Some (dp_live b ! i)"
    using i len by (simp_all only: find_live [OF assms(1)] find_live [OF assms(2)])
  ultimately show "dp_live a ! i = dp_live b ! i" using assms(4) by (metis option.inject)
qed

text \<open>A boot that finds a serialised object in the loaded image ends up with an equal one.\<close>

lemma overlay_same_decl:
  assumes "dp_inv a" "dp_inv b" "map dp_decl (dp_live a) = map dp_decl (dp_live b)"
  shows "dp_overlay (migris_datapool_find a k) (migris_datapool_find b k) = migris_datapool_find b k"
proof -
  have ids: "map dpp_id (dp_live a) = map dpp_id (dp_live b)"
    using arg_cong [OF assms(3), of "map fst"] by (simp add: dp_decl_def comp_def)
  then have img: "dpp_id ` set (dp_live a) = dpp_id ` set (dp_live b)" by (metis list.set_map)
  show ?thesis
  proof (cases "k \<in> dpp_id ` set (dp_live b)")
    case True
    then obtain i where i: "i < length (dp_live b)" "dpp_id (dp_live b ! i) = k" by (auto simp: in_set_conv_nth)
    have len: "length (dp_live a) = length (dp_live b)" using arg_cong [OF assms(3), of length] by simp
    have d: "dp_decl (dp_live a ! i) = dp_decl (dp_live b ! i)"
      using arg_cong [OF assms(3), of "\<lambda>xs. xs ! i"] i(1) len by simp
    then have "migris_datapool_find a k = Some (dp_live a ! i)" "migris_datapool_find b k = Some (dp_live b ! i)"
      using find_live [OF assms(1), of i] find_live [OF assms(2), of i] i len by (simp_all only: dp_decl_def prod.inject)
    then show ?thesis using d by (simp add: dp_overlay_def dp_decl_def)
  qed (use img in \<open>simp add: find_by_id dp_overlay_def dp_by_id_None [THEN iffD2] split: option.split\<close>)
qed

lemma boot_restores_params:
  fixes cfg :: fsw_config
  assumes "migris_nvstore_load (migris_nvstore_init (mem_nvstore mem) (Some (migris_fsw_nv_flash_backend fa))) flash = (NVSTORE_OK, nv)"
    and "migris_nvstore_get nv 1 = Inr bs" "migris_datapool_serialize d cap = Inr bs" "mem_ok mem"
    and "dp_inv d" "dp_values_ok d" "map dp_decl (dp_live d) = map dp_decl (dp_params_of cfg)"
  shows "app_params (fsw_init cfg fa mem flash) = dp_live d"
proof -
  obtain st d0 where d0: "migris_datapool_init (mem_datapool mem) (dp_params_of cfg) = (st, d0)" by force
  have i: "dp_inv d0" "dp_live d0 = dp_params_of cfg" using app_datapool_init [OF _ d0] assms(4) by (simp_all add: mem_ok_def)
  from deserialize_serialize [OF assms(5) i(1) assms(6,3), of "[]"] obtain d' where
    d': "migris_datapool_deserialize d0 bs = (DATAPOOL_OK, d')" "dp_inv d'"
      "\<forall>k. migris_datapool_find d' k = dp_overlay (migris_datapool_find d0 k) (migris_datapool_find d k)" by auto
  have "map dp_decl (dp_live d') = map dp_decl (dp_live d0)"
    using deserialize_any [OF i(1), of bs] d'(1) by (simp add: dp_keeps_def)
  then have "dp_live d' = dp_live d"
    using d'(3) overlay_same_decl [OF i(1) assms(5)] assms(7) i(2) by (intro dp_live_eqI [OF d'(2) assms(5)]) simp_all
  then show ?thesis using init_fields(1) [OF assms(1), of cfg] assms(2) d'(1)
    by (simp add: app_params_def d0 restored_def)
qed

lemma boot_restores_schedule:
  fixes cfg :: fsw_config
  assumes "migris_nvstore_load (migris_nvstore_init (mem_nvstore mem) (Some (migris_fsw_nv_flash_backend fa))) flash = (NVSTORE_OK, nv)"
    and "migris_nvstore_get nv 2 = Inr bs" "migris_schedule_serialize c cap = Inr bs" "mem_ok mem" "sch_inv c"
  shows "app_schedule (fsw_init cfg fa mem flash) = (sch_live c, sch_enabled c)"
proof -
  have "length (sch_activities (migris_schedule_init (mem_schedule mem))) = MIGRIS_SCHEDULE_CAPACITY"
    using assms(4) by (simp add: mem_ok_def migris_schedule_init_def)
  from sch_deserialize_serialize [OF assms(5) this assms(3), of "[]"] obtain c' where
    "migris_schedule_deserialize (migris_schedule_init (mem_schedule mem)) bs = (SCHEDULE_OK, c')"
    "sch_live c' = sch_live c" "sch_enabled c' = sch_enabled c" by auto
  then show ?thesis using init_fields(2) [OF assms(1), of cfg] assms(2)
    by (simp add: app_schedule_def restored_def)
qed

lemma boot_restores_structures:
  fixes cfg :: fsw_config
  assumes "migris_nvstore_load (migris_nvstore_init (mem_nvstore mem) (Some (migris_fsw_nv_flash_backend fa))) flash = (NVSTORE_OK, nv)"
    and "migris_nvstore_get nv 3 = Inr bs" "migris_hkstore_serialize h cap = Inr bs" "mem_ok mem" "hks_inv h"
  shows "app_structures (fsw_init cfg fa mem flash) = map (\<lambda>x. x\<lparr>hk_last_emit_sec := 0\<rparr>) (hks_live h)"
proof -
  have "length (hks_structures (migris_hkstore_init (mem_hkstore mem))) = MIGRIS_HKSTORE_CAPACITY"
    using hkstore_init_inv [of "mem_hkstore mem"] assms(4) by (simp add: mem_ok_def hks_inv_def)
  from hks_deserialize_serialize [OF assms(5) this assms(3), of "[]"] obtain h' where
    "migris_hkstore_deserialize (migris_hkstore_init (mem_hkstore mem)) bs = (HKSTORE_OK, h')"
    "hks_live h' = map (\<lambda>x. x\<lparr>hk_last_emit_sec := 0\<rparr>) (hks_live h)" by auto
  then show ?thesis using init_fields(4) [OF assms(1), of cfg] assms(2)
    by (simp add: app_structures_def restored_def)
qed

lemma boot_restores_mode:
  fixes cfg :: fsw_config
  assumes "migris_nvstore_load (migris_nvstore_init (mem_nvstore mem) (Some (migris_fsw_nv_flash_backend fa))) flash = (NVSTORE_OK, nv)"
    and "migris_nvstore_get nv 4 = Inr bs" "migris_mode_serialize m 8 = Inr bs" "mem_ok mem" "mm_inv m" "mm_declared m = mode_defs"
    and "CONFIG_FSW_MODE_DEMO cfg"
  shows "mm_current (fs_mode_mgr (fsw_init cfg fa mem flash)) = mm_current m"
proof -
  obtain m0 where m0: "migris_mode_init (mem_mode_mgr mem) mode_defs FSW_MODE_BOOT True = (MODE_OK, m0)" "mm_inv m0" "mm_declared m0 = mode_defs"
    using app_mode_init [of "mem_mode_mgr mem"] assms(4) by (auto simp: mem_ok_def)
  have "mm_current m \<in> md_id ` set (mm_declared m0)" using assms(5,6) m0(3) by (simp add: mm_inv_def)
  from mode_serialize_restore [OF assms(5) m0(2) this, of 8 "[]"] assms(3)
  have "migris_mode_deserialize_current m0 bs = (MODE_OK, m0\<lparr>mm_current := mm_current m\<rparr>)" by simp
  then show ?thesis using init_fields(5) [OF assms(1,7)] assms(2)
    by (simp add: m0(1) restored_def)
qed

section \<open>The save tick is not retried\<close>

text \<open>
  The remembered generations move when the records are put, whether or not the write to flash that
  follows succeeds: after a tick that put everything, the next one does nothing. A failed write is
  thus repaired only by a later change of some object.
\<close>

lemma save_not_retried:
  fixes cfg :: fsw_config
  assumes "rt_datapool (fs_ctx s) = Some d" "rt_schedule (fs_ctx s) = Some c" "rt_hkstore (fs_ctx s) = Some h"
    and "fs_last_saved_gen_dp s = dp_generation d" "fs_last_saved_gen_sched s = sch_generation c"
    and "fs_last_saved_gen_hk s = hks_generation h"
    and "CONFIG_FSW_MODE_DEMO cfg \<Longrightarrow> fs_last_saved_gen_mode s = mm_generation (fs_mode_mgr s)"
  shows "fsw_save_tick cfg s = s"
  using assms
  by (simp add: fsw_save_tick_def nv_autosave_tick_def migris_datapool_generation_def migris_schedule_generation_def
      migris_hkstore_generation_def migris_mode_generation_def)

text \<open>
  A restore overlays read-only parameters too. The version and build parameters, which identify the
  firmware that runs, thus carry the values of the firmware that saved the image.
\<close>

lemma firmware_version_goes_stale:
  assumes "length (dp_params d0) = MIGRIS_DATAPOOL_CAPACITY" "migris_datapool_init d0 (dp_params_of cfg) = (st, d)"
    and "migris_datapool_deserialize d [0, 1, 0, 2, 1, 0, 5] = (st', d')"
  shows "migris_datapool_get d MIGRIS_FSW_PARAM_FW_VERSION = Inr (migris_dp_u16 MIGRIS_FSW_FW_VERSION)"
    and "st' = DATAPOOL_OK" "migris_datapool_get d' MIGRIS_FSW_PARAM_FW_VERSION = Inr (migris_dp_u16 5)"
proof -
  note i = app_datapool_init [OF assms(1,2)]
  have f: "migris_datapool_find d MIGRIS_FSW_PARAM_FW_VERSION = Some \<lparr>dpp_id = MIGRIS_FSW_PARAM_FW_VERSION, dpp_access = DP_ACCESS_READ_ONLY,
      dpp_value = migris_dp_u16 MIGRIS_FSW_FW_VERSION\<rparr>"
    using i by (simp add: find_by_id dp_params_of_def fsw_const)
  then show "migris_datapool_get d MIGRIS_FSW_PARAM_FW_VERSION = Inr (migris_dp_u16 MIGRIS_FSW_FW_VERSION)" by (simp add: migris_datapool_get_def)
  have dec: "migris_dp_value_decode DP_TYPE_U16 [0, 5] = Inr (2, migris_dp_u16 5)"
    by (simp add: migris_dp_value_decode_def Let_def dp_value_from_bits_def migris_dp_u16_def)
  have e: "migris_datapool_deserialize d [0, 1, 0, 2, 1, 0, 5] = (DATAPOOL_OK, dp_restore_one d MIGRIS_FSW_PARAM_FW_VERSION DP_TYPE_U16 (migris_dp_u16 5))"
    using dec by (simp add: migris_datapool_deserialize_def rd16_at_def rd16_def Let_def dp_type_of_code_def fsw_const)
  with assms(3) show "st' = DATAPOOL_OK" by simp
  have ty: "dpv_type (migris_dp_u16 5) = DP_TYPE_U16" "dpv_type (migris_dp_u16 MIGRIS_FSW_FW_VERSION) = DP_TYPE_U16" by (simp_all add: migris_dp_u16_def)
  have "dp_inv d" using i by simp
  from restore_one_find [OF this ty(1), of MIGRIS_FSW_PARAM_FW_VERSION DP_ACCESS_READ_ONLY, THEN conjunct2, THEN fun_cong,
      of MIGRIS_FSW_PARAM_FW_VERSION] e assms(3)
  show "migris_datapool_get d' MIGRIS_FSW_PARAM_FW_VERSION = Inr (migris_dp_u16 5)"
    by (simp add: migris_datapool_get_def f dp_overlay_def ty)
qed

text \<open>A save that moved the sequence number succeeded, and the next load finds the records it wrote.\<close>

lemma saved_then_loaded:
  assumes "flash_map fa img ssize ok" "nv_good (fa_cells img ssize) ok (migris_fsw_nv_flash_backend fa) (nv, fl)"
    and "nv_wf nv4" "nv_same_place nv nv4" "(nv', fl') = (if dirty then snd (migris_nvstore_save nv4 fl) else (nv4, fl))"
    and "nv_loaded_seq nv' \<noteq> nv_loaded_seq nv" "nv_loaded_seq nv \<noteq> 0xFFFFFFFF" "mem_ok mem"
  shows "\<exists>nv3. migris_nvstore_load (migris_nvstore_init (mem_nvstore mem) (Some (migris_fsw_nv_flash_backend fa))) fl' = (NVSTORE_OK, nv3)
    \<and> (\<forall>k. migris_nvstore_get nv3 k = migris_nvstore_get nv4 k)"
proof -
  let ?b = "migris_fsw_nv_flash_backend fa"
  have seq: "nv_loaded_seq nv4 = nv_loaded_seq nv" using assms(4) by (simp add: nv_same_place_def)
  with assms(5,6) have "dirty" by (cases dirty) auto
  then obtain rc where sv: "migris_nvstore_save nv4 fl = (rc, nv', fl')" using assms(5) by (metis prod.collapse)
  have g4: "nv_good (fa_cells img ssize) ok ?b (nv4, fl)" by (rule same_place_good [OF assms(4,3,2)])
  have "rc = NVSTORE_OK" using save_step(3) [OF assms(1) g4 sv] assms(6) seq by simp
  with sv have sv: "migris_nvstore_save nv4 fl = (NVSTORE_OK, nv', fl')" by simp
  from assms(3) obtain rs where rs: "nv_recs nv4 rs" by (auto simp: nv_wf_def)
  have g: "ok fl" "nv_backend nv4 = Some ?b" "nv_tracks (fa_cells img ssize fl) nv4" using g4 by (simp_all add: nv_good_def)
  have z: "nv_backend (migris_nvstore_init (mem_nvstore mem) (Some ?b)) = Some ?b"
    "length (nv_payload (migris_nvstore_init (mem_nvstore mem) (Some ?b))) = 1536"
    using assms(8) by (simp_all add: mem_ok_def migris_nvstore_init_def fsw_const)
  have "nv_loaded_seq nv4 \<noteq> 0xFFFFFFFF" using assms(7) seq by simp
  from load_after_save [OF flash_map.nv_contract [OF assms(1)] flash_map.nv_geometry [OF assms(1)] g(1,2) rs g(3) this sv z]
  show ?thesis by blast
qed

section \<open>The first boot\<close>

text \<open>On a blank flash the boot transition to NOMINAL is the only thing the first save tick has to write.\<close>

lemma transmit_fields [simp]:
  "rt_datapool (fs_ctx (transmit_result t r s)) = rt_datapool (fs_ctx s)"
  "rt_schedule (fs_ctx (transmit_result t r s)) = rt_schedule (fs_ctx s)"
  "rt_hkstore (fs_ctx (transmit_result t r s)) = rt_hkstore (fs_ctx s)"
  "fs_fdir (transmit_result t r s) = fs_fdir s" "fs_mode_mgr (transmit_result t r s) = fs_mode_mgr s"
  "fs_last_saved_gen_dp (transmit_result t r s) = fs_last_saved_gen_dp s"
  "fs_last_saved_gen_sched (transmit_result t r s) = fs_last_saved_gen_sched s"
  "fs_last_saved_gen_hk (transmit_result t r s) = fs_last_saved_gen_hk s"
  "fs_last_saved_gen_mode (transmit_result t r s) = fs_last_saved_gen_mode s"
  by (simp_all add: transmit_result_def transmit_tm_def split: sum.split)

definition gens_of :: "'f fsw_state \<Rightarrow> u32 list" where
  "gens_of s = [fs_last_saved_gen_dp s, fs_last_saved_gen_sched s, fs_last_saved_gen_hk s, fs_last_saved_gen_mode s]"

lemma boot_event_fields:
  "rt_datapool (fs_ctx (fsw_boot_event t s)) = rt_datapool (fs_ctx s)"
  "rt_schedule (fs_ctx (fsw_boot_event t s)) = rt_schedule (fs_ctx s)"
  "rt_hkstore (fs_ctx (fsw_boot_event t s)) = rt_hkstore (fs_ctx s)"
  "fs_fdir (fsw_boot_event t s) = fs_fdir s" "fs_mode_mgr (fsw_boot_event t s) = fs_mode_mgr s"
  "gens_of (fsw_boot_event t s) = gens_of s"
  by (simp_all add: fsw_boot_event_def gens_of_def Let_def split: prod.split)

lemma boot_fields:
  "rt_datapool (fs_ctx (fsw_boot cfg fa mem flash ms)) = rt_datapool (fs_ctx (fsw_init cfg fa mem flash))"
  "rt_schedule (fs_ctx (fsw_boot cfg fa mem flash ms)) = rt_schedule (fs_ctx (fsw_init cfg fa mem flash))"
  "rt_hkstore (fs_ctx (fsw_boot cfg fa mem flash ms)) = rt_hkstore (fs_ctx (fsw_init cfg fa mem flash))"
  "gens_of (fsw_boot cfg fa mem flash ms) = gens_of (fsw_init cfg fa mem flash)"
  using boot_event_fields [of "now_of ms" "fsw_init cfg fa mem flash"]
  by (simp_all add: fsw_boot_def fsw_boot_mode_def gens_of_def Let_def split: prod.split)

lemma init_gens: "gens_of (fsw_init cfg fa mem flash) = [0, 0, 0, 0]"
  by (simp add: gens_of_def fsw_init_def Let_def split: prod.split)

lemma first_boot:
  fixes cfg :: fsw_config and ms :: nat
  assumes "flash_map fa img ssize ok" "ok flash" "mem_ok mem" "cfg_ok cfg" "CONFIG_FSW_MODE_DEMO cfg"
    and "nv_newest (fa_cells img ssize flash 0) (fa_cells img ssize flash 1) = None"
  defines "s \<equiv> fsw_boot cfg fa mem flash ms"
  shows "\<exists>d c h. rt_datapool (fs_ctx s) = Some d \<and> rt_schedule (fs_ctx s) = Some c \<and> rt_hkstore (fs_ctx s) = Some h
    \<and> dp_generation d = 0 \<and> sch_generation c = 0 \<and> hks_generation h = 0" (is "?ptrs")
    and "mm_generation (fs_mode_mgr s) = 1" "mm_current (fs_mode_mgr s) = FSW_MODE_NOMINAL"
    and "nv_recs (fs_nvstore s) []" "nv_loaded_seq (fs_nvstore s) = 0" "fs_flash s = flash" "gens_of s = [0, 0, 0, 0]"
proof -
  let ?i = "fsw_init cfg fa mem flash" and ?e = "fsw_boot_event (now_of ms) (fsw_init cfg fa mem flash)"
  let ?nv0 = "migris_nvstore_init (mem_nvstore mem) (Some (migris_fsw_nv_flash_backend fa))"
  have z: "length (nv_payload ?nv0) = 1536" "nv_backend ?nv0 = Some (migris_fsw_nv_flash_backend fa)"
    using assms(3) by (simp_all add: mem_ok_def migris_nvstore_init_def fsw_const)
  from nv_flash.load_spec [OF flash_map.nv_contract [OF assms(1)] assms(2) z(2,1)] assms(6)
  obtain nv where load: "migris_nvstore_load ?nv0 flash = (NVSTORE_ERR_NO_VALID_IMAGE, nv)" and l: "nv_loaded_as nv None" by auto
  note f = init_fields [OF load, of cfg]
  have "nv_view s = (nv, flash)" using f(8,9) by (simp add: s_def nv_view_boot) (simp add: nv_view_def)
  then show "nv_recs (fs_nvstore s) []" "nv_loaded_seq (fs_nvstore s) = 0" "fs_flash s = flash"
    using l by (simp_all add: nv_view_def nv_loaded_as_def nv_recs_def fsw_const)
  show "gens_of s = [0, 0, 0, 0]" by (simp add: s_def boot_fields init_gens)
  obtain st d0 where d0: "migris_datapool_init (mem_datapool mem) (dp_params_of cfg) = (st, d0)" by force
  have "dp_generation d0 = 0" using app_datapool_init [OF _ d0] assms(3) by (simp add: mem_ok_def)
  then show ?ptrs
    using f(1,2,4) by (simp add: s_def boot_fields d0 restored_def migris_schedule_init_def migris_hkstore_init_def)
  obtain m0 where m0: "migris_mode_init (mem_mode_mgr mem) mode_defs FSW_MODE_BOOT True = (MODE_OK, m0)" "mm_inv m0"
      "mm_declared m0 = mode_defs" "mm_current m0 = FSW_MODE_BOOT" "mm_generation m0 = 0"
    using app_mode_init [of "mem_mode_mgr mem"] assms(3) by (auto simp: mem_ok_def)
  have m: "fs_mode_mgr ?e = m0" using f(5) [OF assms(5)] by (simp add: boot_event_fields restored_def m0(1))
  have "length (ef_slots (fd_fifo (mem_fdir mem))) = MIGRIS_FDIR_EVENT_FIFO_CAPACITY" using assms(3) by (simp add: mem_ok_def)
  then have inv: "fd_inv (fs_fdir ?e)"
    using f(6) fdir_init_inv arm_inv by (auto simp: boot_event_fields)
  have "mode_edge m0 FSW_MODE_BOOT FSW_MODE_NOMINAL"
    by (simp add: mode_edge_def m0(3) mode_defs_eq FSW_MODE_BOOT_def FSW_MODE_NOMINAL_def mode_target_bits del: bit_numeral_word_iff)
  then have "snd (snd (migris_mode_request fdir_sink_report (fs_fdir ?e, fs_mode_mgr ?e) FSW_MODE_NOMINAL (now_of ms)))
      = mm_moved m0 FSW_MODE_NOMINAL"
    using request_spec(2) [OF inv m0(2), of FSW_MODE_NOMINAL "now_of ms"] m0(4) by (simp add: m)
  then have "fs_mode_mgr s = mm_moved m0 FSW_MODE_NOMINAL"
    using assms(5) m m0(4)
    by (auto simp: s_def fsw_boot_def fsw_boot_mode_def Let_def migris_mode_current_def split: prod.splits)
  then show "mm_generation (fs_mode_mgr s) = 1" "mm_current (fs_mode_mgr s) = FSW_MODE_NOMINAL"
    using m0(5) by (simp_all add: mm_moved_def)
qed

text \<open>The RAM flash never fails, so on it every save succeeds.\<close>

lemma ram_save:
  assumes "nv_backend nv = Some (migris_fsw_nv_flash_backend ram_area)"
  shows "\<exists>nv' fl'. migris_nvstore_save nv fl = (NVSTORE_OK, nv', fl') \<and> nv_loaded_seq nv' = nv_loaded_seq nv + 1"
proof -
  let ?b = "migris_fsw_nv_flash_backend ram_area"
  have "nb_erase ?b = (\<lambda>fl s. (True, nvstore_write_at fl (s * 2048) (replicate 2048 0xFF)))"
    "nb_write ?b = (\<lambda>fl s off bs. (True, nvstore_write_at fl (s * 2048 + off) bs))"
    by (simp_all add: migris_fsw_nv_flash_backend_def ram_area_def nv_flash_erase_def nv_flash_write_def Let_def fun_eq_iff)
  then show ?thesis using assms ram.nv.usable by (simp add: migris_nvstore_save_def Let_def)
qed

lemma save_tick_mode_only:
  fixes cfg :: fsw_config
  assumes "rt_datapool (fs_ctx s) = Some d" "rt_schedule (fs_ctx s) = Some c" "rt_hkstore (fs_ctx s) = Some h"
    and "dp_generation d = fs_last_saved_gen_dp s" "sch_generation c = fs_last_saved_gen_sched s"
      "hks_generation h = fs_last_saved_gen_hk s"
    and "CONFIG_FSW_MODE_DEMO cfg" "mm_generation (fs_mode_mgr s) \<noteq> fs_last_saved_gen_mode s"
    and "migris_nvstore_put (fs_nvstore s) 4 [mm_current (fs_mode_mgr s)] = (NVSTORE_OK, nv4)"
    and "migris_nvstore_save nv4 (fs_flash s) = (rc, nv5, fl5)"
  shows "fsw_save_tick cfg s = s\<lparr>fs_nvstore := nv5, fs_flash := fl5, fs_last_saved_gen_mode := mm_generation (fs_mode_mgr s)\<rparr>"
  using assms
  by (simp add: fsw_save_tick_def nv_autosave_tick_def migris_datapool_generation_def migris_schedule_generation_def
      migris_hkstore_generation_def migris_mode_generation_def migris_mode_serialize_def)

section \<open>The round trip through the flash\<close>

text \<open>
  At any point of a mission, if the save tick wrote the flash (its image sequence number moved),
  then a boot from that flash, with whatever RAM content, starts with what the tick saved: every
  datapool parameter with the value it had, the time-based schedule with its activities and its
  enable flag, the housekeeping structures (due again at once) and the current mode, each one whose
  remembered generation the tick moved.
\<close>
theorem saved_state_survives_reboot:
  assumes "flash_map fa img ssize ok" "ok flash" "mem_ok mem" "cfg_ok cfg"
    and "distinct (map act_id (boot_schedule (fsw_init cfg fa mem flash)))"
    and "clock_ok boot_ms inputs" "fsw_main cfg fa True mem flash boot_ms inputs = Some s"
    and "image_wf (fa_cells img ssize flash)" "mem_ok mem'"
    and "s' = fsw_save_tick cfg s" "s2 = fsw_init cfg fa mem' (fs_flash s')"
    and "nv_loaded_seq (fs_nvstore s') \<noteq> nv_loaded_seq (fs_nvstore s)" "nv_loaded_seq (fs_nvstore s) \<noteq> 0xFFFFFFFF"
  shows "(fs_last_saved_gen_dp s' \<noteq> fs_last_saved_gen_dp s \<longrightarrow> app_params s2 = app_params s)
    \<and> (fs_last_saved_gen_sched s' \<noteq> fs_last_saved_gen_sched s \<longrightarrow> app_schedule s2 = app_schedule s)
    \<and> (fs_last_saved_gen_hk s' \<noteq> fs_last_saved_gen_hk s \<longrightarrow>
         app_structures s2 = map (\<lambda>x. x\<lparr>hk_last_emit_sec := 0\<rparr>) (app_structures s))
    \<and> (fs_last_saved_gen_mode s' \<noteq> fs_last_saved_gen_mode s \<longrightarrow>
         migris_mode_current (fs_mode_mgr s2) = migris_mode_current (fs_mode_mgr s))"
proof -
  let ?b = "migris_fsw_nv_flash_backend fa" and ?cells = "fa_cells img ssize"
  note inv = main_inv [OF assms(1-7)]
  then obtain d c h where p: "rt_datapool (fs_ctx s) = Some d" "rt_schedule (fs_ctx s) = Some c" "rt_hkstore (fs_ctx s) = Some h"
    and d: "dp_values_ok d" "map dp_decl (dp_live d) = map dp_decl (dp_params_of cfg)"
    by (auto simp: fs_inv_def fs_wf_def)
  have k: "dp_inv d" "sch_inv c" "hks_inv h" using fs_wf_router [OF inv] by (simp_all add: router_inv_def p)
  have m: "CONFIG_FSW_MODE_DEMO cfg \<Longrightarrow> mm_inv (fs_mode_mgr s) \<and> mm_declared (fs_mode_mgr s) = mode_defs"
    using fs_wf_router [OF inv] by (simp add: fdir_ok_def)
  have "nv_good ?cells ok ?b (nv_view (fsw_boot cfg fa mem flash boot_ms))"
    unfolding nv_view_boot by (rule init_good [OF assms(1-3,8)])
  from run_good [OF assms(1) this boot_inv [OF assms(1-5)] assms(6)] assms(7)
  have good: "nv_good ?cells ok ?b (fs_nvstore s, fs_flash s)" by (simp add: fsw_main_def nv_view_def)
  then have "nv_wf (fs_nvstore s)" by (simp add: nv_good_def)
  then obtain nv4 dirty where
    nv4: "nv_wf nv4" "nv_same_place (fs_nvstore s) nv4"
    and r: "fs_last_saved_gen_dp s' \<noteq> fs_last_saved_gen_dp s \<longrightarrow> (\<exists>bs. migris_datapool_serialize d 64 = Inr bs \<and> migris_nvstore_get nv4 1 = Inr bs)"
      "fs_last_saved_gen_sched s' \<noteq> fs_last_saved_gen_sched s \<longrightarrow> (\<exists>bs. migris_schedule_serialize c 1200 = Inr bs \<and> migris_nvstore_get nv4 2 = Inr bs)"
      "fs_last_saved_gen_hk s' \<noteq> fs_last_saved_gen_hk s \<longrightarrow> (\<exists>bs. migris_hkstore_serialize h 256 = Inr bs \<and> migris_nvstore_get nv4 3 = Inr bs)"
      "fs_last_saved_gen_mode s' \<noteq> fs_last_saved_gen_mode s \<longrightarrow> CONFIG_FSW_MODE_DEMO cfg \<and>
        (\<exists>bs. migris_mode_serialize (fs_mode_mgr s) 8 = Inr bs \<and> migris_nvstore_get nv4 4 = Inr bs)"
    and e: "(fs_nvstore s', fs_flash s') = (if dirty then snd (migris_nvstore_save nv4 (fs_flash s)) else (nv4, fs_flash s))"
    unfolding assms(10) by (rule save_tick_puts [OF p])
  obtain nv3 where load: "migris_nvstore_load (migris_nvstore_init (mem_nvstore mem') (Some ?b)) (fs_flash s') = (NVSTORE_OK, nv3)"
    and get: "\<forall>k. migris_nvstore_get nv3 k = migris_nvstore_get nv4 k"
    using saved_then_loaded [OF assms(1) good nv4 e assms(12,13,9)] by blast
  show ?thesis
    using r get boot_restores_params [OF load _ _ assms(9) k(1) d(1), of _ 64 cfg] d(2)
      boot_restores_schedule [OF load _ _ assms(9) k(2), of _ 1200 cfg]
      boot_restores_structures [OF load _ _ assms(9) k(3), of _ 256 cfg]
      boot_restores_mode [OF load _ _ assms(9), of _ "fs_mode_mgr s" cfg] m
    unfolding assms(11) app_params_def [of s] app_schedule_def [of s] app_structures_def [of s] p option.case migris_mode_current_def
    by metis
qed

lemma saved_state_survives_reboot_witness:
  "\<exists>s. fsw_main config_example ram_area True memory_example (replicate 4096 0xFF) 1200 [] = Some s
     \<and> migris_mode_current (fs_mode_mgr s) = FSW_MODE_NOMINAL
     \<and> migris_mode_current (fs_mode_mgr (fsw_init config_example ram_area memory_example
           (fs_flash (fsw_save_tick config_example s)))) = FSW_MODE_NOMINAL"
proof -
  obtain fl :: bytes where fl: "fl = replicate 4096 0xFF" by blast
  then have ok: "length fl = 4096" by (simp only: length_replicate)
  note blank = ram_erased_newest [folded fl]
  have demo: "CONFIG_FSW_MODE_DEMO config_example" by (simp add: config_example_def)
  let ?s = "fsw_boot config_example ram_area memory_example fl 1200"
  note b = first_boot [OF ram.flash_map_axioms ok memory_example_ok config_example_ok demo blank, where ms = 1200]
  have main: "fsw_main config_example ram_area True memory_example fl 1200 [] = Some ?s"
    by (simp add: fsw_main_def fsw_run_def)
  have dist: "distinct (map act_id (boot_schedule (fsw_init config_example ram_area memory_example fl)))"
    using erased_mission(2) by (simp only: fl)
  have clock: "clock_ok 1200 []" by (simp add: clock_ok_def)
  have img: "image_wf (fa_cells (\<lambda>fl. fl) 2048 fl)" unfolding image_wf_def blank by simp
  from b(1) obtain d c h where p: "rt_datapool (fs_ctx ?s) = Some d" "rt_schedule (fs_ctx ?s) = Some c" "rt_hkstore (fs_ctx ?s) = Some h"
    "dp_generation d = 0" "sch_generation c = 0" "hks_generation h = 0" by blast
  have g: "fs_last_saved_gen_dp ?s = 0" "fs_last_saved_gen_sched ?s = 0" "fs_last_saved_gen_hk ?s = 0" "fs_last_saved_gen_mode ?s = 0"
    using b(7) by (simp_all add: gens_of_def)
  obtain nv4 where nv4: "migris_nvstore_put (fs_nvstore ?s) 4 [mm_current (fs_mode_mgr ?s)] = (NVSTORE_OK, nv4)"
    "nv_backend nv4 = nv_backend (fs_nvstore ?s)"
    using put_spec(1) [OF b(4), of 4 "[mm_current (fs_mode_mgr ?s)]"] by auto
  have "nv_good (fa_cells (\<lambda>fl. fl) 2048) (\<lambda>fl. length fl = 4096) (migris_fsw_nv_flash_backend ram_area) (nv_view ?s)"
    unfolding nv_view_boot by (rule init_good [OF ram.flash_map_axioms ok memory_example_ok img])
  then have bk: "nv_backend nv4 = Some (migris_fsw_nv_flash_backend ram_area)" and wf: "nv_wf (fs_nvstore ?s)"
    using nv4(2) by (simp_all add: nv_good_def nv_view_def)
  have seq4: "nv_loaded_seq nv4 = 0" using put_effect [OF wf nv4(1)] b(5) by (simp add: nv_same_place_def)
  from ram_save [OF bk, of fl] obtain nv5 fl5 where sv: "migris_nvstore_save nv4 (fs_flash ?s) = (NVSTORE_OK, nv5, fl5)"
    "nv_loaded_seq nv5 = 1" using seq4 b(6) by auto
  have tick: "fsw_save_tick config_example ?s = ?s\<lparr>fs_nvstore := nv5, fs_flash := fl5, fs_last_saved_gen_mode := 1\<rparr>"
    using save_tick_mode_only [OF p(1-3) _ _ _ demo _ nv4(1) sv(1)] p(4-6) g b(2) by simp
  have "nv_loaded_seq (fs_nvstore (fsw_save_tick config_example ?s)) \<noteq> nv_loaded_seq (fs_nvstore ?s)"
    "nv_loaded_seq (fs_nvstore ?s) \<noteq> 0xFFFFFFFF"
    unfolding tick b(5) by (simp_all add: sv(2))
  from saved_state_survives_reboot [OF ram.flash_map_axioms ok memory_example_ok config_example_ok dist clock main img memory_example_ok
      refl refl this] b(3) g(4)
  have "migris_mode_current (fs_mode_mgr (fsw_init config_example ram_area memory_example (fs_flash (fsw_save_tick config_example ?s))))
      = FSW_MODE_NOMINAL" by (simp add: tick migris_mode_current_def)
  with main b(3) show ?thesis unfolding fl [symmetric] by (auto simp: migris_mode_current_def)
qed

end
