(* ===== verification/Recovery.thy ===== *)
theory Recovery
  imports Mission
begin

text \<open>
  The closed recovery loop of samples/tc_uart built with the FDIR recovery demo: rejected telecommands
  are counted from boot, and the one that reaches the threshold, wherever it came from, puts the
  spacecraft into SAFE, where it stays.
\<close>

section \<open>FDIR and mode after n rejections\<close>

abbreviation tc_threshold :: "fsw_config \<Rightarrow> u16" where
  "tc_threshold cfg \<equiv> CONFIG_FSW_FDIR_TC_REJECTED_THRESHOLD cfg"

definition recovery_at :: "fsw_config \<Rightarrow> u8 \<Rightarrow> nat \<Rightarrow> fdir_state \<Rightarrow> bool" where
  "recovery_at cfg m0 n st \<longleftrightarrow> fd_inv (fst st) \<and> mm_inv (snd st) \<and> mm_declared (snd st) = mode_defs
     \<and> fd_mode (fst st) \<and> fd_recovery_enabled (fst st) \<and> fd_safe_mode (fst st) = FSW_MODE_SAFE
     \<and> fd_thresholds (fst st) = [tc_threshold cfg, 0] \<and> fd_occurrences (fst st) ! 0 = of_nat (min n 65535)
     \<and> (fd_confirmed (fst st) ! 0 \<longleftrightarrow> unat (tc_threshold cfg) \<le> n)
     \<and> mm_current (snd st) = (if unat (tc_threshold cfg) \<le> n then FSW_MODE_SAFE else m0)"

definition operational :: "u8 \<Rightarrow> bool" where
  "operational m \<longleftrightarrow> m = FSW_MODE_NOMINAL \<or> m = FSW_MODE_SAFE"

lemma edge_to_safe:
  "mm_declared mgr = mode_defs \<Longrightarrow> mode_edge mgr FSW_MODE_NOMINAL FSW_MODE_SAFE"
  "mm_declared mgr = mode_defs \<Longrightarrow> \<not> mode_edge mgr FSW_MODE_SAFE FSW_MODE_SAFE"
  "mm_declared mgr = mode_defs \<Longrightarrow> mode_edge mgr FSW_MODE_BOOT FSW_MODE_NOMINAL"
  by (simp_all add: mode_edge_def mode_defs_eq FSW_MODE_BOOT_def FSW_MODE_NOMINAL_def FSW_MODE_SAFE_def mode_target_bits
      del: bit_numeral_word_iff)

text \<open>One more rejected telecommand.\<close>

lemma recovery_report:
  fixes now :: u32 and sev :: migris_pus5_severity_t
  assumes r: "recovery_at cfg m0 n st" and m0: "operational m0" and T: "tc_threshold cfg \<noteq> 0" and len: "length aux \<le> 8"
  shows "recovery_at cfg m0 (Suc n) (snd (fdir_sink_report st now sev MIGRIS_PUS5_EVT_TC_REJECTED aux))"
proof -
  obtain ctx mgr where st: "st = (ctx, mgr)" by force
  let ?T = "tc_threshold cfg"
  note r' = r [unfolded recovery_at_def st fst_conv snd_conv]
  have inv: "fd_inv ctx" "mm_inv mgr" "mm_declared mgr = mode_defs" and on: "fd_mode ctx" "fd_recovery_enabled ctx"
    and safe: "fd_safe_mode ctx = FSW_MODE_SAFE" and thr: "fd_thresholds ctx = [?T, 0]"
    and occ: "fd_occurrences ctx ! 0 = of_nat (min n 65535)" and conf: "fd_confirmed ctx ! 0 \<longleftrightarrow> unat ?T \<le> n"
    and cur: "mm_current mgr = (if unat ?T \<le> n then FSW_MODE_SAFE else m0)" using r' by blast+
  have a: "fdir_event_anomaly MIGRIS_PUS5_EVT_TC_REJECTED = Some ANOM_TC_REJECTED" by (simp add: fdir_event_anomaly_def)
  have i: "anom_index ANOM_TC_REJECTED < MIGRIS_FDIR_ANOMALY_COUNT" by (simp add: fsw_const)
  have len': "length aux \<le> MIGRIS_FDIR_EVENT_AUX_MAX" using len by (simp add: fsw_const)
  let ?st = "snd (fdir_sink_report st now sev MIGRIS_PUS5_EVT_TC_REJECTED aux)"
  have e: "?st = fdir_observe fdir_sink_report (snd (fdir_enqueue ctx now sev MIGRIS_PUS5_EVT_TC_REJECTED aux), mgr) ANOM_TC_REJECTED now"
    by (simp add: sink_report_anomaly [OF a] st)
  note o = anomaly_then_observe [OF inv(1,2) i len', of now sev MIGRIS_PUS5_EVT_TC_REJECTED, folded e]
  have l: "0 < length (fd_occurrences ctx)" "0 < length (fd_confirmed ctx)" using inv(1) by (simp_all add: fd_inv_def fsw_const)
  have latch: "fd_latches ctx ANOM_TC_REJECTED \<longleftrightarrow> \<not> unat ?T \<le> n \<and> unat ?T \<le> Suc n"
    using T unfolding fd_latches_def Let_def anom_index.simps thr nth_Cons_0 occ sat_inc_of_nat threshold_reached conf by blast
  then have fires: "fd_fires ctx ANOM_TC_REJECTED \<longleftrightarrow> \<not> unat ?T \<le> n \<and> unat ?T \<le> Suc n" using on by (simp add: fd_fires_def)
  have occ': "fd_occurrences (fst ?st) ! 0 = of_nat (min (Suc n) 65535)" using l by (simp add: o(5) occ sat_inc_of_nat)
  have conf': "fd_confirmed (fst ?st) ! 0 \<longleftrightarrow> unat ?T \<le> Suc n" using l by (auto simp: o(6) latch conf)
  have mgr': "snd ?st = (if fd_fires ctx ANOM_TC_REJECTED \<and> mode_edge mgr (mm_current mgr) FSW_MODE_SAFE then mm_moved mgr FSW_MODE_SAFE else mgr)"
    unfolding o(2) safe ..
  have cur': "mm_current (snd ?st) = (if unat ?T \<le> Suc n then FSW_MODE_SAFE else m0)"
    using m0 edge_to_safe(1,2) [OF inv(3)] unfolding mgr' by (auto simp: fires cur operational_def mm_moved_def)
  have "mm_inv (snd ?st)" "mm_declared (snd ?st) = mode_defs"
    using inv edge_declared [OF inv(2)] unfolding mgr' by (auto intro!: mm_moved_inv)
  with o(3,4) occ' conf' cur' on safe thr show ?thesis by (simp add: recovery_at_def fd_same_policy_def)
qed

text \<open>A receiver overflow has no threshold and confirms nothing; a drain only takes an event from the queue.\<close>

lemma recovery_overflow:
  assumes r: "recovery_at cfg m0 n st"
  shows "recovery_at cfg m0 n (snd (migris_fdir_report_anomaly st ANOM_RX_OVERFLOW now d))"
proof -
  obtain ctx mgr where st: "st = (ctx, mgr)" by force
  have inv: "fd_inv ctx" "mm_inv mgr" and thr: "fd_thresholds ctx = [tc_threshold cfg, 0]"
    using r by (simp_all add: recovery_at_def st)
  obtain sev eid aux where x: "anomaly_event ANOM_RX_OVERFLOW d = Some (sev, eid, aux)" by simp
  note e = report_as_observe(1) [OF x, where st = st and now = now] report_as_observe(2,3) [OF x]
  note o = anomaly_then_observe [OF inv e(3,2), of now sev eid, folded e(1) [unfolded st fst_conv snd_conv]]
  have "\<not> fd_latches ctx ANOM_RX_OVERFLOW" by (simp add: fd_latches_def thr)
  then show ?thesis using r o by (simp add: recovery_at_def st fd_fires_def fd_same_policy_def)
qed

lemma recovery_drain:
  assumes "recovery_at cfg m0 n (ctx, mgr)"
  shows "recovery_at cfg m0 n (fst (snd (migris_fdir_drain ctx apid seq p5 cap)), mgr)"
proof -
  have inv: "fd_inv ctx" using assms by (simp add: recovery_at_def)
  from drain_fifo [OF inv, of apid seq p5 cap] obtain q where
    q: "fst (snd (migris_fdir_drain ctx apid seq p5 cap)) = ctx\<lparr>fd_fifo := q\<rparr>" "ef_inv q" "set (ef_list q) \<subseteq> set (fd_queue ctx)" by blast
  then show ?thesis using assms fifo_only_inv [OF inv q(2,3)] by (simp add: recovery_at_def)
qed

section \<open>The loop\<close>

text \<open>The state of the loop after at most \<open>k\<close> telecommands went through the router.\<close>

definition recovering :: "fsw_config \<Rightarrow> u8 \<Rightarrow> nat \<Rightarrow> 'f fsw_state \<Rightarrow> bool" where
  "recovering cfg m0 k s \<longleftrightarrow> (\<exists>n \<le> k. rt_tc_rejected_count (fs_ctx s) = of_nat n \<and> recovery_at cfg m0 n (fs_fdir s, fs_mode_mgr s))"

definition fd_view :: "'f fsw_state \<Rightarrow> u32 \<times> fdir_state" where
  "fd_view s = (rt_tc_rejected_count (fs_ctx s), fs_fdir s, fs_mode_mgr s)"

lemma recovering_view: "fd_view s' = fd_view s \<Longrightarrow> recovering cfg m0 k s' = recovering cfg m0 k s"
  by (simp add: recovering_def fd_view_def)

lemma fd_view_transmit [simp]: "fd_view (transmit_result t r s) = fd_view s"
  by (simp add: fd_view_def transmit_result_def transmit_tm_def split: sum.split)

lemma fd_view_stamp [simp]: "fd_view (s\<lparr>fs_last_hk_emit_sec := t\<rparr>) = fd_view s"
  by (simp add: fd_view_def)

lemma fd_view_ticks [simp]:
  "fd_view (fsw_save_tick cfg s) = fd_view s" "fd_view (fsw_replay_tick s) = fd_view s"
  by (auto simp: fd_view_def fsw_save_tick_def fsw_replay_tick_def Let_def split: prod.split option.split sum.split)

lemma fd_view_hk [simp]: "fd_view (fsw_hk_tick t drops s) = fd_view s"
proof -
  have "fd_view (s\<lparr>fs_ctx := c, fs_pus3_ctx := p\<rparr>) = fd_view s"
    if "rt_tc_rejected_count c = rt_tc_rejected_count (fs_ctx s)" for c p using that by (simp add: fd_view_def)
  then show ?thesis by (simp add: fsw_hk_tick_def Let_def split: prod.split)
qed

lemma fd_view_others [simp]:
  "fd_view (fsw_dynamic_hk_tick t s) = fd_view s" "fd_view (fsw_largedata_tick cfg t s) = fd_view s"
  by (simp_all add: fsw_dynamic_hk_tick_def fsw_largedata_tick_def Let_def split: prod.split option.split)
    (simp_all add: fd_view_def)

lemma overflow_recovering: "recovering cfg m0 k s \<Longrightarrow> recovering cfg m0 k (fsw_overflow_tick t drops s)"
  using recovery_overflow [of cfg m0 _ "(fs_fdir s, fs_mode_mgr s)" t "drops - fs_last_reported_rx_drops s"]
  by (auto simp: recovering_def fsw_overflow_tick_def split: prod.split)

lemma drain_recovering: "recovering cfg m0 k s \<Longrightarrow> recovering cfg m0 k (fsw_drain_tick t s)"
proof -
  assume r: "recovering cfg m0 k s"
  let ?ctx = "fs_ctx s"
  obtain x fdir p5 seq where e: "migris_fdir_drain (fs_fdir s) (rt_apid ?ctx) (rt_tm_seq_count ?ctx) (rt_pus5 ?ctx) MIGRIS_TC_ROUTER_MAX_TM
      = (x, fdir, p5, seq)" by (metis prod_cases4)
  have "recovering cfg m0 k (s\<lparr>fs_fdir := fdir, fs_ctx := ?ctx\<lparr>rt_pus5 := p5, rt_tm_seq_count := seq\<rparr>\<rparr>)"
    using r recovery_drain [of cfg m0 _ "fs_fdir s" "fs_mode_mgr s" "rt_apid ?ctx" "rt_tm_seq_count ?ctx" "rt_pus5 ?ctx" MIGRIS_TC_ROUTER_MAX_TM]
    by (auto simp: recovering_def e)
  then show ?thesis by (simp add: fsw_drain_tick_def e recovering_view [OF fd_view_transmit])
qed

text \<open>The router counts exactly the telecommands it reports.\<close>

lemma dispatch_rejections:
  assumes "router_inv ctx" "128 \<le> cap" "rt_sink ctx" "migris_tc_router_dispatch report ctx st now tc cap = (r, ctx', st')"
  shows "rt_tc_rejected_count ctx' = rt_tc_rejected_count ctx \<and> st' = st
    \<or> rt_tc_rejected_count ctx' = rt_tc_rejected_count ctx + 1
      \<and> (\<exists>aux. length aux = 3 \<and> st' = snd (report st now SEV_LOW MIGRIS_PUS5_EVT_TC_REJECTED aux))"
proof -
  let ?v = "migris_tc_accept tc (rt_apid ctx)"
  consider "\<not> av_addressed ?v" | "av_addressed ?v" "av_fc ?v \<noteq> FC_NONE" | "av_addressed ?v" "av_fc ?v = FC_NONE" by blast
  then show ?thesis
  proof cases
    case 1
    then show ?thesis using dispatch_quiet(2) [OF assms(2) 1, of report st now] assms(4) by simp
  next
    case 2
    from dispatch_rejected [OF assms(1,2) refl 2, of report st now] assms(3,4)
    have "ctx' = router_counted ctx False \<or> ctx' = router_verified (router_counted ctx False) 1"
      and st': "st' = snd (report st now SEV_LOW MIGRIS_PUS5_EVT_TC_REJECTED [pus1_fc_code (av_fc ?v), av_service_type ?v, av_service_subtype ?v])"
      by (auto simp: router_report_rejection_def split: if_splits)
    then have "rt_tc_rejected_count ctx' = rt_tc_rejected_count ctx + 1" by (auto simp: router_verified_def router_counted_def)
    moreover have "length [pus1_fc_code (av_fc ?v), av_service_type ?v, av_service_subtype ?v] = 3" by simp
    ultimately show ?thesis using st' by blast
  next
    case 3
    let ?c = "if wants_acceptance ?v then router_verified (router_counted ctx True) 0 else router_counted ctx True"
    obtain reply fc ctx2 where route: "router_route ?c ?v now tc (if wants_acceptance ?v then cap - 22 else cap) = (reply, fc, ctx2)"
      by (metis prod.exhaust)
    from dispatch_accepted [OF assms(1,2) refl 3 route, of report st] assms(4)
    have "st' = st" "ctx' = (if wants_completion ?v then router_verified ctx2 (if fc = FC_NONE then 2 else 3) else ctx2)" "router_same ?c ctx2"
      by auto
    then show ?thesis by (auto simp: router_same_def router_verified_def router_counted_def split: if_splits)
  qed
qed

lemma dispatch_recovering:
  assumes w: "router_inv (fs_ctx s)" "rt_sink (fs_ctx s)"
    and "recovering cfg m0 k s" "operational m0" "tc_threshold cfg \<noteq> 0"
  shows "recovering cfg m0 (Suc k) (fsw_dispatch now tc s)"
proof -
  obtain r ctx fdir mgr where e: "migris_tc_router_dispatch fdir_sink_report (fs_ctx s) (fs_fdir s, fs_mode_mgr s) now tc
      MIGRIS_TC_ROUTER_MAX_TM = (r, ctx, fdir, mgr)" by (metis prod_cases4)
  from assms(3) obtain n where n: "n \<le> k" "rt_tc_rejected_count (fs_ctx s) = of_nat n" "recovery_at cfg m0 n (fs_fdir s, fs_mode_mgr s)"
    by (auto simp: recovering_def)
  have cap: "128 \<le> MIGRIS_TC_ROUTER_MAX_TM" by (simp add: fsw_const)
  from dispatch_rejections [OF w(1) cap w(2) e] n recovery_report [OF n(3) assms(4,5), of _ now SEV_LOW]
  have "recovering cfg m0 (Suc k) (s\<lparr>fs_ctx := ctx, fs_fdir := fdir, fs_mode_mgr := mgr\<rparr>)"
    unfolding recovering_def
    by (elim disjE conjE exE) (force intro: exI [of _ n], force intro: exI [of _ "Suc n"])
  then show ?thesis by (simp add: fsw_dispatch_def e recovering_view [OF fd_view_transmit])
qed

lemma recovering_more: "recovering cfg m0 k s \<Longrightarrow> k \<le> l \<Longrightarrow> recovering cfg m0 l s"
  by (auto simp: recovering_def intro: order_trans)

lemma inv_router: "fs_inv cfg t s \<Longrightarrow> router_inv (fs_ctx s) \<and> rt_sink (fs_ctx s)"
  by (simp add: fs_inv_def fs_wf_def)

lemma release_recovering:
  assumes "fs_inv cfg t s" "recovering cfg m0 k s" "operational m0" "tc_threshold cfg \<noteq> 0"
  shows "recovering cfg m0 (Suc k) (fsw_release_tick t s)"
proof -
  from assms(1) obtain c where c: "rt_schedule (fs_ctx s) = Some c" by (auto simp: fs_inv_def fs_wf_def)
  then have "sch_inv c" using fs_wf_router [OF assms(1)] by (simp add: router_inv_def)
  moreover obtain r c' where e: "migris_schedule_pop_due c t MIGRIS_SCHEDULE_TC_MAX = (r, c')" by force
  ultimately have "sch_inv c'" using pop_due_inv [of c t MIGRIS_SCHEDULE_TC_MAX] by simp
  then have w: "router_inv ((fs_ctx s)\<lparr>rt_schedule := Some c'\<rparr>)" "rt_sink ((fs_ctx s)\<lparr>rt_schedule := Some c'\<rparr>)"
    using inv_router [OF assms(1)] by (simp_all add: router_inv_def)
  let ?s = "s\<lparr>fs_ctx := (fs_ctx s)\<lparr>rt_schedule := Some c'\<rparr>\<rparr>"
  have s': "recovering cfg m0 k ?s" using assms(2) by (simp add: recovering_def)
  from dispatch_recovering [of ?s cfg m0 k t, OF _ _ s' assms(3,4)] w recovering_more [OF s', of "Suc k"] show ?thesis
    by (auto simp: fsw_release_tick_def c e Let_def split: sum.split option.split)
qed

lemma rx_recovering:
  assumes "fs_inv cfg t s" "recovering cfg m0 k s" "operational m0" "tc_threshold cfg \<noteq> 0"
  shows "recovering cfg m0 (Suc k) (fsw_rx_tick now drops got s)"
proof (cases got)
  case None
  with assms(2) show ?thesis by (simp add: fsw_rx_tick_def recovering_more)
next
  case (Some b)
  obtain buf w r where f: "frame_byte (fs_tc s, fs_want s) b = ((buf, w), r)" by (metis prod.exhaust)
  have any: "recovering cfg m0 l (s'\<lparr>fs_tc := buf, fs_want := w\<rparr>) = recovering cfg m0 l s'" for l s' and buf :: bytes and w :: nat
    by (rule recovering_view) (simp add: fd_view_def)
  have "recovering cfg m0 (Suc k) (received_from now drops tc s)" for tc
    unfolding received_from_def
    by (rule dispatch_recovering) (use inv_router [OF assms(1)] assms(2-4) in \<open>simp_all add: router_inv_def recovering_def\<close>)
  then show ?thesis using assms(2) by (simp add: Some rx_tick_frame f any recovering_more split: option.split)
qed

lemma iteration_recovering:
  assumes "fs_inv cfg t s" "t \<le> now_of (in_uptime_ms inp)" "recovering cfg m0 k s" "operational m0" "tc_threshold cfg \<noteq> 0"
  shows "recovering cfg m0 (k + 2) (fsw_iteration cfg inp s)"
proof -
  let ?t = "now_of (in_uptime_ms inp)"
  let ?s5 = "fsw_drain_tick ?t (fsw_overflow_tick ?t (in_drops_overflow inp) (fsw_dynamic_hk_tick ?t
      (fsw_hk_tick ?t (in_drops_hk inp) (fsw_save_tick cfg s))))"
  have i5: "fs_inv cfg ?t ?s5"
    by (intro drain_tick_inv overflow_tick_inv dynamic_hk_tick_inv hk_tick_inv save_tick_inv fs_inv_later [OF assms(1,2)])
  have "fd_view (fsw_dynamic_hk_tick ?t (fsw_hk_tick ?t (in_drops_hk inp) (fsw_save_tick cfg s))) = fd_view s" by simp
  then have "recovering cfg m0 k ?s5"
    by (intro drain_recovering overflow_recovering) (simp only: recovering_view assms(3))
  then have r6: "recovering cfg m0 (Suc k) (fsw_release_tick ?t ?s5)" by (rule release_recovering [OF i5 _ assms(4,5)])
  let ?s8 = "fsw_largedata_tick cfg ?t (fsw_replay_tick (fsw_release_tick ?t ?s5))"
  have i8: "fs_inv cfg ?t ?s8" by (intro largedata_tick_inv replay_tick_inv release_tick_inv i5)
  have "fd_view ?s8 = fd_view (fsw_release_tick ?t ?s5)" by simp
  then have "recovering cfg m0 (Suc k) ?s8" by (simp only: recovering_view r6)
  from rx_recovering [OF i8 this assms(4,5)] show ?thesis by (simp add: fsw_iteration_def Let_def)
qed

lemma run_recovering:
  assumes "fs_inv cfg (now_of ms) s" "clock_ok ms inputs" "recovering cfg m0 k s" "operational m0" "tc_threshold cfg \<noteq> 0"
  shows "recovering cfg m0 (k + 2 * length inputs) (fsw_run cfg inputs s)"
  using assms(1-3)
proof (induction inputs arbitrary: ms s k)
  case (Cons inp inputs)
  then have t: "now_of ms \<le> now_of (in_uptime_ms inp)" by (intro now_of_mono) (auto simp: clock_ok_def)
  from Cons.IH [OF iteration_inv [OF Cons.prems(1) t] _ iteration_recovering [OF Cons.prems(1) t Cons.prems(3) assms(4,5)]]
    Cons.prems(2) show ?case by (simp add: clock_ok_def fsw_run_def)
qed (simp add: fsw_run_def)

section \<open>Boot\<close>

lemma boot_recovering:
  fixes cfg :: fsw_config and boot_ms :: nat
  assumes "flash_map fa img ssize ok" "ok flash" "mem_ok mem" "CONFIG_FSW_MODE_DEMO cfg" "CONFIG_FSW_FDIR_RECOVERY_DEMO cfg"
    and "tc_threshold cfg \<noteq> 0"
  defines "s \<equiv> fsw_boot cfg fa mem flash boot_ms"
  defines "m0 \<equiv> migris_mode_current (fs_mode_mgr s)"
  shows "operational m0 \<and> recovering cfg m0 0 s"
proof -
  let ?i = "fsw_init cfg fa mem flash" and ?e = "fsw_boot_event (now_of boot_ms) (fsw_init cfg fa mem flash)"
  obtain rc nv where load: "migris_nvstore_load (migris_nvstore_init (mem_nvstore mem) (Some (migris_fsw_nv_flash_backend fa))) flash = (rc, nv)"
    by force
  note f = init_fields [OF load, of cfg]
  have e: "fd_view ?e = fd_view ?i" by (simp add: fsw_boot_event_def Let_def split: prod.split) (simp add: fd_view_def)
  obtain mi where mi: "migris_mode_init (mem_mode_mgr mem) mode_defs FSW_MODE_BOOT True = (MODE_OK, mi)" "mm_inv mi" "mm_declared mi = mode_defs"
    using app_mode_init [of "mem_mode_mgr mem"] assms(3) by (auto simp: mem_ok_def)
  have m: "mm_inv (fs_mode_mgr ?i) \<and> mm_declared (fs_mode_mgr ?i) = mode_defs"
    using restored_cases [of rc nv NVSTORE_RECORD_MODE migris_mode_deserialize_current mi] mode_restore [OF mi(2)] mi
    unfolding f(5) [OF assms(4)] by (metis snd_conv)
  have arr: "length (ef_slots (fd_fifo (mem_fdir mem))) = MIGRIS_FDIR_EVENT_FIFO_CAPACITY" using assms(3) by (simp add: mem_ok_def)
  have inv: "fd_inv (fs_fdir ?i)" using fdir_init_inv [OF arr] arm_inv f(6) by auto
  have arm: "fd_mode (fs_fdir ?i)" "fd_recovery_enabled (fs_fdir ?i)" "fd_safe_mode (fs_fdir ?i) = FSW_MODE_SAFE"
    "fd_thresholds (fs_fdir ?i) = [tc_threshold cfg, 0]" "fd_occurrences (fs_fdir ?i) = [0, 0]" "fd_confirmed (fs_fdir ?i) = [False, False]"
    unfolding f(6) using assms(5)
    by (simp_all add: migris_fdir_arm_recovery_def fdir_confirms_def fsw_const numeral_2_eq_2 del: One_nat_def)
  have cnt: "rt_tc_rejected_count (fs_ctx ?i) = 0" by (simp add: fsw_init_def Let_def fsw_boot_ctx_def split: prod.split)
  let ?req = "snd (migris_mode_request fdir_sink_report (fs_fdir ?i, fs_mode_mgr ?i) FSW_MODE_NOMINAL (now_of boot_ms))"
  have e': "fs_fdir ?e = fs_fdir ?i" "fs_mode_mgr ?e = fs_mode_mgr ?i" "rt_tc_rejected_count (fs_ctx ?e) = 0"
    using e cnt by (simp_all add: fd_view_def)
  have view: "fd_view s = (0, if mm_current (fs_mode_mgr ?i) = FSW_MODE_BOOT then ?req else (fs_fdir ?i, fs_mode_mgr ?i))"
    using assms(4) e' by (auto simp: s_def fsw_boot_def fsw_boot_mode_def Let_def fd_view_def migris_mode_current_def split: prod.splits)
  note r = request_spec [OF inv conjunct1 [OF m], of FSW_MODE_NOMINAL "now_of boot_ms"]
  have moved: "snd ?req = mm_moved (fs_mode_mgr ?i) FSW_MODE_NOMINAL" if "mm_current (fs_mode_mgr ?i) = FSW_MODE_BOOT"
    using r(2) m that by (simp add: edge_to_safe(3))
  have nominal: "mm_inv (mm_moved (fs_mode_mgr ?i) FSW_MODE_NOMINAL)"
    using m by (intro mm_moved_inv) (auto simp: mode_defs_eq FSW_MODE_NOMINAL_def)
  have known: "mm_current (fs_mode_mgr ?i) \<in> {FSW_MODE_BOOT, FSW_MODE_NOMINAL, FSW_MODE_SAFE}"
    using m by (auto simp: mm_inv_def mode_defs_def)
  have st: "fs_fdir s = (if mm_current (fs_mode_mgr ?i) = FSW_MODE_BOOT then fst ?req else fs_fdir ?i)"
    "fs_mode_mgr s = (if mm_current (fs_mode_mgr ?i) = FSW_MODE_BOOT then mm_moved (fs_mode_mgr ?i) FSW_MODE_NOMINAL else fs_mode_mgr ?i)"
    using arg_cong [OF view, of "\<lambda>v. fst (snd v)"] arg_cong [OF view, of "\<lambda>v. snd (snd v)"] moved by (simp_all add: fd_view_def)
  have m0: "m0 = (if mm_current (fs_mode_mgr ?i) = FSW_MODE_BOOT then FSW_MODE_NOMINAL else mm_current (fs_mode_mgr ?i))"
    by (simp add: m0_def st(2) migris_mode_current_def mm_moved_def)
  have low: "\<not> unat (tc_threshold cfg) \<le> 0" using assms(6) by (simp add: unat_eq_0)
  have "recovery_at cfg m0 0 (fs_fdir s, fs_mode_mgr s)"
    using inv m arm r(3-6) nominal low unfolding m0 st recovery_at_def
    by (cases "mm_current (fs_mode_mgr ?i) = FSW_MODE_BOOT") (simp_all add: fd_same_policy_def)
  then show ?thesis using view known unfolding m0 operational_def recovering_def by (auto simp: fd_view_def)
qed

section \<open>The closed loop\<close>

text \<open>
  C4: in a build with the recovery demo, over any mission of less than 2^31 iterations, the mode is SAFE
  from the moment the router has rejected as many telecommands as the threshold says, received or
  released from the schedule, and until then it is the mode the boot established: no single rejection, no receiver
  overflow and no accepted telecommand changes it, and nothing leads back.
\<close>
theorem recovery_is_exact:
  assumes "flash_map fa img ssize ok" "ok flash" "mem_ok mem" "cfg_ok cfg"
    and "distinct (map act_id (boot_schedule (fsw_init cfg fa mem flash)))"
    and "clock_ok boot_ms inputs" "fsw_main cfg fa True mem flash boot_ms inputs = Some s"
    and "CONFIG_FSW_FDIR_RECOVERY_DEMO cfg" "CONFIG_FSW_FDIR_TC_REJECTED_THRESHOLD cfg \<noteq> 0" "length inputs < 2147483648"
  shows "migris_mode_current (fs_mode_mgr s) =
    (if unat (CONFIG_FSW_FDIR_TC_REJECTED_THRESHOLD cfg) \<le> unat (rt_tc_rejected_count (fs_ctx s)) then FSW_MODE_SAFE
     else migris_mode_current (fs_mode_mgr (fsw_boot cfg fa mem flash boot_ms)))"
proof -
  let ?s0 = "fsw_boot cfg fa mem flash boot_ms" and ?m0 = "migris_mode_current (fs_mode_mgr (fsw_boot cfg fa mem flash boot_ms))"
  have demo: "CONFIG_FSW_MODE_DEMO cfg" using assms(4,8) by (simp add: cfg_ok_def)
  have s: "s = fsw_run cfg inputs ?s0" using assms(7) by (simp add: fsw_main_def)
  from boot_recovering [OF assms(1-3) demo assms(8,9)] have b: "operational ?m0" "recovering cfg ?m0 0 ?s0" by auto
  from run_recovering [OF boot_inv [OF assms(1-5)] assms(6) b(2,1) assms(9)] obtain n where
    n: "n \<le> 2 * length inputs" "rt_tc_rejected_count (fs_ctx s) = of_nat n" "recovery_at cfg ?m0 n (fs_fdir s, fs_mode_mgr s)"
    by (auto simp: recovering_def s)
  have "unat (of_nat n :: u32) = n" using n(1) assms(10) by (simp add: unat_of_nat take_bit_eq_mod)
  then show ?thesis using n(2,3) by (simp add: recovery_at_def migris_mode_current_def)
qed

lemma recovery_is_exact_witness:
  "\<exists>s. fsw_main config_example ram_area True memory_example (replicate 4096 0xFF) 1200 inputs_example = Some s
     \<and> migris_mode_current (fs_mode_mgr s) = (if 3 \<le> unat (rt_tc_rejected_count (fs_ctx s)) then FSW_MODE_SAFE
        else migris_mode_current (fs_mode_mgr (fsw_boot config_example ram_area memory_example (replicate 4096 0xFF) 1200)))"
proof -
  obtain s where s: "fsw_main config_example ram_area True memory_example (replicate 4096 0xFF) 1200 inputs_example = Some s"
    by (simp add: fsw_main_def)
  have c: "CONFIG_FSW_FDIR_RECOVERY_DEMO config_example" "CONFIG_FSW_FDIR_TC_REJECTED_THRESHOLD config_example = 3"
    by (simp_all add: config_example_def)
  moreover have "length inputs_example < 2147483648" by (simp add: inputs_example_def ping_example_def)
  ultimately show ?thesis
    using recovery_is_exact [OF ram.flash_map_axioms erased_mission(1) memory_example_ok config_example_ok erased_mission(2)
      inputs_example_clock s c(1)] s by auto
qed

end
