(* ===== verification/Generations.thy ===== *)
theory Generations
  imports Reboot Recovery
begin

text \<open>
  The generation counters by which the save tick of samples/tc_uart/src/main.c decides what to
  write: no operation of lib/datapool, lib/schedule, lib/hkstore or lib/mode, no telecommand through
  the router and no tick of the loop changes what a save would write without advancing the counter,
  and a whole iteration advances it by far less than a full turn.
\<close>

section \<open>Counter and content\<close>

text \<open>
  A step from one pair of counter and content to another that advances the counter by at most \<open>b\<close>, and
  by 0 only if the content stays.
\<close>

definition moved :: "nat \<Rightarrow> u32 \<times> 'a \<Rightarrow> u32 \<times> 'a \<Rightarrow> bool" where
  "moved b v w \<longleftrightarrow> (\<exists>n \<le> b. fst w = fst v + of_nat n \<and> (n = 0 \<longrightarrow> snd w = snd v))"

lemma moved_refl [simp]: "moved b v v"
  by (auto simp: moved_def)

lemma moved_trans: "moved a u v \<Longrightarrow> moved b v w \<Longrightarrow> moved (a + b) u w"
proof -
  assume "moved a u v" "moved b v w"
  then obtain m n where mn: "m \<le> a" "fst v = fst u + of_nat m" "m = 0 \<longrightarrow> snd v = snd u"
    "n \<le> b" "fst w = fst v + of_nat n" "n = 0 \<longrightarrow> snd w = snd v" by (auto simp: moved_def)
  then show ?thesis unfolding moved_def by (intro exI [of _ "m + n"]) (auto simp: add.assoc)
qed

lemma moved_mono: "moved a v w \<Longrightarrow> a \<le> b \<Longrightarrow> moved b v w"
  unfolding moved_def by (meson order_trans)

lemma moved_once: "fst w = fst v + 1 \<Longrightarrow> 0 < b \<Longrightarrow> moved b v w"
  unfolding moved_def by (intro exI [of _ 1]) simp

lemma moved_0: "moved 0 v w \<longleftrightarrow> w = v"
  by (auto simp: moved_def prod_eq_iff)

text \<open>The point of it: a counter that reads the same means a content that is the same.\<close>

lemma moved_same: "moved b v w \<Longrightarrow> b < 2 ^ 32 \<Longrightarrow> fst w = fst v \<Longrightarrow> w = v"
proof -
  assume m: "moved b v w" and b: "b < 2 ^ 32" and same: "fst w = fst v"
  from m obtain n where n: "n \<le> b" "fst w = fst v + of_nat n" "n = 0 \<longrightarrow> snd w = snd v" by (auto simp: moved_def)
  have "unat (of_nat n :: u32) = n" using n(1) b by (simp add: unat_of_nat take_bit_eq_mod)
  moreover have "(of_nat n :: u32) = 0" using n(2) same by simp
  ultimately have "n = 0" by simp
  with n(3) same show ?thesis by (simp add: prod_eq_iff)
qed

text \<open>
  The contract of an operation with the save tick: each call advances the counter by at most one, and
  leaves the content alone if it does not. Any number of calls short of a full turn then shows.
\<close>

locale generation_counter =
  fixes view :: "'s \<Rightarrow> u32 \<times> 'a" and step :: "'x \<Rightarrow> 's \<Rightarrow> 's"
  assumes step_moved: "moved 1 (view s) (view (step x s))"
begin

lemma steps_moved: "length xs \<le> b \<Longrightarrow> moved b (view s) (view (fold step xs s))"
proof (induction xs arbitrary: s b)
  case (Cons x xs)
  from moved_trans [OF step_moved [of s x] Cons.IH [of "b - 1" "step x s"]] Cons.prems show ?case by simp
qed simp

lemma change_shows: "length xs < 2 ^ 32 \<Longrightarrow> fst (view (fold step xs s)) = fst (view s) \<Longrightarrow> view (fold step xs s) = view s"
  using moved_same [OF steps_moved [OF order_refl]] by blast

end

section \<open>The persistent objects\<close>

definition dp_view :: "migris_datapool_t \<Rightarrow> u32 \<times> migris_dp_param_t list" where
  "dp_view d = (dp_generation d, dp_live d)"

definition sch_view :: "migris_schedule_t \<Rightarrow> u32 \<times> migris_schedule_activity_t list \<times> bool" where
  "sch_view c = (sch_generation c, sch_live c, sch_enabled c)"

text \<open>The time of the last emission is not saved: it is no part of the content.\<close>

definition hks_saved :: "migris_hk_structure_t list \<Rightarrow> migris_hk_structure_t list" where
  "hks_saved xs = map (\<lambda>x. x\<lparr>hk_last_emit_sec := 0\<rparr>) xs"

definition hks_view :: "migris_hkstore_t \<Rightarrow> u32 \<times> migris_hk_structure_t list" where
  "hks_view h = (hks_generation h, hks_saved (hks_live h))"

definition mm_view :: "migris_mode_manager_t \<Rightarrow> u32 \<times> u8" where
  "mm_view m = (mm_generation m, mm_current m)"

lemma datapool_set_moved: "moved 1 (dp_view d) (dp_view (snd (migris_datapool_set d pid v)))"
  by (auto simp: migris_datapool_set_def Let_def dp_view_def intro: moved_once split: option.split)

interpretation dp_sets: generation_counter dp_view "\<lambda>w d. snd (migris_datapool_set d (fst w) (snd w))"
  by unfold_locales (rule datapool_set_moved)

lemma datapool_sets_moved: "length ws \<le> b \<Longrightarrow> moved b (dp_view d) (dp_view (dp_apply_all migris_datapool_set d ws))"
proof -
  have "dp_apply_all migris_datapool_set d ws = fold (\<lambda>w d. snd (migris_datapool_set d (fst w) (snd w))) ws d"
    by (induction ws arbitrary: d) auto
  then show "length ws \<le> b \<Longrightarrow> ?thesis" using dp_sets.steps_moved by simp
qed

lemma schedule_steps_moved:
  "moved 1 (sch_view c) (sch_view (snd (migris_schedule_insert c t tc)))"
  "moved 1 (sch_view c) (sch_view (snd (migris_schedule_delete c rid)))"
  "moved 1 (sch_view c) (sch_view (snd (migris_schedule_pop_due c now cap)))"
  "moved 1 (sch_view c) (sch_view (migris_schedule_reset c))"
  "moved 1 (sch_view c) (sch_view (migris_schedule_set_enabled c on))"
  by (auto simp: migris_schedule_insert_def migris_schedule_delete_def migris_schedule_pop_due_def migris_schedule_reset_def
      migris_schedule_set_enabled_def sched_remove_at_def Let_def sch_view_def intro: moved_once split: option.split)

interpretation sch_inserts: generation_counter sch_view "\<lambda>w c. snd (migris_schedule_insert c (fst w) (snd w))"
  by unfold_locales (rule schedule_steps_moved(1))

interpretation sch_deletes: generation_counter sch_view "\<lambda>rid c. snd (migris_schedule_delete c rid)"
  by unfold_locales (rule schedule_steps_moved(2))

lemma schedule_inserts_moved: "length ws \<le> b \<Longrightarrow> moved b (sch_view c) (sch_view (act_insert_all migris_schedule_insert c ws))"
proof -
  have "act_insert_all migris_schedule_insert c ws = fold (\<lambda>w c. snd (migris_schedule_insert c (fst w) (snd w))) ws c"
    by (induction ws arbitrary: c) auto
  then show "length ws \<le> b \<Longrightarrow> ?thesis" using sch_inserts.steps_moved by simp
qed

lemma hkstore_steps_moved:
  "moved 1 (hks_view h) (hks_view (snd (migris_hkstore_create h sid ids t)))"
  "moved 1 (hks_view h) (hks_view (snd (migris_hkstore_delete h sid)))"
  "moved 1 (hks_view h) (hks_view (snd (migris_hkstore_set_enabled h sid on)))"
  by (auto simp: migris_hkstore_create_def migris_hkstore_delete_def migris_hkstore_set_enabled_def Let_def hks_view_def
      intro: moved_once split: option.split)

text \<open>A structure that is due changes its time stamp only.\<close>

lemma saved_update:
  "hk_in_use x = hk_in_use (xs ! i) \<Longrightarrow> x\<lparr>hk_last_emit_sec := 0\<rparr> = (xs ! i)\<lparr>hk_last_emit_sec := 0\<rparr> \<Longrightarrow>
     hks_saved (filter hk_in_use (xs[i := x])) = hks_saved (filter hk_in_use xs)"
proof (induction xs arbitrary: i)
  case (Cons y xs)
  then show ?case by (cases i) (auto simp: hks_saved_def)
qed simp

lemma hkstore_due_view: "hks_view (snd (migris_hkstore_due h now)) = hks_view h"
  using saved_update [of _ "hks_structures h"]
  by (auto simp: migris_hkstore_due_def Let_def hks_view_def hks_live_def split: option.split)

section \<open>Services and router\<close>

lemma pus3_moved: "moved 1 (hks_view h) (hks_view (snd (migris_pus3_execute h st app)))"
  using hkstore_steps_moved
  by (auto simp: migris_pus3_execute_def pus3_exec_create_def pus3_exec_sid_only_def Let_def case_prod_beta)

interpretation hk_requests: generation_counter hks_view "\<lambda>r h. snd (migris_pus3_execute h (fst r) (snd r))"
  by unfold_locales (rule pus3_moved)

lemma length_decode_from: "pus20_decode_from d app off n = Inr ws \<Longrightarrow> length ws = n"
  by (induction d app off n arbitrary: ws rule: pus20_decode_from.induct) (auto simp: Let_def split: if_splits option.splits sum.splits)

lemma pus20_moved:
  "migris_pus20_execute p d apid seq now st src app cap = (r, (p', d'), seq') \<Longrightarrow> moved 8 (dp_view d) (dp_view d')"
proof -
  have "moved 8 (dp_view d) (dp_view (snd (pus20_set d app)))"
    by (auto simp: pus20_set_def pus20_decode_sets_def Let_def fsw_const dest!: length_decode_from intro!: datapool_sets_moved
        split: sum.split if_splits)
  then show "migris_pus20_execute p d apid seq now st src app cap = (r, (p', d'), seq') \<Longrightarrow> ?thesis"
    by (auto simp: migris_pus20_execute_def split: if_splits prod.splits)
qed

lemma length_decode_inserts_from: "pus11_decode_inserts_from s app off n seen = Inr ws \<Longrightarrow> length ws = n"
  by (induction s app off n seen arbitrary: ws rule: pus11_decode_inserts_from.induct) (auto simp: Let_def split: if_splits sum.splits)

lemma pus11_moved:
  "migris_pus11_execute p c apid seq now st src app cap = (r, (p', c'), seq') \<Longrightarrow> moved 8 (sch_view c) (sch_view c')"
proof -
  have "moved 8 (sch_view c) (sch_view (snd (pus11_insert c app)))"
    by (auto simp: pus11_insert_def pus11_decode_inserts_def Let_def fsw_const dest!: length_decode_inserts_from
        intro!: schedule_inserts_moved split: sum.split if_splits)
  moreover have "moved 8 (sch_view c) (sch_view (snd (pus11_delete c app)))"
    by (auto simp: pus11_delete_def pus11_decode_request_ids_def Let_def fsw_const
        intro!: sch_deletes.steps_moved split: sum.split if_splits)
  moreover have "moved 8 (sch_view c) (sch_view (migris_schedule_reset c))" "moved 8 (sch_view c) (sch_view (migris_schedule_set_enabled c on))" for on
    by (rule moved_mono [OF schedule_steps_moved(4)], simp, rule moved_mono [OF schedule_steps_moved(5)], simp)
  ultimately show "migris_pus11_execute p c apid seq now st src app cap = (r, (p', c'), seq') \<Longrightarrow> ?thesis"
    by (auto simp: migris_pus11_execute_def split: if_splits prod.splits)
qed

text \<open>The persistent objects of the router's context.\<close>

definition ctx_moved :: "nat \<Rightarrow> migris_tc_router_ctx_t \<Rightarrow> migris_tc_router_ctx_t \<Rightarrow> bool" where
  "ctx_moved b ctx ctx' \<longleftrightarrow> rel_option (\<lambda>x y. moved b (dp_view x) (dp_view y)) (rt_datapool ctx) (rt_datapool ctx')
     \<and> rel_option (\<lambda>x y. moved b (sch_view x) (sch_view y)) (rt_schedule ctx) (rt_schedule ctx')
     \<and> rel_option (\<lambda>x y. moved b (hks_view x) (hks_view y)) (rt_hkstore ctx) (rt_hkstore ctx')"

lemma rel_moved_refl [simp]: "rel_option (\<lambda>x y. moved b (v x) (v y)) x x"
  by (cases x) simp_all

lemma ctx_moved_same:
  "rt_datapool ctx' = rt_datapool ctx \<Longrightarrow> rt_schedule ctx' = rt_schedule ctx \<Longrightarrow> rt_hkstore ctx' = rt_hkstore ctx \<Longrightarrow> ctx_moved b ctx ctx'"
  by (simp add: ctx_moved_def)

lemma ctx_moved_refl [simp]: "ctx_moved b c c"
  by (simp add: ctx_moved_def)

lemma route_moved: "router_route ctx v now tc cap = (reply, fc, ctx') \<Longrightarrow> ctx_moved 8 ctx ctx'"
proof -
  have p17: "router_pus17 ctx v now tc cap = (reply, fc, ctx') \<Longrightarrow> ctx_moved 8 ctx ctx'"
    by (auto simp: router_pus17_def Let_def intro!: ctx_moved_same split: prod.splits sum.splits)
  have p15: "router_pus15 ctx v now tc cap = (reply, fc, ctx') \<Longrightarrow> ctx_moved 8 ctx ctx'"
    by (auto simp: router_pus15_def Let_def intro!: ctx_moved_same split: prod.splits sum.splits option.splits)
  have p20: "router_pus20 ctx v now tc cap = (reply, fc, ctx') \<Longrightarrow> ctx_moved 8 ctx ctx'"
    by (auto simp: router_pus20_def ctx_moved_def Let_def dest: pus20_moved split: prod.splits sum.splits option.splits)
  have p11: "router_pus11 ctx v now tc cap = (reply, fc, ctx') \<Longrightarrow> ctx_moved 8 ctx ctx'"
    by (auto simp: router_pus11_def ctx_moved_def Let_def dest: pus11_moved split: prod.splits sum.splits option.splits)
  have m: "moved 8 (hks_view h) (hks_view h')" if "migris_pus3_execute h st app = (rc, h')" for h st app rc h'
    using moved_mono [OF pus3_moved [of h st app], of 8] that by simp
  have poll: "ctx_moved 8 ctx (snd (snd (router_pus3_poll ctx v now app cap)))" for app
    by (auto simp: router_pus3_poll_def router_pus3_poll_framework_def router_pus3_poll_dynamic_def Let_def
        intro!: ctx_moved_same split: prod.split sum.split option.split)
  have manage: "ctx_moved 8 ctx (snd (snd (router_pus3_manage ctx v app)))" for app
    by (auto simp: router_pus3_manage_def ctx_moved_def dest: m split: prod.split option.split)
  have p3: "router_pus3 ctx v now tc cap = (reply, fc, ctx') \<Longrightarrow> ctx_moved 8 ctx ctx'"
    using poll [of "router_app_data tc"] manage [of "router_app_data tc"] by (auto simp: router_pus3_def Let_def split: if_splits)
  show "router_route ctx v now tc cap = (reply, fc, ctx') \<Longrightarrow> ctx_moved 8 ctx ctx'"
    using p17 p3 p20 p11 p15
    by (auto simp: router_route_def router_dispatch_table_def intro: ctx_moved_same split: if_splits)
qed

text \<open>The verification reports and the counters around it touch none of them.\<close>

definition persist_ptrs :: "migris_tc_router_ctx_t \<Rightarrow> migris_datapool_t option \<times> migris_schedule_t option \<times> migris_hkstore_t option" where
  "persist_ptrs ctx = (rt_datapool ctx, rt_schedule ctx, rt_hkstore ctx)"

lemma reports_persist:
  "router_acceptance c now rid dest fc out cap = (out', c') \<Longrightarrow> persist_ptrs c' = persist_ptrs c"
  "router_completion c now rid dest fc out cap = (out', c') \<Longrightarrow> persist_ptrs c' = persist_ptrs c"
  by (auto simp: router_acceptance_def router_completion_def persist_ptrs_def Let_def split: prod.splits)

lemma ctx_moved_ptrs: "persist_ptrs c' = persist_ptrs c \<Longrightarrow> ctx_moved b c0 c' = ctx_moved b c0 c"
  "persist_ptrs c' = persist_ptrs c \<Longrightarrow> ctx_moved b c' c0 = ctx_moved b c c0"
  by (simp_all add: ctx_moved_def persist_ptrs_def)

lemma dispatch_moved:
  assumes "migris_tc_router_dispatch report ctx st now tc cap = (r, ctx', st')"
  shows "ctx_moved 8 ctx ctx'"
proof -
  have count: "persist_ptrs (ctx\<lparr>rt_tc_rejected_count := n\<rparr>) = persist_ptrs ctx"
    "persist_ptrs (ctx\<lparr>rt_tc_accepted_count := n\<rparr>) = persist_ptrs ctx" for n by (simp_all add: persist_ptrs_def)
  have same: "ctx_moved 8 ctx c'" if "persist_ptrs c' = persist_ptrs ctx" for c'
    using that by (simp add: ctx_moved_same persist_ptrs_def)
  have routed: "ctx_moved 8 ctx c3" if "persist_ptrs c1 = persist_ptrs ctx" "router_route c1 v now tc m = (reply, fc, c2)"
    "persist_ptrs c3 = persist_ptrs c2" for c1 v m reply fc c2 c3
    using route_moved [OF that(2)] by (simp add: ctx_moved_ptrs(1) [OF that(3)] ctx_moved_ptrs(2) [OF that(1)])
  show ?thesis
    using assms
    by (auto simp: migris_tc_router_dispatch_def Let_def count dest!: reports_persist intro: same
      split: if_splits prod.splits) (metis routed count(2))+
qed

section \<open>FDIR and the mode manager\<close>

lemma mm_moved_view: "0 < b \<Longrightarrow> moved b (mm_view m) (mm_view (mm_moved m t))"
  by (simp add: mm_view_def moved_once)

lemma mode_request_moved:
  "fd_inv ctx \<Longrightarrow> mm_inv mgr \<Longrightarrow> moved 1 (mm_view mgr) (mm_view (snd (snd (migris_mode_request fdir_sink_report (ctx, mgr) target now))))"
  by (simp add: request_spec(2) mm_moved_view)

lemma fdir_event_moved:
  assumes inv: "fd_inv ctx" "mm_inv mgr" and act: "act = SinkEvent now sev eid aux \<and> length aux \<le> 8 \<or> act = Anomaly a now d"
  shows "moved 1 (mm_view mgr) (mm_view (snd (fdir_do act (ctx, mgr))))"
proof -
  have obs: "moved 1 (mm_view mgr) (mm_view (snd (fdir_observe fdir_sink_report (snd (fdir_enqueue ctx now sev eid aux), mgr) a now)))"
    if "anom_index a < 2" "length aux \<le> 8" for a :: migris_fdir_anomaly_t and sev eid aux
    using anomaly_then_observe(2) [OF inv, of a aux now sev eid] that mm_moved_view by (simp add: fsw_const)
  from act show ?thesis
  proof
    assume a: "act = SinkEvent now sev eid aux \<and> length aux \<le> 8"
    then show ?thesis
      using obs by (cases "fdir_event_anomaly eid") (auto simp: sink_report_quiet sink_report_anomaly fdir_event_anomaly_def split: if_splits)
  next
    assume a: "act = Anomaly a now d"
    show ?thesis
    proof (cases "anomaly_event a d")
      case (Some x)
      obtain sev eid aux where x: "x = (sev, eid, aux)" by (metis prod_cases3)
      note r = report_as_observe [OF Some [unfolded x]]
      then show ?thesis using obs [of a aux sev eid] by (simp add: a fsw_const)
    qed (simp add: a migris_fdir_report_anomaly_def)
  qed
qed

section \<open>The ticks of the loop\<close>

definition app_moved :: "fsw_config \<Rightarrow> nat \<Rightarrow> 'f fsw_state \<Rightarrow> 'f fsw_state \<Rightarrow> bool" where
  "app_moved cfg b s s' \<longleftrightarrow> ctx_moved b (fs_ctx s) (fs_ctx s')
     \<and> (CONFIG_FSW_MODE_DEMO cfg \<longrightarrow> moved b (mm_view (fs_mode_mgr s)) (mm_view (fs_mode_mgr s')))
     \<and> nv_view s' = nv_view s \<and> gens_of s' = gens_of s"

lemma ctx_moved_trans: "ctx_moved a c c1 \<Longrightarrow> ctx_moved b c1 c2 \<Longrightarrow> ctx_moved (a + b) c c2"
  unfolding ctx_moved_def by (auto elim!: option.rel_cases intro: moved_trans)

lemma app_moved_refl [simp]: "app_moved cfg b s s"
  by (simp add: app_moved_def)

lemma app_moved_trans: "app_moved cfg a s s1 \<Longrightarrow> app_moved cfg b s1 s2 \<Longrightarrow> app_moved cfg (a + b) s s2"
  unfolding app_moved_def by (auto intro: ctx_moved_trans moved_trans)

text \<open>What a tick must leave alone to be no step at all.\<close>

definition loop_view :: "'f fsw_state \<Rightarrow> (migris_datapool_t option \<times> migris_schedule_t option \<times> migris_hkstore_t option)
    \<times> migris_mode_manager_t \<times> ('f migris_nvstore_t \<times> 'f) \<times> u32 list" where
  "loop_view s = (persist_ptrs (fs_ctx s), fs_mode_mgr s, nv_view s, gens_of s)"

lemma app_moved_view: "loop_view s' = loop_view s \<Longrightarrow> app_moved cfg b s0 s' = app_moved cfg b s0 s"
  by (simp add: app_moved_def loop_view_def ctx_moved_def persist_ptrs_def)

lemma app_moved_same: "loop_view s' = loop_view s \<Longrightarrow> app_moved cfg b s s'"
  by (simp add: app_moved_view)

lemma loop_view_transmit [simp]: "loop_view (transmit_result t r s) = loop_view s"
  by (simp add: loop_view_def persist_ptrs_def gens_of_def)

lemma loop_view_updates [simp]:
  "loop_view (s\<lparr>fs_last_hk_emit_sec := t\<rparr>) = loop_view s" "loop_view (s\<lparr>fs_log := l\<rparr>) = loop_view s"
  "loop_view (s\<lparr>fs_tc := buf, fs_want := w\<rparr>) = loop_view s"
  by (simp_all add: loop_view_def gens_of_def nv_view_def)

lemma loop_view_ticks [simp]:
  "loop_view (fsw_hk_tick t drops s) = loop_view s" "loop_view (fsw_drain_tick t s) = loop_view s"
  "loop_view (fsw_replay_tick s) = loop_view s" "loop_view (fsw_largedata_tick cfg t s) = loop_view s"
  by (auto simp: fsw_hk_tick_def fsw_drain_tick_def fsw_replay_tick_def fsw_largedata_tick_def Let_def
      split: prod.split option.split sum.split)
    (auto simp: loop_view_def persist_ptrs_def gens_of_def nv_view_def)

lemma dynamic_hk_moved: "app_moved cfg 0 s (fsw_dynamic_hk_tick t s)"
proof (cases "rt_hkstore (fs_ctx s)")
  case (Some h)
  obtain x h' where e: "migris_hkstore_due h t = (x, h')" by force
  then have v: "hks_view h' = hks_view h" using hkstore_due_view [of h t] by simp
  have "app_moved cfg 0 s (s\<lparr>fs_ctx := (fs_ctx s)\<lparr>rt_hkstore := Some h'\<rparr>\<rparr>)"
    "app_moved cfg 0 s (s\<lparr>fs_ctx := (fs_ctx s)\<lparr>rt_hkstore := Some h', rt_tm_seq_count := q\<rparr>, fs_pus3_ctx := p\<rparr>)" for q p
    by (simp_all add: app_moved_def ctx_moved_def Some v gens_of_def nv_view_def)
  then show ?thesis
    by (auto simp: fsw_dynamic_hk_tick_def Some e Let_def app_moved_view [OF loop_view_transmit] split: option.split prod.split)
qed (simp add: fsw_dynamic_hk_tick_def)

lemma overflow_moved:
  assumes "fs_inv cfg t s"
  shows "app_moved cfg 1 s (fsw_overflow_tick now drops s)"
proof -
  obtain rc fdir mgr where e: "migris_fdir_report_anomaly (fs_fdir s, fs_mode_mgr s) ANOM_RX_OVERFLOW now (drops - fs_last_reported_rx_drops s)
      = (rc, fdir, mgr)" by (metis prod_cases3)
  have "moved 1 (mm_view (fs_mode_mgr s)) (mm_view mgr)" if "CONFIG_FSW_MODE_DEMO cfg"
    using fdir_event_moved [of "fs_fdir s" "fs_mode_mgr s" "Anomaly ANOM_RX_OVERFLOW now (drops - fs_last_reported_rx_drops s)"]
      fs_wf_router [OF assms] that by (simp add: fdir_ok_def e)
  then show ?thesis by (simp add: fsw_overflow_tick_def e app_moved_def gens_of_def nv_view_def)
qed

lemma dispatch_app_moved:
  assumes "fdir_ok cfg (fs_fdir s, fs_mode_mgr s)" "router_inv (fs_ctx s)" "rt_sink (fs_ctx s)"
  shows "app_moved cfg 8 s (fsw_dispatch now tc s)"
proof -
  obtain r ctx fdir mgr where e: "migris_tc_router_dispatch fdir_sink_report (fs_ctx s) (fs_fdir s, fs_mode_mgr s) now tc
      MIGRIS_TC_ROUTER_MAX_TM = (r, ctx, fdir, mgr)" by (metis prod_cases4)
  have cap: "128 \<le> MIGRIS_TC_ROUTER_MAX_TM" by (simp add: fsw_const)
  have "moved 8 (mm_view (fs_mode_mgr s)) (mm_view mgr)" if demo: "CONFIG_FSW_MODE_DEMO cfg"
  proof -
    from dispatch_rejections [OF assms(2) cap assms(3) e]
    have "mgr = fs_mode_mgr s \<or> (\<exists>aux. length aux = 3 \<and>
        mgr = snd (snd (fdir_sink_report (fs_fdir s, fs_mode_mgr s) now SEV_LOW MIGRIS_PUS5_EVT_TC_REJECTED aux)))" by (metis snd_conv)
    moreover have "moved 8 (mm_view (fs_mode_mgr s)) (mm_view (snd (snd (fdir_sink_report (fs_fdir s, fs_mode_mgr s) now SEV_LOW
        MIGRIS_PUS5_EVT_TC_REJECTED aux))))" if "length aux = 3" for aux
      using moved_mono [where b = 8, OF fdir_event_moved [of "fs_fdir s" "fs_mode_mgr s" "SinkEvent now SEV_LOW MIGRIS_PUS5_EVT_TC_REJECTED aux"]]
        assms(1) that demo by (simp add: fdir_ok_def)
    ultimately show ?thesis by auto
  qed
  then have "app_moved cfg 8 s (s\<lparr>fs_ctx := ctx, fs_fdir := fdir, fs_mode_mgr := mgr\<rparr>)"
    using dispatch_moved [OF e] by (simp add: app_moved_def gens_of_def nv_view_def)
  then show ?thesis by (simp add: fsw_dispatch_def e app_moved_view [OF loop_view_transmit])
qed

lemma fs_inv_dispatch: "fs_inv cfg t s \<Longrightarrow> fdir_ok cfg (fs_fdir s, fs_mode_mgr s) \<and> router_inv (fs_ctx s) \<and> rt_sink (fs_ctx s)"
  using fs_wf_router inv_router by blast

lemma release_moved:
  assumes "fs_inv cfg t s"
  shows "app_moved cfg 9 s (fsw_release_tick now s)"
proof -
  from assms obtain c where c: "rt_schedule (fs_ctx s) = Some c" by (auto simp: fs_inv_def fs_wf_def)
  note i = fs_inv_dispatch [OF assms]
  obtain r c' where e: "migris_schedule_pop_due c now MIGRIS_SCHEDULE_TC_MAX = (r, c')" by force
  let ?s = "s\<lparr>fs_ctx := (fs_ctx s)\<lparr>rt_schedule := Some c'\<rparr>\<rparr>"
  have "sch_inv c" using i by (simp add: router_inv_def c)
  then have "sch_inv c'" using pop_due_inv [of c now MIGRIS_SCHEDULE_TC_MAX] e by simp
  then have w: "router_inv (fs_ctx ?s)" using i by (simp add: router_inv_def)
  have "moved 1 (sch_view c) (sch_view c')" using schedule_steps_moved(3) [of c now MIGRIS_SCHEDULE_TC_MAX] by (simp add: e)
  then have s1: "app_moved cfg 1 s ?s" by (simp add: app_moved_def ctx_moved_def c gens_of_def nv_view_def)
  have "app_moved cfg 8 ?s (fsw_dispatch now tc ?s)" for tc by (rule dispatch_app_moved) (use i w in simp_all)
  from app_moved_trans [OF s1 this] app_moved_trans [OF s1 app_moved_refl, of 8] show ?thesis
    by (auto simp: fsw_release_tick_def c e Let_def split: sum.split option.split)
qed

lemma rx_moved:
  assumes "fs_inv cfg t s"
  shows "app_moved cfg 8 s (fsw_rx_tick now drops got s)"
proof (cases got)
  case (Some b)
  obtain buf w r where f: "frame_byte (fs_tc s, fs_want s) b = ((buf, w), r)" by (metis prod.exhaust)
  have any: "app_moved cfg 8 s (s'\<lparr>fs_tc := buf, fs_want := w\<rparr>) = app_moved cfg 8 s s'" for s' and buf :: bytes and w :: nat
    by (rule app_moved_view) simp
  have "app_moved cfg 8 s (received_from now drops tc s)" for tc
  proof -
    let ?s = "s\<lparr>fs_ctx := (fs_ctx s)\<lparr>rt_rx_ring_overflow_drops := drops\<rparr>, fs_log := fs_log s @ [Tc_received tc]\<rparr>"
    have s0: "app_moved cfg 0 s ?s" by (rule app_moved_same) (simp add: loop_view_def persist_ptrs_def gens_of_def nv_view_def)
    have "app_moved cfg 8 ?s (fsw_dispatch now tc ?s)"
      by (rule dispatch_app_moved) (use fs_inv_dispatch [OF assms] in \<open>simp_all add: router_inv_def\<close>)
    from app_moved_trans [OF s0 this] show ?thesis by (simp add: received_from_def)
  qed
  then show ?thesis by (simp add: Some rx_tick_frame f any split: option.split)
qed (simp add: fsw_rx_tick_def)

text \<open>All of an iteration behind the save tick.\<close>

lemma iteration_moved:
  assumes "fs_inv cfg t s" "t \<le> now_of (in_uptime_ms inp)"
  shows "app_moved cfg 18 (fsw_save_tick cfg s) (fsw_iteration cfg inp s)"
proof -
  let ?t = "now_of (in_uptime_ms inp)" and ?s0 = "fsw_save_tick cfg s"
  let ?s2 = "fsw_dynamic_hk_tick ?t (fsw_hk_tick ?t (in_drops_hk inp) ?s0)"
  let ?s4 = "fsw_drain_tick ?t (fsw_overflow_tick ?t (in_drops_overflow inp) ?s2)"
  let ?s7 = "fsw_largedata_tick cfg ?t (fsw_replay_tick (fsw_release_tick ?t ?s4))"
  have i2: "fs_inv cfg ?t ?s2" by (intro dynamic_hk_tick_inv hk_tick_inv save_tick_inv fs_inv_later [OF assms])
  have i4: "fs_inv cfg ?t ?s4" by (intro drain_tick_inv overflow_tick_inv i2)
  have i7: "fs_inv cfg ?t ?s7" by (intro largedata_tick_inv replay_tick_inv release_tick_inv i4)
  have "app_moved cfg 0 ?s0 (fsw_hk_tick ?t (in_drops_hk inp) ?s0)" by (rule app_moved_same) simp
  from app_moved_trans [OF this dynamic_hk_moved] have m2: "app_moved cfg 0 ?s0 ?s2" by simp
  have "app_moved cfg 1 ?s2 ?s4" using overflow_moved [OF i2] by (simp add: app_moved_view [OF loop_view_ticks(2)])
  from app_moved_trans [OF m2 this] have m4: "app_moved cfg 1 ?s0 ?s4" by simp
  have "app_moved cfg 9 ?s4 ?s7" using release_moved [OF i4]
    by (simp add: app_moved_view [OF loop_view_ticks(3)] app_moved_view [OF loop_view_ticks(4)])
  from app_moved_trans [OF app_moved_trans [OF m4 this] rx_moved [OF i7]] show ?thesis by (simp add: fsw_iteration_def Let_def)
qed

end
