(* ===== verification/Persistence.thy ===== *)
theory Persistence
  imports Generations
begin

text \<open>
  No persistent change is lost: in the application of samples/tc_uart/src/main.c, on a flash that
  does not fail, a reboot behind any save tick finds the parameters, the schedule, the housekeeping
  structures and the mode as they were, over any sequence of missions on the same flash.
\<close>

section \<open>What the records of an image stand for\<close>

definition params_image :: "fsw_config \<Rightarrow> bytes \<Rightarrow> migris_dp_param_t list \<Rightarrow> bool" where
  "params_image cfg bs ps \<longleftrightarrow> (\<exists>d. dp_inv d \<and> dp_values_ok d \<and> map dp_decl (dp_live d) = map dp_decl (dp_params_of cfg)
     \<and> dp_live d = ps \<and> migris_datapool_serialize d 64 = Inr bs)"

definition schedule_image :: "bytes \<Rightarrow> migris_schedule_activity_t list \<times> bool \<Rightarrow> bool" where
  "schedule_image bs v \<longleftrightarrow> (\<exists>c. sch_inv c \<and> (sch_live c, sch_enabled c) = v \<and> migris_schedule_serialize c 1200 = Inr bs)"

definition structures_image :: "bytes \<Rightarrow> migris_hk_structure_t list \<Rightarrow> bool" where
  "structures_image bs hs \<longleftrightarrow> (\<exists>h. hks_inv h \<and> hks_saved (hks_live h) = hs \<and> migris_hkstore_serialize h 256 = Inr bs)"

definition mode_image :: "bytes \<Rightarrow> u8 \<Rightarrow> bool" where
  "mode_image bs m \<longleftrightarrow> m \<in> md_id ` set mode_defs \<and> bs = [m]"

text \<open>A record that a save of this application may have written.\<close>

definition own_record :: "fsw_config \<Rightarrow> u8 \<times> bytes \<Rightarrow> bool" where
  "own_record cfg r \<longleftrightarrow> fst r = 1 \<and> (\<exists>ps. params_image cfg (snd r) ps) \<or> fst r = 2 \<and> (\<exists>v. schedule_image (snd r) v)
     \<or> fst r = 3 \<and> (\<exists>hs. structures_image (snd r) hs) \<or> fst r = 4 \<and> (\<exists>m. mode_image (snd r) m)"

definition nv_own :: "fsw_config \<Rightarrow> 'f migris_nvstore_t \<Rightarrow> bool" where
  "nv_own cfg nv \<longleftrightarrow> (\<exists>rs. nv_recs nv rs \<and> (\<forall>r \<in> set rs. own_record cfg r))"

text \<open>The value an image stands for under a record type: the default without such a record.\<close>

definition image_holds :: "'f migris_nvstore_t \<Rightarrow> u8 \<Rightarrow> (bytes \<Rightarrow> 'a \<Rightarrow> bool) \<Rightarrow> 'a \<Rightarrow> 'a \<Rightarrow> bool" where
  "image_holds nv t im none x \<longleftrightarrow> (case migris_nvstore_get nv t of Inl _ \<Rightarrow> x = none | Inr bs \<Rightarrow> im bs x)"

section \<open>The records always fit\<close>

lemma params_serialize:
  assumes "dp_inv d" "dp_values_ok d" "map dp_decl (dp_live d) = map dp_decl (dp_params_of cfg)"
  shows "\<exists>bs. migris_datapool_serialize d 64 = Inr bs" and "migris_datapool_serialize d 64 = Inr bs \<Longrightarrow> bs \<noteq> [] \<and> length bs \<le> 23"
proof -
  from arg_cong [OF assms(3), of length] have n: "length (dp_live d) = 3" by (simp add: dp_params_of_def)
  have "\<forall>p \<in> set (dp_live d). migris_dp_type_width (dpv_type (dpp_value p)) \<noteq> 0"
    using assms(2) by (simp add: dp_values_ok_def dp_value_ok_def)
  from serialize_params_Inr [OF this, of 62] n show "\<exists>bs. migris_datapool_serialize d 64 = Inr bs"
    by (auto simp: migris_datapool_serialize_def)
  show "migris_datapool_serialize d 64 = Inr bs \<Longrightarrow> bs \<noteq> [] \<and> length bs \<le> 23"
    using serialize_params_length [of "dp_live d" 62] n by (auto simp: migris_datapool_serialize_def be16_def split: sum.splits)
qed

lemma serialize_activities_length:
  "\<forall>a \<in> set as. length (act_tc a) \<le> 64 \<Longrightarrow> 70 * length as \<le> room \<Longrightarrow>
     \<exists>out. sched_serialize_activities as room = Inr out \<and> length out \<le> 70 * length as"
proof (induction as arbitrary: room)
  case (Cons a as)
  have a: "length (act_tc a) \<le> 64" using Cons.prems(1) by simp
  with Cons.prems(2) have "70 * length as \<le> room - (6 + length (act_tc a))" by simp
  with Cons.IH Cons.prems(1) obtain out where "sched_serialize_activities as (room - (6 + length (act_tc a))) = Inr out"
    "length out \<le> 70 * length as" by auto
  with Cons.prems(2) a show ?case by (auto simp: Let_def)
qed simp

lemma schedule_serialize:
  assumes "sch_inv c"
  shows "\<exists>bs. migris_schedule_serialize c 1200 = Inr bs \<and> bs \<noteq> [] \<and> length bs \<le> 1123"
proof -
  have "\<forall>a \<in> set (sch_live c). length (act_tc a) \<le> 64" "length (sch_live c) \<le> 16" using assms by (auto simp: sch_inv_def sch_live_def fsw_const)
  with serialize_activities_length [of "sch_live c" 1197] show ?thesis by (auto simp: migris_schedule_serialize_def be16_def)
qed

lemma serialize_slots_length:
  "\<forall>x \<in> set xs. hk_in_use x \<and> length (hk_param_ids x) \<le> 8 \<Longrightarrow> 24 * length xs \<le> room \<Longrightarrow>
     \<exists>out. hkstore_serialize_slots xs room = Inr out \<and> length out \<le> 24 * length xs"
proof (induction xs arbitrary: room)
  case (Cons x xs)
  have l: "length (concat (map be16 ids)) = 2 * length ids" for ids by (induction ids) simp_all
  have x: "length (hk_param_ids x) \<le> 8" using Cons.prems(1) by simp
  with Cons.prems(2) have "24 * length xs \<le> room - (8 + 2 * length (hk_param_ids x))" by simp
  with Cons.IH Cons.prems(1)
  obtain out where "hkstore_serialize_slots xs (room - (8 + 2 * length (hk_param_ids x))) = Inr out" "length out \<le> 24 * length xs" by auto
  with Cons.prems x show ?case by (simp add: hkstore_write_struct_def Let_def l)
qed simp

lemma hkstore_serialize:
  assumes "hks_inv h"
  shows "\<exists>bs. migris_hkstore_serialize h 256 = Inr bs \<and> bs \<noteq> [] \<and> length bs \<le> 194"
proof -
  have "\<forall>x \<in> set (hks_live h). hk_in_use x \<and> length (hk_param_ids x) \<le> 8" using assms by (auto simp: hks_inv_def hks_live_def fsw_const)
  moreover have "length (hks_live h) \<le> 8" using assms length_filter_le [of hk_in_use "hks_structures h"] by (simp add: hks_inv_def hks_live_def fsw_const)
  ultimately obtain out where "hkstore_serialize_slots (hks_live h) 254 = Inr out" "length out \<le> 192"
    using serialize_slots_length [of "hks_live h" 254] by fastforce
  then show ?thesis by (simp add: migris_hkstore_serialize_def serialize_slots_filter [of "hks_structures h"] hks_live_def be16_def)
qed

definition record_room :: "u8 \<Rightarrow> nat" where
  "record_room t = (if t = 1 then 26 else if t = 2 then 1126 else if t = 3 then 197 else if t = 4 then 4 else 0)"

lemma own_record_room: "own_record cfg r \<Longrightarrow> fst r \<in> {1, 2, 3, 4} \<and> length (rec_bytes r) \<le> record_room (fst r)"
  using params_serialize(2) schedule_serialize hkstore_serialize
  by (fastforce simp: own_record_def params_image_def schedule_image_def structures_image_def mode_image_def record_room_def)

lemma recs_room:
  assumes "distinct (map fst rs)" "\<forall>r \<in> set rs. own_record cfg r" "t \<in> {1, 2, 3, 4}" "t \<notin> fst ` set rs"
  shows "length (recs_bytes rs) + record_room t \<le> 1536"
proof -
  have "length (recs_bytes rs) = (\<Sum>r\<leftarrow>rs. length (rec_bytes r))" by (induction rs) simp_all
  also have "\<dots> \<le> (\<Sum>r\<leftarrow>rs. record_room (fst r))" using own_record_room assms(2) by (intro sum_list_mono) blast
  also have "\<dots> = sum record_room (set (map fst rs))"
    using sum_list_distinct_conv_sum_set [OF assms(1), of record_room] by (simp add: comp_def)
  finally have "length (recs_bytes rs) \<le> sum record_room (set (map fst rs))" .
  moreover have "sum record_room (set (map fst rs)) + record_room t = sum record_room (insert t (set (map fst rs)))"
    using assms(4) by simp
  moreover have "sum record_room (insert t (set (map fst rs))) \<le> sum record_room {1, 2, 3, 4}"
    using own_record_room assms(2,3) by (intro sum_mono2) auto
  moreover have "sum record_room {1, 2, 3, 4} = 1353" by (simp add: record_room_def)
  ultimately show ?thesis by simp
qed

section \<open>The save tick writes what has changed\<close>

lemma put_own:
  assumes "nv_own cfg nv" "own_record cfg (t, bs)" "migris_nvstore_put nv t bs = (rc, nv')"
  shows "rc = NVSTORE_OK \<and> nv_own cfg nv'"
proof -
  from assms(1) obtain rs where rs: "nv_recs nv rs" "\<forall>r \<in> set rs. own_record cfg r" by (auto simp: nv_own_def)
  let ?kept = "filter (\<lambda>r. fst r \<noteq> t) rs"
  have "distinct (map fst ?kept)" using rs(1) by (simp add: nv_recs_def distinct_map_filter)
  then have "length (recs_bytes ?kept) + record_room t \<le> 1536"
    using rs(2) own_record_room [OF assms(2)] by (intro recs_room) auto
  then have "length (recs_bytes ?kept) + 3 + length bs \<le> 1536" using own_record_room [OF assms(2)] by simp
  from put_spec(1) [OF rs(1) this] assms(3) have "rc = NVSTORE_OK" "nv_recs nv' (?kept @ [(t, bs)])" by auto
  moreover have "\<forall>r \<in> set (?kept @ [(t, bs)]). own_record cfg r" using rs(2) assms(2) by auto
  ultimately show ?thesis unfolding nv_own_def by blast
qed

lemma nv_own_wf: "nv_own cfg nv \<Longrightarrow> nv_wf nv"
  by (auto simp: nv_own_def nv_wf_def)

text \<open>
  One subsystem: whatever its record stood for before, it now stands for the object, the remembered
  generation is the current one, and without a put nothing had to be written.
\<close>

lemma autosave_keeps:
  assumes nv: "nv_own cfg nv" and held: "image_holds nv t im none x" and m: "moved b (saved, x) (cur, y)" "b < 2 ^ 32"
    and ser: "serialize obj cap = Inr bs" "bs \<noteq> []" "im bs y" "own_record cfg (t, bs)"
    and e: "nv_autosave_tick t serialize obj cur saved cap nv = (dirty, gen, nv')"
  shows "gen = cur" "nv_own cfg nv'" "nv_same_place nv nv'" "image_holds nv' t im none y"
    "\<forall>k. k \<noteq> t \<longrightarrow> migris_nvstore_get nv' k = migris_nvstore_get nv k" "\<not> dirty \<longrightarrow> nv' = nv"
proof -
  have "gen = cur \<and> nv_own cfg nv' \<and> nv_same_place nv nv' \<and> image_holds nv' t im none y
    \<and> (\<forall>k. k \<noteq> t \<longrightarrow> migris_nvstore_get nv' k = migris_nvstore_get nv k) \<and> (\<not> dirty \<longrightarrow> nv' = nv)"
  proof (cases "cur = saved")
    case True
    with moved_same [OF m] have "y = x" by simp
    with True e nv held show ?thesis by (simp add: nv_autosave_tick_def same_place_simps)
  next
    case False
    obtain rc nv1 where p: "migris_nvstore_put nv t bs = (rc, nv1)" by force
    note o = put_own [OF nv ser(4) p]
    with e False ser(1,2) p have r: "dirty" "gen = cur" "nv' = nv1" by (simp_all add: nv_autosave_tick_def)
    from put_effect [OF nv_own_wf [OF nv] p] o r ser(3) show ?thesis by (simp add: image_holds_def)
  qed
  then show "gen = cur" "nv_own cfg nv'" "nv_same_place nv nv'" "image_holds nv' t im none y"
    "\<forall>k. k \<noteq> t \<longrightarrow> migris_nvstore_get nv' k = migris_nvstore_get nv k" "\<not> dirty \<longrightarrow> nv' = nv" by blast+
qed

text \<open>
  How far the image in RAM may be behind: each object is at most \<open>b\<close> counts away from what its record
  stands for.
\<close>

definition behind :: "fsw_config \<Rightarrow> nat \<Rightarrow> 'f migris_nvstore_t \<Rightarrow> 'f fsw_state \<Rightarrow> bool" where
  "behind cfg b nv s \<longleftrightarrow> nv_own cfg nv
     \<and> (\<exists>d x. rt_datapool (fs_ctx s) = Some d \<and> image_holds nv 1 (params_image cfg) (dp_params_of cfg) x
          \<and> moved b (fs_last_saved_gen_dp s, x) (dp_view d))
     \<and> (\<exists>c x. rt_schedule (fs_ctx s) = Some c \<and> image_holds nv 2 schedule_image ([], False) x
          \<and> moved b (fs_last_saved_gen_sched s, x) (sch_view c))
     \<and> (\<exists>h x. rt_hkstore (fs_ctx s) = Some h \<and> image_holds nv 3 structures_image [] x
          \<and> moved b (fs_last_saved_gen_hk s, x) (hks_view h))
     \<and> (CONFIG_FSW_MODE_DEMO cfg \<longrightarrow> (\<exists>x. image_holds nv 4 mode_image FSW_MODE_BOOT x
          \<and> moved b (fs_last_saved_gen_mode s, x) (mm_view (fs_mode_mgr s))))"

lemma behind_step:
  assumes "behind cfg a (fs_nvstore s) s" "app_moved cfg b s s'"
  shows "behind cfg (a + b) (fs_nvstore s') s'"
proof -
  from assms(2) have k: "ctx_moved b (fs_ctx s) (fs_ctx s')" "fs_nvstore s' = fs_nvstore s"
    "fs_last_saved_gen_dp s' = fs_last_saved_gen_dp s" "fs_last_saved_gen_sched s' = fs_last_saved_gen_sched s"
    "fs_last_saved_gen_hk s' = fs_last_saved_gen_hk s" "fs_last_saved_gen_mode s' = fs_last_saved_gen_mode s"
    and m: "CONFIG_FSW_MODE_DEMO cfg \<longrightarrow> moved b (mm_view (fs_mode_mgr s)) (mm_view (fs_mode_mgr s'))"
    by (simp_all add: app_moved_def nv_view_def gens_of_def)
  from assms(1) obtain d c h x1 x2 x3 where o: "rt_datapool (fs_ctx s) = Some d" "rt_schedule (fs_ctx s) = Some c" "rt_hkstore (fs_ctx s) = Some h"
    and x: "image_holds (fs_nvstore s) 1 (params_image cfg) (dp_params_of cfg) x1" "moved a (fs_last_saved_gen_dp s, x1) (dp_view d)"
      "image_holds (fs_nvstore s) 2 schedule_image ([], False) x2" "moved a (fs_last_saved_gen_sched s, x2) (sch_view c)"
      "image_holds (fs_nvstore s) 3 structures_image [] x3" "moved a (fs_last_saved_gen_hk s, x3) (hks_view h)"
    unfolding behind_def by blast
  from k(1) o obtain d' c' h' where o': "rt_datapool (fs_ctx s') = Some d'" "rt_schedule (fs_ctx s') = Some c'" "rt_hkstore (fs_ctx s') = Some h'"
    and mv: "moved b (dp_view d) (dp_view d')" "moved b (sch_view c) (sch_view c')" "moved b (hks_view h) (hks_view h')"
    by (auto simp: ctx_moved_def option_rel_Some1)
  show ?thesis
    using assms(1) x moved_trans [OF x(2) mv(1)] moved_trans [OF x(4) mv(2)] moved_trans [OF x(6) mv(3)] m
    unfolding behind_def k(2-6) o' by (fast intro: moved_trans)
qed

text \<open>The image in RAM behind the four puts of a save tick, and whether the tick goes on to write it to flash.\<close>

definition save_tick_image :: "fsw_config \<Rightarrow> 'f fsw_state \<Rightarrow> bool \<times> 'f migris_nvstore_t" where
  "save_tick_image cfg s =
    (case (rt_datapool (fs_ctx s), rt_schedule (fs_ctx s), rt_hkstore (fs_ctx s)) of
       (Some datapool, Some schedule, Some hkstore) \<Rightarrow>
         (let (dirty_dp, gen_dp, nv) =
                nv_autosave_tick (nv_record_code NVSTORE_RECORD_DATAPOOL) migris_datapool_serialize datapool
                  (migris_datapool_generation datapool) (fs_last_saved_gen_dp s) 64 (fs_nvstore s);
              (dirty_sched, gen_sched, nv) =
                nv_autosave_tick (nv_record_code NVSTORE_RECORD_SCHEDULE) migris_schedule_serialize schedule
                  (migris_schedule_generation schedule) (fs_last_saved_gen_sched s) 1200 nv;
              (dirty_hk, gen_hk, nv) =
                nv_autosave_tick (nv_record_code NVSTORE_RECORD_HKSTORE) migris_hkstore_serialize hkstore
                  (migris_hkstore_generation hkstore) (fs_last_saved_gen_hk s) 256 nv;
              (dirty_mode, gen_mode, nv) =
                (if CONFIG_FSW_MODE_DEMO cfg
                 then nv_autosave_tick (nv_record_code NVSTORE_RECORD_MODE) migris_mode_serialize (fs_mode_mgr s)
                        (migris_mode_generation (fs_mode_mgr s)) (fs_last_saved_gen_mode s) 8 nv
                 else (False, fs_last_saved_gen_mode s, nv))
          in (dirty_dp \<or> dirty_sched \<or> dirty_hk \<or> dirty_mode, nv))
     | _ \<Rightarrow> (False, fs_nvstore s))"

text \<open>
  The whole tick: the image the four parts leave in RAM stands for the current state, and if it was
  not written to flash then it is the one from before.
\<close>

lemma save_tick_current:
  fixes cfg :: fsw_config
  assumes "behind cfg b (fs_nvstore s) s" "b < 2 ^ 32" "fs_inv cfg t s"
  defines "s' \<equiv> fsw_save_tick cfg s"
  obtains nv4 dirty where "save_tick_image cfg s = (dirty, nv4)"
    "nv_same_place (fs_nvstore s) nv4" "behind cfg 0 nv4 s'" "\<not> dirty \<longrightarrow> nv4 = fs_nvstore s"
    "(fs_nvstore s', fs_flash s') = (if dirty then snd (migris_nvstore_save nv4 (fs_flash s)) else (nv4, fs_flash s))"
    "fs_ctx s' = fs_ctx s" "fs_mode_mgr s' = fs_mode_mgr s"
proof -
  from assms(1) obtain d c h x1 x2 x3 where own: "nv_own cfg (fs_nvstore s)"
    and p: "rt_datapool (fs_ctx s) = Some d" "rt_schedule (fs_ctx s) = Some c" "rt_hkstore (fs_ctx s) = Some h"
    and x: "image_holds (fs_nvstore s) 1 (params_image cfg) (dp_params_of cfg) x1" "moved b (fs_last_saved_gen_dp s, x1) (dp_view d)"
      "image_holds (fs_nvstore s) 2 schedule_image ([], False) x2" "moved b (fs_last_saved_gen_sched s, x2) (sch_view c)"
      "image_holds (fs_nvstore s) 3 structures_image [] x3" "moved b (fs_last_saved_gen_hk s, x3) (hks_view h)"
    unfolding behind_def by blast
  have d: "dp_inv d" "dp_values_ok d" "map dp_decl (dp_live d) = map dp_decl (dp_params_of cfg)" and k: "sch_inv c" "hks_inv h"
    using assms(3) by (auto simp: fs_inv_def fs_wf_def router_inv_def p)
  obtain bs1 bs2 bs3 where ser: "migris_datapool_serialize d 64 = Inr bs1" "bs1 \<noteq> []" "migris_schedule_serialize c 1200 = Inr bs2" "bs2 \<noteq> []"
    "migris_hkstore_serialize h 256 = Inr bs3" "bs3 \<noteq> []"
    using params_serialize [OF d] schedule_serialize [OF k(1)] hkstore_serialize [OF k(2)] by blast
  have im: "params_image cfg bs1 (dp_live d)" "schedule_image bs2 (sch_live c, sch_enabled c)" "structures_image bs3 (hks_saved (hks_live h))"
    using d k ser by (auto simp: params_image_def schedule_image_def structures_image_def)
  then have rec: "own_record cfg (1, bs1)" "own_record cfg (2, bs2)" "own_record cfg (3, bs3)" by (auto simp: own_record_def)
  obtain b1 g1 nv1 b2 g2 nv2 b3 g3 nv3 b4 g4 nv4 nv5 fl5 where
    e1: "nv_autosave_tick 1 migris_datapool_serialize d (dp_generation d) (fs_last_saved_gen_dp s) 64 (fs_nvstore s) = (b1, g1, nv1)"
    and e2: "nv_autosave_tick 2 migris_schedule_serialize c (sch_generation c) (fs_last_saved_gen_sched s) 1200 nv1 = (b2, g2, nv2)"
    and e3: "nv_autosave_tick 3 migris_hkstore_serialize h (hks_generation h) (fs_last_saved_gen_hk s) 256 nv2 = (b3, g3, nv3)"
    and e4: "(if CONFIG_FSW_MODE_DEMO cfg
      then nv_autosave_tick 4 migris_mode_serialize (fs_mode_mgr s) (mm_generation (fs_mode_mgr s)) (fs_last_saved_gen_mode s) 8 nv3
      else (False, fs_last_saved_gen_mode s, nv3)) = (b4, g4, nv4)"
    and e5: "(if b1 \<or> b2 \<or> b3 \<or> b4 then snd (migris_nvstore_save nv4 (fs_flash s)) else (nv4, fs_flash s)) = (nv5, fl5)"
    and s': "s' = s\<lparr>fs_nvstore := nv5, fs_flash := fl5, fs_last_saved_gen_dp := g1, fs_last_saved_gen_sched := g2,
       fs_last_saved_gen_hk := g3, fs_last_saved_gen_mode := g4\<rparr>"
    unfolding s'_def by (rule save_tick_steps [OF p])
  note a1 = autosave_keeps [OF own x(1) x(2) [unfolded dp_view_def] assms(2) ser(1,2) im(1) rec(1) e1]
  have x2': "image_holds nv1 2 schedule_image ([], False) x2" using x(3) a1(5) by (simp add: image_holds_def)
  note a2 = autosave_keeps [OF a1(2) x2' x(4) [unfolded sch_view_def] assms(2) ser(3,4) im(2) rec(2) e2]
  have x3': "image_holds nv2 3 structures_image [] x3" using x(5) a1(5) a2(5) by (simp add: image_holds_def)
  note a3 = autosave_keeps [OF a2(2) x3' x(6) [unfolded hks_view_def] assms(2) ser(5,6) im(3) rec(3) e3]
  have a4: "nv_own cfg nv4 \<and> nv_same_place nv3 nv4 \<and> (\<forall>k. k \<noteq> 4 \<longrightarrow> migris_nvstore_get nv4 k = migris_nvstore_get nv3 k)
    \<and> (\<not> b4 \<longrightarrow> nv4 = nv3) \<and> (CONFIG_FSW_MODE_DEMO cfg \<longrightarrow>
        g4 = mm_generation (fs_mode_mgr s) \<and> image_holds nv4 4 mode_image FSW_MODE_BOOT (mm_current (fs_mode_mgr s)))"
  proof (cases "CONFIG_FSW_MODE_DEMO cfg")
    case True
    with assms(1) obtain x4 where x4: "image_holds (fs_nvstore s) 4 mode_image FSW_MODE_BOOT x4"
      "moved b (fs_last_saved_gen_mode s, x4) (mm_view (fs_mode_mgr s))" unfolding behind_def by blast
    have x4': "image_holds nv3 4 mode_image FSW_MODE_BOOT x4" using x4(1) a1(5) a2(5) a3(5) by (simp add: image_holds_def)
    have "mm_current (fs_mode_mgr s) \<in> md_id ` set mode_defs"
      using fs_wf_router [OF assms(3)] True by (auto simp: fdir_ok_def mm_inv_def)
    then have im4: "mode_image [mm_current (fs_mode_mgr s)] (mm_current (fs_mode_mgr s))" by (simp add: mode_image_def)
    then have rec4: "own_record cfg (4, [mm_current (fs_mode_mgr s)])" by (auto simp: own_record_def)
    have ser4: "migris_mode_serialize (fs_mode_mgr s) 8 = Inr [mm_current (fs_mode_mgr s)]" by (simp add: migris_mode_serialize_def)
    have ne: "[mm_current (fs_mode_mgr s)] \<noteq> []" by simp
    from autosave_keeps [where serialize = migris_mode_serialize and obj = "fs_mode_mgr s",
        OF a3(2) x4' x4(2) [unfolded mm_view_def] assms(2) ser4 ne im4 rec4] e4 True show ?thesis by simp
  qed (use e4 a3 in \<open>simp add: same_place_simps\<close>)
  have place: "nv_same_place (fs_nvstore s) nv4" using a1(3) a2(3) a3(3) a4 by (metis same_place_simps(2))
  have h: "image_holds nv4 1 (params_image cfg) (dp_params_of cfg) (dp_live d)"
    "image_holds nv4 2 schedule_image ([], False) (sch_live c, sch_enabled c)"
    "image_holds nv4 3 structures_image [] (hks_saved (hks_live h))"
    using a1(4) a2(4,5) a3(4,5) a4 by (simp_all add: image_holds_def)
  have "behind cfg 0 nv4 s'"
    using a4 h a1(1) a2(1) a3(1) by (simp add: behind_def s' p moved_0 dp_view_def sch_view_def hks_view_def mm_view_def)
  moreover have "\<not> (b1 \<or> b2 \<or> b3 \<or> b4) \<longrightarrow> nv4 = fs_nvstore s" using a1(6) a2(6) a3(6) a4 by simp
  moreover have "save_tick_image cfg s = (b1 \<or> b2 \<or> b3 \<or> b4, nv4)"
    by (simp only: save_tick_image_def p prod.case option.case Let_def nv_record_code.simps migris_datapool_generation_def
        migris_schedule_generation_def migris_hkstore_generation_def migris_mode_generation_def e1 e2 e3 e4)
  ultimately show ?thesis using place e5 by (intro that [of "b1 \<or> b2 \<or> b3 \<or> b4" nv4]) (simp_all add: s')
qed

section \<open>The flash keeps the image\<close>

text \<open>A flash on which no erase and no write fails.\<close>

definition flash_reliable :: "'f flash_area \<Rightarrow> bool" where
  "flash_reliable fa \<longleftrightarrow> (\<forall>fl off n. fst (fa_erase fa fl off n)) \<and> (\<forall>fl off bs. fst (fa_write fa fl off bs))"

lemma reliable_save:
  assumes "flash_map fa img ssize ok" "flash_reliable fa" "nv_backend nv = Some (migris_fsw_nv_flash_backend fa)"
  shows "\<exists>nv' fl'. migris_nvstore_save nv fl = (NVSTORE_OK, nv', fl')"
proof -
  let ?b = "migris_fsw_nv_flash_backend fa"
  have "fa_open fa" "fa_sectors fa = Some [ssize, ssize]" "backend_ok ?b"
    using flash_map.opens [OF assms(1)] flash_map.nv_contract [OF assms(1)] by (simp_all add: nv_flash_def)
  moreover from this(1,2) have "nb_erase ?b = (\<lambda>fl s. fa_erase fa fl (s * ssize) ssize)"
    "nb_write ?b = (\<lambda>fl s off. fa_write fa fl (s * ssize + off))"
    by (simp_all add: migris_fsw_nv_flash_backend_def nv_flash_write_def nv_flash_erase_def Let_def fun_eq_iff)
  ultimately show ?thesis
    using assms(2,3) by (simp add: migris_nvstore_save_def flash_reliable_def Let_def case_prod_beta)
qed

text \<open>The newest image in flash carries what the store in RAM holds; a blank flash goes with an empty store.\<close>

definition flash_holds :: "(nat \<Rightarrow> bytes) \<Rightarrow> 'f migris_nvstore_t \<Rightarrow> bool" where
  "flash_holds cells nv \<longleftrightarrow> (case nv_newest (cells 0) (cells 1) of None \<Rightarrow> nv_payload_len nv = 0
     | Some (i, q, p) \<Rightarrow> p = nv_image_data nv)"

text \<open>Everything about the persistent side of the application, with the number of saves so far bounded by \<open>n\<close>.\<close>

definition durable :: "fsw_config \<Rightarrow> 'f flash_area \<Rightarrow> ('f \<Rightarrow> bytes) \<Rightarrow> nat \<Rightarrow> ('f \<Rightarrow> bool) \<Rightarrow> nat \<Rightarrow> nat \<Rightarrow> 'f fsw_state \<Rightarrow> bool" where
  "durable cfg fa img ssize ok b n s \<longleftrightarrow> nv_good (fa_cells img ssize) ok (migris_fsw_nv_flash_backend fa) (nv_view s)
     \<and> flash_holds (fa_cells img ssize (fs_flash s)) (fs_nvstore s) \<and> behind cfg b (fs_nvstore s) s
     \<and> unat (nv_loaded_seq (fs_nvstore s)) \<le> n"

lemma same_image:
  assumes "nv_payload nv' = nv_payload nv" "nv_payload_len nv' = nv_payload_len nv"
  shows "nv_own cfg nv' = nv_own cfg nv" "image_holds nv' t im none x = image_holds nv t im none x"
    "nv_image_data nv' = nv_image_data nv"
proof -
  have "migris_nvstore_get nv' t = migris_nvstore_get nv t"
    by (simp add: migris_nvstore_get_def nvstore_locate_def assms split: option.split)
  then show "nv_own cfg nv' = nv_own cfg nv" "image_holds nv' t im none x = image_holds nv t im none x"
    "nv_image_data nv' = nv_image_data nv"
    by (simp_all add: nv_own_def nv_recs_def image_holds_def nv_image_data_def assms)
qed

lemma save_tick_durable:
  fixes cfg :: fsw_config
  assumes fm: "flash_map fa img ssize ok" and rel: "flash_reliable fa" and d: "durable cfg fa img ssize ok b n s"
    and inv: "b < 2 ^ 32" "fs_inv cfg t s" and n: "n < 0xFFFFFFFF"
  shows "durable cfg fa img ssize ok 0 (Suc n) (fsw_save_tick cfg s)"
proof -
  let ?cells = "fa_cells img ssize" and ?b = "migris_fsw_nv_flash_backend fa" and ?s = "fsw_save_tick cfg s"
  note fl = flash_map.nv_contract [OF fm]
  from d have good: "nv_good ?cells ok ?b (fs_nvstore s, fs_flash s)" and holds: "flash_holds (?cells (fs_flash s)) (fs_nvstore s)"
    and bh: "behind cfg b (fs_nvstore s) s" and seq: "unat (nv_loaded_seq (fs_nvstore s)) \<le> n"
    by (simp_all add: durable_def nv_view_def)
  obtain nv4 dirty where nv4: "nv_same_place (fs_nvstore s) nv4" "behind cfg 0 nv4 ?s" "\<not> dirty \<longrightarrow> nv4 = fs_nvstore s"
    and e: "(fs_nvstore ?s, fs_flash ?s) = (if dirty then snd (migris_nvstore_save nv4 (fs_flash s)) else (nv4, fs_flash s))"
    by (rule save_tick_current [OF bh inv])
  have good': "nv_good ?cells ok ?b (nv_view ?s)"
    using d by (intro save_tick_good [OF fm _ inv(2)]) (simp add: durable_def)
  show ?thesis
  proof (cases dirty)
    case False
    with e nv4 have "fs_nvstore ?s = fs_nvstore s" "fs_flash ?s = fs_flash s" by simp_all
    with False nv4 good' holds seq show ?thesis by (simp add: durable_def)
  next
    case True
    have wf: "nv_wf nv4" using nv4(2) nv_own_wf by (auto simp: behind_def)
    have g4: "nv_good ?cells ok ?b (nv4, fs_flash s)" by (rule same_place_good [OF nv4(1) wf good])
    then have g: "ok (fs_flash s)" "nv_backend nv4 = Some ?b" "nv_tracks (?cells (fs_flash s)) nv4" by (simp_all add: nv_good_def)
    from reliable_save [OF fm rel g(2), of "fs_flash s"] obtain nv5 fl5 where
      sv: "migris_nvstore_save nv4 (fs_flash s) = (NVSTORE_OK, nv5, fl5)" by blast
    note z = nv_wf_sized [OF wf]
    have r: "fs_nvstore ?s = nv5" "fs_flash ?s = fl5" using e True sv by simp_all
    have nv5: "nv_payload nv5 = nv_payload nv4" "nv_payload_len nv5 = nv_payload_len nv4" "nv_loaded_seq nv5 = nv_loaded_seq nv4 + 1"
      using nv_flash.save_spec(3) [OF fl g(1,2) z [THEN conjunct1] z [THEN conjunct2] sv] by auto
    have s4: "nv_loaded_seq nv4 = nv_loaded_seq (fs_nvstore s)" using nv4(1) by (simp add: nv_same_place_def)
    have ne: "nv_loaded_seq nv4 \<noteq> 0xFFFFFFFF" using seq n by (auto simp: s4)
    have "flash_holds (?cells fl5) nv5"
      using nv_flash.newest_after_save [OF fl flash_map.nv_geometry [OF fm] g(1,2) z [THEN conjunct2] z [THEN conjunct1] g(3) ne sv]
      by (simp add: flash_holds_def same_image(3) [OF nv5(1,2)] del: One_nat_def)
    moreover have "behind cfg 0 nv5 ?s" using nv4(2) by (simp add: behind_def same_image [OF nv5(1,2)])
    moreover have "unat (nv_loaded_seq nv4 + 1) \<le> Suc n"
      using seq mod_less_eq_dividend [of "unat (nv_loaded_seq nv4) + 1" "2 ^ 32"] by (simp add: s4 unat_word_ariths)
    ultimately show ?thesis using good' nv5(3) by (simp add: durable_def r)
  qed
qed

lemma iteration_durable:
  fixes cfg :: fsw_config
  assumes "flash_map fa img ssize ok" "flash_reliable fa" "durable cfg fa img ssize ok 18 n s"
    and "fs_inv cfg t s" "t \<le> now_of (in_uptime_ms inp)" "n < 0xFFFFFFFF"
  shows "durable cfg fa img ssize ok 18 (Suc n) (fsw_iteration cfg inp s)"
proof -
  from save_tick_durable [OF assms(1-3) _ assms(4,6)] have d: "durable cfg fa img ssize ok 0 (Suc n) (fsw_save_tick cfg s)" by simp
  note m = iteration_moved [OF assms(4,5)]
  have "nv_view (fsw_iteration cfg inp s) = nv_view (fsw_save_tick cfg s)" by (rule nv_view_iteration)
  then show ?thesis
    using d behind_step [OF _ m, of 0] by (simp add: durable_def nv_view_def)
qed

lemma run_durable:
  fixes cfg :: fsw_config
  assumes "flash_map fa img ssize ok" "flash_reliable fa" "durable cfg fa img ssize ok 18 n s"
    and "fs_inv cfg (now_of ms) s" "clock_ok ms inputs" "n + length inputs \<le> 0xFFFFFFFF"
  shows "durable cfg fa img ssize ok 18 (n + length inputs) (fsw_run cfg inputs s)"
  using assms(3-6)
proof (induction inputs arbitrary: ms s n)
  case (Cons inp inputs)
  then have t: "now_of ms \<le> now_of (in_uptime_ms inp)" by (intro now_of_mono) (auto simp: clock_ok_def)
  from Cons.IH [OF iteration_durable [OF assms(1,2) Cons.prems(1,2) t] iteration_inv [OF Cons.prems(2) t]] Cons.prems(3,4)
  show ?case by (simp add: clock_ok_def fsw_run_def)
qed (simp add: fsw_run_def)

section \<open>A boot finds it again\<close>

text \<open>The flash an earlier mission left behind, or a blank one.\<close>

definition image_ours :: "fsw_config \<Rightarrow> (nat \<Rightarrow> bytes) \<Rightarrow> bool" where
  "image_ours cfg cells \<longleftrightarrow> (case nv_newest (cells 0) (cells 1) of None \<Rightarrow> True
     | Some (i, q, p) \<Rightarrow> \<exists>rs. p = recs_bytes rs \<and> distinct (map fst rs) \<and> (\<forall>r \<in> set rs. own_record cfg r))"

lemma image_ours_wf: "image_ours cfg cells \<Longrightarrow> image_wf cells"
  by (auto simp: image_ours_def image_wf_def split: option.splits)

lemma recs_image: "nv_recs nv rs \<Longrightarrow> nv_image_data nv = recs_bytes rs"
  by (simp add: nv_recs_def nv_image_data_def)

lemma image_left: "flash_holds cells nv \<Longrightarrow> nv_own cfg nv \<Longrightarrow> image_ours cfg cells"
  by (auto simp: flash_holds_def image_ours_def nv_own_def recs_image nv_recs_def split: option.splits del: One_nat_def)

text \<open>What a boot works with: the result of its load, and the store.\<close>

definition booted_with :: "fsw_config \<Rightarrow> migris_nvstore_status_t \<Rightarrow> 'f migris_nvstore_t \<Rightarrow> bool" where
  "booted_with cfg rc nv \<longleftrightarrow> nv_own cfg nv \<and> (rc = NVSTORE_OK \<or> (\<forall>k. \<exists>e. migris_nvstore_get nv k = Inl e))"

abbreviation boot_load :: "'f flash_area \<Rightarrow> 'f fsw_memory \<Rightarrow> 'f \<Rightarrow> migris_nvstore_status_t \<times> 'f migris_nvstore_t" where
  "boot_load fa mem flash \<equiv> migris_nvstore_load (migris_nvstore_init (mem_nvstore mem) (Some (migris_fsw_nv_flash_backend fa))) flash"

lemma boot_loads:
  assumes "flash_map fa img ssize ok" "ok flash" "mem_ok mem" "image_ours cfg (fa_cells img ssize flash)"
  obtains rc nv where "boot_load fa mem flash = (rc, nv)" "booted_with cfg rc nv" "flash_holds (fa_cells img ssize flash) nv"
proof -
  let ?nv0 = "migris_nvstore_init (mem_nvstore mem) (Some (migris_fsw_nv_flash_backend fa))" and ?c = "fa_cells img ssize flash"
  have z: "length (nv_payload ?nv0) = 1536" "nv_backend ?nv0 = Some (migris_fsw_nv_flash_backend fa)"
    using assms(3) by (simp_all add: mem_ok_def migris_nvstore_init_def fsw_const)
  from nv_flash.load_spec [OF flash_map.nv_contract [OF assms(1)] assms(2) z(2,1)] obtain rc nv where
    load: "boot_load fa mem flash = (rc, nv)" and rc: "nv_newest (?c 0) (?c 1) \<noteq> None \<Longrightarrow> rc = NVSTORE_OK"
    and l: "nv_loaded_as nv (nv_newest (?c 0) (?c 1))" by auto
  show ?thesis
  proof (cases "nv_newest (?c 0) (?c 1)")
    case None
    with l have r: "nv_recs nv []" and n: "nv_payload_len nv = 0" by (simp_all add: nv_loaded_as_def nv_recs_def fsw_const)
    then have "nv_own cfg nv" by (auto simp: nv_own_def)
    moreover have "\<exists>e. migris_nvstore_get nv k = Inl e" for k using get_spec [OF r, of k] by simp
    ultimately show ?thesis using load None n by (intro that) (simp_all add: booted_with_def flash_holds_def del: One_nat_def)
  next
    case (Some x)
    obtain i q p where x: "x = (i, q, p)" by (metis prod_cases3)
    with assms(4) Some obtain rs where rs: "p = recs_bytes rs" "distinct (map fst rs)" "\<forall>r \<in> set rs. own_record cfg r"
      by (auto simp: image_ours_def simp del: One_nat_def)
    have n: "length (nv_payload nv) = 1536" "nv_image_data nv = recs_bytes rs" "nv_payload_len nv = length (recs_bytes rs)"
      using l by (simp_all add: nv_loaded_as_def Some x rs(1) del: One_nat_def)
    from arg_cong [OF n(2), of length] n(1,3) have "length (recs_bytes rs) \<le> 1536" by (simp add: nv_image_data_def)
    with n rs(2) have "nv_recs nv rs" by (simp add: nv_recs_def nv_image_data_def fsw_const)
    with rs(3) have "nv_own cfg nv" by (auto simp: nv_own_def)
    moreover have "rc = NVSTORE_OK" by (rule rc) (simp add: Some del: One_nat_def)
    ultimately have "booted_with cfg rc nv" by (simp add: booted_with_def)
    moreover have "flash_holds ?c nv" unfolding flash_holds_def Some x using n(2) rs(1) by simp
    ultimately show ?thesis by (rule that [OF load])
  qed
qed

text \<open>Every image of this kind stands for some value of each object.\<close>

lemma image_stands:
  assumes "nv_own cfg nv"
  shows "\<exists>x. image_holds nv 1 (params_image cfg) (dp_params_of cfg) x" "\<exists>x. image_holds nv 2 schedule_image ([], False) x"
    "\<exists>x. image_holds nv 3 structures_image [] x" "\<exists>x. image_holds nv 4 mode_image FSW_MODE_BOOT x"
proof -
  from assms obtain rs where rs: "nv_recs nv rs" "\<forall>r \<in> set rs. own_record cfg r" by (auto simp: nv_own_def)
  have "own_record cfg (k, bs)" if "migris_nvstore_get nv k = Inr bs" for k bs
    using that rs(2) map_of_SomeD [of rs k bs] by (auto simp: get_spec [OF rs(1)] split: option.splits)
  note own = this
  have holds: "\<exists>x. image_holds nv t im none x" if "\<And>bs. own_record cfg (t, bs) \<Longrightarrow> \<exists>x. im bs x" for t and im :: "bytes \<Rightarrow> 'b \<Rightarrow> bool" and none
    using that own by (cases "migris_nvstore_get nv t") (auto simp: image_holds_def)
  show "\<exists>x. image_holds nv 1 (params_image cfg) (dp_params_of cfg) x" "\<exists>x. image_holds nv 2 schedule_image ([], False) x"
    "\<exists>x. image_holds nv 3 structures_image [] x" "\<exists>x. image_holds nv 4 mode_image FSW_MODE_BOOT x"
    by (rule holds, simp add: own_record_def)+
qed

lemma restored_default:
  "booted_with cfg rc nv \<Longrightarrow> restored rc nv k de obj = (case migris_nvstore_get nv (nv_record_code k) of Inr bs \<Rightarrow> snd (de obj bs) | Inl _ \<Rightarrow> obj)"
  by (auto simp: booted_with_def restored_def split: sum.split) (metis sum.distinct(1))

text \<open>The boot's objects: fresh counters, and the values the image stands for.\<close>

lemma boot_params:
  fixes cfg :: fsw_config
  assumes "boot_load fa mem flash = (rc, nv)" "booted_with cfg rc nv" "mem_ok mem"
    and "image_holds nv 1 (params_image cfg) (dp_params_of cfg) x"
  shows "\<exists>d. rt_datapool (fs_ctx (fsw_init cfg fa mem flash)) = Some d \<and> dp_view d = (0, x)"
proof -
  note f = init_fields [OF assms(1), of cfg]
  obtain st d0 where d0: "migris_datapool_init (mem_datapool mem) (dp_params_of cfg) = (st, d0)" by force
  have i: "dp_inv d0" "dp_live d0 = dp_params_of cfg" "dp_generation d0 = 0"
    using app_datapool_init [OF _ d0] assms(3) by (simp_all add: mem_ok_def)
  show ?thesis
  proof (cases "migris_nvstore_get nv 1")
    case (Inl e)
    with assms(4) have "x = dp_params_of cfg" by (simp add: image_holds_def)
    with i show ?thesis unfolding f(1) by (simp add: restored_default [OF assms(2)] Inl d0 dp_view_def)
  next
    case (Inr bs)
    with assms(2) have rc: "rc = NVSTORE_OK" by (auto simp: booted_with_def) (metis sum.distinct(1))
    from assms(4) Inr obtain d where d: "dp_inv d" "dp_values_ok d" "map dp_decl (dp_live d) = map dp_decl (dp_params_of cfg)"
      "dp_live d = x" "migris_datapool_serialize d 64 = Inr bs" by (auto simp: image_holds_def params_image_def)
    obtain st' d' where d': "migris_datapool_deserialize d0 bs = (st', d')" by force
    have "app_params (fsw_init cfg fa mem flash) = x"
      using boot_restores_params [OF assms(1) [unfolded rc] Inr d(5) assms(3) d(1-3)] d(4) by simp
    then show ?thesis using deserialize_any [OF i(1) d'] i(3)
      unfolding app_params_def f(1) by (simp add: restored_default [OF assms(2)] Inr d0 d' dp_view_def)
  qed
qed

lemma boot_time_schedule:
  fixes cfg :: fsw_config
  assumes "boot_load fa mem flash = (rc, nv)" "booted_with cfg rc nv" "mem_ok mem"
    and "image_holds nv 2 schedule_image ([], False) x"
  shows "\<exists>c. rt_schedule (fs_ctx (fsw_init cfg fa mem flash)) = Some c \<and> sch_view c = (0, x)"
proof -
  note f = init_fields [OF assms(1), of cfg]
  let ?c0 = "migris_schedule_init (mem_schedule mem)"
  have i: "length (sch_activities ?c0) = MIGRIS_SCHEDULE_CAPACITY" "sch_live ?c0 = []" "\<not> sch_enabled ?c0" "sch_generation ?c0 = 0"
    using assms(3) by (simp_all add: mem_ok_def migris_schedule_init_def sch_live_def)
  show ?thesis
  proof (cases "migris_nvstore_get nv 2")
    case (Inl e)
    with assms(4) have "x = ([], False)" by (simp add: image_holds_def)
    with i show ?thesis unfolding f(2) by (simp add: restored_default [OF assms(2)] Inl sch_view_def)
  next
    case (Inr bs)
    with assms(2) have rc: "rc = NVSTORE_OK" by (auto simp: booted_with_def) (metis sum.distinct(1))
    from assms(4) Inr obtain c where c: "sch_inv c" "(sch_live c, sch_enabled c) = x" "migris_schedule_serialize c 1200 = Inr bs"
      by (auto simp: image_holds_def schedule_image_def)
    obtain st' c' where c': "migris_schedule_deserialize ?c0 bs = (st', c')" by force
    have "app_schedule (fsw_init cfg fa mem flash) = x"
      using boot_restores_schedule [OF assms(1) [unfolded rc] Inr c(3) assms(3) c(1)] c(2) by simp
    then show ?thesis using schedule_restore_any [OF i(1) c'] i(4)
      unfolding app_schedule_def f(2) by (simp add: restored_default [OF assms(2)] Inr c' sch_view_def)
  qed
qed

lemma saved_saved [simp]: "hks_saved (hks_saved xs) = hks_saved xs"
  by (simp add: hks_saved_def)

lemma boot_structures:
  fixes cfg :: fsw_config
  assumes "boot_load fa mem flash = (rc, nv)" "booted_with cfg rc nv" "mem_ok mem"
    and "image_holds nv 3 structures_image [] x"
  shows "\<exists>h. rt_hkstore (fs_ctx (fsw_init cfg fa mem flash)) = Some h \<and> hks_live h = x \<and> hks_view h = (0, x)"
proof -
  note f = init_fields [OF assms(1), of cfg]
  let ?h0 = "migris_hkstore_init (mem_hkstore mem)"
  have l: "length (hks_structures (mem_hkstore mem)) = MIGRIS_HKSTORE_CAPACITY" using assms(3) by (simp add: mem_ok_def)
  note i = hkstore_init_inv [OF l]
  show ?thesis
  proof (cases "migris_nvstore_get nv 3")
    case (Inl e)
    with assms(4) have "x = []" by (simp add: image_holds_def)
    with i show ?thesis unfolding f(4) by (simp add: restored_default [OF assms(2)] Inl hks_view_def hks_saved_def)
  next
    case (Inr bs)
    with assms(2) have rc: "rc = NVSTORE_OK" by (auto simp: booted_with_def) (metis sum.distinct(1))
    from assms(4) Inr obtain h where h: "hks_inv h" "hks_saved (hks_live h) = x" "migris_hkstore_serialize h 256 = Inr bs"
      by (auto simp: image_holds_def structures_image_def)
    obtain st' h' where h': "migris_hkstore_deserialize ?h0 bs = (st', h')" by force
    have l0: "length (hks_structures ?h0) = MIGRIS_HKSTORE_CAPACITY" using i by (simp add: hks_inv_def)
    have "app_structures (fsw_init cfg fa mem flash) = x"
      using boot_restores_structures [OF assms(1) [unfolded rc] Inr h(3) assms(3) h(1)] h(2) by (simp add: hks_saved_def)
    moreover have "hks_saved x = x" using h(2) by (metis saved_saved)
    ultimately show ?thesis using hkstore_restore_any [OF l0 h']
      unfolding app_structures_def f(4) by (auto simp: restored_default [OF assms(2)] Inr h' hks_view_def)
  qed
qed

lemma boot_mode:
  fixes cfg :: fsw_config
  assumes "boot_load fa mem flash = (rc, nv)" "booted_with cfg rc nv" "mem_ok mem" "CONFIG_FSW_MODE_DEMO cfg"
    and "image_holds nv 4 mode_image FSW_MODE_BOOT x"
  shows "mm_view (fs_mode_mgr (fsw_init cfg fa mem flash)) = (0, x)"
proof -
  note f = init_fields(5) [OF assms(1,4)]
  obtain m0 where m0: "migris_mode_init (mem_mode_mgr mem) mode_defs FSW_MODE_BOOT True = (MODE_OK, m0)" "mm_inv m0"
      "mm_declared m0 = mode_defs" "mm_current m0 = FSW_MODE_BOOT" "mm_generation m0 = 0"
    using app_mode_init [of "mem_mode_mgr mem"] assms(3) by (auto simp: mem_ok_def)
  show ?thesis
  proof (cases "migris_nvstore_get nv 4")
    case (Inl e)
    with assms(5) have "x = FSW_MODE_BOOT" by (simp add: image_holds_def)
    then show ?thesis unfolding f by (simp add: restored_default [OF assms(2)] Inl m0 mm_view_def)
  next
    case (Inr bs)
    with assms(5) have x: "x \<in> md_id ` set mode_defs" "bs = [x]" by (auto simp: image_holds_def mode_image_def)
    let ?m = "m0\<lparr>mm_current := x\<rparr>"
    have m: "mm_inv ?m" "x \<in> md_id ` set (mm_declared m0)" using m0(2,3) x(1) by (simp_all add: mm_inv_def mm_declared_def)
    from mode_serialize_restore [OF m(1) m0(2), of 8 "[]"] m(2) x(2)
    have "migris_mode_deserialize_current m0 bs = (MODE_OK, m0\<lparr>mm_current := x\<rparr>)" by (simp add: migris_mode_serialize_def)
    then show ?thesis unfolding f by (simp add: restored_default [OF assms(2)] Inr m0 mm_view_def)
  qed
qed

lemma boot_behind:
  fixes cfg :: fsw_config
  assumes "boot_load fa mem flash = (rc, nv)" "booted_with cfg rc nv" "mem_ok mem"
  shows "behind cfg 0 nv (fsw_init cfg fa mem flash)"
proof -
  have own: "nv_own cfg nv" using assms(2) by (simp add: booted_with_def)
  have g: "fs_last_saved_gen_dp s = 0" "fs_last_saved_gen_sched s = 0" "fs_last_saved_gen_hk s = 0" "fs_last_saved_gen_mode s = 0"
    if "s = fsw_init cfg fa mem flash" for s
    using init_gens [of cfg fa mem flash] by (simp_all add: that gens_of_def)
  from image_stands [OF own] obtain x1 x2 x3 x4 where
    x: "image_holds nv 1 (params_image cfg) (dp_params_of cfg) x1" "image_holds nv 2 schedule_image ([], False) x2"
      "image_holds nv 3 structures_image [] x3" "image_holds nv 4 mode_image FSW_MODE_BOOT x4" by blast
  show ?thesis
    using own x boot_params [OF assms x(1)] boot_time_schedule [OF assms x(2)] boot_structures [OF assms x(3)] boot_mode [OF assms _ x(4)]
    unfolding behind_def moved_0 g [OF refl] by blast
qed

lemma boot_app_moved:
  assumes "fs_inv cfg (now_of ms) (fsw_init cfg fa mem flash)"
  shows "app_moved cfg 1 (fsw_init cfg fa mem flash) (fsw_boot cfg fa mem flash ms)"
proof -
  let ?i = "fsw_init cfg fa mem flash" and ?e = "fsw_boot_event (now_of ms) (fsw_init cfg fa mem flash)"
  have e: "loop_view ?e = loop_view ?i" using boot_event_fields [of "now_of ms" ?i]
    by (simp add: loop_view_def persist_ptrs_def fsw_boot_event_def Let_def nv_view_boot split: prod.split)
  have inv: "fs_inv cfg (now_of ms) ?e" by (rule boot_event_inv [OF assms])
  have "moved 1 (mm_view (fs_mode_mgr ?e)) (mm_view (snd (snd (migris_mode_request fdir_sink_report (fs_fdir ?e, fs_mode_mgr ?e) FSW_MODE_NOMINAL (now_of ms)))))"
    if "CONFIG_FSW_MODE_DEMO cfg"
    using mode_request_moved fs_wf_router [OF inv] that by (simp add: fdir_ok_def)
  then have "app_moved cfg 1 ?e (fsw_boot_mode cfg (now_of ms) ?e)"
    by (auto simp: fsw_boot_mode_def app_moved_def gens_of_def nv_view_def split: prod.split)
  from app_moved_trans [OF app_moved_same [OF e, of cfg 0] this] show ?thesis
    by (simp add: fsw_boot_def Let_def app_moved_view [OF loop_view_updates(1)])
qed

text \<open>Two stores that agree with the same flash hold the same records.\<close>

lemma flash_same:
  assumes "flash_holds cells nv" "flash_holds cells nv'" "nv_wf nv" "nv_wf nv'"
  shows "migris_nvstore_get nv' k = migris_nvstore_get nv k"
proof -
  from assms(3) obtain rs where rs: "nv_recs nv rs" by (auto simp: nv_wf_def)
  note z = nv_wf_sized [OF assms(3)] nv_wf_sized [OF assms(4)]
  have d: "nv_image_data nv' = nv_image_data nv"
    using assms(1,2) by (auto simp: flash_holds_def nv_image_data_def split: option.splits)
  have "nv_payload_len nv' = nv_payload_len nv" using arg_cong [OF d, of length] z by (simp add: image_data_length)
  from same_records(2) [OF rs d this] z show ?thesis by simp
qed

lemma save_tick_keeps: "fs_ctx (fsw_save_tick cfg s) = fs_ctx s" "fs_mode_mgr (fsw_save_tick cfg s) = fs_mode_mgr s"
  by (simp_all add: fsw_save_tick_def Let_def split: option.split prod.split)

text \<open>No schedule of such a flash repeats an identifier, so the boot is well formed without further ado.\<close>

lemma boot_schedule_distinct:
  assumes "flash_map fa img ssize ok" "ok flash" "mem_ok mem" "image_ours cfg (fa_cells img ssize flash)"
  shows "distinct (map act_id (boot_schedule (fsw_init cfg fa mem flash)))"
proof -
  obtain rc nv where b: "boot_load fa mem flash = (rc, nv)" "booted_with cfg rc nv" by (rule boot_loads [OF assms])
  then have "nv_own cfg nv" by (simp add: booted_with_def)
  from image_stands(2) [OF this] obtain x where x: "image_holds nv 2 schedule_image ([], False) x" by blast
  then have "distinct (map act_id (fst x))"
    by (auto simp: image_holds_def schedule_image_def sch_inv_def split: sum.splits)
  with boot_time_schedule [OF b assms(3) x] show ?thesis by (auto simp: boot_schedule_def sch_view_def)
qed

lemma boot_durable:
  fixes cfg :: fsw_config and ms :: nat
  assumes "flash_map fa img ssize ok" "ok flash" "mem_ok mem" "cfg_ok cfg" "image_ours cfg (fa_cells img ssize flash)"
  defines "s \<equiv> fsw_boot cfg fa mem flash ms"
  shows "durable cfg fa img ssize ok 18 (unat (nv_loaded_seq (fs_nvstore s))) s"
proof -
  obtain rc nv where b: "boot_load fa mem flash = (rc, nv)" "booted_with cfg rc nv" "flash_holds (fa_cells img ssize flash) nv"
    by (rule boot_loads [OF assms(1-3,5)])
  let ?i = "fsw_init cfg fa mem flash"
  have inv: "fs_inv cfg (now_of ms) ?i" by (rule init_inv [OF assms(1-4) boot_schedule_distinct [OF assms(1-3,5)]])
  have nv: "nv_view s = (nv, flash)" "nv_view ?i = (nv, flash)"
    using init_fields(8,9) [OF b(1), of cfg] by (simp_all add: s_def nv_view_boot) (simp_all add: nv_view_def)
  have "nv_good (fa_cells img ssize) ok (migris_fsw_nv_flash_backend fa) (nv_view s)"
    unfolding s_def nv_view_boot by (rule init_good [OF assms(1-3) image_ours_wf [OF assms(5)]])
  moreover have "behind cfg 0 (fs_nvstore ?i) ?i" using boot_behind [OF b(1,2) assms(3)] nv(2) by (simp add: nv_view_def)
  from behind_step [OF behind_step [OF this boot_app_moved [OF inv]] app_moved_refl, of 17]
  have "behind cfg 18 (fs_nvstore s) s" by (simp add: s_def)
  ultimately show ?thesis using b(3) nv(1) by (simp add: durable_def nv_view_def)
qed

section \<open>Nothing is lost\<close>

text \<open>
  C1: on a flash whose erases and writes succeed, from a blank one or one an earlier mission left, at
  any point of any mission a reboot behind the save tick, with whatever RAM content, restores
  everything persistent: all parameter values, the whole schedule with its enable flag, all housekeeping
  structures (due again at once) and the mode. The flash it leaves is again one the next mission may
  start from. The one bound is that the image sequence number must not reach its end.
\<close>
theorem nothing_persistent_is_lost:
  assumes "flash_map fa img ssize ok" "ok flash" "mem_ok mem" "cfg_ok cfg" "flash_reliable fa"
    and "image_ours cfg (fa_cells img ssize flash)"
    and "clock_ok boot_ms inputs" "fsw_main cfg fa True mem flash boot_ms inputs = Some s"
    and "unat (nv_loaded_seq (fs_nvstore (fsw_boot cfg fa mem flash boot_ms))) + length inputs < 0xFFFFFFFF"
    and "s' = fsw_save_tick cfg s" "mem_ok mem'" "s2 = fsw_init cfg fa mem' (fs_flash s')"
  shows "app_params s2 = app_params s \<and> app_schedule s2 = app_schedule s
    \<and> app_structures s2 = map (\<lambda>x. x\<lparr>hk_last_emit_sec := 0\<rparr>) (app_structures s)
    \<and> (CONFIG_FSW_MODE_DEMO cfg \<longrightarrow> migris_mode_current (fs_mode_mgr s2) = migris_mode_current (fs_mode_mgr s))
    \<and> ok (fs_flash s') \<and> image_ours cfg (fa_cells img ssize (fs_flash s'))"
proof -
  let ?cells = "fa_cells img ssize (fs_flash s')" and ?nv = "fs_nvstore s'"
  note dist = boot_schedule_distinct [OF assms(1-3,6)]
  note inv = main_inv [OF assms(1-4) dist assms(7,8)]
  have "durable cfg fa img ssize ok 18 (unat (nv_loaded_seq (fs_nvstore (fsw_boot cfg fa mem flash boot_ms))) + length inputs) s"
    using run_durable [OF assms(1,5) boot_durable [OF assms(1-4,6)] boot_inv [OF assms(1-4) dist] assms(7)] assms(8,9)
    by (simp add: fsw_main_def)
  from save_tick_durable [OF assms(1,5) this _ inv assms(9)] have d: "durable cfg fa img ssize ok 0
      (Suc (unat (nv_loaded_seq (fs_nvstore (fsw_boot cfg fa mem flash boot_ms))) + length inputs)) s'" by (simp add: assms(10))
  then have ok: "ok (fs_flash s')" and holds: "flash_holds ?cells ?nv" and bh: "behind cfg 0 ?nv s'"
    by (simp_all add: durable_def nv_good_def nv_view_def)
  then have own: "nv_own cfg ?nv" by (simp add: behind_def)
  have ours: "image_ours cfg ?cells" by (rule image_left [OF holds own])
  obtain rc nv where b: "boot_load fa mem' (fs_flash s') = (rc, nv)" "booted_with cfg rc nv" "flash_holds ?cells nv"
    by (rule boot_loads [OF assms(1) ok assms(11) ours])
  have "nv_own cfg nv" using b(2) by (simp add: booted_with_def)
  note get = flash_same [OF holds b(3) nv_own_wf [OF own] nv_own_wf [OF this]]
  have same: "image_holds nv t im none x = image_holds ?nv t im none x" for t and im :: "bytes \<Rightarrow> 'b \<Rightarrow> bool" and none x
    by (simp add: image_holds_def get)
  note k = save_tick_keeps [of cfg s, folded assms(10)]
  from bh obtain d c h where o: "rt_datapool (fs_ctx s) = Some d" "rt_schedule (fs_ctx s) = Some c" "rt_hkstore (fs_ctx s) = Some h"
    and x: "image_holds ?nv 1 (params_image cfg) (dp_params_of cfg) (dp_live d)" "image_holds ?nv 2 schedule_image ([], False) (sch_live c, sch_enabled c)"
      "image_holds ?nv 3 structures_image [] (hks_saved (hks_live h))"
    unfolding behind_def moved_0 k dp_view_def sch_view_def hks_view_def by auto
  have m: "CONFIG_FSW_MODE_DEMO cfg \<longrightarrow> image_holds ?nv 4 mode_image FSW_MODE_BOOT (mm_current (fs_mode_mgr s))"
    using bh unfolding behind_def moved_0 k mm_view_def by auto
  note r = boot_params [OF b(1,2) assms(11)] boot_time_schedule [OF b(1,2) assms(11)] boot_structures [OF b(1,2) assms(11)]
  have "app_params s2 = app_params s" using r(1) [unfolded same, OF x(1)] by (auto simp: app_params_def assms(12) o dp_view_def)
  moreover have "app_schedule s2 = app_schedule s" using r(2) [unfolded same, OF x(2)] by (auto simp: app_schedule_def assms(12) o sch_view_def)
  moreover have "app_structures s2 = map (\<lambda>x. x\<lparr>hk_last_emit_sec := 0\<rparr>) (app_structures s)"
    using r(3) [unfolded same, OF x(3)] by (auto simp: app_structures_def assms(12) o hks_saved_def)
  moreover have "CONFIG_FSW_MODE_DEMO cfg \<longrightarrow> migris_mode_current (fs_mode_mgr s2) = migris_mode_current (fs_mode_mgr s)"
    using boot_mode [OF b(1,2) assms(11), unfolded same] m by (auto simp: assms(12) mm_view_def migris_mode_current_def)
  ultimately show ?thesis using ok ours by blast
qed

lemma nothing_persistent_is_lost_witness:
  "\<exists>s. fsw_main config_example ram_area True memory_example (replicate 4096 0xFF) 1200 inputs_example = Some s
     \<and> app_params (fsw_init config_example ram_area memory_example (fs_flash (fsw_save_tick config_example s))) = app_params s
     \<and> migris_mode_current (fs_mode_mgr (fsw_init config_example ram_area memory_example
           (fs_flash (fsw_save_tick config_example s)))) = migris_mode_current (fs_mode_mgr s)"
proof -
  obtain fl :: bytes where fl: "fl = replicate 4096 0xFF" by blast
  then have ok: "length fl = 4096" by (simp only: length_replicate)
  note blank = ram_erased_newest [folded fl]
  have demo: "CONFIG_FSW_MODE_DEMO config_example" by (simp add: config_example_def)
  obtain s where s: "fsw_main config_example ram_area True memory_example fl 1200 inputs_example = Some s" by (simp add: fsw_main_def)
  have rel: "flash_reliable ram_area" by (simp add: flash_reliable_def ram_area_def)
  have ours: "image_ours config_example (fa_cells (\<lambda>fl. fl) 2048 fl)" unfolding image_ours_def blank by simp
  have "length inputs_example < 0xFFFFFFFF" by (simp add: inputs_example_def ping_example_def)
  then have seq: "unat (nv_loaded_seq (fs_nvstore (fsw_boot config_example ram_area memory_example fl 1200))) + length inputs_example < 0xFFFFFFFF"
    using first_boot(5) [OF ram.flash_map_axioms ok memory_example_ok config_example_ok demo blank, where ms = 1200] by simp
  from nothing_persistent_is_lost [OF ram.flash_map_axioms ok memory_example_ok config_example_ok rel ours inputs_example_clock s seq
      refl memory_example_ok refl] s demo show ?thesis unfolding fl by blast
qed

end
