(* ===== verification/Lifetime.thy ===== *)
theory Lifetime
  imports Persistence
begin

text \<open>
  The life of the application of samples/tc_uart over power cycles: boots, loop iterations and power
  losses in any order, on a flash whose operations may fail. Every boot restores one moment of the past,
  whole, and none older than the last save that succeeded.
\<close>

section \<open>Moments\<close>

text \<open>The persistent state at one moment; the mode counts only in a build that saves it.\<close>

record snapshot =
  sn_params :: "migris_dp_param_t list"
  sn_schedule :: "migris_schedule_activity_t list \<times> bool"
  sn_structures :: "migris_hk_structure_t list"
  sn_mode :: "u8 option"

definition snapshot_of :: "fsw_config \<Rightarrow> 'f fsw_state \<Rightarrow> snapshot" where
  "snapshot_of cfg s = \<lparr>sn_params = app_params s, sn_schedule = app_schedule s, sn_structures = hks_saved (app_structures s),
     sn_mode = (if CONFIG_FSW_MODE_DEMO cfg then Some (migris_mode_current (fs_mode_mgr s)) else None)\<rparr>"

text \<open>What a boot from a blank flash starts with.\<close>

definition factory :: "fsw_config \<Rightarrow> snapshot" where
  "factory cfg = \<lparr>sn_params = dp_params_of cfg, sn_schedule = ([], False), sn_structures = [],
     sn_mode = (if CONFIG_FSW_MODE_DEMO cfg then Some FSW_MODE_BOOT else None)\<rparr>"

text \<open>The moment the records of an image stand for.\<close>

definition recs_hold :: "(u8 \<times> bytes) list \<Rightarrow> u8 \<Rightarrow> (bytes \<Rightarrow> 'a \<Rightarrow> bool) \<Rightarrow> 'a \<Rightarrow> 'a \<Rightarrow> bool" where
  "recs_hold rs t im none x \<longleftrightarrow> (case map_of rs t of None \<Rightarrow> x = none | Some bs \<Rightarrow> im bs x)"

definition stands_for :: "fsw_config \<Rightarrow> (u8 \<times> bytes) list \<Rightarrow> snapshot \<Rightarrow> bool" where
  "stands_for cfg rs x \<longleftrightarrow> (\<forall>r \<in> set rs. own_record cfg r)
     \<and> recs_hold rs 1 (params_image cfg) (dp_params_of cfg) (sn_params x)
     \<and> recs_hold rs 2 schedule_image ([], False) (sn_schedule x) \<and> recs_hold rs 3 structures_image [] (sn_structures x)
     \<and> (if CONFIG_FSW_MODE_DEMO cfg then \<exists>m. sn_mode x = Some m \<and> recs_hold rs 4 mode_image FSW_MODE_BOOT m else sn_mode x = None)"

definition data_snap :: "fsw_config \<Rightarrow> bytes \<Rightarrow> snapshot \<Rightarrow> bool" where
  "data_snap cfg d x \<longleftrightarrow> (\<exists>rs. d = recs_bytes rs \<and> distinct (map fst rs) \<and> stands_for cfg rs x)"

lemma image_holds_recs: "nv_recs nv rs \<Longrightarrow> image_holds nv t im none x = recs_hold rs t im none x"
  by (simp add: image_holds_def recs_hold_def get_spec split: option.split)

lemma stands_factory: "stands_for cfg [] (factory cfg)"
  by (simp add: stands_for_def recs_hold_def factory_def)

lemma snapshot_eqI:
  "sn_params x = sn_params y \<Longrightarrow> sn_schedule x = sn_schedule y \<Longrightarrow> sn_structures x = sn_structures y \<Longrightarrow> sn_mode x = sn_mode y \<Longrightarrow> (x :: snapshot) = y"
  by simp

text \<open>A boot that loads such records is at that moment again.\<close>

lemma boot_moment:
  fixes cfg :: fsw_config
  assumes "boot_load fa mem flash = (rc, nv)" "nv_recs nv rs" "stands_for cfg rs x" "rc = NVSTORE_OK \<or> rs = []" "mem_ok mem"
  shows "snapshot_of cfg (fsw_init cfg fa mem flash) = x" "booted_with cfg rc nv"
proof -
  note h = image_holds_recs [OF assms(2)]
  have "nv_own cfg nv" using assms(2,3) by (auto simp: nv_own_def stands_for_def)
  moreover have "\<exists>e. migris_nvstore_get nv k = Inl e" if "rs = []" for k using get_spec [OF assms(2), of k] that by simp
  ultimately show b: "booted_with cfg rc nv" using assms(4) by (auto simp: booted_with_def)
  note r = assms(3) [unfolded stands_for_def, folded h]
  show "snapshot_of cfg (fsw_init cfg fa mem flash) = x"
  proof (rule snapshot_eqI)
    show "sn_params (snapshot_of cfg (fsw_init cfg fa mem flash)) = sn_params x"
      using boot_params [OF assms(1) b assms(5)] r by (fastforce simp: snapshot_of_def app_params_def dp_view_def)
    show "sn_schedule (snapshot_of cfg (fsw_init cfg fa mem flash)) = sn_schedule x"
      using boot_time_schedule [OF assms(1) b assms(5)] r by (fastforce simp: snapshot_of_def app_schedule_def sch_view_def)
    show "sn_structures (snapshot_of cfg (fsw_init cfg fa mem flash)) = sn_structures x"
      using boot_structures [OF assms(1) b assms(5)] r by (fastforce simp: snapshot_of_def app_structures_def hks_view_def)
    show "sn_mode (snapshot_of cfg (fsw_init cfg fa mem flash)) = sn_mode x"
      using boot_mode [OF assms(1) b assms(5)] r by (auto simp: snapshot_of_def mm_view_def migris_mode_current_def)
  qed
qed

text \<open>The records of a store that is up to date stand for the current moment.\<close>

lemma current_moment:
  assumes "behind cfg 0 nv s"
  shows "data_snap cfg (nv_image_data nv) (snapshot_of cfg s)"
proof -
  from assms obtain rs where rs: "nv_recs nv rs" "\<forall>r \<in> set rs. own_record cfg r" by (auto simp: behind_def nv_own_def)
  note h = image_holds_recs [OF rs(1)]
  have "stands_for cfg rs (snapshot_of cfg s)"
    using assms rs(2)
    by (auto simp: behind_def moved_0 stands_for_def h snapshot_of_def app_params_def app_schedule_def app_structures_def
        dp_view_def sch_view_def hks_view_def mm_view_def migris_mode_current_def)
  then show ?thesis using recs_image [OF rs(1)] rs(1) by (auto simp: data_snap_def nv_recs_def)
qed

section \<open>Failing saves\<close>

text \<open>
  What the image format promises of a sector an erase or a write left half done: its magic, format
  version and CRC do not pass, unless the operation had not begun or was complete.
\<close>

definition tears_detected :: "'f flash_area \<Rightarrow> ('f \<Rightarrow> bytes) \<Rightarrow> nat \<Rightarrow> ('f \<Rightarrow> bool) \<Rightarrow> bool" where
  "tears_detected fa img ssize ok \<longleftrightarrow>
    (\<forall>fl s fl'. ok fl \<and> s < 2 \<and> fa_erase fa fl (s * ssize) ssize = (False, fl') \<longrightarrow>
       nv_parse (fa_cells img ssize fl' s) \<in> {None, nv_parse (fa_cells img ssize fl s)})
    \<and> (\<forall>fl s bs fl'. ok fl \<and> s < 2 \<and> length bs \<le> ssize \<and> fa_cells img ssize fl s = replicate ssize 0xFF
          \<and> fa_write fa fl (s * ssize) bs = (False, fl') \<longrightarrow>
       nv_parse (fa_cells img ssize fl' s) \<in> {None, nv_parse bs})"

lemma erased_no_image: "nv_parse (replicate n 0xFF) = None"
proof -
  have "take 4 (replicate n 0xFF :: bytes) \<noteq> k_magic"
  proof
    assume m: "take 4 (replicate n 0xFF :: bytes) = k_magic"
    have "length k_magic = 4" "hd k_magic \<noteq> 0xFF" by (simp_all add: k_magic_def)
    moreover from this(1) have "4 \<le> n" using arg_cong [OF m, of length] by simp
    ultimately show False using arg_cong [OF m, of hd] by (simp add: hd_take)
  qed
  then show ?thesis by (simp add: nv_parse_def nv_header_def)
qed

text \<open>
  Every flash state a save passes through, or ends in: the other sector is as before, and the target
  holds its old image, none, or the new one.
\<close>

lemma save_states_torn:
  assumes "flash_map fa img ssize ok" "tears_detected fa img ssize ok" "ok fl" "length (nv_payload nv) = 1536" "nv_payload_len nv \<le> 1536"
    and "f \<in> set (nv_save_states (migris_fsw_nv_flash_backend fa) nv fl)"
  defines "t \<equiv> if nv_loaded nv then (nv_loaded_sector nv + 1) mod 2 else 0" and "c \<equiv> fa_cells img ssize"
  shows "ok f" "k < 2 \<Longrightarrow> k \<noteq> t \<Longrightarrow> c f k = c fl k"
    and "nv_parse (c f t) \<in> {None, nv_parse (c fl t), Some (nv_loaded_seq nv + 1, nv_image_data nv)}"
proof -
  let ?b = "migris_fsw_nv_flash_backend fa"
  let ?img = "nvstore_image nv (nb_write_block ?b) (nv_loaded_seq nv + 1)"
  note op = flash_map.opens [OF assms(1)] and nf = flash_map.nv_contract [OF assms(1)]
  have b: "nb_sector_count ?b = 2" "nb_sector_size ?b = ssize" "nb_erase ?b = (\<lambda>fl s. fa_erase fa fl (s * ssize) ssize)"
    "nb_write ?b = (\<lambda>fl s off. fa_write fa fl (s * ssize + off))"
    using op(1,2) by (simp_all add: migris_fsw_nv_flash_backend_def nv_flash_write_def nv_flash_erase_def Let_def fun_eq_iff)
  have t: "t < 2" by (simp add: t_def)
  obtain e fl1 where e: "fa_erase fa fl (t * ssize) ssize = (e, fl1)" by fastforce
  obtain w fl2 where w: "fa_write fa fl1 (t * ssize) ?img = (w, fl2)" by fastforce
  have e': "ok fl1" "\<forall>k < 2. k \<noteq> t \<longrightarrow> c fl1 k = c fl k"
    using nv_flash.erase_frame [OF nf assms(3), of t e fl1] t e by (simp_all add: b c_def)
  have len: "length ?img \<le> ssize" "nb_write_block ?b dvd length ?img"
    using length_image [OF assms(4,5) nv_flash.geometry(2,3) [OF nf], of "nv_loaded_seq nv + 1"] nv_flash.geometry(4) [OF nf] b(2) by simp_all
  have w': "ok fl2" "\<forall>k < 2. k \<noteq> t \<longrightarrow> c fl2 k = c fl1 k"
    using nv_flash.write_frame [OF nf e'(1), of t 0 ?img w fl2] t w len by (simp_all add: b c_def)
  have new: "nv_parse (?img @ r) = Some (nv_loaded_seq nv + 1, nv_image_data nv)" for r by (rule parse_image [OF assms(4,5)])
  have blank: "c fl1 t = replicate ssize 0xFF" if e
    using nv_flash.erased [OF nf assms(3), of t fl1] t e that by (simp add: b c_def)
  have p1: "nv_parse (c fl1 t) \<in> {None, nv_parse (c fl t)}"
  proof (cases e)
    case True
    with blank show ?thesis by (simp add: erased_no_image)
  next
    case False
    with e have "fa_erase fa fl (t * ssize) ssize = (False, fl1)" by simp
    with assms(2,3) t show ?thesis unfolding tears_detected_def c_def by blast
  qed
  have p2: "nv_parse (c fl2 t) \<in> {None, Some (nv_loaded_seq nv + 1, nv_image_data nv)}" if e
  proof (cases w)
    case True
    have "c fl2 t = nvstore_write_at (c fl1 t) 0 ?img"
      unfolding c_def by (rule nv_flash.written [OF nf e'(1)]) (use t w True len blank [OF that] in \<open>simp_all add: b c_def\<close>)
    with new show ?thesis by (simp add: nvstore_write_at_def)
  next
    case False
    with w have "fa_write fa fl1 (t * ssize) ?img = (False, fl2)" by simp
    with assms(2) e'(1) t blank [OF that] len(1) have "nv_parse (c fl2 t) \<in> {None, nv_parse ?img}"
      unfolding tears_detected_def c_def by blast
    with new [of "[]"] show ?thesis by simp
  qed
  have "nv_save_states ?b nv fl = (if e then [fl, fl1, fl2] else [fl, fl1])"
    by (simp only: save_states_eq [OF nv_flash.usable [OF nf]] b t_def [symmetric] Let_def e w prod.case add_0_right)
  with assms(6) consider "f = fl" | "f = fl1" | "f = fl2" e by (auto split: if_splits)
  then have r: "ok f \<and> (\<forall>k < 2. k \<noteq> t \<longrightarrow> c f k = c fl k)
    \<and> nv_parse (c f t) \<in> {None, nv_parse (c fl t), Some (nv_loaded_seq nv + 1, nv_image_data nv)}"
  proof cases
    case 1
    then show ?thesis using assms(3) by simp
  next
    case 2
    show ?thesis unfolding 2 using e' p1 by auto
  next
    case 3
    show ?thesis unfolding 3(1) using e'(2) w' p2 [OF 3(2)] by auto
  qed
  then show "ok f" "k < 2 \<Longrightarrow> k \<noteq> t \<Longrightarrow> c f k = c fl k"
    "nv_parse (c f t) \<in> {None, nv_parse (c fl t), Some (nv_loaded_seq nv + 1, nv_image_data nv)}" by blast+
qed

text \<open>A failed save leaves one of these states too.\<close>

lemma save_in_states:
  assumes "flash_map fa img ssize ok" "nv_backend nv = Some (migris_fsw_nv_flash_backend fa)" "migris_nvstore_save nv fl = (rc, nv', fl')"
  shows "fl' \<in> set (nv_save_states (migris_fsw_nv_flash_backend fa) nv fl)"
proof -
  have "backend_ok (migris_fsw_nv_flash_backend fa)" using flash_map.nv_contract [OF assms(1)] by (simp add: nv_flash_def)
  with assms(2,3) show ?thesis
    by (auto simp: migris_nvstore_save_def save_states_eq Let_def case_prod_beta split: if_splits)
qed

lemma save_trace_target:
  assumes "flash_map fa img ssize ok" "(k, f) \<in> set (nv_save_trace (migris_fsw_nv_flash_backend fa) nv fl)"
  shows "k = (if nv_loaded nv then (nv_loaded_sector nv + 1) mod 2 else 0)"
  using assms(2) flash_map.nv_geometry [OF assms(1)]
  by (auto simp: save_trace_eq [OF nv_flash.usable [OF flash_map.nv_contract [OF assms(1)]]] Let_def split: prod.splits if_splits)

section \<open>What the flash covers\<close>

text \<open>
  The moments \<open>H\<close> so far and the index \<open>j\<close> of the one the last successful save wrote: the image a boot
  would use is one of the moments from \<open>j\<close> on, and so is the image a save leaves alone.
\<close>

definition newest_covered :: "fsw_config \<Rightarrow> (nat \<Rightarrow> bytes) \<Rightarrow> snapshot list \<Rightarrow> nat \<Rightarrow> bool" where
  "newest_covered cfg c H j \<longleftrightarrow> j < length H \<and> (case nv_newest (c 0) (c 1) of None \<Rightarrow> j = 0 \<and> H ! 0 = factory cfg
     | Some (i, q, d) \<Rightarrow> \<exists>x \<in> set (drop j H). data_snap cfg d x)"

definition kept_covered :: "fsw_config \<Rightarrow> (nat \<Rightarrow> bytes) \<Rightarrow> 'f migris_nvstore_t \<Rightarrow> snapshot list \<Rightarrow> nat \<Rightarrow> bool" where
  "kept_covered cfg c nv H j \<longleftrightarrow> (if nv_loaded nv
     then \<exists>d. nv_parse (c (nv_loaded_sector nv)) = Some (nv_loaded_seq nv, d) \<and> (\<exists>x \<in> set (drop j H). data_snap cfg d x)
     else j = 0 \<and> H ! 0 = factory cfg)"

lemma covered_more:
  "newest_covered cfg c H j \<Longrightarrow> newest_covered cfg c (H @ [x]) j"
  "kept_covered cfg c nv H j \<Longrightarrow> j < length H \<Longrightarrow> kept_covered cfg c nv (H @ [x]) j"
proof -
  assume n: "newest_covered cfg c H j"
  then have "H \<noteq> []" by (auto simp: newest_covered_def)
  then show "newest_covered cfg c (H @ [x]) j"
    using n by (auto simp: newest_covered_def nth_append split: option.splits simp del: One_nat_def)
next
  assume k: "kept_covered cfg c nv H j" "j < length H"
  then have "H \<noteq> []" by auto
  then show "kept_covered cfg c nv (H @ [x]) j" using k by (auto simp: kept_covered_def nth_append split: if_splits)
qed

lemma seq_up: "(q :: u32) \<noteq> 0xFFFFFFFF \<Longrightarrow> q < q + 1"
proof -
  assume "q \<noteq> 0xFFFFFFFF"
  moreover have "(- 1 :: u32) = 0xFFFFFFFF" by simp
  ultimately have "q + 1 \<noteq> 0" using eq_neg_iff_add_eq_0 [of q 1] by metis
  then show "q < q + 1" using unatSuc [of q] by (simp add: word_less_nat_alt add.commute)
qed

text \<open>A save cut short or failed: the old images are as good as before, and the new one is the present.\<close>

lemma torn_covered:
  fixes c c' :: "nat \<Rightarrow> bytes" and nv :: "'f migris_nvstore_t" and D :: bytes
  defines "t \<equiv> if nv_loaded nv then (nv_loaded_sector nv + 1) mod 2 else 0"
  assumes "nv_tracks c nv" "nv_loaded_seq nv \<noteq> 0xFFFFFFFF" "\<And>k. k < 2 \<Longrightarrow> k \<noteq> t \<Longrightarrow> c' k = c k"
    and "nv_parse (c' t) \<in> {None, nv_parse (c t), Some (nv_loaded_seq nv + 1, D)}"
    and "newest_covered cfg c H j" "kept_covered cfg c nv H j" "data_snap cfg D x"
  shows "newest_covered cfg c' (H @ [x]) j" "kept_covered cfg c' nv (H @ [x]) j"
proof -
  have j: "j < length H" using assms(6) by (simp add: newest_covered_def)
  have other: "nv_loaded nv \<longrightarrow> nv_loaded_sector nv < 2 \<and> nv_loaded_sector nv = 1 - t \<and> t < 2"
    using assms(2) by (auto simp: nv_tracks_def t_def less_2_cases_iff)
  have t: "t < 2" by (simp add: t_def)
  have one: "c' (1 - t) = c (1 - t)" by (rule assms(4)) (use t in arith)+
  note more = covered_more(1) [OF assms(6), of x] covered_more(2) [OF assms(7) j, of x]
  have "c' (nv_loaded_sector nv) = c (nv_loaded_sector nv)" if "nv_loaded nv" using other one that by simp
  with more(2) show "kept_covered cfg c' nv (H @ [x]) j" by (simp add: kept_covered_def del: drop_append)
  have new: "x \<in> set (drop j (H @ [x]))" using j by simp
  have kept: "(nv_loaded nv \<and> (\<exists>d. nv_parse (c (1 - t)) = Some (nv_loaded_seq nv, d) \<and> (\<exists>x \<in> set (drop j (H @ [x])). data_snap cfg d x)))
    \<or> (t = 0 \<and> nv_parse (c (1 - t)) = None \<and> j = 0 \<and> (H @ [x]) ! 0 = factory cfg)"
    using more(2) other assms(2) unfolding kept_covered_def nv_tracks_def by (auto simp: t_def split: if_splits)
  have newest: "nv_newest (c' 0) (c' 1) = (if t = 0 then nv_newest (c' t) (c (1 - t)) else nv_newest (c (1 - t)) (c' t))"
    using t one by (auto simp: less_2_cases_iff)
  have "nv_parse (c' t) = None \<or> nv_parse (c' t) = nv_parse (c t) \<or> nv_parse (c' t) = Some (nv_loaded_seq nv + 1, D)" using assms(5) by blast
  then show "newest_covered cfg c' (H @ [x]) j"
  proof (elim disjE)
    assume "nv_parse (c' t) = None"
    with kept j show ?thesis unfolding newest_covered_def newest by (auto simp: nv_newest_def)
  next
    assume "nv_parse (c' t) = nv_parse (c t)"
    then have "nv_newest (c' 0) (c' 1) = nv_newest (c 0) (c 1)"
      unfolding newest using t by (auto simp: nv_newest_def less_2_cases_iff)
    with more(1) show ?thesis by (simp add: newest_covered_def del: One_nat_def)
  next
    assume p: "nv_parse (c' t) = Some (nv_loaded_seq nv + 1, D)"
    have "\<exists>i q. nv_newest (c' 0) (c' 1) = Some (i, q, D)"
      unfolding newest using kept p seq_up [OF assms(3)] by (auto simp: nv_newest_def not_less_iff_gr_or_eq)
    with new assms(8) j show ?thesis by (auto simp: newest_covered_def simp del: One_nat_def)
  qed
qed

text \<open>A save that succeeded: the flash is now at the present moment.\<close>

lemma saved_covered:
  assumes "flash_map fa img ssize ok" "nv_good (fa_cells img ssize) ok (migris_fsw_nv_flash_backend fa) (nv, fl)"
    and "nv_loaded_seq nv \<noteq> 0xFFFFFFFF" "migris_nvstore_save nv fl = (NVSTORE_OK, nv', fl')" "data_snap cfg (nv_image_data nv) x"
  shows "newest_covered cfg (fa_cells img ssize fl') (H @ [x]) (length H)"
    "kept_covered cfg (fa_cells img ssize fl') nv' (H @ [x]) (length H)"
proof -
  from assms(2) have g: "ok fl" "nv_backend nv = Some (migris_fsw_nv_flash_backend fa)" "nv_wf nv" "nv_tracks (fa_cells img ssize fl) nv"
    by (simp_all add: nv_good_def)
  note z = nv_wf_sized [OF g(3)] and nf = flash_map.nv_contract [OF assms(1)] and two = flash_map.nv_geometry [OF assms(1)]
  show "newest_covered cfg (fa_cells img ssize fl') (H @ [x]) (length H)"
    using nv_flash.newest_after_save [OF nf two g(1,2) z [THEN conjunct2] z [THEN conjunct1] g(4) assms(3,4)] assms(5)
    by (simp add: newest_covered_def del: One_nat_def)
  show "kept_covered cfg (fa_cells img ssize fl') nv' (H @ [x]) (length H)"
    using nv_flash.save_spec(3) [OF nf g(1,2) z [THEN conjunct1] z [THEN conjunct2] assms(4)] assms(5)
    by (auto simp: kept_covered_def)
qed

section \<open>Power cycles\<close>

text \<open>
  What a power loss at any point of a save tick may leave in flash. With nothing to write, what was
  there. Otherwise one of the states the save itself passes through, or a state torn inside one of the
  operations it really performs (\<open>nv_save_trace\<close>): the sector not addressed as the operation found it, and
  in the addressed one any bytes at all that show no image, the image before the operation or the one
  after it.
\<close>

definition torn_op :: "('f \<Rightarrow> bytes) \<Rightarrow> nat \<Rightarrow> 'f \<Rightarrow> nat \<Rightarrow> 'f \<Rightarrow> 'f \<Rightarrow> bool" where
  "torn_op img ssize before sector after fl \<longleftrightarrow>
    (\<forall>k < 2. k \<noteq> sector \<longrightarrow> fa_cells img ssize fl k = fa_cells img ssize before k)
    \<and> nv_parse (fa_cells img ssize fl sector)
        \<in> {None, nv_parse (fa_cells img ssize before sector), nv_parse (fa_cells img ssize after sector)}"

definition torn_tick :: "fsw_config \<Rightarrow> 'f flash_area \<Rightarrow> ('f \<Rightarrow> bytes) \<Rightarrow> nat \<Rightarrow> ('f \<Rightarrow> bool) \<Rightarrow> 'f fsw_state \<Rightarrow> 'f \<Rightarrow> bool" where
  "torn_tick cfg fa img ssize ok s fl \<longleftrightarrow> (let (dirty, nv) = save_tick_image cfg s;
         ops = nv_save_trace (migris_fsw_nv_flash_backend fa) nv (fs_flash s);
         states = nv_save_states (migris_fsw_nv_flash_backend fa) nv (fs_flash s)
     in if dirty then fl \<in> set states
          \<or> ok fl \<and> (\<exists>i < length ops. torn_op img ssize (states ! i) (fst (ops ! i)) (snd (ops ! i)) fl)
        else fl = fs_flash s)"

definition save_target :: "'f migris_nvstore_t \<Rightarrow> nat" where
  "save_target nv = (if nv_loaded nv then (nv_loaded_sector nv + 1) mod 2 else 0)"

text \<open>Seen from the two sectors: only the one not loaded from is ever at risk.\<close>

lemma torn_tick_sectors:
  assumes "flash_map fa img ssize ok" "tears_detected fa img ssize ok" "ok (fs_flash s)" "save_tick_image cfg s = (True, nv)" "nv_wf nv"
    and "torn_tick cfg fa img ssize ok s fl"
  defines "t \<equiv> save_target nv" and "c \<equiv> fa_cells img ssize"
  shows "ok fl" "k < 2 \<Longrightarrow> k \<noteq> t \<Longrightarrow> c fl k = c (fs_flash s) k"
    and "nv_parse (c fl t) \<in> {None, nv_parse (c (fs_flash s) t), Some (nv_loaded_seq nv + 1, nv_image_data nv)}"
proof -
  let ?b = "migris_fsw_nv_flash_backend fa"
  let ?states = "nv_save_states ?b nv (fs_flash s)" and ?ops = "nv_save_trace ?b nv (fs_flash s)"
  let ?good = "\<lambda>f. ok f \<and> (\<forall>k < 2. k \<noteq> t \<longrightarrow> c f k = c (fs_flash s) k)
    \<and> nv_parse (c f t) \<in> {None, nv_parse (c (fs_flash s) t), Some (nv_loaded_seq nv + 1, nv_image_data nv)}"
  note z = nv_wf_sized [OF assms(5)]
  have st: "?good f" if "f \<in> set ?states" for f
    using save_states_torn [OF assms(1-3) z [THEN conjunct1] z [THEN conjunct2] that] unfolding t_def c_def save_target_def by blast
  from assms(6) consider "fl \<in> set ?states"
    | i where "ok fl" "i < length ?ops" "torn_op img ssize (?states ! i) (fst (?ops ! i)) (snd (?ops ! i)) fl"
    by (auto simp: torn_tick_def assms(4) Let_def)
  then have "?good fl"
  proof cases
    case (2 i)
    have "?ops ! i \<in> set ?ops" using 2(2) by simp
    then have k: "fst (?ops ! i) = t" and after: "snd (?ops ! i) \<in> set ?states"
      using save_trace_target [OF assms(1), of "fst (?ops ! i)" "snd (?ops ! i)"] by (simp_all add: t_def save_target_def nv_save_states_def)
    have before: "?states ! i \<in> set ?states" using 2(2) by (intro nth_mem) (simp add: nv_save_states_def)
    from st [OF before] st [OF after] 2(1,3) show ?thesis unfolding torn_op_def k c_def [symmetric] by auto
  qed (rule st)
  then show "ok fl" "k < 2 \<Longrightarrow> k \<noteq> t \<Longrightarrow> c fl k = c (fs_flash s) k"
    "nv_parse (c fl t) \<in> {None, nv_parse (c (fs_flash s) t), Some (nv_loaded_seq nv + 1, nv_image_data nv)}" by blast+
qed

text \<open>Whether an iteration's save tick writes the image and the write is reported as done.\<close>

definition saves_now :: "fsw_config \<Rightarrow> 'f fsw_state \<Rightarrow> bool" where
  "saves_now cfg s \<longleftrightarrow> (let (dirty, nv) = save_tick_image cfg s in dirty \<and> fst (migris_nvstore_save nv (fs_flash s)) = NVSTORE_OK)"

datatype 'f power = Off 'f | On "'f fsw_state" nat

text \<open>
  A life of the application: the power is off or on, with the flash or the state and the uptime, after
  the moments \<open>H\<close>, of which the last save that reported success wrote number \<open>j\<close>. Every iteration's save
  tick adds a moment; \<open>j\<close> moves to it exactly when some state changed and migris_nvstore_save returns OK.
  The sequence number must not be at its end when a tick begins. Power may go between two iterations, or
  anywhere in a save tick.
\<close>

inductive life :: "fsw_config \<Rightarrow> 'f flash_area \<Rightarrow> ('f \<Rightarrow> bytes) \<Rightarrow> nat \<Rightarrow> ('f \<Rightarrow> bool) \<Rightarrow> 'f power \<Rightarrow> snapshot list \<Rightarrow> nat \<Rightarrow> bool"
  for cfg :: fsw_config and fa :: "'f flash_area" and img :: "'f \<Rightarrow> bytes" and ssize :: nat and ok :: "'f \<Rightarrow> bool" where
  life_new: "ok fl \<Longrightarrow> nv_newest (fa_cells img ssize fl 0) (fa_cells img ssize fl 1) = None \<Longrightarrow> life cfg fa img ssize ok (Off fl) [factory cfg] 0"
| life_boot: "life cfg fa img ssize ok (Off fl) H j \<Longrightarrow> mem_ok mem \<Longrightarrow> life cfg fa img ssize ok (On (fsw_boot cfg fa mem fl ms) ms) H j"
| life_step: "life cfg fa img ssize ok (On s ms) H j \<Longrightarrow> ms \<le> in_uptime_ms inp \<Longrightarrow> in_uptime_ms inp < 4294967296000 \<Longrightarrow>
    nv_loaded_seq (fs_nvstore s) \<noteq> 0xFFFFFFFF \<Longrightarrow>
    j' = (if saves_now cfg s then length H else j) \<Longrightarrow>
    life cfg fa img ssize ok (On (fsw_iteration cfg inp s) (in_uptime_ms inp)) (H @ [snapshot_of cfg s]) j'"
| life_off: "life cfg fa img ssize ok (On s ms) H j \<Longrightarrow> life cfg fa img ssize ok (Off (fs_flash s)) H j"
| life_torn: "life cfg fa img ssize ok (On s ms) H j \<Longrightarrow> nv_loaded_seq (fs_nvstore s) \<noteq> 0xFFFFFFFF \<Longrightarrow>
    torn_tick cfg fa img ssize ok s fl \<Longrightarrow> life cfg fa img ssize ok (Off fl) (H @ [snapshot_of cfg s]) j"

text \<open>What holds throughout.\<close>

fun life_ok :: "fsw_config \<Rightarrow> 'f flash_area \<Rightarrow> ('f \<Rightarrow> bytes) \<Rightarrow> nat \<Rightarrow> ('f \<Rightarrow> bool) \<Rightarrow> 'f power \<Rightarrow> snapshot list \<Rightarrow> nat \<Rightarrow> bool" where
  "life_ok cfg fa img ssize ok (Off fl) H j \<longleftrightarrow> ok fl \<and> newest_covered cfg (fa_cells img ssize fl) H j"
| "life_ok cfg fa img ssize ok (On s ms) H j \<longleftrightarrow> fs_inv cfg (now_of ms) s
     \<and> nv_good (fa_cells img ssize) ok (migris_fsw_nv_flash_backend fa) (nv_view s) \<and> behind cfg 18 (fs_nvstore s) s
     \<and> newest_covered cfg (fa_cells img ssize (fs_flash s)) H j \<and> kept_covered cfg (fa_cells img ssize (fs_flash s)) (fs_nvstore s) H j"

lemma covered_ours: "newest_covered cfg c H j \<Longrightarrow> image_ours cfg c"
  by (auto simp: newest_covered_def image_ours_def data_snap_def stands_for_def split: option.splits simp del: One_nat_def)

lemma loaded_kept:
  "nv_loaded_as nv (nv_newest (c 0) (c 1)) \<Longrightarrow> newest_covered cfg c H j \<Longrightarrow> kept_covered cfg c nv H j"
  by (auto simp: nv_loaded_as_def newest_covered_def kept_covered_def nv_newest_def split: option.splits if_splits) blast+

text \<open>A boot.\<close>

lemma boot_covered:
  assumes "flash_map fa img ssize ok" "ok flash" "mem_ok mem" "newest_covered cfg (fa_cells img ssize flash) H j"
  shows "snapshot_of cfg (fsw_init cfg fa mem flash) \<in> set (drop j H)"
    and "kept_covered cfg (fa_cells img ssize flash) (fs_nvstore (fsw_init cfg fa mem flash)) H j"
proof -
  let ?nv0 = "migris_nvstore_init (mem_nvstore mem) (Some (migris_fsw_nv_flash_backend fa))" and ?c = "fa_cells img ssize flash"
  have z: "length (nv_payload ?nv0) = 1536" "nv_backend ?nv0 = Some (migris_fsw_nv_flash_backend fa)"
    using assms(3) by (simp_all add: mem_ok_def migris_nvstore_init_def fsw_const)
  from nv_flash.load_spec [OF flash_map.nv_contract [OF assms(1)] assms(2) z(2,1)] obtain rc nv where
    load: "boot_load fa mem flash = (rc, nv)" and rc: "nv_newest (?c 0) (?c 1) \<noteq> None \<Longrightarrow> rc = NVSTORE_OK"
    and l: "nv_loaded_as nv (nv_newest (?c 0) (?c 1))" by auto
  have "fs_nvstore (fsw_init cfg fa mem flash) = nv" by (rule init_fields(8) [OF load])
  with loaded_kept [OF l assms(4)] show "kept_covered cfg ?c (fs_nvstore (fsw_init cfg fa mem flash)) H j" by simp
  obtain x rs where x: "x \<in> set (drop j H)" "nv_recs nv rs" "stands_for cfg rs x" "rc = NVSTORE_OK \<or> rs = []"
  proof (cases "nv_newest (?c 0) (?c 1)")
    case None
    with assms(4) have "factory cfg \<in> set (drop j H)" by (auto simp: newest_covered_def simp del: One_nat_def)
        (metis list.set_sel(1) hd_conv_nth)
    moreover have "nv_recs nv []" using l None by (simp add: nv_loaded_as_def nv_recs_def fsw_const)
    ultimately show ?thesis using stands_factory by (intro that [of "factory cfg" "[]"]) simp_all
  next
    case (Some a)
    obtain i q p where a: "a = (i, q, p)" by (metis prod_cases3)
    with assms(4) Some obtain x rs where x: "x \<in> set (drop j H)" and rs: "p = recs_bytes rs" "distinct (map fst rs)" "stands_for cfg rs x"
      by (auto simp: newest_covered_def data_snap_def simp del: One_nat_def)
    have n: "length (nv_payload nv) = 1536" "nv_image_data nv = recs_bytes rs" "nv_payload_len nv = length (recs_bytes rs)"
      using l by (simp_all add: nv_loaded_as_def Some a rs(1) del: One_nat_def)
    from arg_cong [OF n(2), of length] n(1,3) have "length (recs_bytes rs) \<le> 1536" by (simp add: nv_image_data_def)
    with n rs(2) have "nv_recs nv rs" by (simp add: nv_recs_def nv_image_data_def fsw_const)
    moreover have "rc = NVSTORE_OK" by (rule rc) (simp add: Some del: One_nat_def)
    ultimately show ?thesis using x rs(3) by (intro that [of x rs]) simp_all
  qed
  with boot_moment(1) [OF load x(2-4) assms(3)] show "snapshot_of cfg (fsw_init cfg fa mem flash) \<in> set (drop j H)" by simp
qed

lemma boot_life:
  assumes "flash_map fa img ssize ok" "cfg_ok cfg" "life_ok cfg fa img ssize ok (Off fl) H j" "mem_ok mem"
  shows "life_ok cfg fa img ssize ok (On (fsw_boot cfg fa mem fl ms) ms) H j"
proof -
  let ?s = "fsw_boot cfg fa mem fl ms" and ?i = "fsw_init cfg fa mem fl"
  from assms(3) have ok: "ok fl" and n: "newest_covered cfg (fa_cells img ssize fl) H j" by simp_all
  note ours = covered_ours [OF n]
  note dur = boot_durable [OF assms(1) ok assms(4,2) ours, of ms]
  have "fs_inv cfg (now_of ms) ?s" by (rule boot_inv [OF assms(1) ok assms(4,2) boot_schedule_distinct [OF assms(1) ok assms(4) ours]])
  moreover have "fs_nvstore ?s = fs_nvstore ?i" "fs_flash ?s = fs_flash ?i" using nv_view_boot [of cfg fa mem fl ms] by (simp_all add: nv_view_def)
  moreover obtain rc nv where "boot_load fa mem fl = (rc, nv)" by force
  then have "fs_flash ?i = fl" by (rule init_fields(9))
  ultimately show ?thesis using n boot_covered(2) [OF assms(1) ok assms(4) n] dur by (simp add: durable_def)
qed

text \<open>One save tick, complete or cut short.\<close>

lemma tick_life:
  assumes fm: "flash_map fa img ssize ok" and td: "tears_detected fa img ssize ok"
    and l: "life_ok cfg fa img ssize ok (On s ms) H j" and seq: "nv_loaded_seq (fs_nvstore s) \<noteq> 0xFFFFFFFF"
  defines "s' \<equiv> fsw_save_tick cfg s" and "H' \<equiv> H @ [snapshot_of cfg s]" and "cells \<equiv> \<lambda>fl. fa_cells img ssize fl"
  defines "j' \<equiv> if saves_now cfg s then length H else j"
  shows "torn_tick cfg fa img ssize ok s fl \<Longrightarrow> ok fl \<and> newest_covered cfg (cells fl) H' j"
    and "newest_covered cfg (cells (fs_flash s')) H' j'" "kept_covered cfg (cells (fs_flash s')) (fs_nvstore s') H' j'"
    and "behind cfg 0 (fs_nvstore s') s'"
proof -
  let ?b = "migris_fsw_nv_flash_backend fa" and ?nv = "fs_nvstore s"
  from l have inv: "fs_inv cfg (now_of ms) s" and good: "nv_good (fa_cells img ssize) ok ?b (?nv, fs_flash s)" and bh: "behind cfg 18 ?nv s"
    and n: "newest_covered cfg (cells (fs_flash s)) H j" and k: "kept_covered cfg (cells (fs_flash s)) ?nv H j"
    by (simp_all add: cells_def nv_view_def)
  have j: "j < length H" using n by (simp add: newest_covered_def)
  note more = covered_more(1) [OF n, of "snapshot_of cfg s"] covered_more(2) [OF k j, of "snapshot_of cfg s"]
  have small: "(18 :: nat) < 2 ^ 32" by simp
  obtain nv4 dirty where im: "save_tick_image cfg s = (dirty, nv4)" and place: "nv_same_place ?nv nv4" and b4: "behind cfg 0 nv4 s'"
    and clean: "\<not> dirty \<longrightarrow> nv4 = ?nv"
    and e: "(fs_nvstore s', fs_flash s') = (if dirty then snd (migris_nvstore_save nv4 (fs_flash s)) else (nv4, fs_flash s))"
    and keep: "fs_ctx s' = fs_ctx s" "fs_mode_mgr s' = fs_mode_mgr s"
    by (rule save_tick_current [OF bh small inv, folded s'_def])
  have snap: "snapshot_of cfg s' = snapshot_of cfg s"
    by (simp add: snapshot_of_def app_params_def app_schedule_def app_structures_def keep)
  have data: "data_snap cfg (nv_image_data nv4) (snapshot_of cfg s)" using current_moment [OF b4] by (simp add: snap)
  have wf: "nv_wf nv4" using b4 nv_own_wf by (auto simp: behind_def)
  have g4: "nv_good (fa_cells img ssize) ok ?b (nv4, fs_flash s)" by (rule same_place_good [OF place wf good])
  then have g: "ok (fs_flash s)" "nv_backend nv4 = Some ?b" "nv_tracks (cells (fs_flash s)) nv4" by (simp_all add: nv_good_def cells_def)
  note z = nv_wf_sized [OF wf]
  have p: "nv_loaded_seq nv4 = nv_loaded_seq ?nv" "nv_loaded nv4 = nv_loaded ?nv" "nv_loaded_sector nv4 = nv_loaded_sector ?nv"
    using place by (simp_all add: nv_same_place_def)
  have kp: "kept_covered cfg c nv4 H i = kept_covered cfg c ?nv H i" for c H i by (simp add: kept_covered_def p)
  have seq4: "nv_loaded_seq nv4 \<noteq> 0xFFFFFFFF" using seq by (simp add: p)
  have torn: "newest_covered cfg (cells f) H' j \<and> kept_covered cfg (cells f) nv4 H' j"
    if "\<And>k. k < 2 \<Longrightarrow> k \<noteq> save_target nv4 \<Longrightarrow> cells f k = cells (fs_flash s) k"
      "nv_parse (cells f (save_target nv4)) \<in> {None, nv_parse (cells (fs_flash s) (save_target nv4)), Some (nv_loaded_seq nv4 + 1, nv_image_data nv4)}" for f
    using torn_covered [OF g(3) seq4 that [unfolded save_target_def] n k [folded kp] data] by (simp add: H'_def)
  have failed: "newest_covered cfg (cells f) H' j \<and> kept_covered cfg (cells f) nv4 H' j" if "f \<in> set (nv_save_states ?b nv4 (fs_flash s))" for f
    by (rule torn) (use save_states_torn(2,3) [OF fm td g(1) z [THEN conjunct1] z [THEN conjunct2] that] in \<open>simp_all add: save_target_def cells_def\<close>)
  show "ok fl \<and> newest_covered cfg (cells fl) H' j" if tt: "torn_tick cfg fa img ssize ok s fl"
  proof (cases dirty)
    case True
    with im have im': "save_tick_image cfg s = (True, nv4)" by simp
    note ts = torn_tick_sectors [OF fm td g(1) im' wf tt]
    show ?thesis using ts(1) torn [of fl] ts(2,3) by (simp add: cells_def)
  next
    case False
    with tt g(1) more(1) show ?thesis by (simp add: torn_tick_def im H'_def)
  qed
  have "newest_covered cfg (cells (fs_flash s')) H' j' \<and> kept_covered cfg (cells (fs_flash s')) (fs_nvstore s') H' j'
    \<and> behind cfg 0 (fs_nvstore s') s'"
  proof (cases dirty)
    case False
    with e clean have "fs_nvstore s' = ?nv" "fs_flash s' = fs_flash s" by simp_all
    with more b4 clean False show ?thesis by (simp add: H'_def j'_def saves_now_def im)
  next
    case True
    obtain rc nv5 fl5 where sv: "migris_nvstore_save nv4 (fs_flash s) = (rc, nv5, fl5)" by (metis prod_cases3)
    with e True have r: "fs_nvstore s' = nv5" "fs_flash s' = fl5" by simp_all
    note sp = nv_flash.save_spec(3) [OF flash_map.nv_contract [OF fm] g(1,2) z [THEN conjunct1] z [THEN conjunct2] sv]
    have "nv_payload nv5 = nv_payload nv4" "nv_payload_len nv5 = nv_payload_len nv4" using sp by auto
    note same = same_image [OF this]
    have b5: "behind cfg 0 nv5 s'" using b4 by (simp add: behind_def same)
    from sp show ?thesis
    proof (elim disjE conjE)
      assume rc: "rc = NVSTORE_OK" and nv5: "nv5 = nv4\<lparr>nv_loaded_seq := nv_loaded_seq nv4 + 1,
        nv_loaded_sector := if nv_loaded nv4 then (nv_loaded_sector nv4 + 1) mod nb_sector_count ?b else 0, nv_loaded := True\<rparr>"
      have "saves_now cfg s" using True sv rc by (simp add: saves_now_def im)
      with saved_covered [OF fm g4 seq4 sv [unfolded rc] data] b5 show ?thesis by (simp add: r j'_def H'_def cells_def)
    next
      assume rc: "rc = NVSTORE_ERR_BACKEND" "nv5 = nv4"
      then have "\<not> saves_now cfg s" using sv by (simp add: saves_now_def im)
      with failed [OF save_in_states [OF fm g(2) sv]] b5 rc(2) show ?thesis by (simp add: r j'_def)
    qed
  qed
  then show "newest_covered cfg (cells (fs_flash s')) H' j'" "kept_covered cfg (cells (fs_flash s')) (fs_nvstore s') H' j'"
    "behind cfg 0 (fs_nvstore s') s'" by blast+
qed

lemma life_invariant:
  assumes "flash_map fa img ssize ok" "tears_detected fa img ssize ok" "cfg_ok cfg" "life cfg fa img ssize ok p H j"
  shows "life_ok cfg fa img ssize ok p H j"
  using assms(4)
proof (induction rule: life.induct)
  case (life_new fl)
  then show ?case by (simp add: newest_covered_def del: One_nat_def)
next
  case (life_boot fl H j mem ms)
  then show ?case using boot_life [OF assms(1,3)] by blast
next
  case (life_step s ms H j inp j')
  note t = tick_life(2-4) [OF assms(1,2) life_step.IH life_step.hyps(4), folded life_step.hyps(5)]
  from life_step.IH have inv: "fs_inv cfg (now_of ms) s"
    and good: "nv_good (fa_cells img ssize) ok (migris_fsw_nv_flash_backend fa) (nv_view s)" by simp_all
  have later: "now_of ms \<le> now_of (in_uptime_ms inp)" using life_step.hyps(2,3) by (rule now_of_mono)
  have v: "nv_view (fsw_iteration cfg inp s) = nv_view (fsw_save_tick cfg s)" by (rule nv_view_iteration)
  then have "fs_nvstore (fsw_iteration cfg inp s) = fs_nvstore (fsw_save_tick cfg s)" "fs_flash (fsw_iteration cfg inp s) = fs_flash (fsw_save_tick cfg s)"
    by (simp_all add: nv_view_def)
  with iteration_inv [OF inv later] save_tick_good [OF assms(1) good inv] behind_step [OF t(3) iteration_moved [OF inv later]] t(1,2) v
  show ?case by simp
next
  case (life_off s ms H j)
  then show ?case by (simp add: nv_good_def nv_view_def)
next
  case (life_torn s ms H j fl)
  from tick_life(1) [OF assms(1,2) life_torn.IH life_torn.hyps(2,3)] show ?case by simp
qed

text \<open>
  C2: whatever the power does. Over any life of the application, from a flash without an image through
  boots, iterations and power losses in any order, also in the middle of an erase or a write, on a flash whose
  erases and writes may fail: every boot restores the persistent state of one past moment, whole (parameters,
  schedule, structures and mode of the same moment, the factory state counting as the first), and none
  older than the one written by the last save tick whose migris_nvstore_save returned OK.
\<close>
theorem every_boot_restores_a_moment:
  assumes "flash_map fa img ssize ok" "tears_detected fa img ssize ok" "cfg_ok cfg"
    and "life cfg fa img ssize ok (Off fl) H j" "mem_ok mem"
  shows "j < length H \<and> snapshot_of cfg (fsw_init cfg fa mem fl) \<in> set (drop j H)"
proof -
  from life_invariant [OF assms(1-4)] have "ok fl" and n: "newest_covered cfg (fa_cells img ssize fl) H j" by simp_all
  with boot_covered(1) [OF assms(1) _ assms(5) n] show ?thesis by (simp add: newest_covered_def)
qed

lemma ram_tears: "tears_detected ram_area img ssize ok"
  by (simp add: tears_detected_def ram_area_def)

lemma every_boot_restores_a_moment_witness:
  "\<exists>(s :: bytes fsw_state) j. life config_example ram_area (\<lambda>fl. fl) 2048 (\<lambda>fl. length fl = 4096) (Off (fs_flash s))
       [factory config_example, snapshot_of config_example (fsw_boot config_example ram_area memory_example (replicate 4096 0xFF) 1200)] j
     \<and> snapshot_of config_example (fsw_init config_example ram_area memory_example (fs_flash s)) \<in> set (drop j
         [factory config_example, snapshot_of config_example (fsw_boot config_example ram_area memory_example (replicate 4096 0xFF) 1200)])"
proof -
  let ?life = "life config_example ram_area (\<lambda>fl. fl) 2048 (\<lambda>fl. length fl = 4096)"
  obtain fl :: bytes where fl: "fl = replicate 4096 0xFF" by blast
  then have ok: "length fl = 4096" by (simp only: length_replicate)
  note blank = ram_erased_newest [folded fl]
  let ?s0 = "fsw_boot config_example ram_area memory_example fl 1200"
  obtain s j where s: "s = fsw_iteration config_example (idle_input 1500 None) ?s0"
    and j: "j = (if saves_now config_example ?s0 then length [factory config_example] else 0)"
    by blast
  have demo: "CONFIG_FSW_MODE_DEMO config_example" by (simp add: config_example_def)
  have "nv_loaded_seq (fs_nvstore ?s0) = 0"
    by (rule first_boot(5) [OF ram.flash_map_axioms ok memory_example_ok config_example_ok demo blank])
  then have seq: "nv_loaded_seq (fs_nvstore ?s0) \<noteq> 0xFFFFFFFF" by simp
  have "?life (Off fl) [factory config_example] 0" by (rule life_new [where img = "\<lambda>fl. fl", OF _ blank]) (rule ok)
  from life_boot [OF this memory_example_ok, of 1200] have "?life (On ?s0 1200) [factory config_example] 0" .
  from life_step [OF this _ _ seq j, of "idle_input 1500 None"]
  have "?life (On s 1500) ([factory config_example] @ [snapshot_of config_example ?s0]) j" by (simp add: s idle_input_def)
  from life_off [OF this] have l: "?life (Off (fs_flash s)) [factory config_example, snapshot_of config_example ?s0] j" by simp
  note r = every_boot_restores_a_moment [OF ram.flash_map_axioms ram_tears config_example_ok l memory_example_ok, THEN conjunct2]
  show ?thesis unfolding fl [symmetric] by (intro exI [of _ s] exI [of _ j] conjI) (rule l, rule r)
qed

end
