(* ===== verification/Commanding.thy ===== *)
theory Commanding
  imports Framing Lifetime
begin

text \<open>
  Time-based commanding over a whole run of the main loop of samples/tc_uart/src/main.c: whatever
  the release tick hands to the router was ordered, by the schedule the boot restored or by an insert
  request the router accepted, with that telecommand and that release time, and no order is
  executed twice or early.
\<close>

section \<open>Orders\<close>

definition no_schedule :: migris_schedule_t where
  "no_schedule = \<lparr>sch_activities = [], sch_count = 0, sch_enabled = False, sch_generation = 0\<rparr>"

text \<open>
  The activities a telecommand orders, read off the wire as the ground writes them: application data that
  start with a count of at most 8, then that many times a 4-byte release time and a telecommand as long as
  its own packet length field says, and nothing behind; each telecommand at most 64 bytes, and no two with
  the same first four bytes. Only a PUS-11[4] request for this application process orders anything.
\<close>

fun cut_orders :: "nat \<Rightarrow> bytes \<Rightarrow> (u32 \<times> bytes) list option" where
  "cut_orders 0 bs = (if bs = [] then Some [] else None)"
| "cut_orders (Suc n) bs = (let tc_len = unat (rd16_at bs 8) + 7
     in if length bs < 10 \<or> length bs < 4 + tc_len then None
        else map_option ((#) (rd32_at bs 0, take tc_len (drop 4 bs))) (cut_orders n (drop (4 + tc_len) bs)))"

definition order_list :: "bytes \<Rightarrow> migris_schedule_activity_t list" where
  "order_list app = (case app of [] \<Rightarrow> [] | n # bs \<Rightarrow> if 8 < unat n then [] else (case cut_orders (unat n) bs of
     None \<Rightarrow> []
   | Some as \<Rightarrow> if (\<forall>(t, tc) \<in> set as. length tc \<le> 64) \<and> distinct (map (\<lambda>(t, tc). take 4 tc) as)
       then map (\<lambda>(t, tc). \<lparr>act_release_time = t, act_tc = tc\<rparr>) as else []))"

definition orders :: "u16 \<Rightarrow> bytes \<Rightarrow> migris_schedule_activity_t list" where
  "orders apid tc = (let v = migris_tc_accept tc apid
     in if av_addressed v \<and> av_fc v = FC_NONE \<and> av_service_type v = 11 \<and> av_service_subtype v = 4
        then order_list (take (length tc - 13) (drop 11 tc)) else [])"

lemma cut_orders_bytes: "\<forall>(t, tc) \<in> set as. Pus11.tc_framed tc \<Longrightarrow> cut_orders (length as) (insert_bytes as) = Some as"
proof (induction as)
  case (Cons a as)
  obtain t tc where a: "a = (t, tc)" by force
  let ?bs = "be32 t @ tc @ insert_bytes as"
  have f: "6 \<le> length tc" "length tc = unat (rd16_at tc 4) + 7"
    using Cons.prems by (simp_all add: a Pus11.tc_framed_def migris_ccsds_packet_total_size_def)
  have "rd16_at ?bs 8 = rd16_at tc 4"
    using rd16_at_drop [of 4 ?bs 4] rd16_at_prefix [of 4 tc "insert_bytes as"] f(1) by simp
  with f(2) have n: "unat (rd16_at ?bs 8) + 7 = length tc" by simp
  have IH: "cut_orders (length as) (insert_bytes as) = Some as" using Cons by simp
  show ?case using f(1) by (simp add: a n IH del: of_nat_Suc)
qed simp

lemma order_list_decoded:
  assumes "pus11_decode_inserts no_schedule app = Inr as"
  shows "order_list app = map (\<lambda>(t, tc). \<lparr>act_release_time = t, act_tc = tc\<rparr>) as"
proof -
  have r: "insert_request no_schedule as app" using assms by (simp add: decode_inserts_iff)
  then have n: "unat (of_nat (length as) :: u8) = length as" by (simp add: insert_request_def unat_of_nat_u8)
  from r cut_orders_bytes [of as] n show ?thesis
    by (auto simp: order_list_def insert_request_def act_batch_ok_def fsw_const)
qed

lemma app_data_cut: "router_app_data tc = take (length tc - 13) (drop 11 tc)"
  by (simp add: router_app_data_def Let_def fsw_const)

definition ordered :: "bytes list \<Rightarrow> migris_schedule_activity_t multiset" where
  "ordered tcs = mset (concat (map (orders MIGRIS_FSW_APID) tcs))"

lemma ordered_simps [simp]:
  "ordered [] = {#}" "ordered (tc # tcs) = mset (orders MIGRIS_FSW_APID tc) + ordered tcs" "ordered (xs @ ys) = ordered xs + ordered ys"
  by (simp_all add: ordered_def)

definition planned :: "migris_tc_router_ctx_t \<Rightarrow> migris_schedule_activity_t multiset" where
  "planned ctx = (case rt_schedule ctx of None \<Rightarrow> {#} | Some c \<Rightarrow> mset (sch_live c))"

section \<open>What a telecommand does to the plan\<close>

lemma insert_all_plan:
  "sch_inv c \<Longrightarrow> mset (sch_live (act_insert_all migris_schedule_insert c as))
     \<subseteq># mset (sch_live c) + mset (map (\<lambda>(t, tc). \<lparr>act_release_time = t, act_tc = tc\<rparr>) as)"
proof (induction as arbitrary: c)
  case (Cons a as)
  obtain t tc where a: "a = (t, tc)" by force
  let ?c = "snd (migris_schedule_insert c t tc)"
  have "mset (sch_live ?c) \<subseteq># mset (sch_live c) + {#\<lparr>act_release_time = t, act_tc = tc\<rparr>#}"
  proof (cases "fst (migris_schedule_insert c t tc) = SCHEDULE_OK")
    case True
    then show ?thesis by (simp add: insert_accepted [OF Cons.prems])
  next
    case False
    then show ?thesis by (simp add: insert_refused)
  qed
  from subset_mset.order_trans [OF Cons.IH [OF insert_inv [OF Cons.prems]] subset_mset.add_right_mono [OF this]]
  show ?case by (simp add: a)
qed simp

lemma delete_plan: "sch_inv c \<Longrightarrow> mset (sch_live (snd (migris_schedule_delete c rid))) \<subseteq># mset (sch_live c)"
proof -
  assume c: "sch_inv c"
  have "mset (sch_live (sched_remove_at c i)) \<subseteq># mset (sch_live c)" if "sched_index_of c rid = Some i" for i
    using remove_at_set(2) [OF c, of i] first_index_less that c by (force simp: index_of_eq)
  then show ?thesis by (auto simp: migris_schedule_delete_def split: option.split)
qed

lemma delete_all_plan: "sch_inv c \<Longrightarrow> mset (sch_live (fold (\<lambda>rid c. snd (migris_schedule_delete c rid)) rids c)) \<subseteq># mset (sch_live c)"
proof (induction rids arbitrary: c)
  case (Cons rid rids)
  from subset_mset.order_trans [OF Cons.IH [OF delete_inv [OF Cons.prems]] delete_plan [OF Cons.prems]] show ?case by simp
qed simp

text \<open>A request that decodes against any schedule decodes alike against the empty one.\<close>

lemma decode_no_schedule: "pus11_decode_inserts c app = Inr as \<Longrightarrow> pus11_decode_inserts no_schedule app = Inr as"
  by (auto simp: decode_inserts_iff insert_request_def act_batch_ok_def find_None_iff no_schedule_def sch_live_def migris_schedule_count_def)

lemma pus11_plan:
  assumes "sch_inv c" "migris_pus11_execute p c apid seq now sst src app cap = (r, (p', c'), seq')"
  shows "mset (sch_live c') \<subseteq># mset (sch_live c) + (if sst = 4 then
    (case pus11_decode_inserts no_schedule app of Inl _ \<Rightarrow> {#} | Inr as \<Rightarrow> mset (map (\<lambda>(t, tc). \<lparr>act_release_time = t, act_tc = tc\<rparr>) as)) else {#})"
proof -
  have "mset (sch_live (snd (pus11_insert c app))) \<subseteq># mset (sch_live c)
      + (case pus11_decode_inserts no_schedule app of Inl _ \<Rightarrow> {#} | Inr as \<Rightarrow> mset (map (\<lambda>(t, tc). \<lparr>act_release_time = t, act_tc = tc\<rparr>) as))"
    using insert_all_plan [OF assms(1)] by (auto simp: pus11_insert_def decode_no_schedule split: sum.split)
  moreover have "mset (sch_live (snd (pus11_delete c app))) \<subseteq># mset (sch_live c)"
    using delete_all_plan [OF assms(1)] by (auto simp: pus11_delete_def split: sum.split)
  moreover have "sch_live (migris_schedule_reset c) = []" by (simp add: migris_schedule_reset_def sch_live_def)
  moreover have "sch_live (migris_schedule_set_enabled c on) = sch_live c" for on by (simp add: migris_schedule_set_enabled_def)
  ultimately show ?thesis
    using assms(2) by (auto simp: migris_pus11_execute_def split: if_splits prod.splits)
qed

lemma plan_eq: "rt_schedule ctx' = rt_schedule ctx \<Longrightarrow> planned ctx' = planned ctx"
  by (simp add: planned_def)

lemma route_plan:
  assumes "pred_option sch_inv (rt_schedule ctx)" "router_route ctx v now tc cap = (reply, fc, ctx')"
  shows "planned ctx' \<subseteq># planned ctx + (if av_service_type v = 11 \<and> av_service_subtype v = 4 then
    (case pus11_decode_inserts no_schedule (router_app_data tc) of
       Inl _ \<Rightarrow> {#} | Inr as \<Rightarrow> mset (map (\<lambda>(t, tc). \<lparr>act_release_time = t, act_tc = tc\<rparr>) as)) else {#})"
proof -
  have p17: "router_pus17 ctx v now tc cap = (reply, fc, ctx') \<Longrightarrow> planned ctx' = planned ctx"
    by (auto simp: router_pus17_def Let_def intro!: plan_eq split: prod.splits sum.splits)
  have p15: "router_pus15 ctx v now tc cap = (reply, fc, ctx') \<Longrightarrow> planned ctx' = planned ctx"
    by (auto simp: router_pus15_def Let_def intro!: plan_eq split: prod.splits sum.splits option.splits)
  have p20: "router_pus20 ctx v now tc cap = (reply, fc, ctx') \<Longrightarrow> planned ctx' = planned ctx"
    by (auto simp: router_pus20_def Let_def intro!: plan_eq split: prod.splits sum.splits option.splits)
  have "planned (snd (snd (router_pus3_poll ctx v now app cap))) = planned ctx" "planned (snd (snd (router_pus3_manage ctx v app))) = planned ctx" for app
    by (auto simp: router_pus3_poll_def router_pus3_poll_framework_def router_pus3_poll_dynamic_def router_pus3_manage_def Let_def
        intro!: plan_eq split: prod.split sum.split option.split)
  then have p3: "router_pus3 ctx v now tc cap = (reply, fc, ctx') \<Longrightarrow> planned ctx' = planned ctx"
    by (auto simp: router_pus3_def Let_def split: if_splits) (metis snd_conv)+
  have p11: "router_pus11 ctx v now tc cap = (reply, fc, ctx') \<Longrightarrow> planned ctx' \<subseteq># planned ctx + (if av_service_subtype v = 4 then
    (case pus11_decode_inserts no_schedule (router_app_data tc) of
       Inl _ \<Rightarrow> {#} | Inr as \<Rightarrow> mset (map (\<lambda>(t, tc). \<lparr>act_release_time = t, act_tc = tc\<rparr>) as)) else {#})"
    using assms(1) by (auto simp: router_pus11_def planned_def Let_def dest!: pus11_plan [rotated] split: prod.splits sum.splits option.splits if_splits)
  show ?thesis
    using assms(2) p17 p3 p20 p11 p15 by (auto simp: router_route_def router_dispatch_table_def split: if_splits)
qed

text \<open>A dispatch, as far as the stores are concerned: nothing, or the routed service.\<close>

lemma counted_persist [simp]: "persist_ptrs (router_counted ctx b) = persist_ptrs ctx" "persist_ptrs (router_verified ctx i) = persist_ptrs ctx"
  by (simp_all add: router_counted_def router_verified_def persist_ptrs_def)

lemma dispatch_cases:
  assumes "router_inv ctx" "128 \<le> cap" "migris_tc_router_dispatch report ctx st now tc cap = (r, ctx', st')" "v = migris_tc_accept tc (rt_apid ctx)"
  obtains (refused) "\<not> (av_addressed v \<and> av_fc v = FC_NONE)" "persist_ptrs ctx' = persist_ptrs ctx"
    | (routed) c cap2 reply fc c2 where "av_addressed v" "av_fc v = FC_NONE" "persist_ptrs c = persist_ptrs ctx"
      "router_route c v now tc cap2 = (reply, fc, c2)" "persist_ptrs ctx' = persist_ptrs c2"
proof -
  consider "\<not> av_addressed v" | "av_addressed v" "av_fc v \<noteq> FC_NONE" | "av_addressed v" "av_fc v = FC_NONE" by blast
  then show thesis
  proof cases
    case 1
    then show thesis using dispatch_quiet(2) [OF assms(2) 1 [unfolded assms(4)], of report st now] assms(3) by (intro refused) simp_all
  next
    case 2
    from dispatch_rejected [OF assms(1,2) assms(4) [symmetric] 2, of report st now] assms(3)
    have "ctx' = router_counted ctx False \<or> ctx' = router_verified (router_counted ctx False) 1" by (auto split: if_splits)
    with 2 show thesis by (intro refused) auto
  next
    case 3
    let ?c = "if wants_acceptance v then router_verified (router_counted ctx True) 0 else router_counted ctx True"
    obtain reply fc c2 where route: "router_route ?c v now tc (if wants_acceptance v then cap - 22 else cap) = (reply, fc, c2)"
      by (metis prod.exhaust)
    from dispatch_accepted [OF assms(1,2) assms(4) [symmetric] 3 route, of report st] assms(3)
    have "ctx' = (if wants_completion v then router_verified c2 (if fc = FC_NONE then 2 else 3) else c2)" by auto
    then show thesis by (intro routed [OF 3 _ route]) simp_all
  qed
qed

lemma dispatch_plan:
  assumes "router_inv ctx" "rt_apid ctx = MIGRIS_FSW_APID" "128 \<le> cap" "migris_tc_router_dispatch report ctx st now tc cap = (r, ctx', st')"
  shows "planned ctx' \<subseteq># planned ctx + mset (orders MIGRIS_FSW_APID tc)"
  using assms(1,3,4) refl [of "migris_tc_accept tc (rt_apid ctx)"]
proof (cases rule: dispatch_cases)
  case refused
  then show ?thesis by (simp add: planned_def persist_ptrs_def)
next
  case (routed c cap2 reply fc c2)
  have p: "rt_schedule c = rt_schedule ctx" "rt_schedule ctx' = rt_schedule c2" using routed(3,5) by (simp_all add: persist_ptrs_def)
  then have "planned c = planned ctx" "planned ctx' = planned c2" "pred_option sch_inv (rt_schedule c)"
    using assms(1) by (simp_all add: planned_def router_inv_def)
  with route_plan [OF _ routed(4)] routed(1,2) assms(2) show ?thesis
    by (cases "pus11_decode_inserts no_schedule (router_app_data tc)")
      (auto simp: orders_def Let_def app_data_cut [symmetric] order_list_decoded
        intro: subset_mset.order_trans split: if_split_asm)
qed

section \<open>Releases\<close>

text \<open>The activity the release tick takes out of the schedule at a time, if any.\<close>

definition release_due :: "u32 \<Rightarrow> 'f fsw_state \<Rightarrow> migris_schedule_activity_t option" where
  "release_due t s = (case rt_schedule (fs_ctx s) of
     None \<Rightarrow> None
   | Some c \<Rightarrow> (case fst (migris_schedule_pop_due c t MIGRIS_SCHEDULE_TC_MAX) of Inr (Some tc) \<Rightarrow> migris_schedule_find c tc | _ \<Rightarrow> None))"

text \<open>The time and the activity of every release of a run, in order.\<close>

fun releases :: "fsw_config \<Rightarrow> loop_input list \<Rightarrow> 'f fsw_state \<Rightarrow> (u32 \<times> migris_schedule_activity_t) list" where
  "releases cfg [] s = []"
| "releases cfg (inp # inputs) s = (let t = now_of (in_uptime_ms inp)
     in (case release_due t s of None \<Rightarrow> [] | Some a \<Rightarrow> [(t, a)]) @ releases cfg inputs (fsw_iteration cfg inp s))"

lemma dispatch_app_plan:
  assumes "router_inv (fs_ctx s)" "rt_apid (fs_ctx s) = MIGRIS_FSW_APID"
  shows "planned (fs_ctx (fsw_dispatch now tc s)) \<subseteq># planned (fs_ctx s) + mset (orders MIGRIS_FSW_APID tc)"
proof -
  obtain r ctx fdir mgr where e: "migris_tc_router_dispatch fdir_sink_report (fs_ctx s) (fs_fdir s, fs_mode_mgr s) now tc
      MIGRIS_TC_ROUTER_MAX_TM = (r, ctx, fdir, mgr)" by (metis prod_cases4)
  have "128 \<le> MIGRIS_TC_ROUTER_MAX_TM" by (simp add: fsw_const)
  from dispatch_plan [OF assms this e] arg_cong [OF loop_view_transmit, of fst] show ?thesis
    by (simp add: fsw_dispatch_def e planned_def loop_view_def persist_ptrs_def)
qed

text \<open>The ticks that hand nothing to the router leave the parameters and the schedule alone.\<close>

definition param_plan :: "'f fsw_state \<Rightarrow> migris_datapool_t option \<times> migris_schedule_t option" where
  "param_plan s = (rt_datapool (fs_ctx s), rt_schedule (fs_ctx s))"

lemma param_plan_ticks [simp]:
  "param_plan (fsw_save_tick cfg s) = param_plan s" "param_plan (fsw_hk_tick t drops s) = param_plan s"
  "param_plan (fsw_dynamic_hk_tick t s) = param_plan s" "param_plan (fsw_overflow_tick t drops s) = param_plan s"
  "param_plan (fsw_drain_tick t s) = param_plan s" "param_plan (fsw_replay_tick s) = param_plan s"
  "param_plan (fsw_largedata_tick cfg t s) = param_plan s"
proof -
  have v: "loop_view s' = loop_view s \<Longrightarrow> param_plan s' = param_plan s" for s s' :: "'f fsw_state"
    by (simp add: loop_view_def persist_ptrs_def param_plan_def)
  show "param_plan (fsw_hk_tick t drops s) = param_plan s" "param_plan (fsw_drain_tick t s) = param_plan s"
    "param_plan (fsw_replay_tick s) = param_plan s" "param_plan (fsw_largedata_tick cfg t s) = param_plan s"
    by (rule v, simp)+
  show "param_plan (fsw_save_tick cfg s) = param_plan s"
    by (simp add: fsw_save_tick_def Let_def param_plan_def split: option.split prod.split)
  show "param_plan (fsw_overflow_tick t drops s) = param_plan s"
    by (simp add: fsw_overflow_tick_def param_plan_def split: prod.split)
  show "param_plan (fsw_dynamic_hk_tick t s) = param_plan s"
    using v [OF loop_view_transmit] by (simp add: fsw_dynamic_hk_tick_def Let_def param_plan_def split: option.split prod.split)
qed

lemma release_due_cong: "rt_schedule (fs_ctx s') = rt_schedule (fs_ctx s) \<Longrightarrow> release_due t s' = release_due t s"
  by (simp add: release_due_def)

text \<open>
  What the release tick does: without anything due, or with the schedule off, nothing; otherwise the
  earliest due activity leaves the schedule and its telecommand goes to the router.
\<close>

text \<open>
  What the release tick must do at time \<open>t\<close> in a state with schedule \<open>c\<close>, when \<open>d\<close> counts as released: leave
  the state alone, with nothing due in an enabled schedule; or take one earliest due activity out of the
  schedule, hand its telecommand to migris_tc_router_dispatch and leave what the router made of it.
\<close>

definition release_handed :: "u32 \<Rightarrow> migris_schedule_activity_t option \<Rightarrow> migris_schedule_t \<Rightarrow> 'f fsw_state \<Rightarrow> bool" where
  "release_handed t d c s1 \<longleftrightarrow> (let s2 = fsw_release_tick t s1 in case d of
      None \<Rightarrow> s2 = s1 \<and> \<not> (sch_enabled c \<and> (\<exists>x \<in> set (sch_live c). act_release_time x \<le> t))
    | Some a \<Rightarrow> sch_enabled c \<and> a \<in> set (sch_live c) \<and> act_release_time a \<le> t
        \<and> (\<forall>x \<in> set (sch_live c). act_release_time a \<le> act_release_time x)
        \<and> (\<exists>c'. mset (sch_live c') = mset (sch_live c) - {#a#} \<and>
             (let (r, ctx, fdir, mgr) = migris_tc_router_dispatch fdir_sink_report
                    ((fs_ctx s1)\<lparr>rt_schedule := Some c'\<rparr>) (fs_fdir s1, fs_mode_mgr s1) t (act_tc a) MIGRIS_TC_ROUTER_MAX_TM
              in s2 = transmit_result t r (s1\<lparr>fs_ctx := ctx, fs_fdir := fdir, fs_mode_mgr := mgr\<rparr>))))"

lemma dispatch_scheduled:
  "fsw_dispatch t tc (s\<lparr>fs_ctx := (fs_ctx s)\<lparr>rt_schedule := Some c\<rparr>\<rparr>) =
    (let (r, ctx, fdir, mgr) = migris_tc_router_dispatch fdir_sink_report
           ((fs_ctx s)\<lparr>rt_schedule := Some c\<rparr>) (fs_fdir s, fs_mode_mgr s) t tc MIGRIS_TC_ROUTER_MAX_TM
     in transmit_result t r (s\<lparr>fs_ctx := ctx, fs_fdir := fdir, fs_mode_mgr := mgr\<rparr>))"
  by (simp add: fsw_dispatch_def split: prod.split)

lemma release_exact:
  assumes c: "rt_schedule (fs_ctx s) = Some c" and inv: "sch_inv c"
  shows "case release_due t s of
      None \<Rightarrow> fsw_release_tick t s = s \<and> \<not> (sch_enabled c \<and> (\<exists>x \<in> set (sch_live c). act_release_time x \<le> t))
    | Some a \<Rightarrow> sch_enabled c \<and> a \<in> set (sch_live c) \<and> act_release_time a \<le> t
        \<and> (\<forall>x \<in> set (sch_live c). act_release_time a \<le> act_release_time x)
        \<and> (\<exists>c'. mset (sch_live c') = mset (sch_live c) - {#a#} \<and> sch_inv c'
             \<and> fsw_release_tick t s = fsw_dispatch t (act_tc a) (s\<lparr>fs_ctx := (fs_ctx s)\<lparr>rt_schedule := Some c'\<rparr>\<rparr>))"
proof -
  have same: "s\<lparr>fs_ctx := (fs_ctx s)\<lparr>rt_schedule := Some c\<rparr>\<rparr> = s" using c by simp
  show ?thesis
  proof (cases "sch_enabled c")
    case False
    then show ?thesis by (simp add: release_due_def fsw_release_tick_def c same migris_schedule_pop_due_def)
  next
    case True
    from inv True show ?thesis
    proof (cases rule: pop_due_cases [of c t MIGRIS_SCHEDULE_TC_MAX])
      case none
      then show ?thesis by (auto simp: release_due_def fsw_release_tick_def c same not_le)
    next
      case (small a)
      then show ?thesis using inv by (fastforce simp: sch_inv_def)
    next
      case (due a c')
      have f: "migris_schedule_find c (act_tc a) = Some a" using due(2) by (simp add: sch_find_live_iff [OF inv])
      then have r: "release_due t s = Some a" using due(1) by (simp add: release_due_def c)
      have "\<forall>x \<in> set (sch_live c). act_release_time a \<le> act_release_time x" using due(3,4) by (metis linear order_trans)
      moreover have "fsw_release_tick t s = fsw_dispatch t (act_tc a) (s\<lparr>fs_ctx := (fs_ctx s)\<lparr>rt_schedule := Some c'\<rparr>\<rparr>)"
        using due(1) by (simp add: fsw_release_tick_def c)
      ultimately show ?thesis unfolding r option.case using True due(2,3,5,6) by blast
    qed
  qed
qed

lemma release_hands:
  assumes "rt_schedule (fs_ctx s) = Some c" "sch_inv c"
  shows "release_handed t (release_due t s) c s"
proof (cases "release_due t s")
  case None
  with release_exact [OF assms, of t] show ?thesis by (simp add: release_handed_def)
next
  case (Some a)
  with release_exact [OF assms, of t] show ?thesis
    unfolding release_handed_def Let_def [of "fsw_release_tick t s"] dispatch_scheduled option.case
    by (simp add: case_prod_unfold Let_def) blast
qed

lemma release_cases:
  assumes "fs_inv cfg t0 s"
  obtains (idle) "release_due t s = None" "fsw_release_tick t s = s"
    | (release) c a c' where "release_due t s = Some a" "rt_schedule (fs_ctx s) = Some c" "a \<in> set (sch_live c)" "act_release_time a \<le> t"
      "mset (sch_live c') = mset (sch_live c) - {#a#}" "sch_inv c'"
      "fsw_release_tick t s = fsw_dispatch t (act_tc a) (s\<lparr>fs_ctx := (fs_ctx s)\<lparr>rt_schedule := Some c'\<rparr>\<rparr>)"
proof -
  from assms obtain c where c: "rt_schedule (fs_ctx s) = Some c" by (auto simp: fs_inv_def fs_wf_def)
  have inv: "sch_inv c" using assms by (simp add: fs_inv_def fs_wf_def router_inv_def c)
  show thesis
  proof (cases "release_due t s")
    case None
    with release_exact [OF c inv, of t] show thesis by (intro idle) simp_all
  next
    case (Some a)
    with release_exact [OF c inv, of t] c show thesis by (auto intro: release [of a c])
  qed
qed

lemma release_plan:
  assumes "fs_inv cfg t0 s"
  shows "release_due t s = Some a \<Longrightarrow> act_release_time a \<le> t
      \<and> planned (fs_ctx (fsw_release_tick t s)) + {#a#} \<subseteq># planned (fs_ctx s) + mset (orders MIGRIS_FSW_APID (act_tc a))"
    and "release_due t s = None \<Longrightarrow> planned (fs_ctx (fsw_release_tick t s)) = planned (fs_ctx s)"
proof -
  have "case release_due t s of None \<Rightarrow> planned (fs_ctx (fsw_release_tick t s)) = planned (fs_ctx s)
    | Some a \<Rightarrow> act_release_time a \<le> t
      \<and> planned (fs_ctx (fsw_release_tick t s)) + {#a#} \<subseteq># planned (fs_ctx s) + mset (orders MIGRIS_FSW_APID (act_tc a))"
    using assms
  proof (cases rule: release_cases [where t = t])
    case (release c b c')
    let ?s = "s\<lparr>fs_ctx := (fs_ctx s)\<lparr>rt_schedule := Some c'\<rparr>\<rparr>"
    have "router_inv (fs_ctx ?s)" "rt_apid (fs_ctx ?s) = MIGRIS_FSW_APID" using assms release(6) by (simp_all add: fs_inv_def fs_wf_def router_inv_def)
    from dispatch_app_plan [OF this, of t "act_tc b"] release(3)
    have "planned (fs_ctx (fsw_release_tick t s)) + {#b#} \<subseteq># planned (fs_ctx s) + mset (orders MIGRIS_FSW_APID (act_tc b))"
      by (simp add: release(2,5,7) planned_def insert_subset_eq_iff)
    with release(1,4) show ?thesis by simp
  qed simp
  then show "release_due t s = Some a \<Longrightarrow> act_release_time a \<le> t
      \<and> planned (fs_ctx (fsw_release_tick t s)) + {#a#} \<subseteq># planned (fs_ctx s) + mset (orders MIGRIS_FSW_APID (act_tc a))"
    and "release_due t s = None \<Longrightarrow> planned (fs_ctx (fsw_release_tick t s)) = planned (fs_ctx s)" by simp_all
qed

text \<open>The reception tick: nothing for the router, or a whole telecommand.\<close>

lemma rx_cases:
  fixes s :: "'f fsw_state"
  obtains (quiet) "fs_ctx (fsw_rx_tick now drops got s) = fs_ctx s"
      "received_tcs (fs_log (fsw_rx_tick now drops got s)) = received_tcs (fs_log s)"
    | (packet) tc and s' :: "'f fsw_state" where "fs_ctx (fsw_rx_tick now drops got s) = fs_ctx (fsw_dispatch now tc s')"
      "fs_ctx s' = (fs_ctx s)\<lparr>rt_rx_ring_overflow_drops := drops\<rparr>"
      "received_tcs (fs_log (fsw_rx_tick now drops got s)) = received_tcs (fs_log s) @ [tc]"
proof (cases got)
  case None
  then show thesis by (intro quiet) (simp_all add: fsw_rx_tick_def)
next
  case (Some b)
  obtain buf w r where f: "frame_byte (fs_tc s, fs_want s) b = ((buf, w), r)" by (metis prod.exhaust)
  have log: "received_tcs (fs_log (fsw_rx_tick now drops got s)) = received_tcs (fs_log s) @ (case r of None \<Rightarrow> [] | Some tc \<Rightarrow> [tc])"
    using arg_cong [OF rx_view_rx_tick [of now drops got s], of snd]
    by (auto simp: Some rx_view_def rx_step_def f split: option.splits)
  show thesis
  proof (cases r)
    case None
    then show thesis using log by (intro quiet) (simp_all add: Some rx_tick_frame f)
  next
    fix tc assume r: "r = Some tc"
    show thesis
      by (rule packet [of tc "s\<lparr>fs_ctx := (fs_ctx s)\<lparr>rt_rx_ring_overflow_drops := drops\<rparr>, fs_log := fs_log s @ [Tc_received tc]\<rparr>"])
        (use log r in \<open>simp_all add: Some rx_tick_frame f received_from_def\<close>)
  qed
qed

lemma rx_plan:
  assumes "fs_inv cfg t s"
  shows "planned (fs_ctx (fsw_rx_tick now drops got s)) + ordered (received_tcs (fs_log s))
    \<subseteq># planned (fs_ctx s) + ordered (received_tcs (fs_log (fsw_rx_tick now drops got s)))"
proof (cases rule: rx_cases [of now drops got s])
  case (packet tc s')
  have "router_inv (fs_ctx s')" "rt_apid (fs_ctx s') = MIGRIS_FSW_APID"
    using assms by (simp_all add: packet(2) fs_inv_def fs_wf_def router_inv_def)
  from dispatch_app_plan [OF this, of now tc] have "planned (fs_ctx (fsw_dispatch now tc s')) \<subseteq># planned (fs_ctx s) + mset (orders MIGRIS_FSW_APID tc)"
    by (simp add: packet(2) planned_def)
  then show ?thesis by (simp add: packet(1,3) ac_simps)
qed simp

text \<open>The loop body around the release tick: the ticks before it and the ticks after it.\<close>

definition before_release :: "fsw_config \<Rightarrow> loop_input \<Rightarrow> 'f fsw_state \<Rightarrow> 'f fsw_state" where
  "before_release cfg inp s = (let now = now_of (in_uptime_ms inp)
     in fsw_drain_tick now (fsw_overflow_tick now (in_drops_overflow inp) (fsw_dynamic_hk_tick now
          (fsw_hk_tick now (in_drops_hk inp) (fsw_save_tick cfg s)))))"

definition after_release :: "fsw_config \<Rightarrow> loop_input \<Rightarrow> 'f fsw_state \<Rightarrow> 'f fsw_state" where
  "after_release cfg inp s = (let now = now_of (in_uptime_ms inp)
     in fsw_rx_tick now (in_drops_tc inp) (in_byte inp) (fsw_largedata_tick cfg now (fsw_replay_tick s)))"

lemma iteration_release:
  "fsw_iteration cfg inp s = after_release cfg inp (fsw_release_tick (now_of (in_uptime_ms inp)) (before_release cfg inp s))"
  by (simp add: fsw_iteration_def before_release_def after_release_def Let_def)

lemma before_release_plan [simp]: "param_plan (before_release cfg inp s) = param_plan s"
  by (simp add: before_release_def Let_def)

text \<open>An iteration: quiet ticks, the release, quiet ticks, the reception.\<close>

lemma iteration_parts:
  fixes s :: "'f fsw_state"
  assumes "fs_inv cfg t s" "t \<le> now_of (in_uptime_ms inp)"
  defines "now \<equiv> now_of (in_uptime_ms inp)"
  obtains s1 s2 :: "'f fsw_state" where "fs_inv cfg now s1" "param_plan s1 = param_plan s" "release_due now s1 = release_due now s"
    "fs_inv cfg now s2" "param_plan s2 = param_plan (fsw_release_tick now s1)" "received_tcs (fs_log s2) = received_tcs (fs_log s)"
    "fsw_iteration cfg inp s = fsw_rx_tick now (in_drops_tc inp) (in_byte inp) s2"
proof
  let ?s1 = "fsw_drain_tick now (fsw_overflow_tick now (in_drops_overflow inp) (fsw_dynamic_hk_tick now
      (fsw_hk_tick now (in_drops_hk inp) (fsw_save_tick cfg s))))"
  let ?s2 = "fsw_largedata_tick cfg now (fsw_replay_tick (fsw_release_tick now ?s1))"
  show i: "fs_inv cfg now ?s1" unfolding now_def
    by (intro drain_tick_inv overflow_tick_inv dynamic_hk_tick_inv hk_tick_inv save_tick_inv fs_inv_later [OF assms(1,2)])
  then show "fs_inv cfg now ?s2" by (intro largedata_tick_inv replay_tick_inv release_tick_inv)
  show p: "param_plan ?s1 = param_plan s" "param_plan ?s2 = param_plan (fsw_release_tick now ?s1)" by simp_all
  from p(1) show "release_due now ?s1 = release_due now s" by (intro release_due_cong) (simp add: param_plan_def)
  have "rx_view ?s2 = rx_view s" by simp
  then show "received_tcs (fs_log ?s2) = received_tcs (fs_log s)" by (simp add: rx_view_def)
  show "fsw_iteration cfg inp s = fsw_rx_tick now (in_drops_tc inp) (in_byte inp) ?s2" by (simp add: now_def fsw_iteration_def Let_def)
qed

text \<open>One iteration, and a run of them: nothing enters the plan, or leaves it for the router, that was not ordered.\<close>

lemma iteration_plan:
  fixes cfg :: fsw_config and inp :: loop_input and s :: "'f fsw_state"
  assumes "fs_inv cfg t s" "t \<le> now_of (in_uptime_ms inp)"
  defines "now \<equiv> now_of (in_uptime_ms inp)" and "s' \<equiv> fsw_iteration cfg inp s"
  defines "rel \<equiv> (case release_due now s of None \<Rightarrow> [] | Some a \<Rightarrow> [a])"
  shows "\<forall>a \<in> set rel. act_release_time a \<le> now"
    and "planned (fs_ctx s') + mset rel + ordered (received_tcs (fs_log s))
      \<subseteq># planned (fs_ctx s) + ordered (map act_tc rel) + ordered (received_tcs (fs_log s'))"
proof -
  obtain s1 s2 :: "'f fsw_state" where a: "fs_inv cfg now s1" "param_plan s1 = param_plan s" "release_due now s1 = release_due now s"
    and b: "fs_inv cfg now s2" "param_plan s2 = param_plan (fsw_release_tick now s1)" "received_tcs (fs_log s2) = received_tcs (fs_log s)"
    and s': "s' = fsw_rx_tick now (in_drops_tc inp) (in_byte inp) s2"
    by (rule iteration_parts [OF assms(1,2), folded now_def s'_def])
  have same: "planned (fs_ctx s1) = planned (fs_ctx s)" "planned (fs_ctx s2) = planned (fs_ctx (fsw_release_tick now s1))"
    using a(2) b(2) by (simp_all add: planned_def param_plan_def)
  note rx = rx_plan [OF b(1), of now "in_drops_tc inp" "in_byte inp", folded s', unfolded b(3) same]
  note rl = release_plan [where t = now, OF a(1), unfolded a(3) same]
  show "\<forall>a \<in> set rel. act_release_time a \<le> now" using rl(1) by (auto simp: rel_def split: option.split)
  have "planned (fs_ctx (fsw_release_tick now s1)) + mset rel \<subseteq># planned (fs_ctx s) + ordered (map act_tc rel)"
    using rl by (cases "release_due now s") (simp_all add: rel_def)
  from subset_mset.add_mono [OF rx this] show "planned (fs_ctx s') + mset rel + ordered (received_tcs (fs_log s))
      \<subseteq># planned (fs_ctx s) + ordered (map act_tc rel) + ordered (received_tcs (fs_log s'))"
    using mset_subset_eq_mono_add_right_cancel [of _ "planned (fs_ctx (fsw_release_tick now s1))"] by (simp add: ac_simps)
qed

lemma run_plan:
  assumes "fs_inv cfg (now_of ms) s" "clock_ok ms inputs"
  shows "(\<forall>(t, a) \<in> set (releases cfg inputs s). act_release_time a \<le> t)
    \<and> planned (fs_ctx (fsw_run cfg inputs s)) + mset (map snd (releases cfg inputs s)) + ordered (received_tcs (fs_log s))
      \<subseteq># planned (fs_ctx s) + ordered (map (act_tc \<circ> snd) (releases cfg inputs s)) + ordered (received_tcs (fs_log (fsw_run cfg inputs s)))"
  using assms
proof (induction inputs arbitrary: ms s)
  case (Cons inp inputs)
  let ?s = "fsw_iteration cfg inp s" and ?rel = "case release_due (now_of (in_uptime_ms inp)) s of None \<Rightarrow> [] | Some a \<Rightarrow> [a]"
  let ?rels = "releases cfg inputs ?s" and ?fin = "fsw_run cfg inputs ?s"
  have t: "now_of ms \<le> now_of (in_uptime_ms inp)" using Cons.prems(2) by (intro now_of_mono) (auto simp: clock_ok_def)
  note it = iteration_plan [OF Cons.prems(1) t]
  have "clock_ok (in_uptime_ms inp) inputs" using Cons.prems(2) by (simp add: clock_ok_def)
  note all = Cons.IH [OF iteration_inv [OF Cons.prems(1) t] this]
  have IH: "\<forall>(t, a) \<in> set ?rels. act_release_time a \<le> t" "planned (fs_ctx ?fin) + mset (map snd ?rels) + ordered (received_tcs (fs_log ?s))
      \<subseteq># planned (fs_ctx ?s) + ordered (map (act_tc \<circ> snd) ?rels) + ordered (received_tcs (fs_log ?fin))"
    using all by blast+
  have r: "fsw_run cfg (inp # inputs) s = ?fin" by (simp add: fsw_run_def)
  have m: "map snd (releases cfg (inp # inputs) s) = ?rel @ map snd ?rels"
    "map (act_tc \<circ> snd) (releases cfg (inp # inputs) s) = map act_tc ?rel @ map (act_tc \<circ> snd) ?rels"
    by (simp_all add: Let_def split: option.split)
  from subset_mset.add_mono [OF IH(2) it(2)]
  have "planned (fs_ctx ?fin) + mset (map snd (releases cfg (inp # inputs) s)) + ordered (received_tcs (fs_log s))
      + (planned (fs_ctx ?s) + ordered (received_tcs (fs_log ?s)))
    \<subseteq># planned (fs_ctx s) + ordered (map (act_tc \<circ> snd) (releases cfg (inp # inputs) s)) + ordered (received_tcs (fs_log ?fin))
      + (planned (fs_ctx ?s) + ordered (received_tcs (fs_log ?s)))"
    unfolding m by (simp add: ac_simps)
  moreover have "\<forall>(t, a) \<in> set (releases cfg (inp # inputs) s). act_release_time a \<le> t"
    using IH(1) it(1) by (auto simp: Let_def split: option.splits)
  ultimately show ?case unfolding r by (simp only: mset_subset_eq_mono_add_right_cancel)
qed (simp add: fsw_run_def)

section \<open>The law of commanding\<close>

text \<open>An ordered telecommand is shorter than the one that orders it, so no release accounts for itself.\<close>

lemma cut_orders_shorter: "cut_orders n bs = Some as \<Longrightarrow> (t, tc) \<in> set as \<Longrightarrow> length tc \<le> length bs"
  by (induction n arbitrary: bs as) (fastforce simp: Let_def split: if_splits)+

lemma order_list_shorter: "a \<in> set (order_list app) \<Longrightarrow> length (act_tc a) < length app"
  by (auto simp: order_list_def less_Suc_eq_le dest: cut_orders_shorter [OF sym] split: list.split_asm if_split_asm option.split_asm)

lemma orders_shorter:
  assumes "a \<in> set (orders apid tc)"
  shows "length (act_tc a) < length tc"
proof -
  have "a \<in> set (order_list (take (length tc - 13) (drop 11 tc)))" using assms by (simp add: orders_def Let_def split: if_splits)
  from order_list_shorter [OF this] show ?thesis by simp
qed

lemma boot_plan: "planned (fs_ctx (fsw_boot cfg fa mem flash ms)) = mset (boot_schedule (fsw_init cfg fa mem flash))"
  by (simp add: planned_def boot_schedule_def boot_fields split: option.split)

text \<open>
  C5: over any mission, every telecommand the schedule releases to the router was ordered, verbatim,
  and is released no earlier than ordered. Counted with multiplicity, what has been released and what
  is still planned is covered by the schedule the boot restored and the activities that insert
  requests ordered, each in a telecommand for this application process that passes every acceptance
  check and was itself received or released. So at every point of the mission nothing was released
  that had not been ordered, and nothing twice that was ordered once. A release is no entry in a list
  but a call: at every point of the mission the release tick of the next iteration leaves the state
  alone exactly when nothing is due in an enabled schedule; otherwise it takes one earliest due activity
  out of the schedule, hands that activity's telecommand, unchanged, to the router, and leaves what the
  router made of it.
\<close>
theorem releases_were_ordered:
  assumes "flash_map fa img ssize ok" "ok flash" "mem_ok mem" "cfg_ok cfg"
    and "distinct (map act_id (boot_schedule (fsw_init cfg fa mem flash)))"
    and "clock_ok boot_ms inputs" "fsw_main cfg fa True mem flash boot_ms inputs = Some s"
    and "rel = releases cfg inputs (fsw_boot cfg fa mem flash boot_ms)"
  shows "(\<forall>(t, a) \<in> set rel. act_release_time a \<le> t)
    \<and> mset (map snd rel) + planned (fs_ctx s) \<subseteq># mset (boot_schedule (fsw_init cfg fa mem flash))
        + ordered (received_tcs (fs_log s)) + ordered (map (act_tc \<circ> snd) rel)
    \<and> (\<forall>inp. let t = now_of (in_uptime_ms inp); s1 = before_release cfg inp s
        in fsw_iteration cfg inp s = after_release cfg inp (fsw_release_tick t s1)
         \<and> (\<exists>c. rt_schedule (fs_ctx s1) = Some c \<and> rt_schedule (fs_ctx s) = Some c \<and> release_handed t (release_due t s) c s1))"
proof -
  have s: "s = fsw_run cfg inputs (fsw_boot cfg fa mem flash boot_ms)" using assms(7) by (simp add: fsw_main_def)
  have "received_tcs (fs_log (fsw_boot cfg fa mem flash boot_ms)) = []" using rx_view_boot [of cfg fa mem flash boot_ms] by (simp add: rx_view_def)
  with run_plan [OF boot_inv [OF assms(1-5)] assms(6)]
  have law: "(\<forall>(t, a) \<in> set rel. act_release_time a \<le> t)
    \<and> mset (map snd rel) + planned (fs_ctx s) \<subseteq># mset (boot_schedule (fsw_init cfg fa mem flash))
        + ordered (received_tcs (fs_log s)) + ordered (map (act_tc \<circ> snd) rel)"
    unfolding s assms(8) boot_plan by (simp add: ac_simps)
  from main_inv [OF assms(1-7)] obtain c where c: "rt_schedule (fs_ctx s) = Some c" "sch_inv c"
    by (auto simp: fs_inv_def fs_wf_def router_inv_def)
  have pre: "rt_schedule (fs_ctx (before_release cfg inp s)) = Some c" for inp
    using before_release_plan [of cfg inp s] c(1) by (simp add: param_plan_def)
  have due: "release_due t (before_release cfg inp s) = release_due t s" for t inp
    by (rule release_due_cong) (simp add: pre c(1))
  have step: "fsw_iteration cfg inp s = after_release cfg inp (fsw_release_tick t (before_release cfg inp s))
      \<and> (\<exists>c. rt_schedule (fs_ctx (before_release cfg inp s)) = Some c \<and> rt_schedule (fs_ctx s) = Some c
           \<and> release_handed t (release_due t s) c (before_release cfg inp s))"
    if "t = now_of (in_uptime_ms inp)" for t inp
    using iteration_release [of cfg inp s] release_hands [OF pre c(2), of t inp] pre [of inp] c(1) by (simp add: that due)
  show ?thesis
    by (intro conjI law [THEN conjunct1] law [THEN conjunct2] allI) (simp only: Let_def step [OF refl])
qed

text \<open>A flash that holds the schedule of the example above, and a boot from it.\<close>

lemma scheduled_flash:
  obtains fl :: bytes and c where "length fl = 4096" "distinct (map act_id (boot_schedule (fsw_init config_example ram_area memory_example fl)))"
    "rt_schedule (fs_ctx (fsw_boot config_example ram_area memory_example fl 1200)) = Some c" "sch_live c = sch_live sched_example" "sch_enabled c"
proof -
  let ?b = "migris_fsw_nv_flash_backend ram_area" and ?cells = "fa_cells (\<lambda>fl. fl) 2048"
  let ?x = "(factory config_example)\<lparr>sn_schedule := (sch_live sched_example, True)\<rparr>"
  obtain bs where bs: "migris_schedule_serialize sched_example 1200 = Inr bs" "length bs \<le> 1123"
    using schedule_serialize [OF sched_example_inv(1)] by blast
  have im: "schedule_image bs (sch_live sched_example, True)"
    using bs(1) sched_example_inv unfolding schedule_image_def by (intro exI [of _ sched_example]) simp
  then have snap: "data_snap config_example (recs_bytes [(2, bs)]) ?x" unfolding data_snap_def
    by (intro exI [of _ "[(2, bs)]"]) (auto simp: stands_for_def recs_hold_def own_record_def factory_def)
  let ?d = "recs_bytes [(2, bs)]"
  have d: "length ?d \<le> 1536" using bs(2) by simp
  let ?nv = "(nv_empty ?b)\<lparr>nv_payload := ?d @ replicate (1536 - length ?d) 0, nv_payload_len := length ?d\<rparr>"
  have nv: "length (nv_payload ?nv) = 1536" "nv_payload_len ?nv \<le> 1536" "nv_image_data ?nv = ?d" using d by (simp_all add: nv_image_data_def)
  let ?img = "nvstore_image ?nv 32 1"
  have "length ?img \<le> 1582" using length_image(3) [OF nv(1,2), of 32 1] by simp
  then obtain fl :: bytes where fl: "fl = ?img @ replicate (2048 - length ?img) 0xFF @ replicate 2048 0xFF" "length fl = 4096" by auto
  have c: "?cells fl 0 = ?img @ replicate (2048 - length ?img) 0xFF" "?cells fl 1 = replicate 2048 0xFF"
    using \<open>length ?img \<le> 1582\<close> by (simp_all add: fa_cells_def fl(1))
  have "nv_newest (?cells fl 0) (?cells fl 1) = Some (0, 1, ?d)"
    unfolding c nv_newest_def parse_image [OF nv(1,2)] erased_no_image nv(3) by simp
  with snap have cov: "newest_covered config_example (?cells fl) [?x] 0" by (simp add: newest_covered_def del: One_nat_def)
  let ?i = "fsw_init config_example ram_area memory_example fl"
  have "snapshot_of config_example ?i = ?x" using boot_covered(1) [OF ram.flash_map_axioms fl(2) memory_example_ok cov] by simp
  from arg_cong [OF this, of sn_schedule] have "app_schedule ?i = (sch_live sched_example, True)" by (simp add: snapshot_of_def)
  then obtain c where "rt_schedule (fs_ctx ?i) = Some c" "sch_live c = sch_live sched_example" "sch_enabled c"
    by (auto simp: app_schedule_def sched_example_def sch_live_def split: option.splits)
  then show thesis
    using fl(2) boot_schedule_distinct [OF ram.flash_map_axioms fl(2) memory_example_ok covered_ours [OF cov]]
    by (intro that [of fl c]) (simp_all add: boot_fields)
qed

lemma releases_were_ordered_witness:
  "\<exists>fl a s. fsw_main config_example ram_area True memory_example fl 1200 [idle_input 95000 None] = Some s
     \<and> releases config_example [idle_input 95000 None] (fsw_boot config_example ram_area memory_example fl 1200) = [(95, a)]
     \<and> act_release_time a \<le> 95 \<and> a \<in># mset (boot_schedule (fsw_init config_example ram_area memory_example fl)) + ordered [act_tc a]"
proof -
  obtain fl c where fl: "length fl = 4096" "distinct (map act_id (boot_schedule (fsw_init config_example ram_area memory_example fl)))"
    and c: "rt_schedule (fs_ctx (fsw_boot config_example ram_area memory_example fl 1200)) = Some c" "sch_live c = sch_live sched_example" "sch_enabled c"
    by (rule scheduled_flash)
  note law = releases_were_ordered [OF ram.flash_map_axioms fl(1) memory_example_ok config_example_ok fl(2)]
  have t: "clock_ok 1200 []" "clock_ok 1200 [idle_input 95000 None]" by (simp_all add: clock_ok_def idle_input_def)
  have s0: "fsw_main config_example ram_area True memory_example fl 1200 [] = Some (fsw_boot config_example ram_area memory_example fl 1200)"
    by (simp add: fsw_main_def fsw_run_def)
  have "\<exists>x \<in> set (sch_live c). act_release_time x \<le> 95" unfolding c(2) by (simp add: sched_example_def sch_live_def)
  moreover have t95: "now_of (in_uptime_ms (idle_input 95000 None)) = 95" by (simp add: idle_input_def now_of_def)
  ultimately obtain a where a: "release_due 95 (fsw_boot config_example ram_area memory_example fl 1200) = Some a"
    using law [OF t(1) s0 refl, THEN conjunct2, THEN conjunct2, THEN spec, of "idle_input 95000 None"] c(1,3)
    unfolding Let_def t95 release_handed_def by (cases "release_due 95 (fsw_boot config_example ram_area memory_example fl 1200)") auto
  obtain s where s: "fsw_main config_example ram_area True memory_example fl 1200 [idle_input 95000 None] = Some s" by (simp add: fsw_main_def)
  have rel: "releases config_example [idle_input 95000 None] (fsw_boot config_example ram_area memory_example fl 1200) = [(95, a)]"
    using a by (simp add: idle_input_def now_of_def)
  have "rx_view s = rx_view (fsw_boot config_example ram_area memory_example fl 1200)"
    using s by (auto simp: fsw_main_def fsw_run_def rx_view_iteration idle_input_def)
  then have "received_tcs (fs_log s) = []" by (simp add: rx_view_boot rx_view_def [of s])
  with law [OF t(2) s rel [symmetric]] have r: "act_release_time a \<le> 95"
    "add_mset a (planned (fs_ctx s)) \<subseteq># mset (boot_schedule (fsw_init config_example ram_area memory_example fl)) + ordered [act_tc a]" by simp_all
  then show ?thesis using s rel mset_subset_eq_insertD [OF r(2)] r(1) by blast
qed

section \<open>Parameters\<close>

text \<open>The telecommands a run hands to the router, in order: in each iteration the released one, then the received one.\<close>

fun commands :: "fsw_config \<Rightarrow> loop_input list \<Rightarrow> 'f fsw_state \<Rightarrow> bytes list" where
  "commands cfg [] s = []"
| "commands cfg (inp # inputs) s = (let s' = fsw_iteration cfg inp s
     in (case release_due (now_of (in_uptime_ms inp)) s of None \<Rightarrow> [] | Some a \<Rightarrow> [act_tc a])
        @ drop (length (received_tcs (fs_log s))) (received_tcs (fs_log s')) @ commands cfg inputs s')"

text \<open>What a telecommand does to the parameters: a PUS-20[3] request sets them if it passes acceptance, any other nothing.\<close>

definition commanded :: "bytes \<Rightarrow> migris_datapool_t \<Rightarrow> migris_datapool_t" where
  "commanded tc d = (let v = migris_tc_accept tc MIGRIS_FSW_APID
     in if av_addressed v \<and> av_fc v = FC_NONE \<and> av_service_type v = 20 \<and> av_service_subtype v = 3
        then snd (pus20_set d (router_app_data tc)) else d)"

lemma route_params:
  assumes "router_route ctx v now tc cap = (reply, fc, ctx')"
  shows "rt_datapool ctx' = map_option (\<lambda>d. if av_service_type v = 20 \<and> av_service_subtype v = 3
    then snd (pus20_set d (router_app_data tc)) else d) (rt_datapool ctx)"
proof -
  have p17: "router_pus17 ctx v now tc cap = (reply, fc, ctx') \<Longrightarrow> rt_datapool ctx' = rt_datapool ctx"
    by (auto simp: router_pus17_def Let_def split: prod.splits sum.splits)
  have p15: "router_pus15 ctx v now tc cap = (reply, fc, ctx') \<Longrightarrow> rt_datapool ctx' = rt_datapool ctx"
    by (auto simp: router_pus15_def Let_def split: prod.splits sum.splits option.splits)
  have p11: "router_pus11 ctx v now tc cap = (reply, fc, ctx') \<Longrightarrow> rt_datapool ctx' = rt_datapool ctx"
    by (auto simp: router_pus11_def Let_def split: prod.splits sum.splits option.splits)
  have p20: "router_pus20 ctx v now tc cap = (reply, fc, ctx') \<Longrightarrow> rt_datapool ctx' = map_option (\<lambda>d.
      if av_service_subtype v = 3 then snd (pus20_set d (router_app_data tc)) else d) (rt_datapool ctx)"
    by (auto simp: router_pus20_def migris_pus20_execute_def Let_def split: prod.splits sum.splits option.splits if_splits)
  have "rt_datapool (snd (snd (router_pus3_poll ctx v now app cap))) = rt_datapool ctx"
    "rt_datapool (snd (snd (router_pus3_manage ctx v app))) = rt_datapool ctx" for app
    by (auto simp: router_pus3_poll_def router_pus3_poll_framework_def router_pus3_poll_dynamic_def router_pus3_manage_def Let_def
        split: prod.split sum.split option.split)
  then have p3: "router_pus3 ctx v now tc cap = (reply, fc, ctx') \<Longrightarrow> rt_datapool ctx' = rt_datapool ctx"
    by (auto simp: router_pus3_def Let_def split: if_splits) (metis snd_conv)+
  show ?thesis
    using assms p17 p3 p20 p11 p15
    by (auto simp: router_route_def router_dispatch_table_def option.map_ident split: if_splits)
qed

lemma dispatch_params:
  assumes "router_inv ctx" "rt_apid ctx = MIGRIS_FSW_APID" "128 \<le> cap" "migris_tc_router_dispatch report ctx st now tc cap = (r, ctx', st')"
  shows "rt_datapool ctx' = map_option (commanded tc) (rt_datapool ctx)"
  using assms(1,3,4) refl [of "migris_tc_accept tc (rt_apid ctx)"]
proof (cases rule: dispatch_cases)
  case refused
  then have "commanded tc = id" using assms(2) by (auto simp: commanded_def Let_def fun_eq_iff)
  with refused show ?thesis by (simp add: persist_ptrs_def option.map_id)
next
  case (routed c cap2 reply fc c2)
  then show ?thesis using route_params [OF routed(4)] assms(2) by (simp add: commanded_def [abs_def] Let_def persist_ptrs_def)
qed

lemma dispatch_app_params:
  assumes "router_inv (fs_ctx s)" "rt_apid (fs_ctx s) = MIGRIS_FSW_APID"
  shows "rt_datapool (fs_ctx (fsw_dispatch now tc s)) = map_option (commanded tc) (rt_datapool (fs_ctx s))"
proof -
  obtain r ctx fdir mgr where e: "migris_tc_router_dispatch fdir_sink_report (fs_ctx s) (fs_fdir s, fs_mode_mgr s) now tc
      MIGRIS_TC_ROUTER_MAX_TM = (r, ctx, fdir, mgr)" by (metis prod_cases4)
  have "128 \<le> MIGRIS_TC_ROUTER_MAX_TM" by (simp add: fsw_const)
  from dispatch_params [OF assms this e] arg_cong [OF loop_view_transmit, of fst] show ?thesis
    by (simp add: fsw_dispatch_def e loop_view_def persist_ptrs_def)
qed

lemma release_params:
  assumes "fs_inv cfg t0 s"
  shows "rt_datapool (fs_ctx (fsw_release_tick t s))
    = map_option (fold commanded (case release_due t s of None \<Rightarrow> [] | Some a \<Rightarrow> [act_tc a])) (rt_datapool (fs_ctx s))"
  using assms
proof (cases rule: release_cases [where t = t])
  case (release c a c')
  let ?s = "s\<lparr>fs_ctx := (fs_ctx s)\<lparr>rt_schedule := Some c'\<rparr>\<rparr>"
  have "router_inv (fs_ctx ?s)" "rt_apid (fs_ctx ?s) = MIGRIS_FSW_APID" using assms release(6) by (simp_all add: fs_inv_def fs_wf_def router_inv_def)
  from dispatch_app_params [OF this, of t "act_tc a"] show ?thesis by (simp add: release(1,7))
qed (simp add: option.map_id)

lemma rx_params:
  assumes "fs_inv cfg t s"
  shows "rt_datapool (fs_ctx (fsw_rx_tick now drops got s))
    = map_option (fold commanded (drop (length (received_tcs (fs_log s))) (received_tcs (fs_log (fsw_rx_tick now drops got s))))) (rt_datapool (fs_ctx s))"
proof (cases rule: rx_cases [of now drops got s])
  case (packet tc s')
  have "router_inv (fs_ctx s')" "rt_apid (fs_ctx s') = MIGRIS_FSW_APID"
    using assms by (simp_all add: packet(2) fs_inv_def fs_wf_def router_inv_def)
  from dispatch_app_params [OF this, of now tc] show ?thesis by (simp add: packet)
qed (simp add: option.map_id)

lemma iteration_params:
  assumes "fs_inv cfg t s" "t \<le> now_of (in_uptime_ms inp)"
  shows "rt_datapool (fs_ctx (fsw_iteration cfg inp s))
    = map_option (fold commanded (commands cfg [inp] s)) (rt_datapool (fs_ctx s))"
  using assms
proof (cases rule: iteration_parts)
  case (1 s1 s2)
  let ?t = "now_of (in_uptime_ms inp)"
  show ?thesis
    using rx_params [OF 1(4), of ?t "in_drops_tc inp" "in_byte inp", folded 1(7), unfolded 1(6)]
      release_params [OF 1(1), of ?t, unfolded 1(3)] 1(2,5)
    by (simp add: option.map_comp comp_def param_plan_def)
qed

lemma run_params:
  assumes "fs_inv cfg (now_of ms) s" "clock_ok ms inputs"
  shows "rt_datapool (fs_ctx (fsw_run cfg inputs s)) = map_option (fold commanded (commands cfg inputs s)) (rt_datapool (fs_ctx s))"
  using assms
proof (induction inputs arbitrary: ms s)
  case (Cons inp inputs)
  have t: "now_of ms \<le> now_of (in_uptime_ms inp)" using Cons.prems(2) by (intro now_of_mono) (auto simp: clock_ok_def)
  have "clock_ok (in_uptime_ms inp) inputs" using Cons.prems(2) by (simp add: clock_ok_def)
  from Cons.IH [OF iteration_inv [OF Cons.prems(1) t] this] iteration_params [OF Cons.prems(1) t] show ?case
    by (simp add: fsw_run_def option.map_comp comp_def Let_def)
qed (simp add: fsw_run_def option.map_id)

lemma iteration_received:
  "received_tcs (fs_log (fsw_iteration cfg inp s)) = received_tcs (fs_log s)
     @ drop (length (received_tcs (fs_log s))) (received_tcs (fs_log (fsw_iteration cfg inp s)))"
  using arg_cong [OF rx_view_iteration [of cfg inp s], of snd]
  by (auto simp: rx_view_def rx_step_def split: option.splits prod.splits)

lemma commands_all:
  "mset (commands cfg inputs s) + mset (received_tcs (fs_log s))
     = mset (map (act_tc \<circ> snd) (releases cfg inputs s)) + mset (received_tcs (fs_log (fsw_run cfg inputs s)))"
proof (induction inputs arbitrary: s)
  case (Cons inp inputs)
  let ?s = "fsw_iteration cfg inp s"
  let ?new = "drop (length (received_tcs (fs_log s))) (received_tcs (fs_log ?s))"
  have "mset (received_tcs (fs_log ?s)) = mset (received_tcs (fs_log s)) + mset ?new"
    using arg_cong [OF iteration_received [of cfg inp s], of mset] by simp
  with Cons.IH [of ?s] show ?case
    by (cases "release_due (now_of (in_uptime_ms inp)) s") (simp_all add: fsw_run_def Let_def ac_simps)
qed (simp add: fsw_run_def)

text \<open>The parameters the ground may not write.\<close>

definition read_only :: "migris_dp_param_t list \<Rightarrow> migris_dp_param_t list" where
  "read_only ps = filter (\<lambda>p. dpp_access p \<noteq> DP_ACCESS_READ_WRITE) ps"

lemma filter_kept_update: "i < length xs \<Longrightarrow> \<not> P (xs ! i) \<Longrightarrow> \<not> P x \<Longrightarrow> filter P (xs[i := x]) = filter P xs"
  using filter_update(1) [of i xs P x] filter_update(2) [of i xs P] by simp

lemma set_read_only: "read_only (dp_live (snd (migris_datapool_set d pid v))) = read_only (dp_live d)"
proof (cases "first_index (\<lambda>p. dpp_id p = pid) (dp_live d)")
  case (Some i)
  then have i: "i < length (dp_live d)" by (rule first_index_less)
  then have "dp_params d ! i = dp_live d ! i" by (simp add: dp_live_def)
  with i show ?thesis by (auto simp: migris_datapool_set_def Some Let_def dp_live_update read_only_def intro!: filter_kept_update)
qed (simp add: migris_datapool_set_def)

lemma commanded_read_only: "read_only (dp_live (commanded tc d)) = read_only (dp_live d)"
proof -
  have "read_only (dp_live (dp_apply_all migris_datapool_set d ws)) = read_only (dp_live d)" for ws
    by (induction migris_datapool_set d ws rule: dp_apply_all.induct) (simp_all add: set_read_only)
  then show ?thesis by (simp add: commanded_def Let_def pus20_set_def split: sum.split)
qed

text \<open>
  C6: the parameters change on command and by nothing else. Over any mission the datapool is what the
  boot left, with the accepted PUS-20[3] requests for this application process among the telecommands the
  router was handed applied to it, in this order; these telecommands are the ones received and the ones
  released from the schedule. No tick, no other service and no refused or damaged telecommand touches a
  value, and the parameters that are not writable still have the boot's.
\<close>
theorem parameters_follow_commands:
  assumes "flash_map fa img ssize ok" "ok flash" "mem_ok mem" "cfg_ok cfg"
    and "distinct (map act_id (boot_schedule (fsw_init cfg fa mem flash)))"
    and "clock_ok boot_ms inputs" "fsw_main cfg fa True mem flash boot_ms inputs = Some s"
    and "s0 = fsw_boot cfg fa mem flash boot_ms"
  shows "(\<exists>d. rt_datapool (fs_ctx s0) = Some d \<and> rt_datapool (fs_ctx s) = Some (fold commanded (commands cfg inputs s0) d))
    \<and> mset (commands cfg inputs s0) = mset (received_tcs (fs_log s)) + mset (map (act_tc \<circ> snd) (releases cfg inputs s0))
    \<and> read_only (app_params s) = read_only (app_params s0)"
proof -
  have s: "s = fsw_run cfg inputs s0" using assms(7,8) by (simp add: fsw_main_def)
  have inv: "fs_inv cfg (now_of boot_ms) s0" unfolding assms(8) by (rule boot_inv [OF assms(1-5)])
  then obtain d where d: "rt_datapool (fs_ctx s0) = Some d" by (auto simp: fs_inv_def fs_wf_def)
  with run_params [OF inv assms(6)] have d': "rt_datapool (fs_ctx s) = Some (fold commanded (commands cfg inputs s0) d)" by (simp add: s)
  have "read_only (dp_live (fold commanded tcs e)) = read_only (dp_live e)" for tcs e
    by (induction tcs arbitrary: e) (simp_all add: commanded_read_only)
  then have "read_only (app_params s) = read_only (app_params s0)" by (simp add: app_params_def d d')
  moreover have "received_tcs (fs_log s0) = []" using rx_view_boot [of cfg fa mem flash boot_ms] by (simp add: rx_view_def assms(8))
  then have "mset (commands cfg inputs s0) = mset (received_tcs (fs_log s)) + mset (map (act_tc \<circ> snd) (releases cfg inputs s0))"
    using commands_all [of cfg inputs s0] by (simp add: s ac_simps)
  ultimately show ?thesis using d d' by blast
qed

lemma parameters_follow_commands_witness:
  "\<exists>s. fsw_main config_example ram_area True memory_example (replicate 4096 0xFF) 1200 inputs_example = Some s
     \<and> read_only (app_params s) = read_only (app_params (fsw_boot config_example ram_area memory_example (replicate 4096 0xFF) 1200))"
proof -
  obtain s where s: "fsw_main config_example ram_area True memory_example (replicate 4096 0xFF) 1200 inputs_example = Some s"
    by (simp add: fsw_main_def)
  from parameters_follow_commands [OF ram.flash_map_axioms erased_mission(1) memory_example_ok config_example_ok erased_mission(2)
      inputs_example_clock s refl] s show ?thesis by blast
qed

end
