(* ===== verification/Spec2Isabelle.thy ===== *)
theory Spec2Isabelle
  imports Pus_Headers Datapool Schedule Pktstore Hkstore Pus1 Pus3 Pus5 Pus11 Pus13 Pus15 Pus17 Pus20 Largedata
    Event_Fifo Mode Fdir Tc_Router Nvstore Restore App App_Invariant Mission Framing Reboot Recovery Generations Persistence Lifetime
    Commanding
begin

text \<open>
  A verification library for the flight-software core under lib/ and for the application of
  samples/tc_uart that composes it.

  \<^bold>\<open>The program.\<close> The libraries are freestanding C: every component is a struct the caller owns
  and a set of functions on it. A telecommand is a CCSDS packet with a PUS secondary header and a
  CRC. The router (lib/pus/tc_router.c) accepts or rejects it, hands it to one of the services 3, 11,
  15, 17 and 20, and answers with a burst of telemetry packets that share one sequence
  count. Services 11, 15, 20 and 3 work on the schedule, the packet store, the parameter datapool and
  the housekeeping store. Rejections and receiver overflows go to FDIR, which queues events in a FIFO
  and may command the mode manager to a safe mode. The main loop of samples/tc_uart/src/main.c
  polls all of it: it saves changed components to flash through the A/B image of lib/nvstore, emits
  periodic housekeeping, drains FDIR, releases scheduled telecommands, replays stored
  packets, downlinks a large-data unit part by part and frames the received bytes into telecommands.

  \<^bold>\<open>Conventions.\<close> Function names are the C names. A struct is a record, an enumeration a datatype, uint8_t,
  uint16_t and uint32_t are words (so additions wrap as in C), size_t is nat. A function that returns a
  positive length or a negative status returns a sum: the status on the left, the bytes written to
  its output buffer on the right; the capacity of that buffer stays an argument. An object updated
  through a pointer is passed and returned. Arrays keep their declared length, the used part is given
  by the count, as in C; each component has an abstraction (\<open>dp_live\<close>, \<open>sch_live\<close>, \<open>pks_list\<close>,
  \<open>hks_live\<close>, \<open>ef_list\<close>, \<open>fd_queue\<close>, \<open>mm_declared\<close>, \<open>nv_recs\<close>) that forgets the rest of the array, and
  an invariant (\<open>dp_inv\<close>, \<open>sch_inv\<close>, \<open>pks_inv\<close>, \<open>hks_inv\<close>, \<open>ef_inv\<close>, \<open>fd_inv\<close>, \<open>mm_inv\<close>, \<open>nv_wf\<close>). Capacities are
  the defaults of the library headers; the sample's Kconfig lowers that of the datapool to 8.

  \<^bold>\<open>Theories.\<close>
  \<^item> Prelude: words, big-endian codecs, first-index search, rings, the theorem collections.
  \<^item> Ccsds, Pus_Headers: lib/pus/src/ccsds.c, pus_tc.c, pus_tm.c; the header codecs are bijections on
    in-range headers, the CRC is linear and detects every corruption of two adjacent bytes; \<open>tm_packet\<close> is
    the block every report builder runs, \<open>tm_burst\<close> relates a burst to what the ground reads.
  \<^item> Datapool, Schedule, Pktstore, Hkstore: lib/datapool, lib/schedule, lib/pktstore, lib/hkstore, each with
    invariant, functional behaviour, interface locale (\<open>param_store\<close>, \<open>activity_store\<close>, \<open>structure_store\<close>),
    and the round trip of its flash image. Restore: what a restore from arbitrary bytes leaves.
  \<^item> Event_Fifo, Mode, Fdir: lib/fdir and lib/mode; \<open>bounded_fifo\<close> is the queue contract, \<open>recording_sink\<close> and
    \<open>mode_sink\<close> the contract between the mode manager and the event sink it reports to, which FDIR implements.
    The mutual recursion through FDIR's own sink ends because a recovery event is no anomaly; \<open>sink_nested\<close> unrolls
    it and shows that it never nests deeper than two calls.
  \<^item> Pus1, Pus3, Pus5, Pus11, Pus13, Pus15, Pus17, Pus20, Largedata: the services; Tm_Service holds the locale
    \<open>tm_service\<close>, the contract a producer of telemetry keeps with the shared sequence count.
  \<^item> Tc_Router: lib/pus/src/tc_router.c; \<open>router_handler\<close> is the contract of a handler, interpreted on all five.
  \<^item> Nvstore: lib/nvstore and samples/tc_uart/src/nv_flash_backend.c; \<open>nv_flash\<close> is the contract of a sectored
    backend, \<open>flash_map\<close> that of the flash driver underneath, and a sublocale shows that the sample's backend gives
    the first from the second. A save is also run on an instrumented backend (\<open>nv_save_trace\<close>) that writes down every
    erase and write it performs: none touches the sector loaded from, so a save that loses power at any point leaves the
    previous image loadable.
  \<^item> App: samples/tc_uart/src/main.c, one function per tick; App_Invariant: what every tick keeps; Mission: boot,
    the invariant of a whole mission, the unbroken telemetry sequence, the origin of replays; Framing: the received
    stream is cut into telecommands exactly; Reboot: what a save writes is what the next boot restores; Recovery: the
    closed loop of router, FDIR and mode manager drives the mission to SAFE exactly when the rejections reach
    the threshold; Generations: no telecommand and no tick changes a persistent object without advancing its
    counter, and never by a full turn (the contract \<open>generation_counter\<close>); Persistence: hence on a flash that does not fail nothing
    persistent is ever lost, over any sequence of missions on that flash; Lifetime: boots, iterations, failing writes and
    power losses in any order, as the step relation \<open>life\<close>: a boot restores one past moment whole, none older than the last
    save tick whose migris_nvstore_save returned OK; Commanding: a run releases from the schedule only what was ordered,
    not early and not twice, a release is the router call with the earliest due telecommand (\<open>release_handed\<close>),
    and the parameters are what the accepted commands, in order, make of the boot's.

  \<^bold>\<open>Totality and bounds.\<close> All definitions are total functions. The recursions that follow C loops over
  packets and records (\<open>burst_packets\<close>, \<open>tap_packets\<close>, the walk over flash records) terminate because every packet and
  record has a positive declared length; no fuel is used. The main loop does not end in C; a mission is its first
  iterations for any list of inputs.

  \<^bold>\<open>What is assumed.\<close> The flash driver behaves as a flash (\<open>flash_map\<close>): it may fail at any time but an erase or
  write touches only its range. Only Persistence assumes that none fails (\<open>flash_reliable\<close>): a failed save is not
  retried. Only Lifetime assumes that a sector left half erased or half written shows no image but its old or its new one
  (\<open>tears_detected\<close>, \<open>torn_tick\<close>), which is what the magic and the CRC of the image format are for. The clock does not go back and its seconds fit 32 bits (\<open>clock_ok\<close>). RAM holds
  anything (\<open>mem_ok\<close> only fixes array lengths). The mission properties, which start from an arbitrary flash, assume that the
  schedule restored from it repeats no request identifier, since the restore does not check that; an image this application
  saved never does.

  \<^bold>\<open>Not modelled.\<close> NULL-argument checks, since the objects here always exist; the adapters \<open>nv_ser_*\<close> and the sink
  constructor, which are casts and function pointers; the start-up calls to the UART driver and \<open>k_sleep\<close>; samples/hello,
  which prints and sleeps; tests, CMake and Kconfig plumbing and documents. The Zephyr ring buffer is a parameter of the
  interrupt handler, and the bytes it hands to the main loop are inputs; the interrupt counts drops concurrently, so each of
  the loop's three reads of that counter is an input of its own.
\<close>

end
